(* ===== verification/Kaycc_Prelude.thy ===== *)
theory Kaycc_Prelude
  imports Main "HOL-Library.Word"
begin

text \<open>
  Shared vocabulary of the development: the result type with which every operation of the library
  reports a failed \<^verbatim>\<open>assert\<close>, an undefined behaviour of C++, an exception or an \<^verbatim>\<open>abort()\<close>; the
  unsigned arithmetic of \<^verbatim>\<open>size_t\<close>; the operations of \<^verbatim>\<open>std::vector\<close> and \<^verbatim>\<open>std::set\<close> that the
  sources use; and the generic lemmas on them that the component theories share. The build files
  never define \<^verbatim>\<open>NDEBUG\<close>, so every \<^verbatim>\<open>assert\<close> is part of the behaviour.
\<close>

named_theorems fault_simps "evaluation of the result type"
named_theorems size_simps "size_t arithmetic inside the representable range"
named_theorems vector_simps "operations of std::vector"

section \<open>Results and faults\<close>

text \<open>The string names the source position of the check (file:line).\<close>

datatype fault =
    Assertion string  \<comment> \<open>a failed assert(...), which aborts the process\<close>
  | Undefined string  \<comment> \<open>undefined behaviour of C++\<close>
  | Throws string     \<comment> \<open>a C++ exception leaves the function\<close>
  | Aborted string    \<comment> \<open>an explicit abort()\<close>

type_synonym 'a res = "fault + 'a"
type_synonym byte = "8 word"

fun andThen :: "'a res \<Rightarrow> ('a \<Rightarrow> 'b res) \<Rightarrow> 'b res" where
  "andThen (Inl e) f = Inl e"
| "andThen (Inr x) f = f x"

definition check :: "bool \<Rightarrow> string \<Rightarrow> 'a res \<Rightarrow> 'a res" where
  "check b at k = (if b then k else Inl (Assertion at))"

fun is_ok :: "'a res \<Rightarrow> bool" where
  "is_ok (Inl e) = False"
| "is_ok (Inr x) = True"

lemma andThen_Inr_iff [fault_simps]:
  "andThen m f = Inr y \<longleftrightarrow> (\<exists>x. m = Inr x \<and> f x = Inr y)"
  by (cases m) auto

lemma andThen_Inl_iff:
  "andThen m f = Inl e \<longleftrightarrow> m = Inl e \<or> (\<exists>x. m = Inr x \<and> f x = Inl e)"
  by (cases m) auto

lemma andThen_assoc: "andThen (andThen m f) g = andThen m (\<lambda>x. andThen (f x) g)"
  by (cases m) auto

lemma andThen_cong [fundef_cong]:
  "m = m' \<Longrightarrow> (\<And>x. m' = Inr x \<Longrightarrow> f x = f' x) \<Longrightarrow> andThen m f = andThen m' f'"
  by (cases m') auto

lemma check_True [simp]: "check True at k = k"
  by (simp add: check_def)

lemma check_False [simp]: "check False at k = Inl (Assertion at)"
  by (simp add: check_def)

lemma check_Inr_iff [fault_simps]: "check b at k = Inr y \<longleftrightarrow> b \<and> k = Inr y"
  by (simp add: check_def)

lemma is_ok_iff: "is_ok m \<longleftrightarrow> (\<exists>x. m = Inr x)"
  by (cases m) auto

text \<open>Running an operation over a list of arguments, stopping at the first fault.\<close>

fun foldRes :: "('a \<Rightarrow> 's \<Rightarrow> 's res) \<Rightarrow> 'a list \<Rightarrow> 's \<Rightarrow> 's res" where
  "foldRes f [] s = Inr s"
| "foldRes f (x # xs) s = andThen (f x s) (foldRes f xs)"

lemma foldRes_append:
  "foldRes f (xs @ ys) s = andThen (foldRes f xs s) (foldRes f ys)"
  by (induction xs arbitrary: s) (auto simp: andThen_assoc cong: andThen_cong)

lemma foldRes_invariant:
  assumes "\<And>x s. x \<in> set xs \<Longrightarrow> I s \<Longrightarrow> \<exists>t. f x s = Inr t \<and> I t"
    and "I s"
  shows "\<exists>t. foldRes f xs s = Inr t \<and> I t"
  using assms
proof (induction xs arbitrary: s)
  case Nil
  then show ?case by simp
next
  case (Cons x xs)
  from Cons.prems obtain t where t: "f x s = Inr t" "I t"
    by (meson list.set_intros(1))
  then have "\<exists>u. foldRes f xs t = Inr u \<and> I u"
    using Cons.IH Cons.prems(1) by (meson list.set_intros(2))
  with t show ?case by simp
qed

section \<open>size\_t arithmetic\<close>

text \<open>
  \<^verbatim>\<open>size_t\<close> has 64 bits; its values are natural numbers below \<open>2 ^ 64\<close> and its operations wrap
  around.
\<close>

abbreviation size_mod :: nat where
  "size_mod \<equiv> 18446744073709551616"

text \<open>The largest size a \<^verbatim>\<open>std::vector<char>\<close> accepts (\<^verbatim>\<open>PTRDIFF_MAX\<close>).\<close>

abbreviation vec_max_size :: nat where
  "vec_max_size \<equiv> 9223372036854775807"

definition sz_add :: "nat \<Rightarrow> nat \<Rightarrow> nat" where
  "sz_add a b = (a + b) mod size_mod"

definition sz_sub :: "nat \<Rightarrow> nat \<Rightarrow> nat" where
  "sz_sub a b = (a + (size_mod - b)) mod size_mod"

lemma sz_add_eq [size_simps]: "a + b < size_mod \<Longrightarrow> sz_add a b = a + b"
  by (simp add: sz_add_def)

lemma sz_sub_eq [size_simps]: "b \<le> a \<Longrightarrow> a < size_mod \<Longrightarrow> sz_sub a b = a - b"
proof -
  assume le: "b \<le> a" and lt: "a < size_mod"
  then have "a + (size_mod - b) = (a - b) + size_mod" by simp
  then have "sz_sub a b = ((a - b) + size_mod) mod size_mod" by (simp only: sz_sub_def)
  also have "\<dots> = (a - b) mod size_mod" by (rule mod_add_self2)
  also have "\<dots> = a - b" using lt by simp
  finally show ?thesis .
qed

section \<open>std::vector\<close>

text \<open>Assigning a range of elements from position \<open>i\<close> on.\<close>

definition overwrite :: "nat \<Rightarrow> 'a list \<Rightarrow> 'a list \<Rightarrow> 'a list" where
  "overwrite i ys xs = take i xs @ ys @ drop (i + length ys) xs"

lemma length_overwrite [vector_simps]:
  "i + length ys \<le> length xs \<Longrightarrow> length (overwrite i ys xs) = length xs"
  by (simp add: overwrite_def)

lemma overwrite_Nil [simp]: "overwrite i [] xs = xs"
  by (simp add: overwrite_def)

lemma take_overwrite [vector_simps]:
  "k \<le> i \<Longrightarrow> i \<le> length xs \<Longrightarrow> take k (overwrite i ys xs) = take k xs"
  by (simp add: overwrite_def min_def)

lemma drop_overwrite_at [vector_simps]:
  "i \<le> length xs \<Longrightarrow> drop i (overwrite i ys xs) = ys @ drop (i + length ys) xs"
  by (simp add: overwrite_def)

text \<open>\<^verbatim>\<open>std::copy\<close> into a vector from a foreign range: a write past the end is undefined.\<close>

definition vec_write :: "nat \<Rightarrow> 'a list \<Rightarrow> 'a list \<Rightarrow> 'a list res" where
  "vec_write i ys xs =
     (if i + length ys \<le> length xs then Inr (overwrite i ys xs)
      else Inl (Undefined ''write past the end of a vector''))"

text \<open>\<^verbatim>\<open>resize\<close> keeps the old prefix and value-initialises new elements; beyond \<^verbatim>\<open>max_size()\<close> it throws.\<close>

definition vec_resize :: "nat \<Rightarrow> byte list \<Rightarrow> byte list res" where
  "vec_resize n xs =
     (if n > vec_max_size then Inl (Throws ''std::length_error'')
      else Inr (take n xs @ replicate (n - length xs) 0))"

text \<open>
  \<^verbatim>\<open>std::copy(first, last, d_first)\<close> inside one vector assigns element by element in increasing
  order. With the destination in front of the source the ranges may overlap.
\<close>

function std_copy :: "nat \<Rightarrow> nat \<Rightarrow> nat \<Rightarrow> 'a list \<Rightarrow> 'a list" where
  "std_copy i j d xs =
     (if i < j then std_copy (Suc i) j (Suc d) (xs[d := xs ! i]) else xs)"
  by pat_completeness auto
termination
  by (relation "measure (\<lambda>(i, j, d, xs). j - i)") auto

declare std_copy.simps [simp del]

lemma drop_update_below: "d < i \<Longrightarrow> drop i (xs[d := x]) = drop i xs"
  by (simp add: drop_update_swap)

lemma overwrite_step:
  assumes "d < length xs"
  shows "overwrite (Suc d) ys (xs[d := y]) = overwrite d (y # ys) xs"
  using assms
  by (simp add: overwrite_def take_Suc_conv_app_nth drop_update_below)

text \<open>The overlapping copy towards the front moves the whole range, as \<^verbatim>\<open>memmove\<close> would.\<close>

lemma std_copy_overwrite:
  assumes "d \<le> i" "i \<le> j" "j \<le> length xs"
  shows "std_copy i j d xs = overwrite d (take (j - i) (drop i xs)) xs"
  using assms
proof (induction i j d xs rule: std_copy.induct)
  case (1 i j d xs)
  show ?case
  proof (cases "i < j")
    case True
    have "std_copy i j d xs = std_copy (Suc i) j (Suc d) (xs[d := xs ! i])"
      using True by (simp add: std_copy.simps [of i j d xs])
    also have "\<dots> = overwrite (Suc d) (take (j - Suc i) (drop (Suc i) (xs[d := xs ! i]))) (xs[d := xs ! i])"
      using True "1.prems" by (intro "1.IH") auto
    also have "\<dots> = overwrite d (xs ! i # take (j - Suc i) (drop (Suc i) xs)) xs"
      using True "1.prems" by (simp add: overwrite_step drop_update_below)
    also have "xs ! i # take (j - Suc i) (drop (Suc i) xs) = take (j - i) (drop i xs)"
      using True "1.prems"
      by (metis Cons_nth_drop_Suc Suc_diff_Suc less_le_trans take_Suc_Cons)
    finally show ?thesis .
  next
    case False
    then show ?thesis by (simp add: std_copy.simps [of i j d xs])
  qed
qed

section \<open>Step systems\<close>

text \<open>
  The theories on threads describe a component as a relation on its states, one step being one atomic
  action of one thread. What they share: the states such a relation reaches, invariants of them, and
  the bound that a rank which decreases with every step puts on the number of steps.
\<close>

inductive reaches :: "('s \<Rightarrow> 's \<Rightarrow> bool) \<Rightarrow> 's \<Rightarrow> 's \<Rightarrow> bool" for step s0 where
  reaches_start: "reaches step s0 s0"
| reaches_step: "reaches step s0 s \<Longrightarrow> step s s' \<Longrightarrow> reaches step s0 s'"

lemma reaches_next: "reaches step s0 s \<Longrightarrow> step s t \<Longrightarrow> t = s' \<Longrightarrow> reaches step s0 s'"
  using reaches_step by metis

locale step_system =
  fixes step :: "'s \<Rightarrow> 's \<Rightarrow> bool" and init :: 's and inv :: "'s \<Rightarrow> bool"
  assumes inv_init: "inv init" and inv_step: "inv s \<Longrightarrow> step s s' \<Longrightarrow> inv s'"
begin

lemma inv_reaches:
  assumes "reaches step init s"
  shows "inv s"
  using assms by induction (use inv_init inv_step in blast)+

end

locale ranked_steps =
  fixes step :: "'s \<Rightarrow> 's \<Rightarrow> bool" and inv :: "'s \<Rightarrow> bool" and rank :: "'s \<Rightarrow> nat"
  assumes keeps: "inv s \<Longrightarrow> step s s' \<Longrightarrow> inv s'" and drops: "inv s \<Longrightarrow> step s s' \<Longrightarrow> rank s' < rank s"
begin

lemma bounded:
  assumes "(step ^^ k) s s'" and "inv s"
  shows "inv s' \<and> k + rank s' \<le> rank s"
  using assms(1)
proof (induction k arbitrary: s')
  case 0
  then show ?case using assms(2) by simp
next
  case (Suc k)
  then obtain t where t: "(step ^^ k) s t" "step t s'" by auto
  from Suc.IH [OF t(1)] have "inv t" "k + rank t \<le> rank s" by simp_all
  with keeps [OF _ t(2)] drops [OF _ t(2)] show ?case by fastforce
qed

end

end
