(* ===== verification/Kaycc_Endian.thy ===== *)
theory Kaycc_Endian
  imports Kaycc_Prelude
begin

text \<open>
  Byte order (net/endian.h). The host's byte order is a parameter: \<open>obj_bytes\<close> is what
  \<^verbatim>\<open>memcpy\<close> reads out of an integer object on such a host, \<open>obj_of_bytes\<close> what it writes into one.
  The conversion functions are those of the header, \<^verbatim>\<open>networkToHost32\<close> and \<^verbatim>\<open>networkToHost16\<close>
  with their 64-bit parameters. The main facts are that what the library puts on the wire is
  big-endian on every host, and that both directions are inverse.
\<close>

datatype endian = LittleEndian | BigEndian

section \<open>Words as byte sequences\<close>

text \<open>Most significant byte first.\<close>

definition bytes_be :: "'a::len word \<Rightarrow> byte list" where
  "bytes_be w = map (\<lambda>i. ucast (drop_bit (8 * i) w)) (rev [0..<LENGTH('a) div 8])"

definition word_be :: "byte list \<Rightarrow> 'a::len word" where
  "word_be bs = word_rcat bs"

fun obj_bytes :: "endian \<Rightarrow> 'a::len word \<Rightarrow> byte list" where
  "obj_bytes BigEndian w = bytes_be w"
| "obj_bytes LittleEndian w = rev (bytes_be w)"

fun obj_of_bytes :: "endian \<Rightarrow> byte list \<Rightarrow> 'a::len word" where
  "obj_of_bytes BigEndian bs = word_be bs"
| "obj_of_bytes LittleEndian bs = word_be (rev bs)"

definition bswap :: "'a::len word \<Rightarrow> 'a word" where
  "bswap w = word_be (rev (bytes_be w))"

text \<open>glibc's \<^verbatim>\<open>htobeNN\<close> and \<^verbatim>\<open>beNNtoh\<close>: the identity on a big-endian host, a byte swap otherwise.\<close>

fun htobe :: "endian \<Rightarrow> 'a::len word \<Rightarrow> 'a word" where
  "htobe BigEndian w = w"
| "htobe LittleEndian w = bswap w"

fun betoh :: "endian \<Rightarrow> 'a::len word \<Rightarrow> 'a word" where
  "betoh BigEndian w = w"
| "betoh LittleEndian w = bswap w"

section \<open>The conversions of net/endian.h\<close>

definition hostToNetwork64 :: "endian \<Rightarrow> 64 word \<Rightarrow> 64 word" where
  "hostToNetwork64 h host64 = htobe h host64"

definition hostToNetwork32 :: "endian \<Rightarrow> 32 word \<Rightarrow> 32 word" where
  "hostToNetwork32 h host32 = htobe h host32"

definition hostToNetwork16 :: "endian \<Rightarrow> 16 word \<Rightarrow> 16 word" where
  "hostToNetwork16 h host16 = htobe h host16"

definition networkToHost64 :: "endian \<Rightarrow> 64 word \<Rightarrow> 64 word" where
  "networkToHost64 h host64 = betoh h host64"

text \<open>The parameters of the next two are \<^verbatim>\<open>uint64_t\<close>; \<^verbatim>\<open>be32toh\<close> and \<^verbatim>\<open>be16toh\<close> truncate them.\<close>

definition networkToHost32 :: "endian \<Rightarrow> 64 word \<Rightarrow> 32 word" where
  "networkToHost32 h host32 = betoh h (ucast host32)"

definition networkToHost16 :: "endian \<Rightarrow> 64 word \<Rightarrow> 16 word" where
  "networkToHost16 h host16 = betoh h (ucast host16)"

section \<open>Lemmas\<close>

lemma length_bytes_be [simp]: "length (bytes_be (w :: 'a::len word)) = LENGTH('a) div 8"
  by (simp add: bytes_be_def)

lemma length_obj_bytes [simp]: "length (obj_bytes h (w :: 'a::len word)) = LENGTH('a) div 8"
  by (cases h) simp_all

lemma bit_word_be_iff:
  "bit (word_be bs :: 'a::len word) k \<longleftrightarrow>
     k < LENGTH('a) \<and> k div 8 < length bs \<and> bit (rev bs ! (k div 8)) (k mod 8)"
  using bit_horner_sum_uint_exp_iff [of "rev bs" k]
  by (simp add: word_be_def word_rcat_def bit_simps)

lemma word_be_bytes_be:
  assumes "LENGTH('a::len) = 8 * n"
  shows "word_be (bytes_be (w :: 'a word)) = w"
proof (rule bit_word_eqI)
  fix k
  assume k: "k < LENGTH('a)"
  then have "k div 8 < n" using assms by (simp add: less_mult_imp_div_less mult.commute)
  then show "bit (word_be (bytes_be w) :: 'a word) k = bit w k"
    using k assms
    by (auto simp: bit_word_be_iff bytes_be_def rev_map bit_simps)
qed

lemma bytes_be_word_be:
  assumes "LENGTH('a::len) = 8 * n" and "length bs = n"
  shows "bytes_be (word_be bs :: 'a word) = bs"
proof (rule nth_equalityI)
  show "length (bytes_be (word_be bs :: 'a word)) = length bs"
    using assms by simp
next
  fix i
  assume "i < length (bytes_be (word_be bs :: 'a word))"
  then have i: "i < n" using assms by simp
  show "bytes_be (word_be bs :: 'a word) ! i = bs ! i"
  proof (rule bit_word_eqI)
    fix k
    assume k: "k < LENGTH(8)"
    have "(8 * (n - Suc i) + k) div 8 = n - Suc i" and "(8 * (n - Suc i) + k) mod 8 = k"
      using k by simp_all
    moreover have "8 * (n - Suc i) + k < 8 * n"
      using i k by simp
    ultimately show "bit (bytes_be (word_be bs :: 'a word) ! i) k = bit (bs ! i) k"
      using assms i k
      by (simp add: bit_word_be_iff bytes_be_def rev_map rev_nth bit_simps)
  qed
qed

lemma bswap_bswap:
  assumes "LENGTH('a::len) = 8 * n"
  shows "bswap (bswap (w :: 'a word)) = w"
  using assms by (simp add: bswap_def bytes_be_word_be word_be_bytes_be)

lemma betoh_htobe:
  assumes "LENGTH('a::len) = 8 * n"
  shows "betoh h (htobe h (w :: 'a word)) = w"
  using assms by (cases h) (simp_all add: bswap_bswap)

text \<open>Whatever the host, the bytes of a converted integer in memory are big-endian.\<close>

lemma obj_bytes_htobe:
  assumes "LENGTH('a::len) = 8 * n"
  shows "obj_bytes h (htobe h (w :: 'a word)) = bytes_be w"
  using assms by (cases h) (simp_all add: bswap_def bytes_be_word_be)

lemma betoh_obj_of_bytes:
  assumes "LENGTH('a::len) = 8 * n" and "length bs = n"
  shows "betoh h (obj_of_bytes h bs :: 'a word) = word_be bs"
  using assms by (cases h) (simp_all add: bswap_def bytes_be_word_be)

text \<open>
  A signed 32-bit object passed where \<^verbatim>\<open>uint64_t\<close> is expected is sign-extended; the truncation
  in \<^verbatim>\<open>be32toh\<close> undoes it.
\<close>

lemma ucast_scast_32: "ucast (scast (x :: 32 word) :: 64 word) = x"
  by (simp add: bit_eq_iff bit_simps)

lemma networkToHost32_of_int32:
  "networkToHost32 h (scast (x :: 32 word)) = betoh h x"
  by (simp add: networkToHost32_def ucast_scast_32)

lemmas endian_round_trip_defs =
  hostToNetwork64_def hostToNetwork32_def hostToNetwork16_def
  networkToHost64_def networkToHost32_of_int32

end
