(* ===== verification/Kaycc_Buffer.thy ===== *)
theory Kaycc_Buffer
  imports Kaycc_Endian
begin

text \<open>
  The application-level buffer of net/buffer.h and net/buffer.cpp: a \<^verbatim>\<open>std::vector<char>\<close> with a
  read and a write index. The record and the operations follow the class; pointers into the vector
  are offsets from \<^verbatim>\<open>begin()\<close>, every \<^verbatim>\<open>assert\<close> is a check, and the one system call
  (\<^verbatim>\<open>readv\<close>) is a parameter. \<open>contents\<close> is the abstraction (the readable bytes) and
  \<open>buffer_wf\<close> the representation invariant; the locale \<open>byte_fifo\<close> at the end is the contract
  that TcpConnection relies on.
\<close>

named_theorems buffer_simps "the buffer's accessors under its invariant"

section \<open>State and operations\<close>

record buffer =
  buf :: "byte list"
  readerIndex :: nat
  writerIndex :: nat

definition kCheapPrepend :: nat where "kCheapPrepend = 8"

definition kInitialSize :: nat where "kInitialSize = 1024"

definition kCRLF :: "byte list" where "kCRLF = [13, 10]"

definition readableBytes :: "buffer \<Rightarrow> nat" where
  "readableBytes b = sz_sub (writerIndex b) (readerIndex b)"

definition writableBytes :: "buffer \<Rightarrow> nat" where
  "writableBytes b = sz_sub (length (buf b)) (writerIndex b)"

definition prependableBytes :: "buffer \<Rightarrow> nat" where
  "prependableBytes b = readerIndex b"

definition newBuffer :: "nat \<Rightarrow> buffer res" where
  "newBuffer initialSize =
     andThen (vec_resize (sz_add kCheapPrepend initialSize) []) (\<lambda>v.
       let b = \<lparr>buf = v, readerIndex = kCheapPrepend, writerIndex = kCheapPrepend\<rparr> in
       check (readableBytes b = 0) ''buffer.h:60'' (
       check (writableBytes b = kInitialSize) ''buffer.h:61'' (
       check (prependableBytes b = kCheapPrepend) ''buffer.h:62'' (Inr b))))"

definition swap_buf :: "buffer \<Rightarrow> buffer \<Rightarrow> buffer \<times> buffer" where
  "swap_buf b rhs =
     (b\<lparr>buf := buf rhs, readerIndex := readerIndex rhs, writerIndex := writerIndex rhs\<rparr>,
      rhs\<lparr>buf := buf b, readerIndex := readerIndex b, writerIndex := writerIndex b\<rparr>)"

definition peek :: "buffer \<Rightarrow> nat" where
  "peek b = readerIndex b"

definition beginWrite :: "buffer \<Rightarrow> nat" where
  "beginWrite b = writerIndex b"

text \<open>The bytes in \<open>[i, j)\<close> of the vector.\<close>

definition range_of :: "buffer \<Rightarrow> nat \<Rightarrow> nat \<Rightarrow> byte list" where
  "range_of b i j = take (j - i) (drop i (buf b))"

text \<open>\<^verbatim>\<open>std::search\<close>: offset of the first occurrence of the pattern, the length if there is none.\<close>

fun std_search :: "'a list \<Rightarrow> 'a list \<Rightarrow> nat" where
  "std_search pat [] = 0"
| "std_search pat (x # xs) =
     (if take (length pat) (x # xs) = pat then 0 else Suc (std_search pat xs))"

text \<open>\<^verbatim>\<open>memchr\<close>.\<close>

fun std_memchr :: "'a \<Rightarrow> 'a list \<Rightarrow> nat option" where
  "std_memchr c [] = None"
| "std_memchr c (x # xs) = (if x = c then Some 0 else map_option Suc (std_memchr c xs))"

definition findCRLF :: "buffer \<Rightarrow> nat option" where
  "findCRLF b =
     (let crlf = peek b + std_search kCRLF (range_of b (peek b) (beginWrite b))
      in if crlf = beginWrite b then None else Some crlf)"

definition findCRLF_from :: "buffer \<Rightarrow> nat \<Rightarrow> nat option res" where
  "findCRLF_from b start =
     check (peek b \<le> start) ''buffer.h:101'' (
     check (start \<le> beginWrite b) ''buffer.h:102'' (
     let crlf = start + std_search kCRLF (range_of b start (beginWrite b))
     in Inr (if crlf = beginWrite b then None else Some crlf)))"

definition findEOL :: "buffer \<Rightarrow> nat option" where
  "findEOL b = map_option ((+) (peek b)) (std_memchr 10 (range_of b (peek b) (beginWrite b)))"

definition findEOL_from :: "buffer \<Rightarrow> nat \<Rightarrow> nat option res" where
  "findEOL_from b start =
     check (peek b \<le> start) ''buffer.h:119'' (
     check (start \<le> beginWrite b) ''buffer.h:120'' (
     Inr (map_option ((+) start) (std_memchr 10 (range_of b start (beginWrite b))))))"

definition retrieveAll :: "buffer \<Rightarrow> buffer" where
  "retrieveAll b = b\<lparr>readerIndex := kCheapPrepend, writerIndex := kCheapPrepend\<rparr>"

definition retrieve :: "buffer \<Rightarrow> nat \<Rightarrow> buffer res" where
  "retrieve b len =
     check (len \<le> readableBytes b) ''buffer.h:127'' (
     if len < readableBytes b then Inr (b\<lparr>readerIndex := sz_add (readerIndex b) len\<rparr>)
     else Inr (retrieveAll b))"

text \<open>The source spells the name \<^verbatim>\<open>retrieveUnitl\<close>.\<close>

definition retrieveUnitl :: "buffer \<Rightarrow> nat \<Rightarrow> buffer res" where
  "retrieveUnitl b endp =
     check (peek b \<le> endp) ''buffer.h:137'' (
     check (endp \<le> beginWrite b) ''buffer.h:138'' (
     retrieve b (endp - peek b)))"

definition retrieveInt64 :: "buffer \<Rightarrow> buffer res" where "retrieveInt64 b = retrieve b 8"

definition retrieveInt32 :: "buffer \<Rightarrow> buffer res" where "retrieveInt32 b = retrieve b 4"

definition retrieveInt16 :: "buffer \<Rightarrow> buffer res" where "retrieveInt16 b = retrieve b 2"

definition retrieveInt8 :: "buffer \<Rightarrow> buffer res" where "retrieveInt8 b = retrieve b 1"

definition retrieveAsString :: "buffer \<Rightarrow> nat \<Rightarrow> (byte list \<times> buffer) res" where
  "retrieveAsString b len =
     check (len \<le> readableBytes b) ''buffer.h:168'' (
     let result = range_of b (peek b) (peek b + len)
     in andThen (retrieve b len) (\<lambda>b'. Inr (result, b')))"

definition retrieveAllAsString :: "buffer \<Rightarrow> (byte list \<times> buffer) res" where
  "retrieveAllAsString b = retrieveAsString b (readableBytes b)"

definition makeSpace :: "buffer \<Rightarrow> nat \<Rightarrow> buffer res" where
  "makeSpace b len =
     (if sz_add (writableBytes b) (prependableBytes b) < sz_add len kCheapPrepend then
        andThen (vec_resize (sz_add (writerIndex b) len) (buf b)) (\<lambda>v. Inr (b\<lparr>buf := v\<rparr>))
      else
        check (kCheapPrepend < readerIndex b) ''buffer.h:356'' (
        let readable = readableBytes b;
            v = std_copy (readerIndex b) (writerIndex b) kCheapPrepend (buf b);
            b' = b\<lparr>buf := v, readerIndex := kCheapPrepend,
                   writerIndex := sz_add kCheapPrepend readable\<rparr>
        in check (readable = readableBytes b') ''buffer.h:363'' (Inr b')))"

definition ensureWritableBytes :: "buffer \<Rightarrow> nat \<Rightarrow> buffer res" where
  "ensureWritableBytes b len =
     andThen (if writableBytes b < len then makeSpace b len else Inr b) (\<lambda>b'.
     check (writableBytes b' \<ge> len) ''buffer.h:189'' (Inr b'))"

definition hasWritten :: "buffer \<Rightarrow> nat \<Rightarrow> buffer res" where
  "hasWritten b len =
     check (len \<le> writableBytes b) ''buffer.h:201'' (
     Inr (b\<lparr>writerIndex := sz_add (writerIndex b) len\<rparr>))"

definition unwrite :: "buffer \<Rightarrow> nat \<Rightarrow> buffer res" where
  "unwrite b len =
     check (len \<le> readableBytes b) ''buffer.h:206'' (
     Inr (b\<lparr>writerIndex := sz_sub (writerIndex b) len\<rparr>))"

definition append_buf :: "buffer \<Rightarrow> byte list \<Rightarrow> buffer res" where
  "append_buf b data =
     andThen (ensureWritableBytes b (length data)) (\<lambda>b1.
     andThen (vec_write (beginWrite b1) data (buf b1)) (\<lambda>v.
     hasWritten (b1\<lparr>buf := v\<rparr>) (length data)))"

definition appendInt64 :: "endian \<Rightarrow> buffer \<Rightarrow> 64 word \<Rightarrow> buffer res" where
  "appendInt64 h b x = append_buf b (obj_bytes h (hostToNetwork64 h x))"

definition appendInt32 :: "endian \<Rightarrow> buffer \<Rightarrow> 32 word \<Rightarrow> buffer res" where
  "appendInt32 h b x = append_buf b (obj_bytes h (hostToNetwork32 h x))"

definition appendInt16 :: "endian \<Rightarrow> buffer \<Rightarrow> 16 word \<Rightarrow> buffer res" where
  "appendInt16 h b x = append_buf b (obj_bytes h (hostToNetwork16 h x))"

definition appendInt8 :: "buffer \<Rightarrow> 8 word \<Rightarrow> buffer res" where
  "appendInt8 b x = append_buf b [x]"

definition peekInt64 :: "endian \<Rightarrow> buffer \<Rightarrow> 64 word res" where
  "peekInt64 h b =
     check (readableBytes b \<ge> 8) ''buffer.h:260'' (
     let be64 = obj_of_bytes h (range_of b (peek b) (peek b + 8))
     in Inr (networkToHost64 h be64))"

definition peekInt32 :: "endian \<Rightarrow> buffer \<Rightarrow> 32 word res" where
  "peekInt32 h b =
     check (readableBytes b \<ge> 4) ''buffer.h:267'' (
     let be32 = obj_of_bytes h (range_of b (peek b) (peek b + 4)) :: 32 word
     in Inr (networkToHost32 h (scast be32)))"

text \<open>
  \<^verbatim>\<open>peekInt16\<close> copies the bytes into a local variable and then flows off the end of a function
  with a return type, which is undefined.
\<close>

definition peekInt16 :: "endian \<Rightarrow> buffer \<Rightarrow> 16 word res" where
  "peekInt16 h b =
     check (readableBytes b \<ge> 2) ''buffer.h:274'' (
     Inl (Undefined ''buffer.h:277: no return value''))"

definition peekInt8 :: "buffer \<Rightarrow> 8 word res" where
  "peekInt8 b =
     check (readableBytes b \<ge> 1) ''buffer.h:280'' (
     Inr (buf b ! peek b))"

definition readInt64 :: "endian \<Rightarrow> buffer \<Rightarrow> (64 word \<times> buffer) res" where
  "readInt64 h b =
     andThen (peekInt64 h b) (\<lambda>result. andThen (retrieveInt64 b) (\<lambda>b'. Inr (result, b')))"

definition readInt32 :: "endian \<Rightarrow> buffer \<Rightarrow> (32 word \<times> buffer) res" where
  "readInt32 h b =
     andThen (peekInt32 h b) (\<lambda>result. andThen (retrieveInt32 b) (\<lambda>b'. Inr (result, b')))"

definition readInt16 :: "endian \<Rightarrow> buffer \<Rightarrow> (16 word \<times> buffer) res" where
  "readInt16 h b =
     andThen (peekInt16 h b) (\<lambda>result. andThen (retrieveInt16 b) (\<lambda>b'. Inr (result, b')))"

definition readInt8 :: "buffer \<Rightarrow> (8 word \<times> buffer) res" where
  "readInt8 b =
     andThen (peekInt8 b) (\<lambda>result. andThen (retrieveInt8 b) (\<lambda>b'. Inr (result, b')))"

definition prepend :: "buffer \<Rightarrow> byte list \<Rightarrow> buffer res" where
  "prepend b data =
     check (length data \<le> prependableBytes b) ''buffer.h:308'' (
     let r = sz_sub (readerIndex b) (length data)
     in andThen (vec_write r data (buf b)) (\<lambda>v. Inr (b\<lparr>buf := v, readerIndex := r\<rparr>)))"

definition prependInt64 :: "endian \<Rightarrow> buffer \<Rightarrow> 64 word \<Rightarrow> buffer res" where
  "prependInt64 h b x = prepend b (obj_bytes h (hostToNetwork64 h x))"

definition prependInt32 :: "endian \<Rightarrow> buffer \<Rightarrow> 32 word \<Rightarrow> buffer res" where
  "prependInt32 h b x = prepend b (obj_bytes h (hostToNetwork32 h x))"

definition prependInt16 :: "endian \<Rightarrow> buffer \<Rightarrow> 16 word \<Rightarrow> buffer res" where
  "prependInt16 h b x = prepend b (obj_bytes h (hostToNetwork16 h x))"

definition prependInt8 :: "buffer \<Rightarrow> 8 word \<Rightarrow> buffer res" where
  "prependInt8 b x = prepend b [x]"

definition shrink :: "buffer \<Rightarrow> nat \<Rightarrow> buffer res" where
  "shrink b reserve =
     andThen (newBuffer kInitialSize) (\<lambda>other.
     andThen (ensureWritableBytes other (sz_add (readableBytes b) reserve)) (\<lambda>other1.
     andThen (append_buf other1 (range_of b (peek b) (beginWrite b))) (\<lambda>other2.
     Inr (fst (swap_buf b other2)))))"

text \<open>
  \<open>readv cap\<close> is the outcome of the system call on vectors of total length \<open>cap\<close>: \<open>Inl errno\<close>,
  or the bytes read, which fill the first vector before the second. The result of \<open>readFd\<close> is the
  new buffer, the returned count and \<^verbatim>\<open>*savedErrno\<close>.
\<close>

definition extrabuf_size :: nat where "extrabuf_size = 65536"

definition readFd_capacity :: "buffer \<Rightarrow> nat" where
  "readFd_capacity b =
     (let writable = writableBytes b
      in if writable < extrabuf_size then writable + extrabuf_size else writable)"

definition readFd ::
    "(nat \<Rightarrow> int + byte list) \<Rightarrow> buffer \<Rightarrow> int \<Rightarrow> (buffer \<times> int \<times> int) res" where
  "readFd readv b savedErrno =
     (let writable = writableBytes b
      in case readv (readFd_capacity b) of
           Inl errno \<Rightarrow> Inr (b, -1, errno)
         | Inr bs \<Rightarrow>
             let n = length bs in
             if n \<le> writable then
               andThen (vec_write (writerIndex b) bs (buf b)) (\<lambda>v.
               Inr (b\<lparr>buf := v, writerIndex := sz_add (writerIndex b) n\<rparr>, int n, savedErrno))
             else
               andThen (vec_write (writerIndex b) (take writable bs) (buf b)) (\<lambda>v.
               andThen (append_buf (b\<lparr>buf := v, writerIndex := length v\<rparr>) (drop writable bs)) (\<lambda>b'.
               Inr (b', int n, savedErrno))))"

section \<open>Representation invariant and abstraction\<close>

text \<open>
  The bound \<open>max_buf\<close> keeps every index computation of the class below \<open>2 ^ 64\<close> and every
  \<^verbatim>\<open>resize\<close> below \<^verbatim>\<open>max_size()\<close>; \<open>fits b n\<close> is what a caller has to know before it adds \<open>n\<close>
  bytes, stated on the abstract content only.
\<close>

definition max_buf :: nat where "max_buf = 2 ^ 62"

definition buffer_wf :: "buffer \<Rightarrow> bool" where
  "buffer_wf b \<longleftrightarrow>
     readerIndex b \<le> writerIndex b \<and> writerIndex b \<le> length (buf b) \<and>
     kCheapPrepend \<le> length (buf b) \<and> length (buf b) \<le> max_buf"

definition contents :: "buffer \<Rightarrow> byte list" where
  "contents b = range_of b (readerIndex b) (writerIndex b)"

definition fits :: "buffer \<Rightarrow> nat \<Rightarrow> bool" where
  "fits b n \<longleftrightarrow> length (contents b) + 2 * n + kCheapPrepend \<le> max_buf"

lemmas buffer_consts = kCheapPrepend_def kInitialSize_def max_buf_def

lemma length_range_of [buffer_simps]:
  "j \<le> length (buf b) \<Longrightarrow> length (range_of b i j) = j - i"
  by (simp add: range_of_def)

lemma length_contents [buffer_simps]:
  "buffer_wf b \<Longrightarrow> length (contents b) = writerIndex b - readerIndex b"
  by (simp add: contents_def buffer_wf_def length_range_of)

lemma readableBytes_eq [buffer_simps]:
  "buffer_wf b \<Longrightarrow> readableBytes b = writerIndex b - readerIndex b"
  by (simp add: readableBytes_def buffer_wf_def buffer_consts sz_sub_eq)

lemma readableBytes_contents: "buffer_wf b \<Longrightarrow> readableBytes b = length (contents b)"
  by (simp add: buffer_simps)

lemma writableBytes_eq [buffer_simps]:
  "buffer_wf b \<Longrightarrow> writableBytes b = length (buf b) - writerIndex b"
  by (simp add: writableBytes_def buffer_wf_def buffer_consts sz_sub_eq)

lemma wf_indices:
  assumes "buffer_wf b"
  shows "readerIndex b \<le> writerIndex b" and "writerIndex b \<le> length (buf b)"
    and "8 \<le> length (buf b)" and "length (buf b) \<le> 4611686018427387904"
  using assms by (simp_all add: buffer_wf_def buffer_consts)

section \<open>Construction\<close>

lemma newBuffer_default:
  "newBuffer kInitialSize =
     Inr \<lparr>buf = replicate 1032 0, readerIndex = 8, writerIndex = 8\<rparr>"
  by (simp add: newBuffer_def vec_resize_def sz_add_def sz_sub_def buffer_consts
      readableBytes_def writableBytes_def prependableBytes_def)

definition emptyBuffer :: buffer where
  "emptyBuffer = \<lparr>buf = replicate 1032 0, readerIndex = 8, writerIndex = 8\<rparr>"

lemma emptyBuffer_wf: "buffer_wf emptyBuffer" and contents_emptyBuffer: "contents emptyBuffer = []"
  by (simp_all add: buffer_wf_def emptyBuffer_def buffer_consts contents_def range_of_def)

lemma newBuffer_other_size:
  assumes "n \<noteq> kInitialSize" and "n + 8 \<le> vec_max_size"
  shows "newBuffer n = Inl (Assertion ''buffer.h:61'')"
  using assms
  by (simp add: newBuffer_def vec_resize_def sz_add_eq sz_sub_eq buffer_consts
      readableBytes_def writableBytes_def)

section \<open>Making room\<close>

lemma vec_resize_grow:
  assumes "length xs \<le> n" and "n \<le> vec_max_size"
  shows "vec_resize n xs = Inr (xs @ replicate (n - length xs) 0)"
  using assms by (simp add: vec_resize_def)

lemma makeSpace_guard:
  assumes wf: "buffer_wf b" and fits: "fits b len"
  shows "sz_add (writableBytes b) (prependableBytes b) < sz_add len kCheapPrepend \<longleftrightarrow>
     length (buf b) - writerIndex b + readerIndex b < len + 8"
  using wf_indices [OF wf] fits
  by (simp add: fits_def length_contents [OF wf] buffer_consts writableBytes_eq [OF wf] prependableBytes_def sz_add_eq)

text \<open>Too little room altogether: the vector grows.\<close>

lemma makeSpace_grow:
  assumes wf: "buffer_wf b" and few: "length (buf b) - writerIndex b < len" and fits: "fits b len"
    and small: "length (buf b) - writerIndex b + readerIndex b < len + 8"
  shows "\<exists>b'. makeSpace b len = Inr b' \<and> buffer_wf b' \<and> contents b' = contents b \<and>
           len \<le> length (buf b') - writerIndex b' \<and>
           length (buf b') \<le> length (contents b) + 2 * len + kCheapPrepend"
proof -
  define r w n where "r = readerIndex b" and "w = writerIndex b" and "n = length (buf b)"
  note syms = r_def [symmetric] w_def [symmetric] n_def [symmetric]
  have ix: "r \<le> w" "w \<le> n" "8 \<le> n" "n \<le> 4611686018427387904"
    using wf_indices [OF wf] by (simp_all add: r_def w_def n_def)
  have len_c: "length (contents b) = w - r" by (simp add: length_contents [OF wf] r_def w_def)
  have lenb: "(w - r) + 2 * len + 8 \<le> 4611686018427387904"
    using fits by (simp add: fits_def len_c buffer_consts)
  have grow: "n \<le> w + len" "w + len \<le> (w - r) + 2 * len + 8"
    using few small ix unfolding syms by linarith+
  define b' where "b' = b\<lparr>buf := buf b @ replicate (w + len - n) 0\<rparr>"
  have "makeSpace b len = Inr b'"
    using makeSpace_guard [OF wf fits] small grow lenb ix
    by (simp add: makeSpace_def b'_def sz_add_eq vec_resize_grow syms)
  moreover have "buffer_wf b'" using ix grow lenb by (simp add: buffer_wf_def b'_def buffer_consts syms)
  moreover have "contents b' = contents b" using ix by (simp add: contents_def range_of_def b'_def syms)
  moreover have "len \<le> length (buf b') - writerIndex b'" "length (buf b') \<le> length (contents b) + 2 * len + 8"
    using grow by (simp_all add: b'_def len_c syms)
  ultimately show ?thesis by (auto simp: kCheapPrepend_def)
qed

text \<open>Enough room in front: the readable bytes move to the beginning.\<close>

lemma makeSpace_move:
  assumes wf: "buffer_wf b" and few: "length (buf b) - writerIndex b < len" and fits: "fits b len"
    and large: "\<not> length (buf b) - writerIndex b + readerIndex b < len + 8"
  shows "\<exists>b'. makeSpace b len = Inr b' \<and> buffer_wf b' \<and> contents b' = contents b \<and>
           len \<le> length (buf b') - writerIndex b' \<and> length (buf b') = length (buf b)"
proof -
  define r w n where "r = readerIndex b" and "w = writerIndex b" and "n = length (buf b)"
  note syms = r_def [symmetric] w_def [symmetric] n_def [symmetric]
  have ix: "r \<le> w" "w \<le> n" "8 \<le> n" "n \<le> 4611686018427387904"
    using wf_indices [OF wf] by (simp_all add: r_def w_def n_def)
  have r8: "8 < r" using large few unfolding syms by linarith
  define b' where "b' = b\<lparr>buf := overwrite 8 (contents b) (buf b),
                          readerIndex := 8, writerIndex := 8 + (w - r)\<rparr>"
  have len_c: "length (contents b) = w - r" by (simp add: length_contents [OF wf] r_def w_def)
  have room: "8 + (w - r) \<le> n" using r8 ix by linarith
  have len_b': "length (buf b') = n" using room by (simp add: b'_def length_overwrite len_c n_def)
  have copy: "std_copy r w 8 (buf b) = overwrite 8 (contents b) (buf b)"
    using r8 ix by (simp add: std_copy_overwrite contents_def range_of_def r_def w_def n_def)
  have wf': "buffer_wf b'"
    using room ix len_b' by (simp add: buffer_wf_def buffer_consts) (simp add: b'_def)
  have "makeSpace b len = Inr b'"
    using large makeSpace_guard [OF wf fits] r8 copy ix len_b' wf' room
    by (simp add: makeSpace_def b'_def Let_def kCheapPrepend_def readableBytes_def sz_sub_eq sz_add_eq syms)
  moreover have "contents b' = take (w - r) (drop 8 (overwrite 8 (contents b) (buf b)))"
    unfolding contents_def [of b'] range_of_def by (simp add: b'_def)
  then have "contents b' = contents b" using ix by (simp add: drop_overwrite_at len_c n_def [symmetric])
  moreover have "len \<le> length (buf b') - writerIndex b'"
    using large ix len_b' unfolding syms by (simp add: b'_def)
  ultimately show ?thesis using wf' len_b' by (auto simp: n_def)
qed

lemma makeSpace_ok:
  assumes wf: "buffer_wf b" and few: "writableBytes b < len" and fits: "fits b len"
  shows "\<exists>b'. makeSpace b len = Inr b' \<and> buffer_wf b' \<and> contents b' = contents b \<and>
           len \<le> length (buf b') - writerIndex b' \<and>
           length (buf b') \<le> max (length (buf b)) (length (contents b) + 2 * len + kCheapPrepend)"
proof -
  have few': "length (buf b) - writerIndex b < len" using few by (simp add: writableBytes_eq [OF wf])
  show ?thesis
  proof (cases "length (buf b) - writerIndex b + readerIndex b < len + 8")
    case True
    from makeSpace_grow [OF wf few' fits True] show ?thesis by (auto simp: max.coboundedI2)
  next
    case False
    from makeSpace_move [OF wf few' fits False] show ?thesis by auto
  qed
qed

lemma ensureWritableBytes_ok:
  assumes wf: "buffer_wf b" and fits: "fits b len"
  shows "\<exists>b'. ensureWritableBytes b len = Inr b' \<and> buffer_wf b' \<and> contents b' = contents b \<and>
           len \<le> length (buf b') - writerIndex b' \<and>
           length (buf b') \<le> max (length (buf b)) (length (contents b) + 2 * len + kCheapPrepend)"
proof (cases "writableBytes b < len")
  case True
  with makeSpace_ok [OF wf True fits] show ?thesis
    by (auto simp: ensureWritableBytes_def writableBytes_eq)
next
  case False
  with wf show ?thesis
    by (auto simp: ensureWritableBytes_def writableBytes_eq)
qed

section \<open>Adding and removing bytes\<close>

lemma contents_overwrite_end:
  assumes "readerIndex b \<le> writerIndex b" "writerIndex b + length data \<le> length (buf b)"
  shows "contents (b\<lparr>buf := overwrite (writerIndex b) data (buf b),
                     writerIndex := writerIndex b + length data\<rparr>) = contents b @ data"
proof -
  let ?r = "readerIndex b" and ?w = "writerIndex b"
  have "drop ?r (overwrite ?w data (buf b))
      = drop ?r (take ?w (buf b)) @ data @ drop (?w + length data) (buf b)"
    using assms by (simp add: overwrite_def)
  moreover have "length (drop ?r (take ?w (buf b))) = ?w - ?r"
    using assms by simp
  ultimately show ?thesis
    using assms by (simp add: contents_def range_of_def drop_take)
qed

lemma append_ok:
  assumes wf: "buffer_wf b" and fits: "fits b (length data)"
  shows "\<exists>b'. append_buf b data = Inr b' \<and> buffer_wf b' \<and> contents b' = contents b @ data \<and>
           length (buf b') \<le> max (length (buf b)) (length (contents b) + 2 * length data + kCheapPrepend)"
proof -
  from ensureWritableBytes_ok [OF wf fits] obtain b1 where
    b1: "ensureWritableBytes b (length data) = Inr b1" "buffer_wf b1" "contents b1 = contents b"
      "length data \<le> length (buf b1) - writerIndex b1"
      "length (buf b1) \<le> max (length (buf b)) (length (contents b) + 2 * length data + kCheapPrepend)"
    by blast
  note ix = wf_indices [OF b1(2)]
  define b' where "b' = b1\<lparr>buf := overwrite (writerIndex b1) data (buf b1),
                           writerIndex := writerIndex b1 + length data\<rparr>"
  have room: "writerIndex b1 + length data \<le> length (buf b1)" using b1(4) ix by linarith
  have len: "length (buf b') = length (buf b1)"
    using room by (simp add: b'_def length_overwrite)
  have "append_buf b data = Inr b'"
    using b1(1,4) room ix
    by (simp add: append_buf_def vec_write_def beginWrite_def hasWritten_def writableBytes_def
        length_overwrite sz_sub_eq sz_add_eq b'_def)
  moreover have "buffer_wf b'"
    using ix room len by (simp add: buffer_wf_def buffer_consts) (simp add: b'_def)
  moreover have "contents b' = contents b @ data"
    using contents_overwrite_end [of b1 data] ix room by (simp add: b'_def b1(3))
  ultimately show ?thesis using b1(5) len by auto
qed

lemma retrieveAll_ok:
  "buffer_wf b \<Longrightarrow> buffer_wf (retrieveAll b)" "contents (retrieveAll b) = []"
  by (simp_all add: retrieveAll_def buffer_wf_def contents_def range_of_def)

lemma retrieve_ok:
  assumes wf: "buffer_wf b" and le: "len \<le> length (contents b)"
  shows "\<exists>b'. retrieve b len = Inr b' \<and> buffer_wf b' \<and> contents b' = drop len (contents b) \<and>
           buf b' = buf b"
proof (cases "len < length (contents b)")
  case True
  let ?b' = "b\<lparr>readerIndex := readerIndex b + len\<rparr>"
  note ix = wf_indices [OF wf]
  have lt: "readerIndex b + len < writerIndex b"
    using True by (simp add: length_contents [OF wf])
  have "retrieve b len = Inr ?b'"
    using True ix lt le
    by (simp add: retrieve_def readableBytes_contents [OF wf] sz_add_eq)
  moreover have "buffer_wf ?b'"
    using wf lt by (simp add: buffer_wf_def)
  moreover have "contents ?b' = drop len (contents b)"
    by (simp add: contents_def range_of_def drop_take add.commute)
  ultimately show ?thesis by auto
next
  case False
  with le have "len = length (contents b)" by simp
  then have "retrieve b len = Inr (retrieveAll b)" and "drop len (contents b) = []"
    by (simp_all add: retrieve_def readableBytes_contents [OF wf])
  then show ?thesis
    using retrieveAll_ok [of b] wf by (auto simp: retrieveAll_def)
qed

lemma retrieve_too_much:
  assumes "buffer_wf b" and "length (contents b) < len"
  shows "retrieve b len = Inl (Assertion ''buffer.h:127'')"
  using assms by (simp add: retrieve_def readableBytes_contents)

lemma unwrite_ok:
  assumes wf: "buffer_wf b" and le: "len \<le> length (contents b)"
  shows "\<exists>b'. unwrite b len = Inr b' \<and> buffer_wf b' \<and>
           contents b' = take (length (contents b) - len) (contents b)"
proof -
  let ?b' = "b\<lparr>writerIndex := writerIndex b - len\<rparr>"
  note ix = wf_indices [OF wf]
  have le': "len \<le> writerIndex b - readerIndex b"
    using le by (simp add: length_contents [OF wf])
  have "unwrite b len = Inr ?b'"
    using le le' ix by (simp add: unwrite_def readableBytes_contents [OF wf] sz_sub_eq)
  moreover have "buffer_wf ?b'"
    using wf le' by (auto simp: buffer_wf_def)
  moreover have "contents ?b' = take (length (contents b) - len) (contents b)"
    using le' by (simp add: length_contents [OF wf])
      (simp add: contents_def range_of_def min_def diff_commute add.commute)
  ultimately show ?thesis by auto
qed

lemma prepend_ok:
  assumes wf: "buffer_wf b" and le: "length data \<le> readerIndex b"
  shows "\<exists>b'. prepend b data = Inr b' \<and> buffer_wf b' \<and> contents b' = data @ contents b"
proof -
  let ?r = "readerIndex b - length data"
  let ?b' = "b\<lparr>buf := overwrite ?r data (buf b), readerIndex := ?r\<rparr>"
  note ix = wf_indices [OF wf]
  have room: "?r + length data \<le> length (buf b)" using le ix by linarith
  have "prepend b data = Inr ?b'"
    using le ix room
    by (simp add: prepend_def prependableBytes_def sz_sub_eq vec_write_def Let_def)
  moreover have "buffer_wf ?b'"
    using wf ix room by (auto simp: buffer_wf_def length_overwrite)
  moreover have "contents ?b' = data @ contents b"
  proof -
    have "drop ?r (overwrite ?r data (buf b)) = data @ drop (?r + length data) (buf b)"
      using room by (intro drop_overwrite_at) simp
    then have "contents ?b' = take (writerIndex b - ?r) (data @ drop (readerIndex b) (buf b))"
      using le by (simp add: contents_def range_of_def)
    also have "\<dots> = data @ take (writerIndex b - ?r - length data) (drop (readerIndex b) (buf b))"
      using le ix by simp
    also have "writerIndex b - ?r - length data = writerIndex b - readerIndex b"
      using le by simp
    finally show ?thesis by (simp add: contents_def range_of_def)
  qed
  ultimately show ?thesis by auto
qed

section \<open>Searching\<close>

lemma std_search_le: "std_search pat xs \<le> length xs"
  by (induction xs) auto

lemma std_search_found:
  "std_search pat xs < length xs \<Longrightarrow>
     take (length pat) (drop (std_search pat xs) xs) = pat"
  by (induction xs) auto

lemma std_search_first:
  "j < std_search pat xs \<Longrightarrow> take (length pat) (drop j xs) \<noteq> pat"
proof (induction xs arbitrary: j)
  case Nil
  then show ?case by simp
next
  case (Cons x xs)
  then show ?case by (cases j) (auto split: if_splits)
qed

lemma std_memchr_Some:
  "std_memchr c xs = Some i \<longleftrightarrow> i < length xs \<and> xs ! i = c \<and> (\<forall>j<i. xs ! j \<noteq> c)"
proof (induction xs arbitrary: i)
  case Nil
  then show ?case by simp
next
  case (Cons x xs)
  show ?case
    by (cases i) (auto simp: Cons.IH less_Suc_eq_0_disj)
qed

lemma std_memchr_None: "std_memchr c xs = None \<longleftrightarrow> c \<notin> set xs"
  by (induction xs) auto

lemma range_of_peek: "range_of b (peek b) (beginWrite b) = contents b"
  by (simp add: contents_def peek_def beginWrite_def)

lemma findCRLF_contents:
  assumes "buffer_wf b"
  shows "findCRLF b =
     (if std_search kCRLF (contents b) = length (contents b) then None
      else Some (peek b + std_search kCRLF (contents b)))"
proof -
  have "beginWrite b = peek b + length (contents b)"
    using assms wf_indices [OF assms] by (simp add: length_contents peek_def beginWrite_def)
  then show ?thesis
    unfolding findCRLF_def range_of_peek by (simp add: Let_def)
qed

lemma retrieveUnitl_ok:
  assumes wf: "buffer_wf b" and le: "n \<le> length (contents b)"
  shows "\<exists>b'. retrieveUnitl b (peek b + n) = Inr b' \<and> buffer_wf b' \<and>
           contents b' = drop n (contents b)"
proof -
  have "peek b + n \<le> beginWrite b"
    using le wf_indices [OF wf] by (simp add: length_contents [OF wf] peek_def beginWrite_def)
  then show ?thesis
    using retrieve_ok [OF wf le] by (auto simp: retrieveUnitl_def)
qed

section \<open>Strings and integers\<close>

lemma range_of_take:
  assumes "buffer_wf b" and "n \<le> length (contents b)"
  shows "range_of b (peek b) (peek b + n) = take n (contents b)"
proof -
  have "n \<le> writerIndex b - readerIndex b" using assms by (simp add: length_contents)
  then show ?thesis by (simp add: contents_def range_of_def peek_def min_def)
qed

lemma retrieveAsString_ok:
  assumes wf: "buffer_wf b" and le: "len \<le> length (contents b)"
  shows "\<exists>b'. retrieveAsString b len = Inr (take len (contents b), b') \<and> buffer_wf b' \<and>
           contents b' = drop len (contents b)"
  using retrieve_ok [OF wf le] le
  by (auto simp: retrieveAsString_def readableBytes_contents [OF wf] range_of_take [OF wf le])

lemma bytes_be_lengths:
  "length (bytes_be (x :: 64 word)) = 8" "length (bytes_be (y :: 32 word)) = 4"
  "length (bytes_be (z :: 16 word)) = 2"
  by simp_all

lemma obj_bytes_network:
  "obj_bytes h (hostToNetwork64 h x) = bytes_be x"
  "obj_bytes h (hostToNetwork32 h y) = bytes_be y"
  "obj_bytes h (hostToNetwork16 h z) = bytes_be z"
  unfolding hostToNetwork64_def hostToNetwork32_def hostToNetwork16_def
  by (rule obj_bytes_htobe [where n = 8], simp) (rule obj_bytes_htobe [where n = 4], simp,
      rule obj_bytes_htobe [where n = 2], simp)

lemma readInt64_ok:
  assumes wf: "buffer_wf b" and c: "contents b = bytes_be x @ rest"
  shows "\<exists>b'. readInt64 h b = Inr (x, b') \<and> buffer_wf b' \<and> contents b' = rest"
proof -
  have le: "8 \<le> length (contents b)" by (simp add: c)
  have "peekInt64 h b = Inr x"
    using le
    by (simp add: peekInt64_def readableBytes_contents [OF wf] range_of_take [OF wf le] c
        networkToHost64_def betoh_obj_of_bytes [where n = 8] word_be_bytes_be [where n = 8])
  then show ?thesis
    using retrieve_ok [OF wf le] by (auto simp: readInt64_def retrieveInt64_def c)
qed

lemma readInt32_ok:
  assumes wf: "buffer_wf b" and c: "contents b = bytes_be x @ rest"
  shows "\<exists>b'. readInt32 h b = Inr (x, b') \<and> buffer_wf b' \<and> contents b' = rest"
proof -
  have le: "4 \<le> length (contents b)" by (simp add: c)
  have "peekInt32 h b = Inr x"
    using le
    by (simp add: peekInt32_def readableBytes_contents [OF wf] range_of_take [OF wf le] c
        networkToHost32_of_int32 betoh_obj_of_bytes [where n = 4] word_be_bytes_be [where n = 4])
  then show ?thesis
    using retrieve_ok [OF wf le] by (auto simp: readInt32_def retrieveInt32_def c)
qed

lemma readInt8_ok:
  assumes wf: "buffer_wf b" and c: "contents b = x # rest"
  shows "\<exists>b'. readInt8 b = Inr (x, b') \<and> buffer_wf b' \<and> contents b' = rest"
proof -
  have le: "1 \<le> length (contents b)" by (simp add: c)
  have "readerIndex b < writerIndex b"
    using le by (simp add: length_contents [OF wf])
  then have "contents b ! 0 = buf b ! peek b"
    using wf_indices [OF wf] by (simp add: contents_def range_of_def peek_def)
  then have "buf b ! peek b = x" by (simp add: c)
  then have "peekInt8 b = Inr x"
    using le by (simp add: peekInt8_def readableBytes_contents [OF wf])
  then show ?thesis
    using retrieve_ok [OF wf le] by (auto simp: readInt8_def retrieveInt8_def c)
qed

section \<open>Reading from a descriptor\<close>

text \<open>What readv(2) documents: never more bytes than the vectors hold.\<close>

definition readv_law :: "(nat \<Rightarrow> int + byte list) \<Rightarrow> bool" where
  "readv_law readv \<longleftrightarrow> (\<forall>cap bs. readv cap = Inr bs \<longrightarrow> length bs \<le> cap)"

lemma readFd_error:
  "readv (readFd_capacity b) = Inl e \<Longrightarrow> readFd readv b se = Inr (b, -1, e)"
  by (simp add: readFd_def)

lemma readFd_inside:
  assumes wf: "buffer_wf b" and rd: "readv (readFd_capacity b) = Inr bs"
    and le: "length bs \<le> writableBytes b"
  shows "\<exists>b'. readFd readv b se = Inr (b', int (length bs), se) \<and> buffer_wf b' \<and>
           contents b' = contents b @ bs"
proof -
  let ?b' = "b\<lparr>buf := overwrite (writerIndex b) bs (buf b),
               writerIndex := writerIndex b + length bs\<rparr>"
  note ix = wf_indices [OF wf]
  have room: "writerIndex b + length bs \<le> length (buf b)"
    using le ix by (simp add: writableBytes_eq [OF wf])
  have "readFd readv b se = Inr (?b', int (length bs), se)"
    using rd le room ix by (simp add: readFd_def vec_write_def sz_add_eq Let_def)
  moreover have "buffer_wf ?b'"
    using wf room by (auto simp: buffer_wf_def length_overwrite)
  moreover have "contents ?b' = contents b @ bs"
    using contents_overwrite_end [of b bs] ix room by simp
  ultimately show ?thesis by auto
qed

lemma readFd_extra:
  assumes wf: "buffer_wf b" and rd: "readv (readFd_capacity b) = Inr bs"
    and gt: "writableBytes b < length bs" and le: "length bs \<le> writableBytes b + extrabuf_size"
    and small: "writableBytes b < extrabuf_size"
    and fits: "length (contents b) + 3 * extrabuf_size + kCheapPrepend \<le> max_buf"
  shows "\<exists>b'. readFd readv b se = Inr (b', int (length bs), se) \<and> buffer_wf b' \<and>
           contents b' = contents b @ bs"
proof -
  let ?k = "writableBytes b"
  note ix = wf_indices [OF wf]
  have k: "?k = length (buf b) - writerIndex b" by (rule writableBytes_eq [OF wf])
  have full: "writerIndex b + ?k = length (buf b)" using ix k by simp
  have len_take: "length (take ?k bs) = ?k" using gt by simp
  define v where "v = overwrite (writerIndex b) (take ?k bs) (buf b)"
  define b1 where "b1 = b\<lparr>buf := v, writerIndex := length v\<rparr>"
  have len_v: "length v = length (buf b)"
    using full len_take by (simp add: v_def length_overwrite)
  have b1_eq: "b1 = b\<lparr>buf := overwrite (writerIndex b) (take ?k bs) (buf b),
                      writerIndex := writerIndex b + length (take ?k bs)\<rparr>"
    using full len_take len_v by (simp add: b1_def v_def)
  have c1: "contents b1 = contents b @ take ?k bs"
    unfolding b1_eq using full len_take ix by (intro contents_overwrite_end) auto
  have wf1: "buffer_wf b1"
    using wf ix len_v by (auto simp: buffer_wf_def b1_def)
  have "fits b1 (length (drop ?k bs))"
    using le small fits gt by (simp add: fits_def c1 len_take)
  from append_ok [OF wf1 this] obtain b' where
    b': "append_buf b1 (drop ?k bs) = Inr b'" "buffer_wf b'"
      "contents b' = contents b1 @ drop ?k bs" by blast
  have "readFd readv b se = Inr (b', int (length bs), se)"
    using rd gt b'(1) full len_take
    by (simp add: readFd_def vec_write_def v_def [symmetric] b1_def [symmetric])
  with b' c1 show ?thesis by auto
qed

lemma readFd_ok:
  assumes wf: "buffer_wf b" and law: "readv_law readv"
    and fits: "length (contents b) + 3 * extrabuf_size + kCheapPrepend \<le> max_buf"
    and rd: "readv (readFd_capacity b) = Inr bs"
  shows "\<exists>b'. readFd readv b se = Inr (b', int (length bs), se) \<and> buffer_wf b' \<and>
           contents b' = contents b @ bs"
proof (cases "length bs \<le> writableBytes b")
  case True
  with wf rd show ?thesis by (rule readFd_inside)
next
  case False
  have "length bs \<le> readFd_capacity b"
    using law rd by (auto simp: readv_law_def)
  with False have "writableBytes b < extrabuf_size" "length bs \<le> writableBytes b + extrabuf_size"
    by (auto simp: readFd_capacity_def Let_def split: if_splits)
  with False wf rd fits show ?thesis by (intro readFd_extra) auto
qed

section \<open>Shrinking\<close>

lemma ensureWritableBytes_empty:
  assumes "n + 8 \<le> max_buf"
  shows "ensureWritableBytes emptyBuffer n = Inr (emptyBuffer\<lparr>buf := replicate (max 1032 (n + 8)) 0\<rparr>)"
  using assms
  by (auto simp: ensureWritableBytes_def emptyBuffer_def makeSpace_def writableBytes_def
      prependableBytes_def buffer_consts sz_sub_eq sz_add_eq vec_resize_grow
      simp flip: replicate_add)

lemma shrink_ok:
  assumes wf: "buffer_wf b" and fits: "length (contents b) + reserve + 8 \<le> max_buf"
  shows "\<exists>b'. shrink b reserve = Inr b' \<and> buffer_wf b' \<and> contents b' = contents b \<and>
           readerIndex b' = kCheapPrepend \<and>
           writableBytes b' = max reserve (kInitialSize - length (contents b))"
proof -
  let ?c = "contents b"
  define e where "e = emptyBuffer\<lparr>buf := replicate (max 1032 (length ?c + reserve + 8)) 0\<rparr>"
  define b' where "b' = e\<lparr>buf := overwrite 8 ?c (buf e), writerIndex := 8 + length ?c\<rparr>"
  have bound: "length ?c + reserve + 8 \<le> 4611686018427387904"
    using fits by (simp add: max_buf_def)
  have e: "readerIndex e = 8" "writerIndex e = 8" "length (buf e) = max 1032 (length ?c + reserve + 8)"
    by (simp_all add: e_def emptyBuffer_def)
  have wfe: "buffer_wf e"
    using bound by (simp add: buffer_wf_def e buffer_consts)
  have room: "8 + length ?c \<le> length (buf e)" by (simp add: e)
  have lenb': "length (buf b') = length (buf e)"
    using room by (simp add: b'_def length_overwrite)
  have wf': "buffer_wf b'"
    using bound room by (auto simp: buffer_wf_def lenb' buffer_consts e b'_def length_overwrite)
  have "length ?c \<le> writableBytes e"
    using room by (simp add: writableBytes_eq [OF wfe] e(2))
  moreover have "writableBytes (e\<lparr>buf := overwrite 8 ?c (buf e)\<rparr>) = writableBytes e"
    using room by (simp add: writableBytes_def length_overwrite)
  ultimately have app: "append_buf e ?c = Inr b'"
    using room bound
    by (simp add: append_buf_def ensureWritableBytes_def vec_write_def beginWrite_def
        hasWritten_def sz_add_eq b'_def e(2))
  have "contents (e\<lparr>buf := overwrite (writerIndex e) ?c (buf e),
                    writerIndex := writerIndex e + length ?c\<rparr>) = contents e @ ?c"
    using room e by (intro contents_overwrite_end) auto
  then have cont: "contents b' = ?c"
    by (simp add: b'_def e contents_def [of e] range_of_def)
  have shrunk: "shrink b reserve = Inr (fst (swap_buf b b'))"
    using app bound fits ensureWritableBytes_empty [of "length ?c + reserve"]
    by (simp add: shrink_def newBuffer_default emptyBuffer_def [symmetric] range_of_peek
        readableBytes_contents [OF wf] sz_add_eq e_def)
  have swapped: "fst (swap_buf b b') = b'"
    by (simp add: swap_buf_def)
  have "writableBytes b' = max reserve (kInitialSize - length ?c)"
    using writableBytes_eq [OF wf'] lenb' e by (simp add: b'_def kInitialSize_def)
  then show ?thesis
    using shrunk swapped wf' cont by (simp add: b'_def e kCheapPrepend_def)
qed

section \<open>The contract of a byte queue\<close>

text \<open>
  What a client of the buffer relies on: appending adds at the end and retrieving drops from the
  front, without fault, as long as the content stays below a bound.
\<close>

locale byte_fifo =
  fixes inv :: "'b \<Rightarrow> bool"
    and cont :: "'b \<Rightarrow> byte list"
    and room :: "'b \<Rightarrow> nat \<Rightarrow> bool"
    and app :: "'b \<Rightarrow> byte list \<Rightarrow> 'b res"
    and ret :: "'b \<Rightarrow> nat \<Rightarrow> 'b res"
    and len :: "'b \<Rightarrow> nat"
  assumes app_law:
      "inv b \<Longrightarrow> room b (length d) \<Longrightarrow> \<exists>b'. app b d = Inr b' \<and> inv b' \<and> cont b' = cont b @ d"
    and ret_law:
      "inv b \<Longrightarrow> n \<le> length (cont b) \<Longrightarrow> \<exists>b'. ret b n = Inr b' \<and> inv b' \<and> cont b' = drop n (cont b)"
    and len_law: "inv b \<Longrightarrow> len b = length (cont b)"
begin

lemma app_E:
  assumes "inv b" and "room b (length d)"
  obtains b' where "app b d = Inr b'" and "inv b'" and "cont b' = cont b @ d"
  using app_law [OF assms] by blast

lemma ret_E:
  assumes "inv b" and "n \<le> length (cont b)"
  obtains b' where "ret b n = Inr b'" and "inv b'" and "cont b' = drop n (cont b)"
  using ret_law [OF assms] by blast

text \<open>Draining the queue by the amounts a consumer accepts yields its content in order.\<close>

lemma ret_all_empty:
  assumes "inv b"
  shows "\<exists>b'. ret b (len b) = Inr b' \<and> inv b' \<and> cont b' = []"
  using ret_law [of b "len b"] assms by (simp add: len_law)

lemma app_then_ret:
  assumes "inv b" and "room b (length d)"
  shows "\<exists>b'. andThen (app b d) (\<lambda>b1. ret b1 (length (cont b))) = Inr b' \<and> inv b' \<and> cont b' = d"
proof -
  obtain b1 where b1: "app b d = Inr b1" "inv b1" "cont b1 = cont b @ d"
    using assms by (rule app_E)
  from ret_law [OF b1(2), of "length (cont b)"] b1 show ?thesis by auto
qed

end

interpretation bq: byte_fifo buffer_wf contents fits append_buf retrieve readableBytes
proof
  fix b and d :: "byte list"
  assume "buffer_wf b" and "fits b (length d)"
  then show "\<exists>b'. append_buf b d = Inr b' \<and> buffer_wf b' \<and> contents b' = contents b @ d"
    using append_ok by blast
next
  fix b n
  assume "buffer_wf b" and "n \<le> length (contents b)"
  then show "\<exists>b'. retrieve b n = Inr b' \<and> buffer_wf b' \<and> contents b' = drop n (contents b)"
    using retrieve_ok by blast
next
  fix b
  assume "buffer_wf b"
  then show "readableBytes b = length (contents b)" by (rule readableBytes_contents)
qed

section \<open>Properties\<close>

text \<open>
  C5. On a well-formed buffer, \<^verbatim>\<open>append\<close> of data that fits succeeds (no assertion of
  \<^verbatim>\<open>ensureWritableBytes\<close>, \<^verbatim>\<open>makeSpace\<close> or \<^verbatim>\<open>hasWritten\<close> fails, no write leaves the vector, also
  when the readable bytes are moved to the front over themselves), keeps the invariant, and the
  readable bytes become the old ones followed by the data. The vector never grows beyond the
  readable bytes plus twice the appended length plus the prepend area.
\<close>

theorem append_appends:
  assumes "buffer_wf b" and "fits b (length data)"
  shows "\<exists>b'. append_buf b data = Inr b' \<and> buffer_wf b' \<and> contents b' = contents b @ data \<and>
           length (buf b') \<le> max (length (buf b)) (length (contents b) + 2 * length data + 8)"
  using append_ok [OF assms] by (simp add: kCheapPrepend_def)

theorem append_appends_witness:
  "buffer_wf emptyBuffer \<and> fits emptyBuffer (length [1, 2, 3 :: byte]) \<and>
   (\<exists>b'. append_buf emptyBuffer [1, 2, 3] = Inr b' \<and> contents b' = [1, 2, 3])"
proof -
  have f: "fits emptyBuffer (length [1, 2, 3 :: byte])"
    by (simp add: fits_def contents_emptyBuffer buffer_consts)
  show ?thesis
    using append_appends [OF emptyBuffer_wf f] f
    by (auto simp: emptyBuffer_wf contents_emptyBuffer)
qed

text \<open>
  C20. Round trip: after appending a 64-bit and a 32-bit integer to any well-formed buffer, retrieving
  the bytes that were there before and reading the two integers back gives the integers, on hosts
  of either byte order, also when writer and reader have different byte orders; nothing is left.
\<close>

theorem int_round_trip:
  assumes wf: "buffer_wf b" and f: "length (contents b) + 32 \<le> max_buf"
  shows "\<exists>b1 b2 b3 b4 b5.
     appendInt64 h b x = Inr b1 \<and> appendInt32 h b1 y = Inr b2 \<and>
     retrieve b2 (length (contents b)) = Inr b3 \<and>
     readInt64 h' b3 = Inr (x, b4) \<and> readInt32 h' b4 = Inr (y, b5) \<and>
     buffer_wf b5 \<and> contents b5 = []"
proof -
  have "fits b (length (bytes_be x))"
    using f by (simp add: fits_def buffer_consts)
  with wf obtain b1 where b1: "append_buf b (bytes_be x) = Inr b1" "buffer_wf b1"
    "contents b1 = contents b @ bytes_be x" by (rule bq.app_E)
  have "fits b1 (length (bytes_be y))"
    using f by (simp add: fits_def b1 buffer_consts)
  with b1(2) obtain b2 where b2: "append_buf b1 (bytes_be y) = Inr b2" "buffer_wf b2"
    "contents b2 = contents b1 @ bytes_be y" by (rule bq.app_E)
  obtain b3 where b3: "retrieve b2 (length (contents b)) = Inr b3" "buffer_wf b3"
    "contents b3 = drop (length (contents b)) (contents b2)"
    using b2 b1 by (auto elim: bq.ret_E [of b2 "length (contents b)"])
  have c3: "contents b3 = bytes_be x @ bytes_be y" by (simp add: b3 b2 b1)
  from readInt64_ok [OF b3(2) this] obtain b4 where
    b4: "readInt64 h' b3 = Inr (x, b4)" "buffer_wf b4" "contents b4 = bytes_be y" by blast
  from readInt32_ok [OF b4(2), of y "[]"] b4(3) obtain b5 where
    "readInt32 h' b4 = Inr (y, b5)" "buffer_wf b5" "contents b5 = []" by auto
  then show ?thesis
    using b1 b2 b3 b4 by (auto simp: appendInt64_def appendInt32_def obj_bytes_network)
qed

theorem int_round_trip_witness:
  "buffer_wf emptyBuffer \<and> length (contents emptyBuffer) + 32 \<le> max_buf \<and>
   (\<exists>b1 b2 b3 b4 b5.
     appendInt64 LittleEndian emptyBuffer 258 = Inr b1 \<and> appendInt32 LittleEndian b1 7 = Inr b2 \<and>
     retrieve b2 (length (contents emptyBuffer)) = Inr b3 \<and>
     readInt64 BigEndian b3 = Inr (258, b4) \<and> readInt32 BigEndian b4 = Inr (7, b5) \<and>
     buffer_wf b5 \<and> contents b5 = [])"
proof -
  have f: "length (contents emptyBuffer) + 32 \<le> max_buf"
    by (simp add: contents_emptyBuffer max_buf_def)
  show ?thesis
    using int_round_trip [OF emptyBuffer_wf f, of LittleEndian 258 7 BigEndian] f emptyBuffer_wf
    by blast
qed

text \<open>
  \<^verbatim>\<open>readFd\<close>: for a \<^verbatim>\<open>readv\<close> that never returns more bytes than its vectors hold, an error leaves
  the buffer alone and hands out the errno, and otherwise exactly the bytes read are appended to
  the readable ones, whether they fit into the writable area or spill into \<^verbatim>\<open>extrabuf\<close>; without
  the spill area at most the writable bytes are asked for, with it at most 128k - 1.
\<close>

theorem readFd_appends:
  assumes "buffer_wf b" and "readv_law readv"
    and "length (contents b) + 3 * extrabuf_size + kCheapPrepend \<le> max_buf"
  shows "case readv (readFd_capacity b) of
      Inl e \<Rightarrow> readFd readv b se = Inr (b, -1, e)
    | Inr bs \<Rightarrow> (\<exists>b'. readFd readv b se = Inr (b', int (length bs), se) \<and> buffer_wf b' \<and>
        contents b' = contents b @ bs \<and>
        length bs \<le> (if writableBytes b < extrabuf_size then 131071 else writableBytes b))"
proof (cases "readv (readFd_capacity b)")
  case (Inl e)
  then show ?thesis by (simp add: readFd_error)
next
  case (Inr bs)
  then have "length bs \<le> readFd_capacity b"
    using assms(2) by (auto simp: readv_law_def)
  then have "length bs \<le> (if writableBytes b < extrabuf_size then 131071 else writableBytes b)"
    by (auto simp: readFd_capacity_def extrabuf_size_def)
  with Inr readFd_ok [OF assms Inr, of se] show ?thesis by auto
qed

theorem readFd_appends_witness:
  "\<exists>b'. readFd (\<lambda>cap. if cap < 2 then Inl 11 else Inr [104, 105]) emptyBuffer 0 = Inr (b', 2, 0) \<and>
     contents b' = [104, 105]"
proof -
  let ?readv = "\<lambda>cap. if cap < 2 then Inl 11 else Inr [104, 105]"
  have law: "readv_law ?readv"
    by (simp add: readv_law_def)
  have f: "length (contents emptyBuffer) + 3 * extrabuf_size + kCheapPrepend \<le> max_buf"
    by (simp add: contents_emptyBuffer extrabuf_size_def buffer_consts)
  have cap: "\<not> readFd_capacity emptyBuffer < 2"
    by (simp add: readFd_capacity_def extrabuf_size_def emptyBuffer_def writableBytes_def sz_sub_def)
  show ?thesis
    using readFd_appends [OF emptyBuffer_wf law f, of 0] cap
    by (auto simp: contents_emptyBuffer)
qed

text \<open>
  Taking bytes: \<^verbatim>\<open>retrieveAsString(len)\<close> returns the first \<open>len\<close> readable bytes and leaves the
  others; asking for more than there are fails the assertion of \<^verbatim>\<open>retrieve\<close> and of
  \<^verbatim>\<open>retrieveAsString\<close>.
\<close>

theorem retrieve_takes:
  assumes wf: "buffer_wf b"
  shows "if len \<le> length (contents b)
     then \<exists>b'. retrieveAsString b len = Inr (take len (contents b), b') \<and> buffer_wf b' \<and>
            contents b' = drop len (contents b)
     else retrieveAsString b len = Inl (Assertion ''buffer.h:168'') \<and>
          retrieve b len = Inl (Assertion ''buffer.h:127'')"
  using retrieveAsString_ok [OF wf] retrieve_too_much [OF wf]
  by (auto simp: retrieveAsString_def readableBytes_contents [OF wf])

theorem retrieve_takes_witness:
  "buffer_wf emptyBuffer \<and> retrieve emptyBuffer 1 = Inl (Assertion ''buffer.h:127'')"
  using retrieve_takes [OF emptyBuffer_wf, of 1] by (simp add: emptyBuffer_wf contents_emptyBuffer)

text \<open>
  \<^verbatim>\<open>findCRLF\<close> returns the first carriage-return/line-feed pair of the readable bytes, and NULL
  exactly when there is none; retrieving up to the position it returns leaves the pair in front.
\<close>

theorem findCRLF_first:
  assumes wf: "buffer_wf b"
  shows "case findCRLF b of
      None \<Rightarrow> (\<forall>j. take 2 (drop j (contents b)) \<noteq> kCRLF)
    | Some p \<Rightarrow> (\<exists>n. p = peek b + n \<and> take 2 (drop n (contents b)) = kCRLF \<and>
        (\<forall>j<n. take 2 (drop j (contents b)) \<noteq> kCRLF) \<and>
        (\<exists>b'. retrieveUnitl b p = Inr b' \<and> contents b' = drop n (contents b)))"
proof (cases "std_search kCRLF (contents b) = length (contents b)")
  case True
  have len2: "length kCRLF = 2" by (simp add: kCRLF_def)
  have "take 2 (drop j (contents b)) \<noteq> kCRLF" for j
  proof (cases "j < length (contents b)")
    case True
    then show ?thesis
      using std_search_first [of j kCRLF "contents b"] \<open>std_search kCRLF _ = _\<close> len2 by simp
  next
    case False
    then show ?thesis by (simp add: kCRLF_def)
  qed
  then show ?thesis using True by (simp add: findCRLF_contents [OF wf])
next
  case False
  let ?n = "std_search kCRLF (contents b)"
  have len2: "length kCRLF = 2" by (simp add: kCRLF_def)
  have lt: "?n < length (contents b)"
    using False std_search_le [of kCRLF "contents b"] by simp
  have found: "take 2 (drop ?n (contents b)) = kCRLF"
    using std_search_found [OF lt] by (simp add: len2)
  have least: "\<forall>j<?n. take 2 (drop j (contents b)) \<noteq> kCRLF"
    using std_search_first [of _ kCRLF "contents b"] by (simp add: len2)
  from retrieveUnitl_ok [OF wf, of ?n] lt
  have "\<exists>b'. retrieveUnitl b (peek b + ?n) = Inr b' \<and> contents b' = drop ?n (contents b)" by auto
  with False found least show ?thesis
    by (auto simp: findCRLF_contents [OF wf])
qed

theorem findCRLF_first_witness:
  "findCRLF \<lparr>buf = [0, 0, 0, 0, 0, 0, 0, 0, 65, 13, 10], readerIndex = 8, writerIndex = 11\<rparr> = Some 9 \<and>
   take 2 (drop 1 [65, 13, 10]) = kCRLF"
proof -
  let ?b = "\<lparr>buf = [0, 0, 0, 0, 0, 0, 0, 0, 65, 13, 10], readerIndex = 8, writerIndex = 11\<rparr>"
  have wf: "buffer_wf ?b" by (simp add: buffer_wf_def buffer_consts)
  have "findCRLF ?b = Some 9"
    by (simp add: findCRLF_def peek_def beginWrite_def range_of_def kCRLF_def)
  with findCRLF_first [OF wf] show ?thesis
    by (simp add: kCRLF_def)
qed

text \<open>
  \<^verbatim>\<open>shrink(reserve)\<close> keeps the readable bytes, moves them behind the prepend area, and leaves
  \<open>max reserve (1024 - readable)\<close> writable bytes: at least \<open>reserve\<close>, but more than the comment's
  \<open>reserve\<close> when the content is short.
\<close>

theorem shrink_keeps_contents:
  assumes "buffer_wf b" and "length (contents b) + reserve + 8 \<le> max_buf"
  shows "\<exists>b'. shrink b reserve = Inr b' \<and> buffer_wf b' \<and> contents b' = contents b \<and>
           readerIndex b' = 8 \<and> writableBytes b' = max reserve (1024 - length (contents b))"
  using shrink_ok [OF assms] by (simp add: buffer_consts)

theorem shrink_keeps_contents_witness:
  "buffer_wf emptyBuffer \<and> (\<exists>b'. shrink emptyBuffer 10 = Inr b' \<and> writableBytes b' = 1024)"
proof -
  have "length (contents emptyBuffer) + 10 + 8 \<le> max_buf"
    by (simp add: contents_emptyBuffer max_buf_def)
  from shrink_keeps_contents [OF emptyBuffer_wf this] show ?thesis
    by (auto simp: emptyBuffer_wf contents_emptyBuffer)
qed

text \<open>
  Prepending: data that fits in front of the read index is put there without moving anything and
  becomes the head of the readable bytes, which are otherwise unchanged; more data than the
  prependable area fails the assertion.
\<close>

theorem prepend_in_front:
  assumes wf: "buffer_wf b"
  shows "if length data \<le> prependableBytes b
     then \<exists>b'. prepend b data = Inr b' \<and> buffer_wf b' \<and> contents b' = data @ contents b
     else prepend b data = Inl (Assertion ''buffer.h:308'')"
  using prepend_ok [OF wf, of data] by (auto simp: prependableBytes_def prepend_def)

theorem prepend_in_front_witness:
  "buffer_wf emptyBuffer \<and> (\<exists>b'. prepend emptyBuffer [7] = Inr b' \<and> contents b' = [7])"
proof -
  have "prependableBytes emptyBuffer = 8" by (simp add: prependableBytes_def emptyBuffer_def)
  with prepend_in_front [OF emptyBuffer_wf, of "[7]"] show ?thesis
    by (auto simp: emptyBuffer_wf contents_emptyBuffer)
qed

text \<open>
  The constructor aborts for every initial size but the default: its second assertion compares
  the writable bytes with \<^verbatim>\<open>kInitialSize\<close> instead of the requested size.
\<close>

theorem constructor_size:
  assumes "n + 8 \<le> vec_max_size"
  shows "newBuffer n = (if n = kInitialSize then Inr emptyBuffer else Inl (Assertion ''buffer.h:61''))"
  using newBuffer_default newBuffer_other_size [OF _ assms] by (simp add: emptyBuffer_def)

theorem constructor_size_witness:
  "newBuffer 16 = Inl (Assertion ''buffer.h:61'')"
  using constructor_size [of 16] by (simp add: kInitialSize_def)

text \<open>
  \<^verbatim>\<open>readInt16\<close> never returns a value: with two readable bytes it runs into the missing
  \<^verbatim>\<open>return\<close> of \<^verbatim>\<open>peekInt16\<close>, so the bytes \<^verbatim>\<open>appendInt16\<close> wrote cannot be read back, while
  \<^verbatim>\<open>retrieveInt16\<close> can skip them.
\<close>

theorem readInt16_undefined:
  assumes wf: "buffer_wf b" and f: "length (contents b) + 12 \<le> max_buf"
  shows "\<exists>b1 b2. appendInt16 h b x = Inr b1 \<and> contents b1 = contents b @ bytes_be x \<and>
     readInt16 h b1 = Inl (Undefined ''buffer.h:277: no return value'') \<and>
     retrieveInt16 b1 = Inr b2 \<and> contents b2 = drop 2 (contents b1)"
proof -
  have "fits b (length (bytes_be x))"
    using f by (simp add: fits_def buffer_consts)
  with wf obtain b1 where b1: "append_buf b (bytes_be x) = Inr b1" "buffer_wf b1"
    "contents b1 = contents b @ bytes_be x" by (rule bq.app_E)
  have le: "2 \<le> length (contents b1)" by (simp add: b1)
  from retrieve_ok [OF b1(2) le] le b1 show ?thesis
    by (auto simp: appendInt16_def obj_bytes_network readInt16_def peekInt16_def retrieveInt16_def
        readableBytes_contents)
qed

theorem readInt16_undefined_witness:
  "\<exists>b1. appendInt16 LittleEndian emptyBuffer 5 = Inr b1 \<and>
     readInt16 LittleEndian b1 = Inl (Undefined ''buffer.h:277: no return value'')"
proof -
  have "length (contents emptyBuffer) + 12 \<le> max_buf"
    by (simp add: contents_emptyBuffer max_buf_def)
  from readInt16_undefined [OF emptyBuffer_wf this] show ?thesis by blast
qed

end
