(* ===== verification/Kaycc_Channel.thy ===== *)
theory Kaycc_Channel
  imports Kaycc_Prelude
begin

text \<open>
  The Channel class (net/channel.h, net/channel.cpp): one file descriptor, the events it is
  registered for, the events that happened, and up to four callbacks. Channels are heap objects
  that the poller and the owner share, so they live in a store \<open>nat \<rightharpoonup> channel\<close> indexed by
  address; a pointer that is not in the store is dangling and its use undefined. Callbacks are
  values of a type parameter, run by an argument of \<open>handleEvent\<close>, so that the model of each
  component supplies its own. \<^verbatim>\<open>update()\<close> and \<^verbatim>\<open>remove()\<close> go through the loop to the poller and are
  modelled in the event loop's theory.
\<close>

unbundle bit_operations_syntax

named_theorems channel_simps "the event masks of a channel"

section \<open>Poll event masks\<close>

text \<open>The values of <poll.h> on Linux.\<close>

definition POLLIN :: "32 word" where "POLLIN = 1"
definition POLLPRI :: "32 word" where "POLLPRI = 2"
definition POLLOUT :: "32 word" where "POLLOUT = 4"
definition POLLERR :: "32 word" where "POLLERR = 8"
definition POLLHUP :: "32 word" where "POLLHUP = 16"
definition POLLNVAL :: "32 word" where "POLLNVAL = 32"
definition POLLRDHUP :: "32 word" where "POLLRDHUP = 8192"

lemmas poll_masks =
  POLLIN_def POLLPRI_def POLLOUT_def POLLERR_def POLLHUP_def POLLNVAL_def POLLRDHUP_def

definition kNoneEvent :: "32 word" where "kNoneEvent = 0"

definition kReadEvent :: "32 word" where "kReadEvent = POLLIN OR POLLPRI"

definition kWriteEvent :: "32 word" where "kWriteEvent = POLLOUT"

text \<open>The value of \<^verbatim>\<open>revents_ & mask\<close> used as a condition.\<close>

definition has_bits :: "32 word \<Rightarrow> 32 word \<Rightarrow> bool" where
  "has_bits ev m \<longleftrightarrow> ev AND m \<noteq> 0"

section \<open>State\<close>

text \<open>
  \<^verbatim>\<open>tie_\<close> is a weak pointer: the identity of the owner, and \<^verbatim>\<open>lock()\<close> succeeds while that owner is
  alive. An empty \<^verbatim>\<open>boost::function\<close> is \<open>None\<close>.
\<close>

record 'cb channel =
  ch_fd :: int
  ch_events :: "32 word"
  ch_revents :: "32 word"
  ch_index :: int
  ch_tie :: "nat option"
  ch_tied :: bool
  ch_eventHandling :: bool
  ch_addedToLoop :: bool
  ch_readCallback :: "'cb option"
  ch_writeCallback :: "'cb option"
  ch_closeCallback :: "'cb option"
  ch_errorCallback :: "'cb option"

type_synonym 'cb channels = "nat \<rightharpoonup> 'cb channel"

definition newChannel :: "int \<Rightarrow> 'cb channel" where
  "newChannel fd =
     \<lparr>ch_fd = fd, ch_events = 0, ch_revents = 0, ch_index = -1, ch_tie = None, ch_tied = False,
      ch_eventHandling = False, ch_addedToLoop = False, ch_readCallback = None,
      ch_writeCallback = None, ch_closeCallback = None, ch_errorCallback = None\<rparr>"

definition setReadCallback :: "'cb \<Rightarrow> 'cb channel \<Rightarrow> 'cb channel" where
  "setReadCallback cb c = c\<lparr>ch_readCallback := Some cb\<rparr>"

definition setWriteCallback :: "'cb \<Rightarrow> 'cb channel \<Rightarrow> 'cb channel" where
  "setWriteCallback cb c = c\<lparr>ch_writeCallback := Some cb\<rparr>"

definition setCloseCallback :: "'cb \<Rightarrow> 'cb channel \<Rightarrow> 'cb channel" where
  "setCloseCallback cb c = c\<lparr>ch_closeCallback := Some cb\<rparr>"

definition setErrorCallback :: "'cb \<Rightarrow> 'cb channel \<Rightarrow> 'cb channel" where
  "setErrorCallback cb c = c\<lparr>ch_errorCallback := Some cb\<rparr>"

definition tie :: "nat \<Rightarrow> 'cb channel \<Rightarrow> 'cb channel" where
  "tie obj c = c\<lparr>ch_tie := Some obj, ch_tied := True\<rparr>"

definition set_revents :: "32 word \<Rightarrow> 'cb channel \<Rightarrow> 'cb channel" where
  "set_revents revt c = c\<lparr>ch_revents := revt\<rparr>"

definition set_index :: "int \<Rightarrow> 'cb channel \<Rightarrow> 'cb channel" where
  "set_index idx c = c\<lparr>ch_index := idx\<rparr>"

definition isNoneEvent :: "'cb channel \<Rightarrow> bool" where
  "isNoneEvent c \<longleftrightarrow> ch_events c = kNoneEvent"

definition isWriting :: "'cb channel \<Rightarrow> bool" where
  "isWriting c \<longleftrightarrow> has_bits (ch_events c) kWriteEvent"

definition isReading :: "'cb channel \<Rightarrow> bool" where
  "isReading c \<longleftrightarrow> has_bits (ch_events c) kReadEvent"

text \<open>The new value of \<^verbatim>\<open>events_\<close> in \<^verbatim>\<open>enableReading()\<close> and its siblings.\<close>

definition ev_enableReading :: "32 word \<Rightarrow> 32 word" where
  "ev_enableReading ev = ev OR kReadEvent"

definition ev_disableReading :: "32 word \<Rightarrow> 32 word" where
  "ev_disableReading ev = ev AND NOT kReadEvent"

definition ev_enableWriting :: "32 word \<Rightarrow> 32 word" where
  "ev_enableWriting ev = ev OR kWriteEvent"

definition ev_disableWriting :: "32 word \<Rightarrow> 32 word" where
  "ev_disableWriting ev = ev AND NOT kWriteEvent"

definition ev_disableAll :: "32 word \<Rightarrow> 32 word" where
  "ev_disableAll ev = kNoneEvent"

lemmas ev_ops = ev_enableReading_def ev_disableReading_def ev_enableWriting_def
  ev_disableWriting_def ev_disableAll_def

text \<open>The values \<^verbatim>\<open>events_\<close> can take: the operations above are closed under them.\<close>

definition api_events :: "32 word \<Rightarrow> bool" where
  "api_events ev \<longleftrightarrow> ev \<in> {0, 3, 4, 7}"

lemma api_events_ops [channel_simps]:
  assumes "api_events ev"
  shows "api_events (ev_enableReading ev)" "api_events (ev_disableReading ev)"
    "api_events (ev_enableWriting ev)" "api_events (ev_disableWriting ev)"
    "api_events (ev_disableAll ev)"
  using assms
  by (auto simp: api_events_def ev_ops kReadEvent_def kWriteEvent_def kNoneEvent_def poll_masks)

lemma enabled_not_none [channel_simps]:
  assumes "api_events ev"
  shows "ev_enableReading ev \<noteq> 0" "ev_enableWriting ev \<noteq> 0"
  using assms by (auto simp: api_events_def ev_ops kReadEvent_def kWriteEvent_def poll_masks)

lemma writing_ops [channel_simps]:
  assumes "api_events ev"
  shows "has_bits (ev_enableWriting ev) kWriteEvent" "\<not> has_bits (ev_disableWriting ev) kWriteEvent"
    "has_bits (ev_enableReading ev) kWriteEvent \<longleftrightarrow> has_bits ev kWriteEvent"
    "has_bits (ev_disableReading ev) kWriteEvent \<longleftrightarrow> has_bits ev kWriteEvent"
    "\<not> has_bits (ev_disableAll ev) kWriteEvent"
  using assms
  by (auto simp: api_events_def has_bits_def ev_ops kReadEvent_def kWriteEvent_def kNoneEvent_def
      poll_masks)

lemma reading_ops [channel_simps]:
  assumes "api_events ev"
  shows "has_bits (ev_enableReading ev) kReadEvent" "\<not> has_bits (ev_disableReading ev) kReadEvent"
    "has_bits (ev_enableWriting ev) kReadEvent \<longleftrightarrow> has_bits ev kReadEvent"
    "has_bits (ev_disableWriting ev) kReadEvent \<longleftrightarrow> has_bits ev kReadEvent"
    "\<not> has_bits (ev_disableAll ev) kReadEvent"
  using assms
  by (auto simp: api_events_def has_bits_def ev_ops kReadEvent_def kWriteEvent_def kNoneEvent_def
      poll_masks)

section \<open>Dispatching events\<close>

text \<open>
  The handler runs over a state \<open>'s\<close> that holds the channel: \<open>get\<close> reads the channel, \<open>put\<close>
  writes it, \<open>run cb\<close> calls a callback (with \<^verbatim>\<open>receiveTime\<close> already supplied) and may change
  anything, the channel included. Every test reads \<^verbatim>\<open>revents_\<close> and the callback again, as the code
  does.
\<close>

definition call_opt :: "('cb \<Rightarrow> 's \<Rightarrow> 's res) \<Rightarrow> 'cb option \<Rightarrow> 's \<Rightarrow> 's res" where
  "call_opt run cb s = (case cb of None \<Rightarrow> Inr s | Some f \<Rightarrow> run f s)"

definition handleEventWithGuard ::
    "('cb \<Rightarrow> 's \<Rightarrow> 's res) \<Rightarrow> ('s \<Rightarrow> 'cb channel) \<Rightarrow> ('cb channel \<Rightarrow> 's \<Rightarrow> 's) \<Rightarrow> 's \<Rightarrow> 's res" where
  "handleEventWithGuard run get put s =
     andThen (Inr (put ((get s)\<lparr>ch_eventHandling := True\<rparr>) s)) (\<lambda>s.
     andThen (if has_bits (ch_revents (get s)) POLLHUP \<and> \<not> has_bits (ch_revents (get s)) POLLIN
              then call_opt run (ch_closeCallback (get s)) s else Inr s) (\<lambda>s.
     andThen (if has_bits (ch_revents (get s)) (POLLERR OR POLLNVAL)
              then call_opt run (ch_errorCallback (get s)) s else Inr s) (\<lambda>s.
     andThen (if has_bits (ch_revents (get s)) (POLLIN OR POLLPRI OR POLLRDHUP)
              then call_opt run (ch_readCallback (get s)) s else Inr s) (\<lambda>s.
     andThen (if has_bits (ch_revents (get s)) POLLOUT
              then call_opt run (ch_writeCallback (get s)) s else Inr s) (\<lambda>s.
     Inr (put ((get s)\<lparr>ch_eventHandling := False\<rparr>) s))))))"

text \<open>\<open>alive obj s\<close>: the object a weak pointer refers to still exists, so \<^verbatim>\<open>lock()\<close> succeeds.\<close>

definition handleEvent ::
    "(nat \<Rightarrow> 's \<Rightarrow> bool) \<Rightarrow> ('cb \<Rightarrow> 's \<Rightarrow> 's res) \<Rightarrow> ('s \<Rightarrow> 'cb channel) \<Rightarrow>
     ('cb channel \<Rightarrow> 's \<Rightarrow> 's) \<Rightarrow> 's \<Rightarrow> 's res" where
  "handleEvent alive run get put s =
     (if ch_tied (get s) then
        (case ch_tie (get s) of
           None \<Rightarrow> Inr s
         | Some obj \<Rightarrow> if alive obj s then handleEventWithGuard run get put s else Inr s)
      else handleEventWithGuard run get put s)"

text \<open>The calls a set of returned events leads to, in order.\<close>

definition dispatched :: "'cb channel \<Rightarrow> 'cb list" where
  "dispatched c =
     (if has_bits (ch_revents c) POLLHUP \<and> \<not> has_bits (ch_revents c) POLLIN
      then case_option [] (\<lambda>f. [f]) (ch_closeCallback c) else []) @
     (if has_bits (ch_revents c) (POLLERR OR POLLNVAL)
      then case_option [] (\<lambda>f. [f]) (ch_errorCallback c) else []) @
     (if has_bits (ch_revents c) (POLLIN OR POLLPRI OR POLLRDHUP)
      then case_option [] (\<lambda>f. [f]) (ch_readCallback c) else []) @
     (if has_bits (ch_revents c) POLLOUT
      then case_option [] (\<lambda>f. [f]) (ch_writeCallback c) else [])"

text \<open>
  Callbacks that leave \<^verbatim>\<open>revents_\<close> and the callbacks of the channel alone; all callbacks of the
  library do (only the pollers write \<^verbatim>\<open>revents_\<close>, only constructors set callbacks).
\<close>

definition keeps_dispatch :: "('cb \<Rightarrow> 's \<Rightarrow> 's res) \<Rightarrow> ('s \<Rightarrow> 'cb channel) \<Rightarrow> bool" where
  "keeps_dispatch run get \<longleftrightarrow>
     (\<forall>cb s t. run cb s = Inr t \<longrightarrow>
        ch_revents (get t) = ch_revents (get s) \<and>
        ch_readCallback (get t) = ch_readCallback (get s) \<and>
        ch_writeCallback (get t) = ch_writeCallback (get s) \<and>
        ch_closeCallback (get t) = ch_closeCallback (get s) \<and>
        ch_errorCallback (get t) = ch_errorCallback (get s))"

definition get_put :: "('s \<Rightarrow> 'c) \<Rightarrow> ('c \<Rightarrow> 's \<Rightarrow> 's) \<Rightarrow> bool" where
  "get_put get put \<longleftrightarrow> (\<forall>c s. get (put c s) = c)"

lemma andThen_Inr_right [simp]: "andThen m Inr = m"
  by (cases m) simp_all

lemma foldRes_call_opt:
  "foldRes run (if b then case_option [] (\<lambda>f. [f]) cb else []) s =
     (if b then call_opt run cb s else Inr s)"
proof -
  have "foldRes run [] = Inr" by (rule ext) simp
  then show ?thesis by (cases cb) (simp_all add: call_opt_def)
qed

definition same_dispatch :: "'cb channel \<Rightarrow> 'cb channel \<Rightarrow> bool" where
  "same_dispatch c c' \<longleftrightarrow>
     ch_revents c = ch_revents c' \<and> ch_readCallback c = ch_readCallback c' \<and>
     ch_writeCallback c = ch_writeCallback c' \<and> ch_closeCallback c = ch_closeCallback c' \<and>
     ch_errorCallback c = ch_errorCallback c'"

lemma stage_same_dispatch:
  assumes "keeps_dispatch run get" and "same_dispatch (get s) c"
    and "(if b then call_opt run cb s else Inr s) = Inr t"
  shows "same_dispatch (get t) c"
  using assms
  by (auto simp: keeps_dispatch_def same_dispatch_def call_opt_def split: if_splits option.splits)

text \<open>With such callbacks the handler is one pass over \<open>dispatched\<close>.\<close>

lemma handleEventWithGuard_dispatched:
  assumes kd: "keeps_dispatch run get" and gp: "get_put get put"
  shows "handleEventWithGuard run get put s =
     andThen (foldRes run (dispatched (get s)) (put ((get s)\<lparr>ch_eventHandling := True\<rparr>) s))
       (\<lambda>t. Inr (put ((get t)\<lparr>ch_eventHandling := False\<rparr>) t))"
proof -
  let ?c = "get s" and ?fin = "\<lambda>t. Inr (put ((get t)\<lparr>ch_eventHandling := False\<rparr>) t)"
  define s1 where "s1 = put (?c\<lparr>ch_eventHandling := True\<rparr>) s"
  have s1: "same_dispatch (get s1) ?c"
    using gp by (simp add: s1_def same_dispatch_def get_put_def)
  let ?st = "\<lambda>b cb s. if b then call_opt run cb s else Inr s"
  let ?b1 = "has_bits (ch_revents ?c) POLLHUP \<and> \<not> has_bits (ch_revents ?c) POLLIN"
  let ?b2 = "has_bits (ch_revents ?c) (POLLERR OR POLLNVAL)"
  let ?b3 = "has_bits (ch_revents ?c) (POLLIN OR POLLPRI OR POLLRDHUP)"
  let ?b4 = "has_bits (ch_revents ?c) POLLOUT"
  have "handleEventWithGuard run get put s =
     andThen (?st ?b1 (ch_closeCallback ?c) s1) (\<lambda>s.
     andThen (?st ?b2 (ch_errorCallback ?c) s) (\<lambda>s.
     andThen (?st ?b3 (ch_readCallback ?c) s) (\<lambda>s.
     andThen (?st ?b4 (ch_writeCallback ?c) s) ?fin)))"
    unfolding handleEventWithGuard_def andThen.simps s1_def [symmetric]
  proof (intro andThen_cong refl, goal_cases)
    case 1
    then show ?case using s1 by (simp add: same_dispatch_def)
  next
    case (2 x)
    then have "same_dispatch (get x) ?c" using s1 stage_same_dispatch [OF kd] by blast
    then show ?case by (simp add: same_dispatch_def)
  next
    case (3 x y)
    then have "same_dispatch (get y) ?c" using s1 stage_same_dispatch [OF kd] by blast
    then show ?case by (simp add: same_dispatch_def)
  next
    case (4 x y z)
    then have "same_dispatch (get z) ?c" using s1 stage_same_dispatch [OF kd] by blast
    then show ?case by (simp add: same_dispatch_def)
  qed
  also have "\<dots> = andThen (foldRes run (dispatched ?c) s1) ?fin"
    by (simp only: dispatched_def foldRes_append foldRes_call_opt andThen_assoc)
  finally show ?thesis by (simp add: s1_def)
qed

section \<open>Properties\<close>

text \<open>
  Dispatch: as long as the owner the channel is tied to still exists (or there is none),
  \<^verbatim>\<open>handleEvent\<close> calls the close, error, read and write callbacks that the returned events ask for, each
  at most once and in that order, stops at the first one that fails, and marks the channel as busy
  exactly while they run; if the owner is gone it calls nothing.
\<close>

theorem handleEvent_dispatches:
  assumes "keeps_dispatch run get" and "get_put get put"
  shows "handleEvent alive run get put s =
     (if ch_tied (get s) \<longrightarrow> (\<exists>obj. ch_tie (get s) = Some obj \<and> alive obj s)
      then andThen (foldRes run (dispatched (get s)) (put ((get s)\<lparr>ch_eventHandling := True\<rparr>) s))
             (\<lambda>t. Inr (put ((get t)\<lparr>ch_eventHandling := False\<rparr>) t))
      else Inr s)"
  by (simp add: handleEvent_def handleEventWithGuard_dispatched [OF assms] split: option.split)

text \<open>A state with the channel and a log of the calls.\<close>

definition log_run :: "nat \<Rightarrow> nat channel \<times> nat list \<Rightarrow> (nat channel \<times> nat list) res" where
  "log_run cb s = Inr (fst s, snd s @ [cb])"

definition log_put :: "nat channel \<Rightarrow> nat channel \<times> nat list \<Rightarrow> nat channel \<times> nat list" where
  "log_put c s = (c, snd s)"

theorem handleEvent_dispatches_witness:
  "map_sum id snd (handleEvent (\<lambda>obj s. True) log_run fst log_put
     (set_revents (POLLIN OR POLLOUT) (setWriteCallback 2 (setReadCallback 1 (newChannel 5))), [])) = Inr [1, 2]"
  by (subst handleEvent_dispatches)
    (simp_all add: keeps_dispatch_def get_put_def log_run_def log_put_def dispatched_def set_revents_def
      setWriteCallback_def setReadCallback_def newChannel_def has_bits_def poll_masks)

end
