(* ===== verification/Kaycc_Poller.thy ===== *)
theory Kaycc_Poller
  imports Kaycc_Channel
begin

text \<open>
  The Poller interface (net/poller.h, net/poller.cpp): a map from descriptors to channels that both
  pollers share, the thread check every entry point starts with, and the contract of
  \<^verbatim>\<open>updateChannel\<close> and \<^verbatim>\<open>removeChannel\<close>. The contract is stated on two maps: the channel registered
  for a descriptor, and the events the operating system is asked to watch on it. The locale
  \<open>poller_contract\<close> proves once that any sequence of legal calls computes exactly the abstract
  maps; it is interpreted for EPollPoller and for PollPoller in their theories.
\<close>

section \<open>What both pollers use\<close>

definition assertInLoopThread :: "bool \<Rightarrow> 'a res \<Rightarrow> 'a res" where
  "assertInLoopThread inLoop k =
     (if inLoop then k else Inl (Aborted ''EventLoop::abortNotInLoopThread''))"

lemma assertInLoopThread_simps [simp]:
  "assertInLoopThread True k = k"
  "assertInLoopThread False k = Inl (Aborted ''EventLoop::abortNotInLoopThread'')"
  by (simp_all add: assertInLoopThread_def)

text \<open>Dereferencing a \<^verbatim>\<open>Channel*\<close>.\<close>

definition deref :: "'cb channels \<Rightarrow> nat \<Rightarrow> ('cb channel \<Rightarrow> 'a res) \<Rightarrow> 'a res" where
  "deref h c k = (case h c of None \<Rightarrow> Inl (Undefined ''dangling Channel*'') | Some ch \<Rightarrow> k ch)"

lemma deref_Some [simp]: "h c = Some ch \<Longrightarrow> deref h c k = k ch"
  by (simp add: deref_def)

text \<open>\<^verbatim>\<open>channels_\<close>: descriptors to channel addresses.\<close>

type_synonym channelMap = "int \<rightharpoonup> nat"

definition hasChannel :: "bool \<Rightarrow> channelMap \<Rightarrow> 'cb channels \<Rightarrow> nat \<Rightarrow> bool res" where
  "hasChannel inLoop m h c =
     assertInLoopThread inLoop (deref h c (\<lambda>ch. Inr (m (ch_fd ch) = Some c)))"

text \<open>The descriptors of the channels in the store, and a set of events with the empty set left out.\<close>

definition fd_of :: "'cb channels \<Rightarrow> nat \<rightharpoonup> int" where
  "fd_of h c = map_option ch_fd (h c)"

lemma fd_of_upd:
  "h c = Some ch \<Longrightarrow> ch_fd ch1 = ch_fd ch \<Longrightarrow> fd_of (h(c \<mapsto> ch1)) = fd_of h"
  by (auto simp: fd_of_def fun_eq_iff)

lemma fd_of_erase: "fd_of (h(c := None)) = (fd_of h)(c := None)"
  by (auto simp: fd_of_def fun_eq_iff)

definition nonzero :: "32 word \<Rightarrow> 32 word option" where
  "nonzero e = (if e = 0 then None else Some e)"

text \<open>Channels no poller has seen yet.\<close>

definition fresh_channels :: "'cb channels \<Rightarrow> bool" where
  "fresh_channels h \<longleftrightarrow> (\<forall>c ch. h c = Some ch \<longrightarrow> ch_index ch = -1 \<and> ch_events ch = 0)"

text \<open>\<^verbatim>\<open>~Channel()\<close>: the object leaves the store.\<close>

definition erase_channel :: "nat \<Rightarrow> 'p \<times> 'cb channels \<Rightarrow> 'p \<times> 'cb channels" where
  "erase_channel c = (\<lambda>(p, h). (p, h(c := None)))"

section \<open>Abstract specification\<close>

datatype poll_op = PUpdate nat "32 word" | PRemove nat

type_synonym poll_spec = "channelMap \<times> (int \<rightharpoonup> 32 word)"

definition spec_update :: "int \<Rightarrow> nat \<Rightarrow> 32 word \<Rightarrow> poll_spec \<Rightarrow> poll_spec" where
  "spec_update fd c ev = (\<lambda>(reg, intr). (reg(fd \<mapsto> c), intr(fd := nonzero ev)))"

definition spec_remove :: "int \<Rightarrow> poll_spec \<Rightarrow> poll_spec" where
  "spec_remove fd = (\<lambda>(reg, intr). (reg(fd := None), intr(fd := None)))"

fun spec_step :: "(nat \<rightharpoonup> int) \<Rightarrow> poll_op \<Rightarrow> poll_spec \<Rightarrow> poll_spec" where
  "spec_step fdof (PUpdate c ev) a = spec_update (the (fdof c)) c ev a"
| "spec_step fdof (PRemove c) a = spec_remove (the (fdof c)) a"

text \<open>
  What a caller owes: the channel exists, the events are those the Channel class produces, at most
  one channel per descriptor is registered, a channel is first registered with some event, and it
  is removed only after all its events were disabled. \<open>PRemove\<close> is \<^verbatim>\<open>Channel::remove()\<close> followed by the
  end of the channel: every owner in the library (Acceptor, TcpConnection, Connector, EventLoop,
  TimerQueue) destroys a channel it removed and none registers it again.
\<close>

fun legal_op :: "(nat \<rightharpoonup> int) \<Rightarrow> poll_spec \<Rightarrow> poll_op \<Rightarrow> bool" where
  "legal_op fdof (reg, intr) (PUpdate c ev) =
     (case fdof c of
        None \<Rightarrow> False
      | Some fd \<Rightarrow> api_events ev \<and> (reg fd = Some c \<or> reg fd = None \<and> ev \<noteq> 0))"
| "legal_op fdof (reg, intr) (PRemove c) =
     (case fdof c of None \<Rightarrow> False | Some fd \<Rightarrow> reg fd = Some c \<and> intr fd = None)"

text \<open>The channels that exist after an operation.\<close>

fun fd_after :: "poll_op \<Rightarrow> (nat \<rightharpoonup> int) \<Rightarrow> (nat \<rightharpoonup> int)" where
  "fd_after (PUpdate c ev) fdof = fdof"
| "fd_after (PRemove c) fdof = fdof(c := None)"

fun legal_ops :: "(nat \<rightharpoonup> int) \<Rightarrow> poll_spec \<Rightarrow> poll_op list \<Rightarrow> bool" where
  "legal_ops fdof a [] = True"
| "legal_ops fdof a (p # ps) =
     (legal_op fdof a p \<and> legal_ops (fd_after p fdof) (spec_step fdof p a) ps)"

fun spec_run :: "(nat \<rightharpoonup> int) \<Rightarrow> poll_op list \<Rightarrow> poll_spec \<Rightarrow> poll_spec" where
  "spec_run fdof [] a = a"
| "spec_run fdof (p # ps) a = spec_run (fd_after p fdof) ps (spec_step fdof p a)"

fun poll_exec ::
    "('s \<Rightarrow> nat \<Rightarrow> 32 word \<Rightarrow> 's res) \<Rightarrow> ('s \<Rightarrow> nat \<Rightarrow> 's res) \<Rightarrow> poll_op \<Rightarrow> 's \<Rightarrow> 's res" where
  "poll_exec upd rem (PUpdate c ev) s = upd s c ev"
| "poll_exec upd rem (PRemove c) s = rem s c"

section \<open>The contract\<close>

locale poller_contract =
  fixes inv :: "'s \<Rightarrow> bool"
    and fdof :: "'s \<Rightarrow> nat \<rightharpoonup> int"
    and reg :: "'s \<Rightarrow> channelMap"
    and interest :: "'s \<Rightarrow> int \<rightharpoonup> 32 word"
    and upd :: "'s \<Rightarrow> nat \<Rightarrow> 32 word \<Rightarrow> 's res"
    and rem :: "'s \<Rightarrow> nat \<Rightarrow> 's res"
  assumes upd_law:
      "inv s \<Longrightarrow> fdof s c = Some fd \<Longrightarrow> api_events ev \<Longrightarrow>
       reg s fd = Some c \<or> reg s fd = None \<and> ev \<noteq> 0 \<Longrightarrow>
       \<exists>s'. upd s c ev = Inr s' \<and> inv s' \<and> fdof s' = fdof s \<and>
         (reg s', interest s') = spec_update fd c ev (reg s, interest s)"
    and rem_law:
      "inv s \<Longrightarrow> fdof s c = Some fd \<Longrightarrow> reg s fd = Some c \<Longrightarrow> interest s fd = None \<Longrightarrow>
       \<exists>s'. rem s c = Inr s' \<and> inv s' \<and> fdof s' = (fdof s)(c := None) \<and>
         (reg s', interest s') = spec_remove fd (reg s, interest s)"
begin

lemma exec_law:
  assumes "inv s" and "legal_op (fdof s) (reg s, interest s) p"
  shows "\<exists>s'. poll_exec upd rem p s = Inr s' \<and> inv s' \<and> fdof s' = fd_after p (fdof s) \<and>
    (reg s', interest s') = spec_step (fdof s) p (reg s, interest s)"
proof (cases p)
  case (PUpdate c ev)
  then obtain fd where "fdof s c = Some fd" "api_events ev"
    "reg s fd = Some c \<or> reg s fd = None \<and> ev \<noteq> 0"
    using assms(2) by (auto split: option.splits)
  from upd_law [OF assms(1) this] PUpdate \<open>fdof s c = Some fd\<close> show ?thesis by simp
next
  case (PRemove c)
  then obtain fd where "fdof s c = Some fd" "reg s fd = Some c" "interest s fd = None"
    using assms(2) by (auto split: option.splits)
  from rem_law [OF assms(1) this] PRemove \<open>fdof s c = Some fd\<close> show ?thesis by simp
qed

text \<open>A whole run of legal calls succeeds and computes the abstract maps.\<close>

lemma run_law:
  assumes "inv s" and "legal_ops (fdof s) (reg s, interest s) ps"
  shows "\<exists>s'. foldRes (poll_exec upd rem) ps s = Inr s' \<and> inv s' \<and>
    (reg s', interest s') = spec_run (fdof s) ps (reg s, interest s)"
  using assms
proof (induction ps arbitrary: s)
  case Nil
  then show ?case by simp
next
  case (Cons p ps)
  from Cons.prems exec_law [of s p] obtain t where
    t: "poll_exec upd rem p s = Inr t" "inv t" "fdof t = fd_after p (fdof s)"
      "(reg t, interest t) = spec_step (fdof s) p (reg s, interest s)" by auto
  have "legal_ops (fdof t) (reg t, interest t) ps"
    using Cons.prems(2) t by simp
  from Cons.IH [OF t(2) this] t show ?case by simp
qed

end

end
