(* ===== verification/Kaycc_EPollPoller.thy ===== *)
theory Kaycc_EPollPoller
  imports Kaycc_Poller
begin

text \<open>
  EPollPoller (net/poller/epollpoller.h, .cpp). Its calls of \<^verbatim>\<open>epoll_ctl\<close> are recorded in order;
  the program never uses their result other than for logging. \<open>requested\<close> is the interest list
  the calls ask for, \<open>valid_ctls\<close> that no call is one epoll_ctl(2) documents to fail (ADD of a
  registered descriptor, MOD or DEL of an unregistered one). The invariant ties \<^verbatim>\<open>channels_\<close>, the
  index in every channel and the interest list together.
\<close>

section \<open>State and operations\<close>

definition kNew :: int where "kNew = -1"

definition kAdded :: int where "kAdded = 1"

definition kDeleted :: int where "kDeleted = 2"

lemmas index_consts = kNew_def kAdded_def kDeleted_def

definition kInitEventListSize :: nat where "kInitEventListSize = 16"

datatype ctl_op = EPOLL_CTL_ADD | EPOLL_CTL_DEL | EPOLL_CTL_MOD

text \<open>Operation, descriptor, \<^verbatim>\<open>event.events\<close> and \<^verbatim>\<open>event.data.ptr\<close> of one call.\<close>

type_synonym ctl_call = "ctl_op \<times> int \<times> 32 word \<times> nat"

record epoller =
  ep_channels :: channelMap
  ep_nevents :: nat             \<comment> \<open>\<^verbatim>\<open>events_.size()\<close>\<close>
  ep_ctls :: "ctl_call list"    \<comment> \<open>the calls of \<^verbatim>\<open>epoll_ctl\<close> so far\<close>

definition newEPollPoller :: epoller where
  "newEPollPoller = \<lparr>ep_channels = Map.empty, ep_nevents = kInitEventListSize, ep_ctls = []\<rparr>"

definition ep_update :: "ctl_op \<Rightarrow> nat \<Rightarrow> 'cb channel \<Rightarrow> epoller \<Rightarrow> epoller" where
  "ep_update operation c ch p =
     p\<lparr>ep_ctls := ep_ctls p @ [(operation, ch_fd ch, ch_events ch, c)]\<rparr>"

definition ep_updateChannel ::
    "bool \<Rightarrow> nat \<Rightarrow> epoller \<times> 'cb channels \<Rightarrow> (epoller \<times> 'cb channels) res" where
  "ep_updateChannel inLoop c = (\<lambda>(p, h).
     assertInLoopThread inLoop (deref h c (\<lambda>ch.
     let index = ch_index ch; fd = ch_fd ch in
     if index = kNew \<or> index = kDeleted then
       andThen
         (if index = kNew then
            check (ep_channels p fd = None) ''epollpoller.cpp:138'' (
            Inr (p\<lparr>ep_channels := (ep_channels p)(fd \<mapsto> c)\<rparr>))
          else
            check (ep_channels p fd \<noteq> None) ''epollpoller.cpp:142'' (
            check (ep_channels p fd = Some c) ''epollpoller.cpp:143'' (Inr p)))
         (\<lambda>p1. let ch1 = set_index kAdded ch
               in Inr (ep_update EPOLL_CTL_ADD c ch1 p1, h(c \<mapsto> ch1)))
     else
       check (ep_channels p fd \<noteq> None) ''epollpoller.cpp:153'' (
       check (ep_channels p fd = Some c) ''epollpoller.cpp:154'' (
       check (index = kAdded) ''epollpoller.cpp:155'' (
       if isNoneEvent ch then
         Inr (ep_update EPOLL_CTL_DEL c ch p, h(c \<mapsto> set_index kDeleted ch))
       else Inr (ep_update EPOLL_CTL_MOD c ch p, h)))))))"

definition ep_removeChannel ::
    "bool \<Rightarrow> nat \<Rightarrow> epoller \<times> 'cb channels \<Rightarrow> (epoller \<times> 'cb channels) res" where
  "ep_removeChannel inLoop c = (\<lambda>(p, h).
     assertInLoopThread inLoop (deref h c (\<lambda>ch.
     let fd = ch_fd ch; index = ch_index ch in
     check (ep_channels p fd \<noteq> None) ''epollpoller.cpp:172'' (
     check (ep_channels p fd = Some c) ''epollpoller.cpp:173'' (
     check (isNoneEvent ch) ''epollpoller.cpp:174'' (
     check (index = kAdded \<or> index = kDeleted) ''epollpoller.cpp:177'' (
     let p1 = p\<lparr>ep_channels := (ep_channels p)(fd := None)\<rparr>;
         p2 = (if index = kAdded then ep_update EPOLL_CTL_DEL c ch p1 else p1)
     in Inr (p2, h(c \<mapsto> set_index kNew ch)))))))))"

text \<open>
  \<open>evs\<close> holds the entries of \<^verbatim>\<open>events_\<close> that \<^verbatim>\<open>epoll_wait\<close> filled. The result is the store with
  \<^verbatim>\<open>revents_\<close> set and the channels appended to \<^verbatim>\<open>activeChannels\<close>.
\<close>

definition ep_activate ::
    "channelMap \<Rightarrow> 32 word \<times> nat \<Rightarrow> 'cb channels \<times> nat list \<Rightarrow> ('cb channels \<times> nat list) res" where
  "ep_activate channels = (\<lambda>(ev, c) (h, active).
     deref h c (\<lambda>ch.
     check (channels (ch_fd ch) \<noteq> None) ''epollpoller.cpp:119'' (
     check (channels (ch_fd ch) = Some c) ''epollpoller.cpp:120'' (
     Inr (h(c \<mapsto> set_revents ev ch), active @ [c])))))"

definition ep_fillActiveChannels ::
    "(32 word \<times> nat) list \<Rightarrow> epoller \<Rightarrow> 'cb channels \<times> nat list \<Rightarrow> ('cb channels \<times> nat list) res" where
  "ep_fillActiveChannels evs p ha =
     check (length evs \<le> ep_nevents p) ''epollpoller.cpp:111'' (
     foldRes (ep_activate (ep_channels p)) evs ha)"

text \<open>
  \<open>epoll_wait n\<close>: the outcome of the call with room for \<open>n\<close> events, \<open>Inl errno\<close> or the events. The
  argument is \<^verbatim>\<open>static_cast<int>(events_.size())\<close>.
\<close>

definition ep_poll ::
    "(int \<Rightarrow> int + (32 word \<times> nat) list) \<Rightarrow> epoller \<times> 'cb channels \<times> nat list \<Rightarrow>
     (epoller \<times> 'cb channels \<times> nat list) res" where
  "ep_poll epoll_wait = (\<lambda>(p, h, active).
     case epoll_wait (sint (word_of_nat (ep_nevents p) :: 32 word)) of
       Inl errno \<Rightarrow> Inr (p, h, active)
     | Inr evs \<Rightarrow>
         if evs = [] then Inr (p, h, active)
         else andThen (ep_fillActiveChannels evs p (h, active)) (\<lambda>(h', active').
           Inr (if length evs = ep_nevents p then p\<lparr>ep_nevents := ep_nevents p * 2\<rparr> else p,
                h', active')))"

section \<open>The requested interest list\<close>

fun apply_ctl :: "(int \<rightharpoonup> 32 word \<times> nat) \<Rightarrow> ctl_call \<Rightarrow> (int \<rightharpoonup> 32 word \<times> nat)" where
  "apply_ctl t (EPOLL_CTL_ADD, fd, e) = t(fd \<mapsto> e)"
| "apply_ctl t (EPOLL_CTL_MOD, fd, e) = t(fd \<mapsto> e)"
| "apply_ctl t (EPOLL_CTL_DEL, fd, e) = t(fd := None)"

fun ctl_ok :: "(int \<rightharpoonup> 32 word \<times> nat) \<Rightarrow> ctl_call \<Rightarrow> bool" where
  "ctl_ok t (EPOLL_CTL_ADD, fd, e) = (t fd = None)"
| "ctl_ok t (EPOLL_CTL_MOD, fd, e) = (t fd \<noteq> None)"
| "ctl_ok t (EPOLL_CTL_DEL, fd, e) = (t fd \<noteq> None)"

definition requested :: "ctl_call list \<Rightarrow> (int \<rightharpoonup> 32 word \<times> nat)" where
  "requested cs = foldl apply_ctl Map.empty cs"

fun valid_from :: "(int \<rightharpoonup> 32 word \<times> nat) \<Rightarrow> ctl_call list \<Rightarrow> bool" where
  "valid_from t [] = True"
| "valid_from t (c # cs) = (ctl_ok t c \<and> valid_from (apply_ctl t c) cs)"

definition valid_ctls :: "ctl_call list \<Rightarrow> bool" where
  "valid_ctls cs \<longleftrightarrow> valid_from Map.empty cs"

lemma requested_snoc [simp]: "requested (cs @ [c]) = apply_ctl (requested cs) c"
  by (simp add: requested_def)

lemma valid_from_snoc:
  "valid_from t (cs @ [c]) \<longleftrightarrow> valid_from t cs \<and> ctl_ok (foldl apply_ctl t cs) c"
  by (induction cs arbitrary: t) auto

lemma valid_ctls_snoc [simp]:
  "valid_ctls (cs @ [c]) \<longleftrightarrow> valid_ctls cs \<and> ctl_ok (requested cs) c"
  by (simp add: valid_ctls_def requested_def valid_from_snoc)

text \<open>
  epoll_ctl(2) as a parameter: \<open>ctl\<close> changes the kernel's state and returns a code, \<open>table\<close> is the
  interest list in it. \<open>epoll_ctl_law\<close> is the documented effect of calls that do not fail.
\<close>

definition epoll_ctl_law ::
    "('k \<Rightarrow> ctl_call \<Rightarrow> int \<times> 'k) \<Rightarrow> ('k \<Rightarrow> int \<rightharpoonup> 32 word \<times> nat) \<Rightarrow> bool" where
  "epoll_ctl_law ctl table \<longleftrightarrow>
     (\<forall>k c. ctl_ok (table k) c \<longrightarrow>
        fst (ctl k c) = 0 \<and> table (snd (ctl k c)) = apply_ctl (table k) c)"

fun replay_ctls :: "('k \<Rightarrow> ctl_call \<Rightarrow> int \<times> 'k) \<Rightarrow> 'k \<Rightarrow> ctl_call list \<Rightarrow> int list \<times> 'k" where
  "replay_ctls ctl k [] = ([], k)"
| "replay_ctls ctl k (c # cs) =
     (let (r, k1) = ctl k c; (rs, k2) = replay_ctls ctl k1 cs in (r # rs, k2))"

lemma replay_valid:
  assumes "epoll_ctl_law ctl table" and "valid_from (table k) cs"
  shows "fst (replay_ctls ctl k cs) = replicate (length cs) 0 \<and>
     table (snd (replay_ctls ctl k cs)) = foldl apply_ctl (table k) cs"
  using assms(2)
proof (induction cs arbitrary: k)
  case Nil
  then show ?case by simp
next
  case (Cons c cs)
  obtain r k1 where k1: "ctl k c = (r, k1)" by (cases "ctl k c")
  have "fst (ctl k c) = 0 \<and> table (snd (ctl k c)) = apply_ctl (table k) c"
    using assms(1) Cons.prems unfolding epoll_ctl_law_def by (metis valid_from.simps(2))
  with k1 have "r = 0" "table k1 = apply_ctl (table k) c" by simp_all
  with Cons.IH [of k1] Cons.prems k1 show ?case
    by (simp add: split_def)
qed

section \<open>Invariant\<close>

text \<open>Setting \<^verbatim>\<open>events_\<close> and calling \<^verbatim>\<open>updateChannel\<close>, as every operation of Channel does.\<close>

definition ep_set_update ::
    "epoller \<times> 'cb channels \<Rightarrow> nat \<Rightarrow> 32 word \<Rightarrow> (epoller \<times> 'cb channels) res" where
  "ep_set_update = (\<lambda>(p, h) c ev.
     deref h c (\<lambda>ch. ep_updateChannel True c (p, h(c \<mapsto> ch\<lparr>ch_events := ev\<rparr>))))"

definition ep_remove_destroy ::
    "epoller \<times> 'cb channels \<Rightarrow> nat \<Rightarrow> (epoller \<times> 'cb channels) res" where
  "ep_remove_destroy s c = andThen (ep_removeChannel True c s) (\<lambda>s1. Inr (erase_channel c s1))"

definition ep_chan_ok :: "epoller \<Rightarrow> nat \<Rightarrow> 'cb channel \<Rightarrow> bool" where
  "ep_chan_ok p c ch \<longleftrightarrow>
     api_events (ch_events ch) \<and>
     (ch_index ch = kNew \<and> ep_channels p (ch_fd ch) \<noteq> Some c \<or>
      ch_index ch = kAdded \<and> ep_channels p (ch_fd ch) = Some c \<and>
        requested (ep_ctls p) (ch_fd ch) = Some (ch_events ch, c) \<or>
      ch_index ch = kDeleted \<and> ep_channels p (ch_fd ch) = Some c \<and>
        requested (ep_ctls p) (ch_fd ch) = None \<and> ch_events ch = 0)"

definition ep_inv :: "epoller \<times> 'cb channels \<Rightarrow> bool" where
  "ep_inv = (\<lambda>(p, h).
     (\<forall>c ch. h c = Some ch \<longrightarrow> ep_chan_ok p c ch) \<and>
     (\<forall>fd c. ep_channels p fd = Some c \<longrightarrow> (\<exists>ch. h c = Some ch \<and> ch_fd ch = fd)) \<and>
     (\<forall>fd. ep_channels p fd = None \<longrightarrow> requested (ep_ctls p) fd = None) \<and>
     valid_ctls (ep_ctls p))"

definition ep_interest :: "epoller \<times> 'cb channels \<Rightarrow> int \<rightharpoonup> 32 word" where
  "ep_interest = (\<lambda>(p, h) fd.
     case requested (ep_ctls p) fd of None \<Rightarrow> None | Some (e, c) \<Rightarrow> nonzero e)"

lemmas ep_op_defs = ep_set_update_def ep_updateChannel_def ep_removeChannel_def ep_update_def
  set_index_def isNoneEvent_def kNoneEvent_def Let_def

lemma ep_inv_chan: "ep_inv (p, h) \<Longrightarrow> h c = Some ch \<Longrightarrow> ep_chan_ok p c ch"
  by (simp add: ep_inv_def)

lemma ep_inv_regD: "ep_inv (p, h) \<Longrightarrow> ep_channels p fd = Some c \<Longrightarrow> \<exists>ch. h c = Some ch \<and> ch_fd ch = fd"
  by (simp add: ep_inv_def)

text \<open>Channels of other descriptors do not notice a change of \<open>fd\<close>.\<close>

lemma ep_chan_ok_frame:
  assumes "ep_chan_ok p c ch"
    and "\<And>fd'. fd' \<noteq> fd \<Longrightarrow> ep_channels p' fd' = ep_channels p fd'"
    and "\<And>fd'. fd' \<noteq> fd \<Longrightarrow> requested (ep_ctls p') fd' = requested (ep_ctls p) fd'"
    and "ch_fd ch \<noteq> fd"
  shows "ep_chan_ok p' c ch"
  using assms by (simp add: ep_chan_ok_def)

text \<open>
  One change of the channel \<open>c\<close> of descriptor \<open>fd\<close>: what has to be shown for the invariant of the
  new state.
\<close>

lemma ep_inv_change:
  assumes inv: "ep_inv (p, h)" and hc: "h c = Some ch" and fd: "ch_fd ch = fd"
    and free: "ep_channels p fd = None \<or> ep_channels p fd = Some c"
    and fd1: "ch_fd ch1 = fd" and ok1: "ep_chan_ok p1 c ch1"
    and chans: "ep_channels p1 = (ep_channels p)(fd := r)" and r: "r = None \<or> r = Some c"
    and req: "\<And>fd'. fd' \<noteq> fd \<Longrightarrow> requested (ep_ctls p1) fd' = requested (ep_ctls p) fd'"
    and gone: "r = None \<Longrightarrow> requested (ep_ctls p1) fd = None"
    and valid: "valid_ctls (ep_ctls p1)"
  shows "ep_inv (p1, h(c \<mapsto> ch1))"
proof -
  have old: "ep_chan_ok p c' ch'" if "h c' = Some ch'" for c' ch'
    using inv that by (auto simp: ep_inv_def)
  have "ep_chan_ok p1 c' ch'" if h': "(h(c \<mapsto> ch1)) c' = Some ch'" for c' ch'
  proof (cases "c' = c")
    case True
    with h' ok1 show ?thesis by simp
  next
    case False
    with h' have h: "h c' = Some ch'" by simp
    show ?thesis
    proof (cases "ch_fd ch' = fd")
      case True
      with old [OF h] free False have "ch_index ch' = kNew" "api_events (ch_events ch')"
        by (auto simp: ep_chan_ok_def)
      then show ?thesis using True False chans r by (auto simp: ep_chan_ok_def)
    next
      case False
      then show ?thesis
        using ep_chan_ok_frame [OF old [OF h], of fd p1] chans req by simp
    qed
  qed
  moreover have "\<exists>ch'. (h(c \<mapsto> ch1)) c' = Some ch' \<and> ch_fd ch' = fd'"
    if m: "ep_channels p1 fd' = Some c'" for fd' c'
  proof (cases "fd' = fd")
    case True
    with m chans r fd1 show ?thesis by auto
  next
    case False
    with m chans inv have "\<exists>ch'. h c' = Some ch' \<and> ch_fd ch' = fd'" by (auto simp: ep_inv_def)
    with False hc fd show ?thesis by (auto intro: exI [of _ ch1])
  qed
  moreover have "requested (ep_ctls p1) fd' = None" if "ep_channels p1 fd' = None" for fd'
    using that chans r gone req inv by (cases "fd' = fd") (auto simp: ep_inv_def)
  ultimately show ?thesis
    using valid by (simp add: ep_inv_def)
qed

text \<open>A channel that is not registered may end.\<close>

lemma ep_inv_erase:
  assumes "ep_inv (p, h)" and "h c = Some ch" and "ep_channels p (ch_fd ch) \<noteq> Some c"
  shows "ep_inv (p, h(c := None))"
proof -
  have "\<exists>dh. (h(c := None)) d = Some dh \<and> ch_fd dh = fd" if "ep_channels p fd = Some d" for fd d
  proof -
    have "\<exists>dh. h d = Some dh \<and> ch_fd dh = fd" using that assms(1) by (simp add: ep_inv_def)
    then obtain dh where "h d = Some dh" "ch_fd dh = fd" by blast
    moreover from calculation that assms(2,3) have "d \<noteq> c" by auto
    ultimately show ?thesis by simp
  qed
  then show ?thesis using assms(1) by (simp add: ep_inv_def)
qed

lemma ep_inv_cases [consumes 2, case_names New Added Deleted]:
  assumes "ep_inv (p, h)" and "h c = Some ch"
  obtains "ch_index ch = kNew" "ep_channels p (ch_fd ch) \<noteq> Some c" "api_events (ch_events ch)"
  | "ch_index ch = kAdded" "ep_channels p (ch_fd ch) = Some c" "api_events (ch_events ch)"
      "requested (ep_ctls p) (ch_fd ch) = Some (ch_events ch, c)"
  | "ch_index ch = kDeleted" "ep_channels p (ch_fd ch) = Some c" "api_events (ch_events ch)"
      "requested (ep_ctls p) (ch_fd ch) = None" "ch_events ch = 0"
proof -
  have "ep_chan_ok p c ch" using assms by (simp add: ep_inv_def)
  with that show thesis by (auto simp: ep_chan_ok_def)
qed

text \<open>The system call \<^verbatim>\<open>updateChannel\<close> makes and the index it leaves, in one expression; the kernel accepts the call.\<close>

definition update_op :: "'cb channel \<Rightarrow> 32 word \<Rightarrow> ctl_op" where
  "update_op ch ev =
     (if ch_index ch = kAdded then (if ev = 0 then EPOLL_CTL_DEL else EPOLL_CTL_MOD) else EPOLL_CTL_ADD)"

definition update_index :: "'cb channel \<Rightarrow> 32 word \<Rightarrow> int" where
  "update_index ch ev = (if ch_index ch = kAdded \<and> ev = 0 then kDeleted else kAdded)"

lemma update_op_del: "update_op ch ev = EPOLL_CTL_DEL \<longleftrightarrow> ch_index ch = kAdded \<and> ev = 0"
  by (simp add: update_op_def)

lemma ep_set_update_eq:
  assumes inv: "ep_inv (p, h)" and hc: "h c = Some ch"
    and pre: "ep_channels p (ch_fd ch) = Some c \<or> ep_channels p (ch_fd ch) = None \<and> ev \<noteq> 0"
  shows "ep_set_update (p, h) c ev =
      Inr (p\<lparr>ep_channels := (ep_channels p)(ch_fd ch \<mapsto> c),
             ep_ctls := ep_ctls p @ [(update_op ch ev, ch_fd ch, ev, c)]\<rparr>,
           h(c \<mapsto> ch\<lparr>ch_events := ev, ch_index := update_index ch ev\<rparr>)) \<and>
    ctl_ok (requested (ep_ctls p)) (update_op ch ev, ch_fd ch, ev, c)"
  using inv hc
proof (cases rule: ep_inv_cases)
  case New
  then show ?thesis using hc pre inv
    by (auto simp: ep_inv_def ep_op_defs update_op_def update_index_def index_consts)
next
  case Added
  moreover have "(ep_channels p)(ch_fd ch \<mapsto> c) = ep_channels p" using Added by auto
  ultimately show ?thesis using hc
    by (auto simp: ep_op_defs update_op_def update_index_def index_consts)
next
  case Deleted
  moreover have "(ep_channels p)(ch_fd ch \<mapsto> c) = ep_channels p" using Deleted by auto
  ultimately show ?thesis using hc
    by (simp add: ep_op_defs update_op_def update_index_def index_consts)
qed

lemma ep_update_law:
  assumes inv: "ep_inv (p, h)" and fd: "fd_of h c = Some fd" and ev: "api_events ev"
    and pre: "ep_channels p fd = Some c \<or> ep_channels p fd = None \<and> ev \<noteq> 0"
  shows "\<exists>p' h'. ep_set_update (p, h) c ev = Inr (p', h') \<and> ep_inv (p', h') \<and> fd_of h' = fd_of h \<and>
     (ep_channels p', ep_interest (p', h')) = spec_update fd c ev (ep_channels p, ep_interest (p, h))"
proof -
  obtain ch where hc: "h c = Some ch" and fd': "ch_fd ch = fd"
    using fd by (auto simp: fd_of_def)
  define p' where "p' = p\<lparr>ep_channels := (ep_channels p)(fd \<mapsto> c),
                           ep_ctls := ep_ctls p @ [(update_op ch ev, fd, ev, c)]\<rparr>"
  define ch' where "ch' = ch\<lparr>ch_events := ev, ch_index := update_index ch ev\<rparr>"
  have exec: "ep_set_update (p, h) c ev = Inr (p', h(c \<mapsto> ch'))"
    and ok: "ctl_ok (requested (ep_ctls p)) (update_op ch ev, fd, ev, c)"
    using ep_set_update_eq [OF inv hc, of ev] pre fd' by (simp_all add: p'_def ch'_def)
  have valid: "valid_ctls (ep_ctls p)" using inv by (simp add: ep_inv_def)
  have free: "ep_channels p fd = None \<or> ep_channels p fd = Some c" using pre by blast
  have req: "requested (ep_ctls p') = (requested (ep_ctls p))(fd :=
      if update_op ch ev = EPOLL_CTL_DEL then None else Some (ev, c))"
    by (simp add: p'_def update_op_def)
  have "ep_chan_ok p' c ch'"
    using ev fd' req by (auto simp: ep_chan_ok_def ch'_def update_index_def update_op_del p'_def index_consts)
  then have "ep_inv (p', h(c \<mapsto> ch'))"
    using inv hc fd' free ok valid req
    by (intro ep_inv_change [where r = "Some c"]) (auto simp: p'_def ch'_def)
  moreover have "fd_of (h(c \<mapsto> ch')) = fd_of h"
    using hc by (rule fd_of_upd) (simp add: ch'_def)
  moreover have "ep_interest (p', h(c \<mapsto> ch')) = (ep_interest (p, h))(fd := nonzero ev)"
    using req by (auto simp: update_op_del ep_interest_def fun_eq_iff nonzero_def)
  ultimately show ?thesis
    using exec by (auto simp: spec_update_def p'_def)
qed

lemma ep_remove_law:
  assumes inv: "ep_inv (p, h)" and fd: "fd_of h c = Some fd"
    and reg: "ep_channels p fd = Some c" and quiet: "ep_interest (p, h) fd = None"
  shows "\<exists>p' h'. ep_remove_destroy (p, h) c = Inr (p', h') \<and> ep_inv (p', h') \<and>
     fd_of h' = (fd_of h)(c := None) \<and>
     (ep_channels p', ep_interest (p', h')) = spec_remove fd (ep_channels p, ep_interest (p, h))"
proof -
  obtain ch where hc: "h c = Some ch" and fd': "ch_fd ch = fd"
    using fd by (auto simp: fd_of_def)
  have valid: "valid_ctls (ep_ctls p)" using inv by (simp add: ep_inv_def)
  have idx: "ch_index ch = kAdded \<or> ch_index ch = kDeleted" and none: "ch_events ch = 0"
    and api: "api_events (ch_events ch)"
    and added: "ch_index ch = kAdded \<Longrightarrow> requested (ep_ctls p) fd \<noteq> None"
    and deleted: "ch_index ch \<noteq> kAdded \<Longrightarrow> requested (ep_ctls p) fd = None"
    using inv hc reg fd' quiet
    by (cases rule: ep_inv_cases;
        auto simp: ep_interest_def nonzero_def index_consts split: if_splits)+
  define ctls where "ctls = (if ch_index ch = kAdded
      then ep_ctls p @ [(EPOLL_CTL_DEL, fd, ch_events ch, c)] else ep_ctls p)"
  define p' where "p' = p\<lparr>ep_channels := (ep_channels p)(fd := None), ep_ctls := ctls\<rparr>"
  define ch' where "ch' = ch\<lparr>ch_index := kNew\<rparr>"
  have exec: "ep_removeChannel True c (p, h) = Inr (p', h(c \<mapsto> ch'))"
    using hc fd' reg idx none by (simp add: ep_op_defs p'_def ch'_def ctls_def)
  have req: "requested (ep_ctls p') = (requested (ep_ctls p))(fd := None)"
    using deleted by (auto simp: p'_def ctls_def)
  have "valid_ctls (ep_ctls p')"
    using valid added by (auto simp: p'_def ctls_def)
  moreover have "ep_chan_ok p' c ch'"
    using api fd' by (simp add: ep_chan_ok_def ch'_def p'_def)
  ultimately have "ep_inv (p', h(c \<mapsto> ch'))"
    using inv hc fd' reg req
    by (intro ep_inv_change [where r = None]) (auto simp: p'_def ch'_def)
  then have "ep_inv (p', (h(c \<mapsto> ch'))(c := None))"
    by (rule ep_inv_erase [where ch = ch']) (simp_all add: p'_def ch'_def fd')
  moreover have "ep_interest (p', h(c := None)) = (ep_interest (p, h))(fd := None)"
    using req by (auto simp: ep_interest_def fun_eq_iff)
  ultimately show ?thesis
    using exec by (auto simp: spec_remove_def p'_def ep_remove_destroy_def erase_channel_def fd_of_erase)
qed

interpretation ep: poller_contract ep_inv "\<lambda>s. fd_of (snd s)" "\<lambda>s. ep_channels (fst s)" ep_interest
  ep_set_update ep_remove_destroy
proof
  fix s :: "epoller \<times> 'a channels" and c fd ev
  assume "ep_inv s" "fd_of (snd s) c = Some fd" "api_events ev"
    "ep_channels (fst s) fd = Some c \<or> ep_channels (fst s) fd = None \<and> ev \<noteq> 0"
  then show "\<exists>s'. ep_set_update s c ev = Inr s' \<and> ep_inv s' \<and> fd_of (snd s') = fd_of (snd s) \<and>
      (ep_channels (fst s'), ep_interest s') = spec_update fd c ev (ep_channels (fst s), ep_interest s)"
    using ep_update_law [of "fst s" "snd s" c fd ev] by auto
next
  fix s :: "epoller \<times> 'a channels" and c fd
  assume "ep_inv s" "fd_of (snd s) c = Some fd" "ep_channels (fst s) fd = Some c"
    "ep_interest s fd = None"
  then show "\<exists>s'. ep_remove_destroy s c = Inr s' \<and> ep_inv s' \<and>
      fd_of (snd s') = (fd_of (snd s))(c := None) \<and>
      (ep_channels (fst s'), ep_interest s') = spec_remove fd (ep_channels (fst s), ep_interest s)"
    using ep_remove_law [of "fst s" "snd s" c fd] by auto
qed

section \<open>Runs\<close>

lemma ep_inv_fresh: "fresh_channels h \<Longrightarrow> ep_inv (newEPollPoller, h)"
  by (auto simp: ep_inv_def newEPollPoller_def fresh_channels_def ep_chan_ok_def api_events_def
      index_consts requested_def valid_ctls_def)

lemma ep_fresh_abs:
  "ep_channels newEPollPoller = Map.empty" "ep_interest (newEPollPoller, h) = Map.empty"
  by (auto simp: newEPollPoller_def ep_interest_def requested_def fun_eq_iff)

text \<open>The events an interest list watches for each descriptor.\<close>

definition watched :: "(int \<rightharpoonup> 32 word \<times> nat) \<Rightarrow> int \<rightharpoonup> 32 word" where
  "watched t fd = (case t fd of None \<Rightarrow> None | Some (e, c) \<Rightarrow> nonzero e)"

lemma ep_kernel:
  assumes "ep_inv (p, h)" and "epoll_ctl_law ctl table" and "table k = Map.empty"
  shows "fst (replay_ctls ctl k (ep_ctls p)) = replicate (length (ep_ctls p)) 0"
    and "watched (table (snd (replay_ctls ctl k (ep_ctls p)))) = ep_interest (p, h)"
proof -
  have "valid_from (table k) (ep_ctls p)" using assms(1,3) by (simp add: ep_inv_def valid_ctls_def)
  from replay_valid [OF assms(2) this] assms(3)
  show "fst (replay_ctls ctl k (ep_ctls p)) = replicate (length (ep_ctls p)) 0"
    and "watched (table (snd (replay_ctls ctl k (ep_ctls p)))) = ep_interest (p, h)"
    by (simp_all add: watched_def ep_interest_def requested_def fun_eq_iff)
qed

text \<open>
  C6. EPollPoller: from a fresh poller and fresh channels, every sequence of legal calls succeeds
  and leaves the channel map of the specification; on a kernel that follows epoll_ctl(2), every
  \<^verbatim>\<open>epoll_ctl\<close> issued on the way returns 0 (never EEXIST or ENOENT, so the results the code only
  logs never matter), and the kernel's interest list watches exactly the specified events.
\<close>

theorem epoll_run_refines:
  assumes "fresh_channels h" and "epoll_ctl_law ctl table" and "table k = Map.empty"
    and "legal_ops (fd_of h) (Map.empty, Map.empty) ps"
  shows "\<exists>p' h'. foldRes (poll_exec ep_set_update ep_remove_destroy) ps (newEPollPoller, h) = Inr (p', h') \<and>
     fst (replay_ctls ctl k (ep_ctls p')) = replicate (length (ep_ctls p')) 0 \<and>
     (ep_channels p', watched (table (snd (replay_ctls ctl k (ep_ctls p'))))) =
        spec_run (fd_of h) ps (Map.empty, Map.empty)"
proof -
  from ep.run_law [of "(newEPollPoller, h)" ps] ep_inv_fresh [OF assms(1)] assms(4) obtain p' h' where
    "foldRes (poll_exec ep_set_update ep_remove_destroy) ps (newEPollPoller, h) = Inr (p', h')"
    and inv: "ep_inv (p', h')"
    and "(ep_channels p', ep_interest (p', h')) = spec_run (fd_of h) ps (Map.empty, Map.empty)"
    by (auto simp: ep_fresh_abs)
  with ep_kernel [OF inv assms(2,3)] show ?thesis by simp
qed

text \<open>A kernel whose state is its interest list.\<close>

definition demo_ctl :: "(int \<rightharpoonup> 32 word \<times> nat) \<Rightarrow> ctl_call \<Rightarrow> int \<times> (int \<rightharpoonup> 32 word \<times> nat)" where
  "demo_ctl t c = (if ctl_ok t c then (0, apply_ctl t c) else (-1, t))"

lemma demo_ctl_law: "epoll_ctl_law demo_ctl id"
  by (simp add: epoll_ctl_law_def demo_ctl_def)

theorem epoll_run_refines_witness:
  "\<exists>p' h'. foldRes (poll_exec ep_set_update ep_remove_destroy)
       [PUpdate 1 3, PUpdate 2 7, PUpdate 1 0, PRemove 1]
       (newEPollPoller, [1 \<mapsto> newChannel 5 :: unit channel, 2 \<mapsto> newChannel 6]) = Inr (p', h') \<and>
     fst (replay_ctls demo_ctl Map.empty (ep_ctls p')) = replicate (length (ep_ctls p')) 0 \<and>
     (ep_channels p', watched (id (snd (replay_ctls demo_ctl Map.empty (ep_ctls p'))))) =
       spec_run (fd_of [1 \<mapsto> newChannel 5 :: unit channel, 2 \<mapsto> newChannel 6])
         [PUpdate 1 3, PUpdate 2 7, PUpdate 1 0, PRemove 1] (Map.empty, Map.empty)"
  by (rule epoll_run_refines [OF _ demo_ctl_law])
    (auto simp: fresh_channels_def newChannel_def fd_of_def api_events_def spec_update_def nonzero_def
      split: if_splits)

section \<open>Polling\<close>

text \<open>
  What epoll_wait(2) documents: at most as many events as there is room for, at most one per
  registered descriptor, each carrying the pointer that was registered with it.
\<close>

definition wait_law ::
    "(int \<rightharpoonup> 32 word \<times> nat) \<Rightarrow> (int \<Rightarrow> int + (32 word \<times> nat) list) \<Rightarrow> bool" where
  "wait_law table wait \<longleftrightarrow>
     (\<forall>n evs. 0 < n \<and> wait n = Inr evs \<longrightarrow>
        int (length evs) \<le> n \<and> distinct (map snd evs) \<and>
        (\<forall>(e, c) \<in> set evs. \<exists>fd e'. table fd = Some (e', c)))"

text \<open>A channel after the events \<open>evs\<close> were delivered.\<close>

definition ep_delivered :: "(32 word \<times> nat) list \<Rightarrow> nat \<Rightarrow> 'cb channel \<Rightarrow> 'cb channel" where
  "ep_delivered evs c ch =
     (case find (\<lambda>(e, d). d = c) evs of None \<Rightarrow> ch | Some (e, d) \<Rightarrow> set_revents e ch)"

lemma ep_delivered_none: "c \<notin> snd ` set evs \<Longrightarrow> ep_delivered evs c ch = ch"
  by (induction evs) (auto simp: ep_delivered_def)

lemma ep_delivered_Cons:
  "ep_delivered ((e, d) # evs) c ch = (if d = c then set_revents e ch else ep_delivered evs c ch)"
  by (simp add: ep_delivered_def)

lemma ep_fill_fold:
  assumes "\<And>c. c \<in> snd ` set evs \<Longrightarrow> \<exists>ch. h c = Some ch \<and> m (ch_fd ch) = Some c"
    and "distinct (map snd evs)"
  shows "\<exists>h'. foldRes (ep_activate m) evs (h, active) = Inr (h', active @ map snd evs) \<and>
      (\<forall>c. h' c = map_option (ep_delivered evs c) (h c))"
  using assms
proof (induction evs arbitrary: h active)
  case Nil
  then show ?case by (auto simp: ep_delivered_def option.map_ident)
next
  case (Cons ec evs)
  obtain e c where ec: "ec = (e, c)" by (cases ec)
  from Cons.prems(1) [of c] obtain ch where c: "h c = Some ch" "m (ch_fd ch) = Some c"
    by (auto simp: ec)
  define h1 where "h1 = h(c \<mapsto> set_revents e ch)"
  have c_notin: "c \<notin> snd ` set evs" using Cons.prems(2) by (auto simp: ec)
  have "\<exists>dh. h1 d = Some dh \<and> m (ch_fd dh) = Some d" if "d \<in> snd ` set evs" for d
    using Cons.prems(1) [of d] that c_notin by (auto simp: h1_def)
  from Cons.IH [where h = h1 and active = "active @ [c]", OF this] Cons.prems(2) obtain h' where
    h': "foldRes (ep_activate m) evs (h1, active @ [c]) = Inr (h', (active @ [c]) @ map snd evs)"
    and pt: "\<And>d. h' d = map_option (ep_delivered evs d) (h1 d)" by auto
  have "h' d = map_option (ep_delivered (ec # evs) d) (h d)" for d
    using pt [of d] c c_notin
    by (cases "d = c") (auto simp: h1_def ec ep_delivered_Cons ep_delivered_none option.map_comp comp_def
        cong: option.map_cong)
  moreover have "ep_activate m ec (h, active) = Inr (h1, active @ [c])"
    using c by (simp add: ep_activate_def ec h1_def)
  ultimately show ?case using h' by (intro exI [of _ h']) (auto simp: ec fun_eq_iff)
qed

lemma ep_inv_delivered:
  assumes inv: "ep_inv (p, h)" and h': "\<And>c. h' c = map_option (ep_delivered evs c) (h c)"
  shows "ep_inv (p\<lparr>ep_nevents := n\<rparr>, h')"
proof -
  have same: "ch_fd (ep_delivered evs c ch) = ch_fd ch"
    "ch_events (ep_delivered evs c ch) = ch_events ch"
    "ch_index (ep_delivered evs c ch) = ch_index ch" for c and ch :: "'a channel"
    by (auto simp: ep_delivered_def set_revents_def split: option.splits)
  have "ep_chan_ok p c ch'" if "h' c = Some ch'" for c ch'
    using that ep_inv_chan [OF inv, of c] h' [of c] by (auto simp: ep_chan_ok_def same)
  moreover have "\<exists>ch. h' c = Some ch \<and> ch_fd ch = fd" if "ep_channels p fd = Some c" for fd c
    using ep_inv_regD [OF inv that] h' [of c] by (auto simp: same)
  ultimately show ?thesis
    using inv by (simp add: ep_inv_def ep_chan_ok_def)
qed

text \<open>The pointer the kernel holds for a descriptor is the registered channel.\<close>

lemma ep_requested_channel:
  assumes inv: "ep_inv (p, h)" and req: "requested (ep_ctls p) fd = Some (e, c)"
  shows "\<exists>ch. h c = Some ch \<and> ep_channels p (ch_fd ch) = Some c"
proof -
  obtain d where d: "ep_channels p fd = Some d"
    using inv req by (cases "ep_channels p fd") (auto simp: ep_inv_def)
  from ep_inv_regD [OF inv d] obtain dh where dh: "h d = Some dh" "ch_fd dh = fd" by blast
  with ep_inv_chan [OF inv dh(1)] d req have "d = c" by (auto simp: ep_chan_ok_def)
  with d dh show ?thesis by auto
qed

text \<open>
  C24. \<^verbatim>\<open>EPollPoller::poll\<close>: whatever epoll_wait(2) reports for the descriptors this poller asked it
  to watch, no assertion of \<^verbatim>\<open>fillActiveChannels\<close> fails, the channels of the events are appended to the
  active list in the kernel's order, each gets its own \<^verbatim>\<open>revents_\<close> and the others keep theirs, the
  event vector doubles exactly when it was filled, and the invariant is kept.
\<close>

theorem epoll_delivers:
  assumes "ep_inv (p, h)" and "wait_law (requested (ep_ctls p)) wait"
    and "0 < ep_nevents p" and "ep_nevents p < 2 ^ 31"
    and "wait (int (ep_nevents p)) = Inr evs"
  shows "\<exists>p' h'. ep_poll wait (p, h, active) = Inr (p', h', active @ map snd evs) \<and>
     (\<forall>c. h' c = map_option (ep_delivered evs c) (h c)) \<and>
     p' = p\<lparr>ep_nevents := if length evs = ep_nevents p then 2 * ep_nevents p else ep_nevents p\<rparr> \<and>
     ep_inv (p', h')"
proof -
  have cast: "sint (word_of_nat (ep_nevents p) :: 32 word) = int (ep_nevents p)"
    using assms(4) by (simp add: signed_of_nat signed_take_bit_int_eq_self)
  have law: "int (length evs) \<le> int (ep_nevents p)" "distinct (map snd evs)"
    "\<And>e c. (e, c) \<in> set evs \<Longrightarrow> \<exists>fd e'. requested (ep_ctls p) fd = Some (e', c)"
    using assms(2,3,5) unfolding wait_law_def by (force dest!: spec [of _ "int (ep_nevents p)"])+
  have "\<exists>ch. h c = Some ch \<and> ep_channels p (ch_fd ch) = Some c" if "c \<in> snd ` set evs" for c
  proof -
    from that obtain e where "(e, c) \<in> set evs" by auto
    with law(3) [OF this] ep_requested_channel [OF assms(1)] show ?thesis by blast
  qed
  from ep_fill_fold [OF this law(2), of active] obtain h' where
    h': "foldRes (ep_activate (ep_channels p)) evs (h, active) = Inr (h', active @ map snd evs)"
    "\<And>c. h' c = map_option (ep_delivered evs c) (h c)" by auto
  define p' where "p' = p\<lparr>ep_nevents := if length evs = ep_nevents p then 2 * ep_nevents p else ep_nevents p\<rparr>"
  have "ep_poll wait (p, h, active) = Inr (p', h', active @ map snd evs)"
  proof (cases "evs = []")
    case True
    with h' have "h' = h" by (simp add: fun_eq_iff)
    with True assms(3,5) show ?thesis by (simp add: ep_poll_def cast p'_def)
  next
    case False
    with h'(1) law(1) assms(5) show ?thesis
      by (simp add: ep_poll_def cast p'_def ep_fillActiveChannels_def mult.commute)
  qed
  moreover have "ep_inv (p', h')"
    unfolding p'_def by (rule ep_inv_delivered [OF assms(1) h'(2)])
  ultimately show ?thesis using h'(2) by (intro exI [of _ p'] exI [of _ h']) (simp add: p'_def)
qed

definition demo_epoller :: epoller where
  "demo_epoller = \<lparr>ep_channels = [5 \<mapsto> 1, 6 \<mapsto> 2], ep_nevents = 1,
     ep_ctls = [(EPOLL_CTL_ADD, 5, 3, 1), (EPOLL_CTL_ADD, 6, 7, 2)]\<rparr>"

definition demo_echannels :: "unit channels" where
  "demo_echannels = [1 \<mapsto> (newChannel 5)\<lparr>ch_events := 3, ch_index := kAdded\<rparr>,
                     2 \<mapsto> (newChannel 6)\<lparr>ch_events := 7, ch_index := kAdded\<rparr>]"

lemma demo_ep_inv: "ep_inv (demo_epoller, demo_echannels)"
  unfolding ep_inv_def demo_epoller_def demo_echannels_def
  by (auto simp: newChannel_def ep_chan_ok_def api_events_def index_consts requested_def
      valid_ctls_def split: if_splits)

theorem epoll_delivers_witness:
  "\<exists>p' h'. ep_poll (\<lambda>n. Inr [(5, 2)]) (demo_epoller, demo_echannels, []) = Inr (p', h', [2]) \<and>
     map_option ch_revents (h' 2) = Some 5 \<and> ep_nevents p' = 2"
proof -
  have "wait_law (requested (ep_ctls demo_epoller)) (\<lambda>n. Inr [(5, 2)])"
    by (auto simp: wait_law_def demo_epoller_def requested_def intro: exI [of _ 6])
  moreover have "0 < ep_nevents demo_epoller" "ep_nevents demo_epoller < 2 ^ 31"
    by (simp_all add: demo_epoller_def)
  ultimately show ?thesis
    using epoll_delivers [OF demo_ep_inv, of "\<lambda>n. Inr [(5, 2)]" "[(5, 2)]" "[]"]
    by (auto simp: demo_epoller_def demo_echannels_def ep_delivered_def set_revents_def)
qed

end
