(* ===== verification/Kaycc_PollPoller.thy ===== *)
theory Kaycc_PollPoller
  imports Kaycc_Poller
begin

text \<open>
  PollPoller (net/poller/pollpoller.h, .cpp): a vector of \<^verbatim>\<open>pollfd\<close>, the position of a channel's
  entry kept in the channel, a channel without events marked by the descriptor \<^verbatim>\<open>-fd - 1\<close>, and
  removal by swapping with the last entry. The positions fit an \<^verbatim>\<open>int\<close> because there are at most
  \<open>2 ^ 31\<close> descriptors; the casts between \<^verbatim>\<open>size_t\<close> and \<^verbatim>\<open>int\<close> are therefore not written out.
\<close>

section \<open>State and operations\<close>

record pollfd =
  pfd_fd :: int
  pfd_events :: "16 word"
  pfd_revents :: "16 word"

record ppoller =
  pp_channels :: channelMap
  pp_pollfds :: "pollfd list"

definition newPollPoller :: ppoller where
  "newPollPoller = \<lparr>pp_channels = Map.empty, pp_pollfds = []\<rparr>"

definition pp_updateChannel ::
    "bool \<Rightarrow> nat \<Rightarrow> ppoller \<times> 'cb channels \<Rightarrow> (ppoller \<times> 'cb channels) res" where
  "pp_updateChannel inLoop c = (\<lambda>(p, h).
     assertInLoopThread inLoop (deref h c (\<lambda>ch.
     if ch_index ch < 0 then
       check (pp_channels p (ch_fd ch) = None) ''pollpoller.cpp:68'' (
       let pfd = \<lparr>pfd_fd = ch_fd ch, pfd_events = ucast (ch_events ch), pfd_revents = 0\<rparr>;
           fds = pp_pollfds p @ [pfd];
           idx = int (length fds) - 1
       in Inr (p\<lparr>pp_pollfds := fds, pp_channels := (pp_channels p)(ch_fd ch \<mapsto> c)\<rparr>,
               h(c \<mapsto> set_index idx ch)))
     else
       check (pp_channels p (ch_fd ch) \<noteq> None) ''pollpoller.cpp:80'' (
       check (pp_channels p (ch_fd ch) = Some c) ''pollpoller.cpp:81'' (
       let idx = ch_index ch in
       check (0 \<le> idx \<and> idx < int (length (pp_pollfds p))) ''pollpoller.cpp:83'' (
       let pfd = pp_pollfds p ! nat idx in
       check (pfd_fd pfd = ch_fd ch \<or> pfd_fd pfd = - ch_fd ch - 1) ''pollpoller.cpp:86'' (
       let pfd1 = pfd\<lparr>pfd_fd := ch_fd ch, pfd_events := ucast (ch_events ch), pfd_revents := 0\<rparr>;
           pfd2 = (if isNoneEvent ch then pfd1\<lparr>pfd_fd := - ch_fd ch - 1\<rparr> else pfd1)
       in Inr (p\<lparr>pp_pollfds := (pp_pollfds p)[nat idx := pfd2]\<rparr>, h))))))))"

text \<open>The descriptor behind an entry that may be marked as ignored.\<close>

definition real_fd :: "int \<Rightarrow> int" where
  "real_fd fd = (if fd < 0 then - fd - 1 else fd)"

text \<open>\<^verbatim>\<open>channels_[channelAtEnd]->set_index(idx)\<close>: a missing key would yield a null pointer.\<close>

definition pp_removeChannel ::
    "bool \<Rightarrow> nat \<Rightarrow> ppoller \<times> 'cb channels \<Rightarrow> (ppoller \<times> 'cb channels) res" where
  "pp_removeChannel inLoop c = (\<lambda>(p, h).
     assertInLoopThread inLoop (deref h c (\<lambda>ch.
     check (pp_channels p (ch_fd ch) \<noteq> None) ''pollpoller.cpp:101'' (
     check (pp_channels p (ch_fd ch) = Some c) ''pollpoller.cpp:102'' (
     check (isNoneEvent ch) ''pollpoller.cpp:103'' (
     let idx = ch_index ch; fds = pp_pollfds p; n = length fds in
     check (0 \<le> idx \<and> idx < int n) ''pollpoller.cpp:105'' (
     let pfd = fds ! nat idx in
     check (pfd_fd pfd = - ch_fd ch - 1 \<and> scast (pfd_events pfd) = ch_events ch) ''pollpoller.cpp:108'' (
     let m = (pp_channels p)(ch_fd ch := None) in
     if nat idx = n - 1 then
       Inr (p\<lparr>pp_channels := m, pp_pollfds := butlast fds\<rparr>, h)
     else
       let channelAtEnd = pfd_fd (last fds);
           fds1 = fds[nat idx := fds ! (n - 1), n - 1 := fds ! nat idx]
       in case m (real_fd channelAtEnd) of
            None \<Rightarrow> Inl (Undefined ''pollpoller.cpp:124: null Channel*'')
          | Some c2 \<Rightarrow> deref h c2 (\<lambda>ch2.
              Inr (p\<lparr>pp_channels := m, pp_pollfds := butlast fds1\<rparr>,
                   h(c2 \<mapsto> set_index idx ch2)))))))))))"

text \<open>
  \<open>fds\<close> is \<^verbatim>\<open>pollfds_\<close> after \<^verbatim>\<open>poll(2)\<close> stored the returned events. The counter \<^verbatim>\<open>numEvents\<close> is
  decremented but never read, so the loop always visits the whole vector.
\<close>

definition pp_activate ::
    "channelMap \<Rightarrow> pollfd \<Rightarrow> 'cb channels \<times> nat list \<Rightarrow> ('cb channels \<times> nat list) res" where
  "pp_activate channels pfd = (\<lambda>(h, active).
     if sint (pfd_revents pfd) > 0 then
       (case channels (pfd_fd pfd) of
          None \<Rightarrow> Inl (Assertion ''pollpoller.cpp:50'')
        | Some c \<Rightarrow> deref h c (\<lambda>ch.
            check (ch_fd ch = pfd_fd pfd) ''pollpoller.cpp:53'' (
            Inr (h(c \<mapsto> set_revents (scast (pfd_revents pfd)) ch), active @ [c]))))
     else Inr (h, active))"

definition pp_fillActiveChannels ::
    "ppoller \<Rightarrow> 'cb channels \<times> nat list \<Rightarrow> ('cb channels \<times> nat list) res" where
  "pp_fillActiveChannels p ha = foldRes (pp_activate (pp_channels p)) (pp_pollfds p) ha"

text \<open>\<open>poll fds\<close>: \<open>Inl errno\<close>, or the number of ready entries and the entries with their events.\<close>

definition pp_poll ::
    "(pollfd list \<Rightarrow> int + (nat \<times> pollfd list)) \<Rightarrow> ppoller \<times> 'cb channels \<times> nat list \<Rightarrow>
     (ppoller \<times> 'cb channels \<times> nat list) res" where
  "pp_poll poll = (\<lambda>(p, h, active).
     case poll (pp_pollfds p) of
       Inl errno \<Rightarrow> Inr (p, h, active)
     | Inr (numEvents, fds) \<Rightarrow>
         let p1 = p\<lparr>pp_pollfds := fds\<rparr> in
         if numEvents > 0 then
           andThen (pp_fillActiveChannels p1 (h, active)) (\<lambda>(h', active'). Inr (p1, h', active'))
         else Inr (p1, h, active))"

section \<open>Invariant\<close>

definition pp_set_update ::
    "ppoller \<times> 'cb channels \<Rightarrow> nat \<Rightarrow> 32 word \<Rightarrow> (ppoller \<times> 'cb channels) res" where
  "pp_set_update = (\<lambda>(p, h) c ev.
     deref h c (\<lambda>ch. pp_updateChannel True c (p, h(c \<mapsto> ch\<lparr>ch_events := ev\<rparr>))))"

text \<open>The entry a channel with these events has.\<close>

definition entry_for :: "'cb channel \<Rightarrow> pollfd \<Rightarrow> bool" where
  "entry_for ch e \<longleftrightarrow>
     pfd_fd e = (if ch_events ch = 0 then - ch_fd ch - 1 else ch_fd ch) \<and>
     pfd_events e = ucast (ch_events ch)"

definition pp_chan_ok :: "ppoller \<Rightarrow> nat \<Rightarrow> 'cb channel \<Rightarrow> bool" where
  "pp_chan_ok p c ch \<longleftrightarrow>
     api_events (ch_events ch) \<and> 0 \<le> ch_fd ch \<and>
     (if ch_index ch < 0 then pp_channels p (ch_fd ch) \<noteq> Some c
      else pp_channels p (ch_fd ch) = Some c \<and> nat (ch_index ch) < length (pp_pollfds p) \<and>
           entry_for ch (pp_pollfds p ! nat (ch_index ch)))"

definition pp_inv :: "ppoller \<times> 'cb channels \<Rightarrow> bool" where
  "pp_inv = (\<lambda>(p, h).
     (\<forall>c ch. h c = Some ch \<longrightarrow> pp_chan_ok p c ch) \<and>
     (\<forall>fd c. pp_channels p fd = Some c \<longrightarrow> (\<exists>ch. h c = Some ch \<and> ch_fd ch = fd)) \<and>
     (\<forall>i<length (pp_pollfds p). \<exists>c ch. h c = Some ch \<and> ch_index ch = int i))"

text \<open>What poll(2) watches: entries with a negative descriptor are ignored.\<close>

definition pp_interest :: "ppoller \<times> 'cb channels \<Rightarrow> int \<rightharpoonup> 32 word" where
  "pp_interest = (\<lambda>(p, h) fd.
     if fd < 0 then None
     else case find (\<lambda>e. pfd_fd e = fd) (pp_pollfds p) of
            None \<Rightarrow> None
          | Some e \<Rightarrow> nonzero (scast (pfd_events e)))"

lemmas pp_op_defs = pp_set_update_def pp_updateChannel_def pp_removeChannel_def
  set_index_def isNoneEvent_def kNoneEvent_def Let_def

lemma pollfd_overwrite:
  fixes r :: pollfd
  shows "r\<lparr>pfd_fd := a, pfd_events := b, pfd_revents := d\<rparr> =
      \<lparr>pfd_fd = a, pfd_events = b, pfd_revents = d\<rparr>"
    and "r\<lparr>pfd_events := b, pfd_revents := d, pfd_fd := a\<rparr> =
      \<lparr>pfd_fd = a, pfd_events = b, pfd_revents = d\<rparr>"
  by simp_all

lemma scast_ucast_api: "api_events ev \<Longrightarrow> scast (ucast ev :: 16 word) = ev"
  by (auto simp: api_events_def)

lemma pp_inv_chan: "pp_inv (p, h) \<Longrightarrow> h c = Some ch \<Longrightarrow> pp_chan_ok p c ch"
  by (simp add: pp_inv_def)

lemma pp_inv_regD: "pp_inv (p, h) \<Longrightarrow> pp_channels p fd = Some c \<Longrightarrow> \<exists>ch. h c = Some ch \<and> ch_fd ch = fd"
  by (simp add: pp_inv_def)

lemma pp_inv_entryD:
  "pp_inv (p, h) \<Longrightarrow> i < length (pp_pollfds p) \<Longrightarrow> \<exists>c ch. h c = Some ch \<and> ch_index ch = int i"
  by (simp add: pp_inv_def)

lemma pp_chan_okD:
  assumes "pp_chan_ok p c ch" and "0 \<le> ch_index ch"
  shows "pp_channels p (ch_fd ch) = Some c" and "nat (ch_index ch) < length (pp_pollfds p)"
    and "entry_for ch (pp_pollfds p ! nat (ch_index ch))" and "0 \<le> ch_fd ch"
    and "api_events (ch_events ch)"
  using assms by (simp_all add: pp_chan_ok_def)

lemma real_fd_entry: "entry_for ch e \<Longrightarrow> 0 \<le> ch_fd ch \<Longrightarrow> real_fd (pfd_fd e) = ch_fd ch"
  by (simp add: entry_for_def real_fd_def)

lemma pp_inv_reg:
  assumes inv: "pp_inv (p, h)" and reg: "pp_channels p fd = Some c"
  obtains ch where "h c = Some ch" and "ch_fd ch = fd" and "0 \<le> ch_index ch"
    and "nat (ch_index ch) < length (pp_pollfds p)" and "entry_for ch (pp_pollfds p ! nat (ch_index ch))"
    and "api_events (ch_events ch)" and "0 \<le> fd"
proof -
  from pp_inv_regD [OF inv reg] obtain ch where ch: "h c = Some ch" "ch_fd ch = fd" by blast
  have ok: "pp_chan_ok p c ch" using inv ch(1) by (rule pp_inv_chan)
  with reg ch have ix: "0 \<le> ch_index ch" by (auto simp: pp_chan_ok_def split: if_splits)
  from that [OF ch ix] pp_chan_okD [OF ok ix] ch show thesis by simp
qed

lemma pp_inv_entry:
  assumes inv: "pp_inv (p, h)" and i: "i < length (pp_pollfds p)"
  obtains c ch where "h c = Some ch" and "ch_index ch = int i"
    and "pp_channels p (ch_fd ch) = Some c" and "entry_for ch (pp_pollfds p ! i)"
    and "real_fd (pfd_fd (pp_pollfds p ! i)) = ch_fd ch" and "0 \<le> ch_fd ch"
proof -
  from pp_inv_entryD [OF inv i] obtain c ch where ch: "h c = Some ch" "ch_index ch = int i" by blast
  have ok: "pp_chan_ok p c ch" using inv ch(1) by (rule pp_inv_chan)
  note D = pp_chan_okD [OF ok, unfolded ch(2) nat_int, OF of_nat_0_le_iff]
  from that [OF ch D(1) D(3) real_fd_entry [OF D(3,4)] D(4)] show thesis .
qed

text \<open>Two channels never share an entry.\<close>

lemma pp_index_inj:
  assumes inv: "pp_inv (p, h)" and c: "h c = Some ch" and d: "h d = Some dh"
    and ix: "ch_index ch = ch_index dh" "0 \<le> ch_index ch"
  shows "c = d"
proof -
  note okc = pp_chan_okD [OF pp_inv_chan [OF inv c] ix(2)]
  have ixd: "0 \<le> ch_index dh" using ix by simp
  note okd = pp_chan_okD [OF pp_inv_chan [OF inv d] ixd]
  have "ch_fd ch = ch_fd dh"
    using real_fd_entry [OF okc(3,4)] real_fd_entry [OF okd(3,4)] ix(1) by simp
  with okc(1) okd(1) show ?thesis by simp
qed

text \<open>Under the invariant the watched events are those of the registered channels.\<close>

lemma pp_interest_eq:
  assumes inv: "pp_inv (p, h)"
  shows "pp_interest (p, h) fd =
     (case pp_channels p fd of
        None \<Rightarrow> None
      | Some c \<Rightarrow> (case h c of None \<Rightarrow> None | Some ch \<Rightarrow> nonzero (ch_events ch)))"
proof (cases "find (\<lambda>e. pfd_fd e = fd) (pp_pollfds p)")
  case None
  show ?thesis
  proof (cases "pp_channels p fd")
    case None': None
    with None show ?thesis by (simp add: pp_interest_def)
  next
    case (Some c)
    with inv obtain ch where ch: "h c = Some ch" "ch_fd ch = fd"
      "nat (ch_index ch) < length (pp_pollfds p)" "entry_for ch (pp_pollfds p ! nat (ch_index ch))"
      by (rule pp_inv_reg)
    with None have "ch_events ch = 0"
      by (auto simp: find_None_iff entry_for_def split: if_splits)
    with None Some ch show ?thesis by (simp add: pp_interest_def nonzero_def)
  qed
next
  case (Some e)
  then obtain i where i: "i < length (pp_pollfds p)" "pfd_fd (pp_pollfds p ! i) = fd"
    "e = pp_pollfds p ! i" by (auto simp: find_Some_iff)
  obtain c ch where ch: "h c = Some ch" "ch_index ch = int i" "pp_channels p (ch_fd ch) = Some c"
    "entry_for ch (pp_pollfds p ! i)" "real_fd (pfd_fd (pp_pollfds p ! i)) = ch_fd ch" "0 \<le> ch_fd ch"
    using inv i(1) by (rule pp_inv_entry)
  have api: "api_events (ch_events ch)"
    using pp_inv_chan [OF inv ch(1)] by (simp add: pp_chan_ok_def)
  show ?thesis
  proof (cases "fd < 0")
    case True
    have "pp_channels p fd \<noteq> Some d" for d
      using True pp_inv_reg [OF inv, of fd d] by (metis not_le)
    then have "pp_channels p fd = None" by (cases "pp_channels p fd") auto
    with True show ?thesis by (simp add: pp_interest_def)
  next
    case False
    have "ch_fd ch = fd" using ch(5) i(2) False by (simp add: real_fd_def)
    then have reg: "pp_channels p fd = Some c" using ch(3) by simp
    have "pfd_events e = ucast (ch_events ch)" using ch(4) i(3) by (simp add: entry_for_def)
    then show ?thesis
      using False Some reg ch(1) api by (simp add: pp_interest_def scast_ucast_api)
  qed
qed

section \<open>Updating\<close>

lemma pp_interest_upd:
  assumes inv: "pp_inv (p, h)" and inv': "pp_inv (p', h')"
    and chans: "pp_channels p' = (pp_channels p)(fd := r)"
    and same: "\<And>d dh. h d = Some dh \<Longrightarrow> ch_fd dh \<noteq> fd \<Longrightarrow>
                 \<exists>dh'. h' d = Some dh' \<and> ch_events dh' = ch_events dh"
    and new: "case r of None \<Rightarrow> e = 0 | Some c \<Rightarrow> \<exists>ch. h' c = Some ch \<and> ch_events ch = e"
  shows "pp_interest (p', h') = (pp_interest (p, h))(fd := nonzero e)"
proof
  fix fd'
  show "pp_interest (p', h') fd' = ((pp_interest (p, h))(fd := nonzero e)) fd'"
  proof (cases "fd' = fd")
    case True
    with new chans show ?thesis
      by (auto simp: pp_interest_eq [OF inv'] nonzero_def split: option.splits)
  next
    case False
    show ?thesis
    proof (cases "pp_channels p fd'")
      case None
      with False chans show ?thesis by (simp add: pp_interest_eq [OF inv] pp_interest_eq [OF inv'])
    next
      case (Some d)
      with inv obtain dh where dh: "h d = Some dh" "ch_fd dh = fd'" by (rule pp_inv_reg)
      with same [of d dh] False obtain dh' where "h' d = Some dh'" "ch_events dh' = ch_events dh" by auto
      with False chans Some dh show ?thesis
        by (simp add: pp_interest_eq [OF inv] pp_interest_eq [OF inv'])
    qed
  qed
qed

lemma pp_update_new:
  assumes inv: "pp_inv (p, h)" and hc: "h c = Some ch" and fd: "ch_fd ch = fd"
    and ev: "api_events ev" "ev \<noteq> 0" and reg: "pp_channels p fd = None"
  shows "\<exists>p' ch'. pp_set_update (p, h) c ev = Inr (p', h(c \<mapsto> ch')) \<and> pp_inv (p', h(c \<mapsto> ch')) \<and>
     pp_channels p' = (pp_channels p)(fd \<mapsto> c) \<and> ch_fd ch' = fd \<and> ch_events ch' = ev"
proof -
  let ?n = "length (pp_pollfds p)"
  define e where "e = \<lparr>pfd_fd = fd, pfd_events = ucast ev, pfd_revents = 0\<rparr>"
  define p' where "p' = p\<lparr>pp_pollfds := pp_pollfds p @ [e], pp_channels := (pp_channels p)(fd \<mapsto> c)\<rparr>"
  define ch' where "ch' = ch\<lparr>ch_events := ev, ch_index := int ?n\<rparr>"
  have okc: "pp_chan_ok p c ch" using inv hc by (rule pp_inv_chan)
  then have neg: "ch_index ch < 0" and pos: "0 \<le> fd"
    using reg fd by (auto simp: pp_chan_ok_def split: if_splits)
  have exec: "pp_set_update (p, h) c ev = Inr (p', h(c \<mapsto> ch'))"
    using hc fd reg neg by (simp add: pp_op_defs p'_def ch'_def e_def)
  have ok: "pp_chan_ok p' d dh" if d: "(h(c \<mapsto> ch')) d = Some dh" for d dh
  proof (cases "d = c")
    case True
    then have "dh = ch'" using d by simp
    then show ?thesis
      using True ev pos fd by (simp add: pp_chan_ok_def ch'_def p'_def entry_for_def e_def)
  next
    case False
    then have h: "h d = Some dh" using d by simp
    have old: "pp_chan_ok p d dh" using inv h by (rule pp_inv_chan)
    have "ch_index dh < 0" if "ch_fd dh = fd"
      using old reg that by (auto simp: pp_chan_ok_def split: if_splits)
    with old False show ?thesis
      by (auto simp: pp_chan_ok_def p'_def nth_append)
  qed
  moreover have "\<exists>dh. (h(c \<mapsto> ch')) d = Some dh \<and> ch_fd dh = fd'"
    if "pp_channels p' fd' = Some d" for fd' d
    using that pp_inv_regD [OF inv, of fd' d] fd hc by (auto simp: p'_def ch'_def split: if_splits)
  moreover have "\<exists>d dh. (h(c \<mapsto> ch')) d = Some dh \<and> ch_index dh = int i"
    if i: "i < length (pp_pollfds p')" for i
  proof (cases "i = ?n")
    case True
    then show ?thesis by (auto simp: ch'_def)
  next
    case False
    with i have "i < ?n" by (simp add: p'_def)
    from pp_inv_entryD [OF inv this] obtain d dh where "h d = Some dh" "ch_index dh = int i" by blast
    moreover have "d \<noteq> c" using calculation hc neg by auto
    ultimately show ?thesis by (auto intro: exI [of _ d])
  qed
  ultimately have "pp_inv (p', h(c \<mapsto> ch'))" by (simp add: pp_inv_def)
  with exec show ?thesis using fd by (auto simp: p'_def ch'_def)
qed

lemma pp_update_old:
  assumes inv: "pp_inv (p, h)" and hc: "h c = Some ch" and fd: "ch_fd ch = fd"
    and ev: "api_events ev" and reg: "pp_channels p fd = Some c"
  shows "\<exists>p' ch'. pp_set_update (p, h) c ev = Inr (p', h(c \<mapsto> ch')) \<and> pp_inv (p', h(c \<mapsto> ch')) \<and>
     pp_channels p' = (pp_channels p)(fd \<mapsto> c) \<and> ch_fd ch' = fd \<and> ch_events ch' = ev"
proof -
  have ix: "0 \<le> ch_index ch"
    using pp_inv_reg [OF inv reg] hc by (metis option.inject)
  note D = pp_chan_okD [OF pp_inv_chan [OF inv hc] ix]
  let ?i = "nat (ch_index ch)"
  define e where "e = \<lparr>pfd_fd = if ev = 0 then - fd - 1 else fd,
                       pfd_events = ucast ev, pfd_revents = 0\<rparr>"
  define p' where "p' = p\<lparr>pp_pollfds := (pp_pollfds p)[?i := e]\<rparr>"
  define ch' where "ch' = ch\<lparr>ch_events := ev\<rparr>"
  have ent: "pfd_fd (pp_pollfds p ! ?i) = fd \<or> pfd_fd (pp_pollfds p ! ?i) = - fd - 1"
    using D(3) fd by (auto simp: entry_for_def split: if_splits)
  have exec: "pp_set_update (p, h) c ev = Inr (p', h(c \<mapsto> ch'))"
    using hc fd reg ix D(2) ent by (simp add: pp_op_defs p'_def ch'_def e_def nat_less_iff pollfd_overwrite)
  have ok: "pp_chan_ok p' d dh" if d: "(h(c \<mapsto> ch')) d = Some dh" for d dh
  proof (cases "d = c")
    case True
    then have "dh = ch'" using d by simp
    then show ?thesis
      using True ev D ix fd reg by (simp add: pp_chan_ok_def ch'_def p'_def entry_for_def e_def)
  next
    case False
    then have h: "h d = Some dh" using d by simp
    have "nat (ch_index dh) \<noteq> ?i" if "0 \<le> ch_index dh"
      using pp_index_inj [OF inv hc h] that ix False by (metis eq_nat_nat_iff)
    with pp_inv_chan [OF inv h] show ?thesis
      by (auto simp: pp_chan_ok_def p'_def)
  qed
  moreover have "\<exists>dh. (h(c \<mapsto> ch')) d = Some dh \<and> ch_fd dh = fd'"
    if "pp_channels p' fd' = Some d" for fd' d
    using that pp_inv_regD [OF inv, of fd' d] fd hc by (auto simp: p'_def ch'_def)
  moreover have "\<exists>d dh. (h(c \<mapsto> ch')) d = Some dh \<and> ch_index dh = int i"
    if i: "i < length (pp_pollfds p')" for i
  proof -
    have "i < length (pp_pollfds p)" using i by (simp add: p'_def)
    from pp_inv_entryD [OF inv this] obtain d dh where d: "h d = Some dh" "ch_index dh = int i" by blast
    show ?thesis
    proof (cases "d = c")
      case True
      then show ?thesis using d hc by (intro exI [of _ c]) (simp add: ch'_def)
    next
      case False
      then show ?thesis using d by (intro exI [of _ d]) simp
    qed
  qed
  ultimately have "pp_inv (p', h(c \<mapsto> ch'))" by (simp add: pp_inv_def)
  moreover have "pp_channels p' = (pp_channels p)(fd \<mapsto> c)" using reg by (auto simp: p'_def)
  ultimately show ?thesis using exec fd by (auto simp: ch'_def)
qed

lemma pp_update_law:
  assumes inv: "pp_inv (p, h)" and fd: "fd_of h c = Some fd" and ev: "api_events ev"
    and pre: "pp_channels p fd = Some c \<or> pp_channels p fd = None \<and> ev \<noteq> 0"
  shows "\<exists>p' h'. pp_set_update (p, h) c ev = Inr (p', h') \<and> pp_inv (p', h') \<and> fd_of h' = fd_of h \<and>
     (pp_channels p', pp_interest (p', h')) = spec_update fd c ev (pp_channels p, pp_interest (p, h))"
proof -
  obtain ch where hc: "h c = Some ch" and fd': "ch_fd ch = fd"
    using fd by (auto simp: fd_of_def)
  obtain p' ch' where s: "pp_set_update (p, h) c ev = Inr (p', h(c \<mapsto> ch'))"
    and inv': "pp_inv (p', h(c \<mapsto> ch'))" and chans: "pp_channels p' = (pp_channels p)(fd \<mapsto> c)"
    and ch': "ch_fd ch' = fd" "ch_events ch' = ev"
    using pre pp_update_new [OF inv hc fd' ev] pp_update_old [OF inv hc fd' ev] by blast
  have "pp_interest (p', h(c \<mapsto> ch')) = (pp_interest (p, h))(fd := nonzero ev)"
    using ch' fd' hc by (intro pp_interest_upd [OF inv inv' chans]) auto
  moreover have "fd_of (h(c \<mapsto> ch')) = fd_of h"
    using hc ch' fd' by (auto simp: fd_of_def fun_eq_iff)
  ultimately show ?thesis
    using s inv' chans by (auto simp: spec_update_def)
qed

section \<open>Removing\<close>

text \<open>
  The invariant after the entry of \<open>c\<close> is gone, for any new vector and store in which every other
  registered channel still points at its entry.
\<close>

lemma pp_inv_removed:
  assumes inv: "pp_inv (p, h)" and hc: "h c = Some ch" and reg: "pp_channels p (ch_fd ch) = Some c"
    and gone: "h' c = None" and dom: "\<And>d. h d = None \<Longrightarrow> h' d = None"
    and oth: "\<And>d dh. h d = Some dh \<Longrightarrow> d \<noteq> c \<Longrightarrow>
       \<exists>i. h' d = Some (dh\<lparr>ch_index := i\<rparr>) \<and>
           (ch_index dh < 0 \<and> i < 0 \<or>
            0 \<le> ch_index dh \<and> 0 \<le> i \<and> nat i < length fds' \<and>
            fds' ! nat i = pp_pollfds p ! nat (ch_index dh))"
    and surj: "\<And>i. i < length fds' \<Longrightarrow> \<exists>d dh. h' d = Some dh \<and> ch_index dh = int i"
  shows "pp_inv (p\<lparr>pp_channels := (pp_channels p)(ch_fd ch := None), pp_pollfds := fds'\<rparr>, h')"
proof -
  let ?p = "p\<lparr>pp_channels := (pp_channels p)(ch_fd ch := None), pp_pollfds := fds'\<rparr>"
  have "pp_chan_ok ?p d dh'" if d: "h' d = Some dh'" for d dh'
  proof (cases "d = c")
    case True
    with gone d show ?thesis by simp
  next
    case False
    obtain dh where h: "h d = Some dh" using d dom [of d] by (cases "h d") auto
    have ok: "pp_chan_ok p d dh" using inv h by (rule pp_inv_chan)
    have ne: "ch_fd dh \<noteq> ch_fd ch" if "0 \<le> ch_index dh"
      using pp_chan_okD(1) [OF ok that] reg False by auto
    obtain i where i: "h' d = Some (dh\<lparr>ch_index := i\<rparr>)"
      "ch_index dh < 0 \<and> i < 0 \<or> 0 \<le> ch_index dh \<and> 0 \<le> i \<and> nat i < length fds' \<and>
        fds' ! nat i = pp_pollfds p ! nat (ch_index dh)"
      using oth [OF h False] by blast
    then have dh': "dh' = dh\<lparr>ch_index := i\<rparr>" using d by simp
    from i(2) show ?thesis
    proof
      assume "ch_index dh < 0 \<and> i < 0"
      with ok show ?thesis by (simp add: dh' pp_chan_ok_def)
    next
      assume a: "0 \<le> ch_index dh \<and> 0 \<le> i \<and> nat i < length fds' \<and>
        fds' ! nat i = pp_pollfds p ! nat (ch_index dh)"
      with ok ne show ?thesis by (simp add: dh' pp_chan_ok_def entry_for_def)
    qed
  qed
  moreover have "\<exists>dh. h' d = Some dh \<and> ch_fd dh = fd'" if "pp_channels ?p fd' = Some d" for fd' d
  proof -
    have m: "pp_channels p fd' = Some d" "fd' \<noteq> ch_fd ch" using that by (auto split: if_splits)
    from pp_inv_regD [OF inv m(1)] obtain dh where "h d = Some dh" "ch_fd dh = fd'" by blast
    with m(2) hc have "d \<noteq> c" by auto
    with oth \<open>h d = Some dh\<close> \<open>ch_fd dh = fd'\<close> show ?thesis by fastforce
  qed
  ultimately show ?thesis using surj by (simp add: pp_inv_def)
qed

definition pp_remove_destroy ::
    "ppoller \<times> 'cb channels \<Rightarrow> nat \<Rightarrow> (ppoller \<times> 'cb channels) res" where
  "pp_remove_destroy s c = andThen (pp_removeChannel True c s) (\<lambda>s1. Inr (erase_channel c s1))"

lemma self_index: "\<exists>j. ch = ch\<lparr>ch_index := j\<rparr>"
  by (rule exI [of _ "ch_index ch"]) simp

lemma pp_remove_exec:
  assumes inv: "pp_inv (p, h)" and hc: "h c = Some ch" and reg: "pp_channels p (ch_fd ch) = Some c"
    and none: "ch_events ch = 0" and i: "ch_index ch = int i" "i < length (pp_pollfds p)"
  shows "pp_removeChannel True c (p, h) =
     (let n = length (pp_pollfds p); m = (pp_channels p)(ch_fd ch := None) in
      if i = n - 1 then Inr (p\<lparr>pp_channels := m, pp_pollfds := butlast (pp_pollfds p)\<rparr>, h)
      else case m (real_fd (pfd_fd (last (pp_pollfds p)))) of
            None \<Rightarrow> Inl (Undefined ''pollpoller.cpp:124: null Channel*'')
          | Some c2 \<Rightarrow> deref h c2 (\<lambda>ch2.
              Inr (p\<lparr>pp_channels := m, pp_pollfds :=
                       butlast ((pp_pollfds p)[i := pp_pollfds p ! (n - 1), n - 1 := pp_pollfds p ! i])\<rparr>,
                   h(c2 \<mapsto> set_index (int i) ch2))))"
proof -
  note D = pp_chan_okD [OF pp_inv_chan [OF inv hc], unfolded i nat_int, OF of_nat_0_le_iff]
  show ?thesis
    using hc reg none i D(3)
    by (simp add: pp_removeChannel_def isNoneEvent_def kNoneEvent_def Let_def entry_for_def
        cong: option.case_cong)
qed

text \<open>The last entry, and an entry in the middle whose place the last one takes.\<close>

lemma pp_remove_last:
  assumes inv: "pp_inv (p, h)" and hc: "h c = Some ch" and reg: "pp_channels p (ch_fd ch) = Some c"
    and none: "ch_events ch = 0" and i: "ch_index ch = int i" "i < length (pp_pollfds p)"
    and final: "i = length (pp_pollfds p) - 1"
  shows "\<exists>p' h'. pp_remove_destroy (p, h) c = Inr (p', h') \<and> pp_inv (p', h') \<and>
     pp_channels p' = (pp_channels p)(ch_fd ch := None) \<and>
     (\<forall>d dh. h d = Some dh \<and> d \<noteq> c \<longrightarrow> (\<exists>j. h' d = Some (dh\<lparr>ch_index := j\<rparr>))) \<and> 
     (\<forall>d. h d = None \<or> d = c \<longrightarrow> h' d = None)"
proof -
  let ?fds = "butlast (pp_pollfds p)"
  let ?p = "p\<lparr>pp_channels := (pp_channels p)(ch_fd ch := None), pp_pollfds := ?fds\<rparr>"
  have exec: "pp_remove_destroy (p, h) c = Inr (?p, h(c := None))"
    using final pp_remove_exec [OF inv hc reg none i]
    by (simp add: pp_remove_destroy_def erase_channel_def Let_def)
  have oth: "\<exists>j. (h(c := None)) d = Some (dh\<lparr>ch_index := j\<rparr>) \<and>
      (ch_index dh < 0 \<and> j < 0 \<or> 0 \<le> ch_index dh \<and> 0 \<le> j \<and> nat j < length ?fds \<and>
       ?fds ! nat j = pp_pollfds p ! nat (ch_index dh))" if d: "h d = Some dh" "d \<noteq> c" for d dh
  proof (cases "ch_index dh < 0")
    case True
    then show ?thesis using d by (intro exI [of _ "ch_index dh"]) simp
  next
    case False
    then have pos: "0 \<le> ch_index dh" by simp
    have "ch_index dh \<noteq> int i" using pp_index_inj [OF inv d(1) hc] pos i d(2) by auto
    with pp_chan_okD(2) [OF pp_inv_chan [OF inv d(1)] pos] pos final
    have "nat (ch_index dh) < length ?fds" by simp
    then show ?thesis using d pos
      by (intro exI [of _ "ch_index dh"]) (simp add: nth_butlast)
  qed
  have surj: "\<exists>d dh. (h(c := None)) d = Some dh \<and> ch_index dh = int j" if j: "j < length ?fds" for j
  proof -
    from j have "j < length (pp_pollfds p)" by simp
    from pp_inv_entryD [OF inv this] obtain d dh where d: "h d = Some dh" "ch_index dh = int j" by blast
    with hc i(1) final j have "d \<noteq> c" by auto
    with d show ?thesis by (intro exI [of _ d]) simp
  qed
  have "pp_inv (?p, h(c := None))"
    by (rule pp_inv_removed [OF inv hc reg _ _ oth surj]) simp_all
  with exec show ?thesis
    by (intro exI [of _ ?p] exI [of _ "h(c := None)"]) (auto simp: self_index)
qed

text \<open>After the last entry has been moved into the gap at \<open>i\<close> every other channel finds its entry again.\<close>

lemma moved_entries:
  assumes inv: "pp_inv (p, h)" and hc: "h c = Some ch" and i: "ch_index ch = int i" "i < n"
    and c2: "h c2 = Some ch2" "ch_index ch2 = int n" and n: "n = length (pp_pollfds p) - 1" and ne: "c2 \<noteq> c"
    and d: "h d = Some dh" "d \<noteq> c"
  shows "\<exists>j. (h(c2 \<mapsto> ch2\<lparr>ch_index := int i\<rparr>, c := None)) d = Some (dh\<lparr>ch_index := j\<rparr>) \<and>
      (ch_index dh < 0 \<and> j < 0 \<or> 0 \<le> ch_index dh \<and> 0 \<le> j \<and>
       nat j < length (butlast ((pp_pollfds p)[i := pp_pollfds p ! n])) \<and>
       butlast ((pp_pollfds p)[i := pp_pollfds p ! n]) ! nat j = pp_pollfds p ! nat (ch_index dh))"
proof (cases "d = c2")
  case True
  then have "dh = ch2" using d c2(1) by simp
  moreover have "nat (ch_index ch2) = n" "0 \<le> ch_index ch2" unfolding c2(2) by simp_all
  moreover have "butlast ((pp_pollfds p)[i := pp_pollfds p ! n]) ! i = pp_pollfds p ! n"
    using i(2) n by (simp add: nth_butlast)
  ultimately show ?thesis using True ne i(2) n by (intro exI [of _ "int i"]) simp
next
  case other: False
  show ?thesis
  proof (cases "ch_index dh < 0")
    case True
    then show ?thesis using d other by (intro exI [of _ "ch_index dh"]) simp
  next
    case False
    then have pos: "0 \<le> ch_index dh" by simp
    have "ch_index dh \<noteq> int i" using pp_index_inj [OF inv d(1) hc] pos i d(2) by auto
    moreover have "ch_index dh \<noteq> int n"
      using pp_index_inj [OF inv d(1) c2(1)] pos c2(2) other by auto
    moreover have "nat (ch_index dh) < length (pp_pollfds p)"
      using pp_chan_okD(2) [OF pp_inv_chan [OF inv d(1)] pos] .
    ultimately have "nat (ch_index dh) < n" "nat (ch_index dh) \<noteq> i" using pos n by linarith+
    then show ?thesis using d pos other n
      by (intro exI [of _ "ch_index dh"]) (simp add: nth_butlast)
  qed
qed

lemma pp_remove_middle:
  assumes inv: "pp_inv (p, h)" and hc: "h c = Some ch" and reg: "pp_channels p (ch_fd ch) = Some c"
    and none: "ch_events ch = 0" and i: "ch_index ch = int i" "i < length (pp_pollfds p)"
    and final: "i \<noteq> length (pp_pollfds p) - 1"
  shows "\<exists>p' h'. pp_remove_destroy (p, h) c = Inr (p', h') \<and> pp_inv (p', h') \<and>
     pp_channels p' = (pp_channels p)(ch_fd ch := None) \<and>
     (\<forall>d dh. h d = Some dh \<and> d \<noteq> c \<longrightarrow> (\<exists>j. h' d = Some (dh\<lparr>ch_index := j\<rparr>))) \<and> 
     (\<forall>d. h d = None \<or> d = c \<longrightarrow> h' d = None)"
proof -
  let ?n = "length (pp_pollfds p) - 1"
  have n: "?n < length (pp_pollfds p)" and lt: "i < ?n" using i(2) final by linarith+
  obtain c2 ch2 where c2: "h c2 = Some ch2" "ch_index ch2 = int ?n" "pp_channels p (ch_fd ch2) = Some c2"
    "real_fd (pfd_fd (pp_pollfds p ! ?n)) = ch_fd ch2" using inv n by (rule pp_inv_entry)
  have ne: "c2 \<noteq> c" using c2(1,2) hc i(1) lt by auto
  have fdne: "ch_fd ch2 \<noteq> ch_fd ch" using c2(3) reg ne by auto
  let ?fds = "butlast ((pp_pollfds p)[i := pp_pollfds p ! ?n])"
  let ?p = "p\<lparr>pp_channels := (pp_channels p)(ch_fd ch := None), pp_pollfds := ?fds\<rparr>"
  let ?h = "h(c2 \<mapsto> ch2\<lparr>ch_index := int i\<rparr>, c := None)"
  have last: "pfd_fd (last (pp_pollfds p)) = pfd_fd (pp_pollfds p ! ?n)"
    using n by (subst last_conv_nth) auto
  have bl: "butlast ((pp_pollfds p)[i := pp_pollfds p ! ?n, ?n := pp_pollfds p ! i]) = ?fds"
    using n by (simp add: butlast_list_update)
  have exec: "pp_remove_destroy (p, h) c = Inr (?p, ?h)"
    using final c2(1,3,4) fdne pp_remove_exec [OF inv hc reg none i]
    by (simp add: pp_remove_destroy_def erase_channel_def last bl [simplified] set_index_def Let_def)
  note oth = moved_entries [OF inv hc i(1) lt c2(1,2) refl ne]
  have surj: "\<exists>d dh. ?h d = Some dh \<and> ch_index dh = int j" if j: "j < length ?fds" for j
  proof (cases "j = i")
    case True
    then show ?thesis using ne by (intro exI [of _ c2]) simp
  next
    case False
    from j have "j < length (pp_pollfds p)" by simp
    from pp_inv_entryD [OF inv this] obtain d dh where d: "h d = Some dh" "ch_index dh = int j" by blast
    with hc i(1) False have "d \<noteq> c" by auto
    moreover have "d \<noteq> c2" using d c2(1,2) j by auto
    ultimately show ?thesis using d by (intro exI [of _ d]) simp
  qed
  have "pp_inv (?p, ?h)"
    by (rule pp_inv_removed [OF inv hc reg _ _ oth surj]) (use c2(1) in auto)
  with exec c2(1) ne show ?thesis
    by (intro exI [of _ ?p] exI [of _ ?h]) (auto simp: self_index)
qed

lemma pp_remove_law:
  assumes inv: "pp_inv (p, h)" and fd: "fd_of h c = Some fd"
    and reg: "pp_channels p fd = Some c" and quiet: "pp_interest (p, h) fd = None"
  shows "\<exists>p' h'. pp_remove_destroy (p, h) c = Inr (p', h') \<and> pp_inv (p', h') \<and>
     fd_of h' = (fd_of h)(c := None) \<and>
     (pp_channels p', pp_interest (p', h')) = spec_remove fd (pp_channels p, pp_interest (p, h))"
proof -
  obtain ch where hc: "h c = Some ch" and fd': "ch_fd ch = fd"
    using fd by (auto simp: fd_of_def)
  have none: "ch_events ch = 0"
    using quiet reg hc by (simp add: pp_interest_eq [OF inv] nonzero_def split: if_splits)
  have reg': "pp_channels p (ch_fd ch) = Some c" using reg fd' by simp
  obtain i where i: "ch_index ch = int i" "i < length (pp_pollfds p)"
    using pp_inv_reg [OF inv reg] hc by (metis int_nat_eq option.inject)
  obtain p' h' where s: "pp_remove_destroy (p, h) c = Inr (p', h')" and inv': "pp_inv (p', h')"
    and chans: "pp_channels p' = (pp_channels p)(fd := None)"
    and oth: "\<And>d dh. h d = Some dh \<Longrightarrow> d \<noteq> c \<Longrightarrow> \<exists>j. h' d = Some (dh\<lparr>ch_index := j\<rparr>)"
    and gone: "\<And>d. h d = None \<or> d = c \<Longrightarrow> h' d = None"
    using pp_remove_last [OF inv hc reg' none i] pp_remove_middle [OF inv hc reg' none i] fd'
    by (cases "i = length (pp_pollfds p) - 1") blast+
  have "pp_interest (p', h') = (pp_interest (p, h))(fd := nonzero 0)"
  proof (rule pp_interest_upd [OF inv inv' chans])
    fix d dh
    assume "h d = Some dh" "ch_fd dh \<noteq> fd"
    moreover from calculation hc fd' have "d \<noteq> c" by auto
    ultimately show "\<exists>dh'. h' d = Some dh' \<and> ch_events dh' = ch_events dh"
      using oth [of d dh] by auto
  qed simp
  moreover have "fd_of h' d = ((fd_of h)(c := None)) d" for d
    using oth [of d] gone [of d] by (cases "h d") (auto simp: fd_of_def)
  ultimately show ?thesis
    using s inv' chans by (auto simp: spec_remove_def nonzero_def)
qed

interpretation pp: poller_contract pp_inv "\<lambda>s. fd_of (snd s)" "\<lambda>s. pp_channels (fst s)" pp_interest
  pp_set_update pp_remove_destroy
proof
  fix s :: "ppoller \<times> 'a channels" and c fd ev
  assume "pp_inv s" "fd_of (snd s) c = Some fd" "api_events ev"
    "pp_channels (fst s) fd = Some c \<or> pp_channels (fst s) fd = None \<and> ev \<noteq> 0"
  then show "\<exists>s'. pp_set_update s c ev = Inr s' \<and> pp_inv s' \<and> fd_of (snd s') = fd_of (snd s) \<and>
      (pp_channels (fst s'), pp_interest s') = spec_update fd c ev (pp_channels (fst s), pp_interest s)"
    using pp_update_law [of "fst s" "snd s" c fd ev] by auto
next
  fix s :: "ppoller \<times> 'a channels" and c fd
  assume "pp_inv s" "fd_of (snd s) c = Some fd" "pp_channels (fst s) fd = Some c"
    "pp_interest s fd = None"
  then show "\<exists>s'. pp_remove_destroy s c = Inr s' \<and> pp_inv s' \<and>
      fd_of (snd s') = (fd_of (snd s))(c := None) \<and>
      (pp_channels (fst s'), pp_interest s') = spec_remove fd (pp_channels (fst s), pp_interest s)"
    using pp_remove_law [of "fst s" "snd s" c fd] by auto
qed

section \<open>Runs\<close>

lemma pp_inv_fresh:
  assumes "fresh_channels h" and "\<And>c ch. h c = Some ch \<Longrightarrow> 0 \<le> ch_fd ch"
  shows "pp_inv (newPollPoller, h)"
  using assms
  by (auto simp: pp_inv_def newPollPoller_def fresh_channels_def pp_chan_ok_def api_events_def)

lemma pp_fresh_abs:
  "pp_channels newPollPoller = Map.empty" "pp_interest (newPollPoller, h) = Map.empty"
  by (auto simp: newPollPoller_def pp_interest_def fun_eq_iff)

text \<open>
  C13. PollPoller: from a fresh poller and fresh channels on descriptors, every sequence of legal
  calls succeeds (no assertion fails, no null pointer is used), and afterwards the channel map and
  what poll(2) will watch are those of the specification, entry by entry, through all swaps of
  removals.
\<close>

theorem poll_run_refines:
  assumes "fresh_channels h" and "\<And>c ch. h c = Some ch \<Longrightarrow> 0 \<le> ch_fd ch"
    and "legal_ops (fd_of h) (Map.empty, Map.empty) ps"
  shows "\<exists>p' h'. foldRes (poll_exec pp_set_update pp_remove_destroy) ps (newPollPoller, h) = Inr (p', h') \<and>
     (pp_channels p', pp_interest (p', h')) = spec_run (fd_of h) ps (Map.empty, Map.empty)"
  using pp.run_law [of "(newPollPoller, h)" ps] pp_inv_fresh [OF assms(1,2)] assms(3)
  by (auto simp: pp_fresh_abs)

theorem poll_run_refines_witness:
  "\<exists>p' h'. foldRes (poll_exec pp_set_update pp_remove_destroy)
       [PUpdate 1 3, PUpdate 2 7, PUpdate 1 0, PRemove 1]
       (newPollPoller, [1 \<mapsto> newChannel 5 :: unit channel, 2 \<mapsto> newChannel 6]) = Inr (p', h') \<and>
     (pp_channels p', pp_interest (p', h')) =
       spec_run (fd_of [1 \<mapsto> newChannel 5 :: unit channel, 2 \<mapsto> newChannel 6])
         [PUpdate 1 3, PUpdate 2 7, PUpdate 1 0, PRemove 1] (Map.empty, Map.empty)"
  by (rule poll_run_refines)
    (auto simp: fresh_channels_def newChannel_def fd_of_def api_events_def spec_update_def nonzero_def
      split: if_splits)

section \<open>Polling\<close>

text \<open>
  What poll(2) documents: it changes only \<^verbatim>\<open>revents\<close>, ignores entries with a negative descriptor,
  and returns the number of entries with events; the flags it returns fit a positive \<^verbatim>\<open>short\<close>.
\<close>

definition polled :: "pollfd list \<Rightarrow> pollfd list \<Rightarrow> bool" where
  "polled fds fds' \<longleftrightarrow>
     list_all2 (\<lambda>e e'. pfd_fd e' = pfd_fd e \<and> pfd_events e' = pfd_events e \<and>
        0 \<le> sint (pfd_revents e') \<and> (pfd_fd e < 0 \<longrightarrow> pfd_revents e' = 0)) fds fds'"

definition poll_law :: "(pollfd list \<Rightarrow> int + (nat \<times> pollfd list)) \<Rightarrow> bool" where
  "poll_law poll \<longleftrightarrow>
     (\<forall>fds. case poll fds of
        Inl e \<Rightarrow> True
      | Inr (n, fds') \<Rightarrow> polled fds fds' \<and> n = length (filter (\<lambda>e. pfd_revents e \<noteq> 0) fds'))"

lemma poll_lawD:
  assumes "poll_law poll" and "poll fds = Inr (n, fds')"
  shows "polled fds fds'" and "n = length (filter (\<lambda>e. pfd_revents e \<noteq> 0) fds')"
proof -
  have "case poll fds of Inl e \<Rightarrow> True
      | Inr (n, fds') \<Rightarrow> polled fds fds' \<and> n = length (filter (\<lambda>e. pfd_revents e \<noteq> 0) fds')"
    using assms(1) by (simp only: poll_law_def)
  with assms(2) show "polled fds fds'" and "n = length (filter (\<lambda>e. pfd_revents e \<noteq> 0) fds')"
    by simp_all
qed

lemma polled_length: "polled fds fds' \<Longrightarrow> length fds' = length fds"
  by (simp add: polled_def list_all2_lengthD)

lemma polled_nth:
  assumes "polled fds fds'" and "i < length fds"
  shows "pfd_fd (fds' ! i) = pfd_fd (fds ! i)" and "pfd_events (fds' ! i) = pfd_events (fds ! i)"
    and "0 \<le> sint (pfd_revents (fds' ! i))"
    and "pfd_fd (fds ! i) < 0 \<Longrightarrow> pfd_revents (fds' ! i) = 0"
  using assms by (auto simp: polled_def list_all2_conv_all_nth)

lemma pp_inv_polled:
  assumes inv: "pp_inv (p, h)" and polled: "polled (pp_pollfds p) fds'"
  shows "pp_inv (p\<lparr>pp_pollfds := fds'\<rparr>, h)"
proof -
  have "pp_chan_ok (p\<lparr>pp_pollfds := fds'\<rparr>) c ch" if "h c = Some ch" for c ch
    using pp_inv_chan [OF inv that] polled_length [OF polled] polled_nth [OF polled]
    by (auto simp: pp_chan_ok_def entry_for_def)
  then show ?thesis
    using inv polled_length [OF polled] by (simp add: pp_inv_def)
qed

definition ready :: "pollfd \<Rightarrow> bool" where
  "ready e \<longleftrightarrow> 0 < sint (pfd_revents e)"

text \<open>A channel after the entries \<open>es\<close> were delivered to their channels.\<close>

definition delivered :: "channelMap \<Rightarrow> pollfd list \<Rightarrow> nat \<Rightarrow> 'cb channel \<Rightarrow> 'cb channel" where
  "delivered m es c ch =
     (case find (\<lambda>e. ready e \<and> pfd_fd e = ch_fd ch \<and> m (ch_fd ch) = Some c) es of
        None \<Rightarrow> ch
      | Some e \<Rightarrow> set_revents (scast (pfd_revents e)) ch)"

lemma delivered_none: "ch_fd ch \<notin> pfd_fd ` set es \<Longrightarrow> delivered m es c ch = ch"
  by (auto simp: delivered_def find_Some_iff split: option.splits) (metis image_eqI nth_mem)

lemma pp_fill_fold:
  assumes "\<And>e. e \<in> set es \<Longrightarrow> ready e \<Longrightarrow> \<exists>c ch. m (pfd_fd e) = Some c \<and> h c = Some ch \<and>
      ch_fd ch = pfd_fd e"
    and "distinct (map pfd_fd es)"
  shows "\<exists>h'. foldRes (pp_activate m) es (h, active) =
      Inr (h', active @ map (\<lambda>e. the (m (pfd_fd e))) (filter ready es)) \<and>
      (\<forall>c. h' c = map_option (delivered m es c) (h c))"
  using assms
proof (induction es arbitrary: h active)
  case Nil
  then show ?case
    by (auto simp: delivered_def option.map_ident)
next
  case (Cons e es)
  show ?case
  proof (cases "ready e")
    case False
    then have "pp_activate m e (h, active) = Inr (h, active)" "filter ready (e # es) = filter ready es"
      "map_option (delivered m (e # es) c) (h c) = map_option (delivered m es c) (h c)" for c
      by (simp_all add: pp_activate_def ready_def delivered_def option.case_eq_if cong: map_option_cong)
    with Cons.IH [of h active] Cons.prems show ?thesis by simp
  next
    case True
    from Cons.prems(1) [of e] True obtain c ch where
      c: "m (pfd_fd e) = Some c" "h c = Some ch" "ch_fd ch = pfd_fd e" by auto
    define h1 where "h1 = h(c \<mapsto> set_revents (scast (pfd_revents e)) ch)"
    have ok: "\<exists>d dh. m (pfd_fd f) = Some d \<and> h1 d = Some dh \<and> ch_fd dh = pfd_fd f"
      if f: "f \<in> set es" "ready f" for f
    proof -
      from Cons.prems(1) [of f] f obtain d dh where
        "m (pfd_fd f) = Some d" "h d = Some dh" "ch_fd dh = pfd_fd f" by auto
      then show ?thesis using c by (cases "d = c") (auto simp: h1_def set_revents_def)
    qed
    from Cons.IH [where h = h1 and active = "active @ [c]", OF ok] Cons.prems(2) obtain h' where
      h': "foldRes (pp_activate m) es (h1, active @ [c]) =
        Inr (h', (active @ [c]) @ map (\<lambda>e. the (m (pfd_fd e))) (filter ready es))"
      and pt: "\<And>d. h' d = map_option (delivered m es d) (h1 d)" by auto
    have "h' d = map_option (delivered m (e # es) d) (h d)" for d
    proof (cases "d = c")
      case True
      have "delivered m es c (set_revents (scast (pfd_revents e)) ch) =
          set_revents (scast (pfd_revents e)) ch"
        using Cons.prems(2) c(3) by (intro delivered_none) (simp add: set_revents_def)
      then show ?thesis using True c \<open>ready e\<close> pt [of c] by (simp add: h1_def delivered_def)
    next
      case False
      then have "delivered m (e # es) d dh = delivered m es d dh" for dh :: "'a channel"
        using c(1) by (auto simp: delivered_def)
      then show ?thesis using False pt [of d] by (cases "h d") (simp_all add: h1_def)
    qed
    moreover have "pp_activate m e (h, active) = Inr (h1, active @ [c])"
      using True c by (simp add: pp_activate_def ready_def h1_def)
    ultimately show ?thesis using h' c True by (intro exI [of _ h']) (auto simp: fun_eq_iff)
  qed
qed

lemma pp_inv_distinct:
  assumes inv: "pp_inv (p, h)"
  shows "distinct (map pfd_fd (pp_pollfds p))"
proof -
  have "i = j" if ij: "i < length (pp_pollfds p)" "j < length (pp_pollfds p)"
    "pfd_fd (pp_pollfds p ! i) = pfd_fd (pp_pollfds p ! j)" for i j
  proof -
    obtain c ch where c: "h c = Some ch" "ch_index ch = int i" "pp_channels p (ch_fd ch) = Some c"
      "real_fd (pfd_fd (pp_pollfds p ! i)) = ch_fd ch" using inv ij(1) by (rule pp_inv_entry)
    obtain d dh where d: "h d = Some dh" "ch_index dh = int j" "pp_channels p (ch_fd dh) = Some d"
      "real_fd (pfd_fd (pp_pollfds p ! j)) = ch_fd dh" using inv ij(2) by (rule pp_inv_entry)
    from c d ij(3) have "c = d" by simp
    with c d show ?thesis by simp
  qed
  then show ?thesis by (auto simp: distinct_conv_nth)
qed

lemma pp_inv_delivered:
  assumes inv: "pp_inv (p, h)" and h': "\<And>c. h' c = map_option (delivered m es c) (h c)"
  shows "pp_inv (p, h')"
proof -
  have same: "ch_fd (delivered m es c ch) = ch_fd ch" "ch_events (delivered m es c ch) = ch_events ch"
    "ch_index (delivered m es c ch) = ch_index ch" for c and ch :: "'a channel"
    by (auto simp: delivered_def set_revents_def split: option.splits)
  have "pp_chan_ok p c ch'" if "h' c = Some ch'" for c ch'
    using that pp_inv_chan [OF inv, of c] h' [of c]
    by (auto simp: pp_chan_ok_def same entry_for_def)
  moreover have "\<exists>ch. h' c = Some ch \<and> ch_fd ch = fd" if "pp_channels p fd = Some c" for fd c
    using pp_inv_regD [OF inv that] h' [of c] by (auto simp: same)
  moreover have "\<exists>c ch. h' c = Some ch \<and> ch_index ch = int i" if i: "i < length (pp_pollfds p)" for i
  proof -
    from pp_inv_entryD [OF inv i] obtain c ch where "h c = Some ch" "ch_index ch = int i" by blast
    with h' [of c] show ?thesis by (intro exI [of _ c]) (simp add: same)
  qed
  ultimately show ?thesis by (simp add: pp_inv_def)
qed

text \<open>A ready entry belongs to a registered channel of its own descriptor.\<close>

lemma pp_ready_channel:
  assumes inv: "pp_inv (p, h)" and polled: "polled (pp_pollfds p) fds'"
    and e: "e \<in> set fds'" "ready e"
  shows "\<exists>c ch. pp_channels p (pfd_fd e) = Some c \<and> h c = Some ch \<and> ch_fd ch = pfd_fd e"
proof -
  obtain i where i: "i < length (pp_pollfds p)" "e = fds' ! i"
    using e(1) polled_length [OF polled] by (metis in_set_conv_nth)
  have "\<not> pfd_fd (pp_pollfds p ! i) < 0"
    using polled_nth(4) [OF polled i(1)] e(2) i(2) by (auto simp: ready_def)
  moreover obtain c ch where "h c = Some ch" "pp_channels p (ch_fd ch) = Some c"
    "real_fd (pfd_fd (pp_pollfds p ! i)) = ch_fd ch" using inv i(1) by (rule pp_inv_entry)
  ultimately show ?thesis
    using polled_nth(1) [OF polled i(1)] i(2) by (auto simp: real_fd_def)
qed

text \<open>
  \<^verbatim>\<open>PollPoller::poll\<close>: whatever poll(2) returns within its documentation, no assertion of
  \<^verbatim>\<open>fillActiveChannels\<close> fails, exactly the channels with events are appended to the active list in
  the order of the entries, each gets its own events as \<^verbatim>\<open>revents_\<close>, all other channels keep theirs,
  and the poller's invariant is kept.
\<close>

theorem poll_delivers:
  assumes "pp_inv (p, h)" and "poll_law poll" and "poll (pp_pollfds p) = Inr (n, fds')"
  shows "\<exists>h'. pp_poll poll (p, h, active) =
       Inr (p\<lparr>pp_pollfds := fds'\<rparr>, h', active @ map (\<lambda>e. the (pp_channels p (pfd_fd e))) (filter ready fds')) \<and>
     (\<forall>c. h' c = map_option (delivered (pp_channels p) fds' c) (h c)) \<and>
     pp_inv (p\<lparr>pp_pollfds := fds'\<rparr>, h')"
proof -
  have polled: "polled (pp_pollfds p) fds'"
    and n: "n = length (filter (\<lambda>e. pfd_revents e \<noteq> 0) fds')"
    using poll_lawD [OF assms(2,3)] by simp_all
  have inv': "pp_inv (p\<lparr>pp_pollfds := fds'\<rparr>, h)" using assms(1) polled by (rule pp_inv_polled)
  have "distinct (map pfd_fd fds')" using pp_inv_distinct [OF inv'] by simp
  from pp_fill_fold [OF pp_ready_channel [OF assms(1) polled] this, of active] obtain h' where
    h': "foldRes (pp_activate (pp_channels p)) fds' (h, active) =
      Inr (h', active @ map (\<lambda>e. the (pp_channels p (pfd_fd e))) (filter ready fds'))"
    "\<And>c. h' c = map_option (delivered (pp_channels p) fds' c) (h c)" by auto
  have idle: "filter ready fds' = []" "h' = h" if "n = 0"
  proof -
    have "\<not> ready e" if "e \<in> set fds'" for e
      using n \<open>n = 0\<close> that by (auto simp: ready_def filter_empty_conv)
    then show "filter ready fds' = []" by (simp add: filter_empty_conv)
    have "delivered (pp_channels p) fds' c ch = ch" for c and ch :: "'a channel"
      using \<open>\<And>e. e \<in> set fds' \<Longrightarrow> \<not> ready e\<close>
      by (auto simp: delivered_def find_Some_iff split: option.splits)
    then have "h' c = h c" for c using h'(2) [of c] by (cases "h c") simp_all
    then show "h' = h" ..
  qed
  have "pp_inv (p\<lparr>pp_pollfds := fds'\<rparr>, h')" using inv' h'(2) by (rule pp_inv_delivered)
  with h'(2) show ?thesis
    using assms(3) h'(1) idle
    by (intro exI [of _ h'], cases "n = 0") (simp_all add: pp_poll_def pp_fillActiveChannels_def)
qed

text \<open>A concrete kernel: descriptor 6 is readable and writable.\<close>

definition demo_poll :: "pollfd list \<Rightarrow> int + (nat \<times> pollfd list)" where
  "demo_poll fds =
     (let fds' = map (\<lambda>e. e\<lparr>pfd_revents := if pfd_fd e = 6 then 5 else 0\<rparr>) fds
      in Inr (length (filter (\<lambda>e. pfd_revents e \<noteq> 0) fds'), fds'))"

lemma demo_poll_law: "poll_law demo_poll"
  by (auto simp: poll_law_def demo_poll_def Let_def polled_def list_all2_conv_all_nth)

definition demo_ppoller :: ppoller where
  "demo_ppoller = \<lparr>pp_channels = [5 \<mapsto> 1, 6 \<mapsto> 2],
     pp_pollfds = [\<lparr>pfd_fd = 5, pfd_events = 3, pfd_revents = 0\<rparr>,
                   \<lparr>pfd_fd = 6, pfd_events = 7, pfd_revents = 0\<rparr>]\<rparr>"

definition demo_pchannels :: "unit channels" where
  "demo_pchannels = [1 \<mapsto> (newChannel 5)\<lparr>ch_events := 3, ch_index := 0\<rparr>,
                     2 \<mapsto> (newChannel 6)\<lparr>ch_events := 7, ch_index := 1\<rparr>]"

lemma demo_pp_inv: "pp_inv (demo_ppoller, demo_pchannels)"
proof -
  have "pp_chan_ok demo_ppoller c ch" if "demo_pchannels c = Some ch" for c ch
    using that
    by (auto simp: demo_ppoller_def demo_pchannels_def newChannel_def pp_chan_ok_def entry_for_def
        api_events_def split: if_splits)
  moreover have "\<exists>ch. demo_pchannels c = Some ch \<and> ch_fd ch = fd"
    if "pp_channels demo_ppoller fd = Some c" for fd c
    using that by (auto simp: demo_ppoller_def demo_pchannels_def newChannel_def split: if_splits)
  moreover have "\<exists>c ch. demo_pchannels c = Some ch \<and> ch_index ch = int i"
    if "i < length (pp_pollfds demo_ppoller)" for i
  proof -
    have "i = 0 \<or> i = 1" using that by (auto simp: demo_ppoller_def less_Suc_eq)
    then show ?thesis
      by (intro exI [of _ "Suc i"]) (auto simp: demo_pchannels_def newChannel_def)
  qed
  ultimately show ?thesis by (simp add: pp_inv_def)
qed

theorem poll_delivers_witness:
  "\<exists>h'. pp_poll demo_poll (demo_ppoller, demo_pchannels, []) =
     Inr (demo_ppoller\<lparr>pp_pollfds := [\<lparr>pfd_fd = 5, pfd_events = 3, pfd_revents = 0\<rparr>,
            \<lparr>pfd_fd = 6, pfd_events = 7, pfd_revents = 5\<rparr>]\<rparr>, h', [2]) \<and>
     map_option ch_revents (h' 2) = Some 5"
proof -
  let ?fds = "[\<lparr>pfd_fd = 5, pfd_events = 3, pfd_revents = 0\<rparr>,
            \<lparr>pfd_fd = 6, pfd_events = 7, pfd_revents = 5\<rparr>]"
  have "demo_poll (pp_pollfds demo_ppoller) = Inr (1, ?fds)"
    by (simp add: demo_poll_def demo_ppoller_def)
  from poll_delivers [OF demo_pp_inv demo_poll_law this, of "[]"] show ?thesis
    by (auto simp: ready_def demo_ppoller_def demo_pchannels_def delivered_def newChannel_def
        set_revents_def)
qed

end
