(* ===== verification/Kaycc_EventLoop.thy ===== *)
theory Kaycc_EventLoop
  imports Kaycc_EPollPoller Kaycc_PollPoller
begin

text \<open>
  EventLoop (net/eventloop.h, .cpp) as sequential operations on one state, with the operations of
  Channel that go through the loop to the poller (\<^verbatim>\<open>update\<close>, \<^verbatim>\<open>remove\<close>, \<^verbatim>\<open>enableReading\<close> and its
  siblings, the destructor). The loop owns its poller, one of the two kinds; all channels of the
  loop live in \<open>el_channels\<close>. Functors and channel callbacks are values of type parameters, run by
  arguments. What the kernel reports to \<^verbatim>\<open>poll\<close> in each iteration is an argument. \<open>inLoop\<close> is the
  value of \<^verbatim>\<open>isInLoopThread()\<close> for the calling thread. How operations of other threads interleave
  with the loop is the subject of the theory of loop steps.
\<close>

section \<open>State\<close>

datatype poller = EPoll epoller | PPoll ppoller

text \<open>\<^verbatim>\<open>Poller::newDefaultPoller\<close>: the environment variable \<^verbatim>\<open>MUDUO_USE_POLL\<close> decides.\<close>

definition newDefaultPoller :: "bool \<Rightarrow> poller" where
  "newDefaultPoller use_poll = (if use_poll then PPoll newPollPoller else EPoll newEPollPoller)"

record ('f, 'cb) loop =
  el_looping :: bool
  el_quit :: bool
  el_eventHandling :: bool
  el_callingPending :: bool        \<comment> \<open>\<^verbatim>\<open>callingPendingFunctors_\<close>\<close>
  el_iteration :: nat
  el_poller :: poller
  el_channels :: "'cb channels"
  el_active :: "nat list"          \<comment> \<open>\<^verbatim>\<open>activeChannels_\<close>\<close>
  el_current :: "nat option"       \<comment> \<open>\<^verbatim>\<open>currentActiveChannel_\<close>\<close>
  el_pending :: "'f list"          \<comment> \<open>\<^verbatim>\<open>pendingFunctors_\<close>\<close>
  el_wakeups :: nat                \<comment> \<open>writes to \<^verbatim>\<open>wakeupFd_\<close> so far\<close>

section \<open>Channels of a loop\<close>

fun poller_updateChannel ::
    "bool \<Rightarrow> nat \<Rightarrow> poller \<times> 'cb channels \<Rightarrow> (poller \<times> 'cb channels) res" where
  "poller_updateChannel inLoop c (EPoll p, h) =
     andThen (ep_updateChannel inLoop c (p, h)) (\<lambda>(p', h'). Inr (EPoll p', h'))"
| "poller_updateChannel inLoop c (PPoll p, h) =
     andThen (pp_updateChannel inLoop c (p, h)) (\<lambda>(p', h'). Inr (PPoll p', h'))"

fun poller_removeChannel ::
    "bool \<Rightarrow> nat \<Rightarrow> poller \<times> 'cb channels \<Rightarrow> (poller \<times> 'cb channels) res" where
  "poller_removeChannel inLoop c (EPoll p, h) =
     andThen (ep_removeChannel inLoop c (p, h)) (\<lambda>(p', h'). Inr (EPoll p', h'))"
| "poller_removeChannel inLoop c (PPoll p, h) =
     andThen (pp_removeChannel inLoop c (p, h)) (\<lambda>(p', h'). Inr (PPoll p', h'))"

fun poller_channels :: "poller \<Rightarrow> channelMap" where
  "poller_channels (EPoll p) = ep_channels p"
| "poller_channels (PPoll p) = pp_channels p"

definition with_poller :: "('f, 'cb) loop \<Rightarrow> (poller \<times> 'cb channels) res \<Rightarrow> ('f, 'cb) loop res" where
  "with_poller s r = andThen r (\<lambda>(p, h). Inr (s\<lparr>el_poller := p, el_channels := h\<rparr>))"

definition el_updateChannel :: "bool \<Rightarrow> nat \<Rightarrow> ('f, 'cb) loop \<Rightarrow> ('f, 'cb) loop res" where
  "el_updateChannel inLoop c s =
     assertInLoopThread inLoop (
     with_poller s (poller_updateChannel inLoop c (el_poller s, el_channels s)))"

definition el_removeChannel :: "bool \<Rightarrow> nat \<Rightarrow> ('f, 'cb) loop \<Rightarrow> ('f, 'cb) loop res" where
  "el_removeChannel inLoop c s =
     assertInLoopThread inLoop (
     check (el_eventHandling s \<longrightarrow> el_current s = Some c \<or> c \<notin> set (el_active s)) ''eventloop.cpp:260'' (
     with_poller s (poller_removeChannel inLoop c (el_poller s, el_channels s))))"

definition el_hasChannel :: "bool \<Rightarrow> nat \<Rightarrow> ('f, 'cb) loop \<Rightarrow> bool res" where
  "el_hasChannel inLoop c s =
     assertInLoopThread inLoop (hasChannel inLoop (poller_channels (el_poller s)) (el_channels s) c)"

definition chan_at :: "('f, 'cb) loop \<Rightarrow> nat \<Rightarrow> ('cb channel \<Rightarrow> 'a res) \<Rightarrow> 'a res" where
  "chan_at s c = deref (el_channels s) c"

definition put_chan :: "nat \<Rightarrow> 'cb channel \<Rightarrow> ('f, 'cb) loop \<Rightarrow> ('f, 'cb) loop" where
  "put_chan c ch s = s\<lparr>el_channels := (el_channels s)(c \<mapsto> ch)\<rparr>"

definition channel_update :: "bool \<Rightarrow> nat \<Rightarrow> ('f, 'cb) loop \<Rightarrow> ('f, 'cb) loop res" where
  "channel_update inLoop c s =
     chan_at s c (\<lambda>ch. el_updateChannel inLoop c (put_chan c (ch\<lparr>ch_addedToLoop := True\<rparr>) s))"

definition channel_remove :: "bool \<Rightarrow> nat \<Rightarrow> ('f, 'cb) loop \<Rightarrow> ('f, 'cb) loop res" where
  "channel_remove inLoop c s =
     chan_at s c (\<lambda>ch.
     check (isNoneEvent ch) ''channel.cpp:53'' (
     el_removeChannel inLoop c (put_chan c (ch\<lparr>ch_addedToLoop := False\<rparr>) s)))"

text \<open>\<^verbatim>\<open>enableReading()\<close> and its siblings: a new value of \<^verbatim>\<open>events_\<close>, then \<^verbatim>\<open>update()\<close>.\<close>

definition channel_set ::
    "(32 word \<Rightarrow> 32 word) \<Rightarrow> bool \<Rightarrow> nat \<Rightarrow> ('f, 'cb) loop \<Rightarrow> ('f, 'cb) loop res" where
  "channel_set f inLoop c s =
     chan_at s c (\<lambda>ch. channel_update inLoop c (put_chan c (ch\<lparr>ch_events := f (ch_events ch)\<rparr>) s))"

definition enableReading :: "bool \<Rightarrow> nat \<Rightarrow> ('f, 'cb) loop \<Rightarrow> ('f, 'cb) loop res" where
  "enableReading = channel_set ev_enableReading"

definition disableReading :: "bool \<Rightarrow> nat \<Rightarrow> ('f, 'cb) loop \<Rightarrow> ('f, 'cb) loop res" where
  "disableReading = channel_set ev_disableReading"

definition enableWriting :: "bool \<Rightarrow> nat \<Rightarrow> ('f, 'cb) loop \<Rightarrow> ('f, 'cb) loop res" where
  "enableWriting = channel_set ev_enableWriting"

definition disableWriting :: "bool \<Rightarrow> nat \<Rightarrow> ('f, 'cb) loop \<Rightarrow> ('f, 'cb) loop res" where
  "disableWriting = channel_set ev_disableWriting"

definition disableAll :: "bool \<Rightarrow> nat \<Rightarrow> ('f, 'cb) loop \<Rightarrow> ('f, 'cb) loop res" where
  "disableAll = channel_set ev_disableAll"

lemmas channel_ops = enableReading_def disableReading_def enableWriting_def disableWriting_def
  disableAll_def

definition destroyChannel :: "bool \<Rightarrow> nat \<Rightarrow> ('f, 'cb) loop \<Rightarrow> ('f, 'cb) loop res" where
  "destroyChannel inLoop c s =
     chan_at s c (\<lambda>ch.
     check (\<not> ch_eventHandling ch) ''channel.cpp:33'' (
     check (\<not> ch_addedToLoop ch) ''channel.cpp:34'' (
     andThen (if inLoop then el_hasChannel inLoop c s else Inr False) (\<lambda>has.
     check (\<not> has) ''channel.cpp:37'' (
     Inr (s\<lparr>el_channels := (el_channels s)(c := None)\<rparr>))))))"

section \<open>Functors\<close>

definition wakeup :: "('f, 'cb) loop \<Rightarrow> ('f, 'cb) loop" where
  "wakeup s = s\<lparr>el_wakeups := Suc (el_wakeups s)\<rparr>"

definition quit :: "bool \<Rightarrow> ('f, 'cb) loop \<Rightarrow> ('f, 'cb) loop" where
  "quit inLoop s = (let s1 = s\<lparr>el_quit := True\<rparr> in if \<not> inLoop then wakeup s1 else s1)"

definition queueInLoop :: "bool \<Rightarrow> 'f \<Rightarrow> ('f, 'cb) loop \<Rightarrow> ('f, 'cb) loop" where
  "queueInLoop inLoop cb s =
     (let s1 = s\<lparr>el_pending := el_pending s @ [cb]\<rparr>
      in if \<not> inLoop \<or> el_callingPending s1 then wakeup s1 else s1)"

definition runInLoop ::
    "('f \<Rightarrow> ('f, 'cb) loop \<Rightarrow> ('f, 'cb) loop res) \<Rightarrow> bool \<Rightarrow> 'f \<Rightarrow> ('f, 'cb) loop \<Rightarrow> ('f, 'cb) loop res" where
  "runInLoop runf inLoop cb s = (if inLoop then runf cb s else Inr (queueInLoop inLoop cb s))"

definition queueSize :: "('f, 'cb) loop \<Rightarrow> nat" where
  "queueSize s = length (el_pending s)"

definition doPendingFunctors ::
    "('f \<Rightarrow> ('f, 'cb) loop \<Rightarrow> ('f, 'cb) loop res) \<Rightarrow> ('f, 'cb) loop \<Rightarrow> ('f, 'cb) loop res" where
  "doPendingFunctors runf s =
     (let s1 = s\<lparr>el_callingPending := True\<rparr>;
          functors = el_pending s1;
          s2 = s1\<lparr>el_pending := []\<rparr>
      in andThen (foldRes runf functors s2) (\<lambda>s3. Inr (s3\<lparr>el_callingPending := False\<rparr>)))"

section \<open>The loop\<close>

text \<open>The answers of the kernel to the poll of one iteration.\<close>

record kernel =
  k_wait :: "int \<Rightarrow> int + (32 word \<times> nat) list"
  k_poll :: "pollfd list \<Rightarrow> int + (nat \<times> pollfd list)"

fun poller_poll ::
    "kernel \<Rightarrow> poller \<times> 'cb channels \<times> nat list \<Rightarrow> (poller \<times> 'cb channels \<times> nat list) res" where
  "poller_poll k (EPoll p, h, active) =
     andThen (ep_poll (k_wait k) (p, h, active)) (\<lambda>(p', h', active'). Inr (EPoll p', h', active'))"
| "poller_poll k (PPoll p, h, active) =
     andThen (pp_poll (k_poll k) (p, h, active)) (\<lambda>(p', h', active'). Inr (PPoll p', h', active'))"

text \<open>
  \<^verbatim>\<open>Channel::handleEvent\<close> on a channel of the loop. The handler goes on reading the channel after a
  callback, so a callback that destroyed it makes the rest undefined.
\<close>

definition dispatch ::
    "(nat \<Rightarrow> ('f, 'cb) loop \<Rightarrow> bool) \<Rightarrow> ('cb \<Rightarrow> ('f, 'cb) loop \<Rightarrow> ('f, 'cb) loop res) \<Rightarrow> nat \<Rightarrow>
     ('f, 'cb) loop \<Rightarrow> ('f, 'cb) loop res" where
  "dispatch alive run c s =
     chan_at s c (\<lambda>_.
     handleEvent alive
       (\<lambda>cb s. andThen (run cb s) (\<lambda>s'. chan_at s' c (\<lambda>_. Inr s')))
       (\<lambda>s. the (el_channels s c)) (put_chan c) s)"

definition loop_body ::
    "(nat \<Rightarrow> ('f, 'cb) loop \<Rightarrow> bool) \<Rightarrow> ('cb \<Rightarrow> ('f, 'cb) loop \<Rightarrow> ('f, 'cb) loop res) \<Rightarrow>
     ('f \<Rightarrow> ('f, 'cb) loop \<Rightarrow> ('f, 'cb) loop res) \<Rightarrow> (nat \<Rightarrow> kernel) \<Rightarrow>
     ('f, 'cb) loop \<Rightarrow> ('f, 'cb) loop res" where
  "loop_body alive run runf kern s =
     (let s0 = s\<lparr>el_active := []\<rparr>
      in andThen (poller_poll (kern (el_iteration s0)) (el_poller s0, el_channels s0, el_active s0))
         (\<lambda>(p, h, active).
     let s1 = s0\<lparr>el_poller := p, el_channels := h, el_active := active,
                 el_iteration := Suc (el_iteration s0), el_eventHandling := True\<rparr>
     in andThen (foldRes (\<lambda>c s. dispatch alive run c (s\<lparr>el_current := Some c\<rparr>)) active s1) (\<lambda>s2.
     doPendingFunctors runf (s2\<lparr>el_current := None, el_eventHandling := False\<rparr>))))"

text \<open>\<open>None\<close>: the loop is still running after \<open>fuel\<close> iterations.\<close>

fun loop_while ::
    "(('f, 'cb) loop \<Rightarrow> ('f, 'cb) loop res) \<Rightarrow> nat \<Rightarrow> ('f, 'cb) loop \<Rightarrow> ('f, 'cb) loop res option" where
  "loop_while body fuel s =
     (if el_quit s then Some (Inr s)
      else case fuel of
             0 \<Rightarrow> None
           | Suc n \<Rightarrow> (case body s of Inl e \<Rightarrow> Some (Inl e) | Inr s' \<Rightarrow> loop_while body n s'))"

declare loop_while.simps [simp del]

definition el_loop ::
    "(nat \<Rightarrow> ('f, 'cb) loop \<Rightarrow> bool) \<Rightarrow> ('cb \<Rightarrow> ('f, 'cb) loop \<Rightarrow> ('f, 'cb) loop res) \<Rightarrow>
     ('f \<Rightarrow> ('f, 'cb) loop \<Rightarrow> ('f, 'cb) loop res) \<Rightarrow> (nat \<Rightarrow> kernel) \<Rightarrow> nat \<Rightarrow> bool \<Rightarrow>
     ('f, 'cb) loop \<Rightarrow> ('f, 'cb) loop res option" where
  "el_loop alive run runf kern fuel inLoop s =
     (if el_looping s then Some (Inl (Assertion ''eventloop.cpp:104''))
      else if \<not> inLoop then Some (Inl (Aborted ''EventLoop::abortNotInLoopThread''))
      else map_option (\<lambda>r. andThen r (\<lambda>s'. Inr (s'\<lparr>el_looping := False\<rparr>)))
             (loop_while (loop_body alive run runf kern) fuel (s\<lparr>el_looping := True, el_quit := False\<rparr>)))"

text \<open>
  The constructor, with the wakeup channel at address \<open>wc\<close> on descriptor \<open>wfd\<close> and the channel of
  the TimerQueue at \<open>tc\<close> on \<open>tfd\<close>; both are registered for reading. \<open>wcb\<close> and \<open>tcb\<close> are the bound
  member functions.
\<close>

definition newEventLoop ::
    "bool \<Rightarrow> nat \<times> int \<times> 'cb \<Rightarrow> nat \<times> int \<times> 'cb \<Rightarrow> ('f, 'cb) loop res" where
  "newEventLoop use_poll = (\<lambda>(tc, tfd, tcb) (wc, wfd, wcb).
     let s = \<lparr>el_looping = False, el_quit = False, el_eventHandling = False, el_callingPending = False,
              el_iteration = 0, el_poller = newDefaultPoller use_poll,
              el_channels = Map.empty, el_active = [],
              el_current = None, el_pending = [], el_wakeups = 0\<rparr>
     in andThen (enableReading True tc (put_chan tc (setReadCallback tcb (newChannel tfd)) s)) (\<lambda>s1.
        enableReading True wc (put_chan wc (setReadCallback wcb (newChannel wfd)) s1)))"

text \<open>
  The destructor: the wakeup channel is removed, then the members are destroyed in reverse order:
  \<^verbatim>\<open>wakeupChannel_\<close>, and with \<^verbatim>\<open>timerQueue_\<close> its channel.
\<close>

definition destroyEventLoop :: "nat \<Rightarrow> nat \<Rightarrow> ('f, 'cb) loop \<Rightarrow> ('f, 'cb) loop res" where
  "destroyEventLoop tc wc s =
     andThen (disableAll True wc s) (\<lambda>s.
     andThen (channel_remove True wc s) (\<lambda>s.
     andThen (destroyChannel True wc s) (\<lambda>s.
     andThen (disableAll True tc s) (\<lambda>s.
     andThen (channel_remove True tc s) (\<lambda>s. destroyChannel True tc s)))))"

section \<open>The invariant of a loop\<close>

text \<open>The pollers look only at the descriptor, the events and the index of a channel.\<close>

definition core :: "'cb channel \<Rightarrow> int \<times> 32 word \<times> int" where
  "core ch = (ch_fd ch, ch_events ch, ch_index ch)"

definition same_core :: "'cb channels \<Rightarrow> 'cb channels \<Rightarrow> bool" where
  "same_core h h' \<longleftrightarrow> (\<forall>d. map_option core (h d) = map_option core (h' d))"

lemma same_coreD:
  assumes "same_core h h'" and "h d = Some ch"
  obtains ch' where "h' d = Some ch'" and "ch_fd ch' = ch_fd ch" and "ch_events ch' = ch_events ch"
    and "ch_index ch' = ch_index ch"
proof -
  have "map_option core (h' d) = Some (core ch)"
    using assms by (metis option.simps(9) same_core_def)
  with that show thesis by (auto simp: core_def)
qed

lemma same_core_sym: "same_core h h' \<Longrightarrow> same_core h' h"
  by (simp add: same_core_def)

lemma same_core_upd: "h c = Some ch \<Longrightarrow> core ch' = core ch \<Longrightarrow> same_core h (h(c \<mapsto> ch'))"
  by (simp add: same_core_def)

lemma ep_inv_core:
  assumes inv: "ep_inv (p, h)" and same: "same_core h h'"
  shows "ep_inv (p, h')"
proof -
  have "ep_chan_ok p c ch'" if "h' c = Some ch'" for c ch'
    using same_coreD [OF same_core_sym [OF same] that] ep_inv_chan [OF inv, of c]
    unfolding ep_chan_ok_def by metis
  moreover have "\<exists>ch'. h' c = Some ch' \<and> ch_fd ch' = fd" if "ep_channels p fd = Some c" for fd c
    using ep_inv_regD [OF inv that] same_coreD [OF same] by metis
  ultimately show ?thesis using inv by (simp add: ep_inv_def)
qed

lemma pp_inv_core:
  assumes inv: "pp_inv (p, h)" and same: "same_core h h'"
  shows "pp_inv (p, h')"
proof -
  have "pp_chan_ok p c ch'" if "h' c = Some ch'" for c ch'
    using same_coreD [OF same_core_sym [OF same] that] pp_inv_chan [OF inv, of c]
    unfolding pp_chan_ok_def entry_for_def by metis
  moreover have "\<exists>ch'. h' c = Some ch' \<and> ch_fd ch' = fd" if "pp_channels p fd = Some c" for fd c
    using pp_inv_regD [OF inv that] same_coreD [OF same] by metis
  moreover have "\<exists>c ch'. h' c = Some ch' \<and> ch_index ch' = int i" if "i < length (pp_pollfds p)" for i
    using pp_inv_entryD [OF inv that] same_coreD [OF same] by metis
  ultimately show ?thesis by (simp add: pp_inv_def)
qed

fun poller_inv :: "poller \<times> 'cb channels \<Rightarrow> bool" where
  "poller_inv (EPoll p, h) = ep_inv (p, h)"
| "poller_inv (PPoll p, h) = pp_inv (p, h)"

fun poller_interest :: "poller \<times> 'cb channels \<Rightarrow> int \<rightharpoonup> 32 word" where
  "poller_interest (EPoll p, h) = ep_interest (p, h)"
| "poller_interest (PPoll p, h) = pp_interest (p, h)"

lemma poller_inv_core: "poller_inv (p, h) \<Longrightarrow> same_core h h' \<Longrightarrow> poller_inv (p, h')"
  by (cases p) (auto intro: ep_inv_core pp_inv_core)

lemma poller_inv_upd:
  "poller_inv (p, h) \<Longrightarrow> h c = Some ch \<Longrightarrow> core ch' = core ch \<Longrightarrow> poller_inv (p, h(c \<mapsto> ch'))"
  using poller_inv_core same_core_upd by blast

lemma poller_interest_core: "poller_interest (p, h) = poller_interest (p, h')"
  by (cases p) (simp_all add: ep_interest_def pp_interest_def)

definition poller_set_update ::
    "poller \<times> 'cb channels \<Rightarrow> nat \<Rightarrow> 32 word \<Rightarrow> (poller \<times> 'cb channels) res" where
  "poller_set_update = (\<lambda>(p, h) c ev.
     deref h c (\<lambda>ch. poller_updateChannel True c (p, h(c \<mapsto> ch\<lparr>ch_events := ev\<rparr>))))"

definition poller_remove_destroy ::
    "poller \<times> 'cb channels \<Rightarrow> nat \<Rightarrow> (poller \<times> 'cb channels) res" where
  "poller_remove_destroy s c = andThen (poller_removeChannel True c s) (\<lambda>s1. Inr (erase_channel c s1))"

text \<open>A loop's poller, whichever kind it is, keeps the contract of the pollers.\<close>

interpretation lp: poller_contract poller_inv "\<lambda>s. fd_of (snd s)" "\<lambda>s. poller_channels (fst s)"
  poller_interest poller_set_update poller_remove_destroy
proof
  fix s :: "poller \<times> 'a channels" and c fd ev
  assume a: "poller_inv s" "fd_of (snd s) c = Some fd" "api_events ev"
    "poller_channels (fst s) fd = Some c \<or> poller_channels (fst s) fd = None \<and> ev \<noteq> 0"
  obtain h where h: "snd s = h" by simp
  show "\<exists>s'. poller_set_update s c ev = Inr s' \<and> poller_inv s' \<and> fd_of (snd s') = fd_of (snd s) \<and>
      (poller_channels (fst s'), poller_interest s') =
        spec_update fd c ev (poller_channels (fst s), poller_interest s)"
  proof (cases "fst s")
    case (EPoll p)
    then have s: "s = (EPoll p, h)" using h by (simp add: prod_eq_iff)
    obtain p' h' where *: "ep_set_update (p, h) c ev = Inr (p', h')" "ep_inv (p', h')" "fd_of h' = fd_of h"
      "(ep_channels p', ep_interest (p', h')) = spec_update fd c ev (ep_channels p, ep_interest (p, h))"
      using ep_update_law [of p h c fd ev] a by (auto simp: s)
    then have "poller_set_update s c ev = Inr (EPoll p', h')"
      using a(2) by (auto simp: s poller_set_update_def ep_set_update_def fd_of_def)
    with * show ?thesis by (simp add: s)
  next
    case (PPoll p)
    then have s: "s = (PPoll p, h)" using h by (simp add: prod_eq_iff)
    obtain p' h' where *: "pp_set_update (p, h) c ev = Inr (p', h')" "pp_inv (p', h')" "fd_of h' = fd_of h"
      "(pp_channels p', pp_interest (p', h')) = spec_update fd c ev (pp_channels p, pp_interest (p, h))"
      using pp_update_law [of p h c fd ev] a by (auto simp: s)
    then have "poller_set_update s c ev = Inr (PPoll p', h')"
      using a(2) by (auto simp: s poller_set_update_def pp_set_update_def fd_of_def)
    with * show ?thesis by (simp add: s)
  qed
next
  fix s :: "poller \<times> 'a channels" and c fd
  assume a: "poller_inv s" "fd_of (snd s) c = Some fd" "poller_channels (fst s) fd = Some c"
    "poller_interest s fd = None"
  obtain h where h: "snd s = h" by simp
  show "\<exists>s'. poller_remove_destroy s c = Inr s' \<and> poller_inv s' \<and>
      fd_of (snd s') = (fd_of (snd s))(c := None) \<and>
      (poller_channels (fst s'), poller_interest s') =
        spec_remove fd (poller_channels (fst s), poller_interest s)"
  proof (cases "fst s")
    case (EPoll p)
    then have s: "s = (EPoll p, h)" using h by (simp add: prod_eq_iff)
    obtain p' h' where *: "ep_remove_destroy (p, h) c = Inr (p', h')" "ep_inv (p', h')"
      "fd_of h' = (fd_of h)(c := None)"
      "(ep_channels p', ep_interest (p', h')) = spec_remove fd (ep_channels p, ep_interest (p, h))"
      using ep_remove_law [of p h c fd] a by (auto simp: s)
    then have "poller_remove_destroy s c = Inr (EPoll p', h')"
      by (auto simp: s poller_remove_destroy_def ep_remove_destroy_def erase_channel_def andThen_Inr_iff)
    with * show ?thesis by (simp add: s)
  next
    case (PPoll p)
    then have s: "s = (PPoll p, h)" using h by (simp add: prod_eq_iff)
    obtain p' h' where *: "pp_remove_destroy (p, h) c = Inr (p', h')" "pp_inv (p', h')"
      "fd_of h' = (fd_of h)(c := None)"
      "(pp_channels p', pp_interest (p', h')) = spec_remove fd (pp_channels p, pp_interest (p, h))"
      using pp_remove_law [of p h c fd] a by (auto simp: s)
    then have "poller_remove_destroy s c = Inr (PPoll p', h')"
      by (auto simp: s poller_remove_destroy_def pp_remove_destroy_def erase_channel_def andThen_Inr_iff)
    with * show ?thesis by (simp add: s)
  qed
qed

definition el_inv :: "('f, 'cb) loop \<Rightarrow> bool" where
  "el_inv s \<longleftrightarrow> poller_inv (el_poller s, el_channels s)"

definition el_reg :: "('f, 'cb) loop \<Rightarrow> channelMap" where
  "el_reg s = poller_channels (el_poller s)"

definition el_interest :: "('f, 'cb) loop \<Rightarrow> int \<rightharpoonup> 32 word" where
  "el_interest s = poller_interest (el_poller s, el_channels s)"

text \<open>Updating writes nothing but the index of the channel itself.\<close>

lemma self_chan: "h c = Some ch \<Longrightarrow> \<exists>i. h = h(c \<mapsto> ch\<lparr>ch_index := i\<rparr>)"
  by (rule exI [of _ "ch_index ch"]) auto

lemma ep_update_frame:
  assumes "ep_updateChannel b c (p, h) = Inr (p', h')" and "h c = Some ch"
  shows "\<exists>i. h' = h(c \<mapsto> ch\<lparr>ch_index := i\<rparr>)"
  using assms
  by (auto simp: ep_updateChannel_def assertInLoopThread_def check_def Let_def set_index_def
      intro: self_chan split: if_splits)

lemma pp_update_frame:
  assumes "pp_updateChannel b c (p, h) = Inr (p', h')" and "h c = Some ch"
  shows "\<exists>i. h' = h(c \<mapsto> ch\<lparr>ch_index := i\<rparr>)"
  using assms
  by (auto simp: pp_updateChannel_def assertInLoopThread_def check_def Let_def set_index_def
      intro: self_chan split: if_splits)

lemma poller_update_frame:
  assumes "poller_updateChannel b c (p, h) = Inr (p', h')" and "h c = Some ch"
  shows "\<exists>i. h' = h(c \<mapsto> ch\<lparr>ch_index := i\<rparr>)"
  using assms by (cases p) (auto simp: andThen_Inr_iff dest: ep_update_frame pp_update_frame)

text \<open>What the callers of \<^verbatim>\<open>enableReading()\<close> and its siblings rely on.\<close>

lemma channel_set_ok:
  assumes inv: "el_inv s" and ch: "el_channels s c = Some ch" and ev: "api_events (f (ch_events ch))"
    and pre: "el_reg s (ch_fd ch) = Some c \<or> el_reg s (ch_fd ch) = None \<and> f (ch_events ch) \<noteq> 0"
  shows "\<exists>p i. channel_set f True c s =
       Inr (s\<lparr>el_poller := p, el_channels := (el_channels s)
         (c \<mapsto> ch\<lparr>ch_events := f (ch_events ch), ch_addedToLoop := True, ch_index := i\<rparr>)\<rparr>) \<and>
     poller_inv (p, (el_channels s)
         (c \<mapsto> ch\<lparr>ch_events := f (ch_events ch), ch_addedToLoop := True, ch_index := i\<rparr>)) \<and>
     poller_channels p = (el_reg s)(ch_fd ch \<mapsto> c) \<and>
     poller_interest (p, el_channels s) = (el_interest s)(ch_fd ch := nonzero (f (ch_events ch)))"
proof -
  let ?ev = "f (ch_events ch)" and ?h = "el_channels s" and ?p = "el_poller s"
  let ?h1 = "?h(c \<mapsto> ch\<lparr>ch_addedToLoop := True\<rparr>)"
  have inv1: "poller_inv (?p, ?h1)"
    using inv ch by (intro poller_inv_upd) (simp_all add: el_inv_def core_def)
  have "fd_of (snd (?p, ?h1)) c = Some (ch_fd ch)" by (simp add: fd_of_def)
  from lp.upd_law [OF inv1 this ev] pre obtain p h' where
    u: "poller_set_update (?p, ?h1) c ?ev = Inr (p, h')" "poller_inv (p, h')"
    and spec: "(poller_channels p, poller_interest (p, h')) =
      spec_update (ch_fd ch) c ?ev (el_reg s, poller_interest (?p, ?h1))"
    by (auto simp: el_reg_def)
  let ?ch = "ch\<lparr>ch_events := ?ev, ch_addedToLoop := True\<rparr>"
  have comm: "ch\<lparr>ch_addedToLoop := True, ch_events := ?ev\<rparr> = ?ch" by simp
  have up: "poller_updateChannel True c (?p, ?h(c \<mapsto> ?ch)) = Inr (p, h')"
    using u(1) by (simp add: poller_set_update_def comm)
  from poller_update_frame [OF this, of ?ch] obtain i where
    i: "h' = ?h(c \<mapsto> ch\<lparr>ch_events := ?ev, ch_addedToLoop := True, ch_index := i\<rparr>)" by auto
  have "channel_set f True c s = Inr (s\<lparr>el_poller := p, el_channels := h'\<rparr>)"
    using ch up
    by (simp add: channel_set_def chan_at_def channel_update_def put_chan_def el_updateChannel_def
        with_poller_def)
  then show ?thesis
    using u(2) spec i poller_interest_core [of p "el_channels s" h']
      poller_interest_core [of ?p ?h1 "el_channels s"]
    by (intro exI [of _ p] exI [of _ i]) (simp add: spec_update_def el_interest_def)
qed

text \<open>Removing a channel without events and destroying it.\<close>

lemma self_idx: "ch = ch\<lparr>ch_index := i\<rparr> \<longleftrightarrow> i = ch_index ch"
  by (cases ch) auto

lemma idx_ex: "\<exists>i. ch\<lparr>ch_index := j\<rparr> = ch\<lparr>ch_index := i\<rparr>"
  by blast

lemma poller_remove_frame:
  assumes "poller_removeChannel b c (p, h) = Inr (p', h')"
  shows "(h' d = None \<longleftrightarrow> h d = None) \<and> (\<forall>dh. h d = Some dh \<longrightarrow> (\<exists>i. h' d = Some (dh\<lparr>ch_index := i\<rparr>)))"
proof (cases p)
  case (EPoll e)
  with assms show ?thesis
    by (auto simp: andThen_Inr_iff ep_removeChannel_def assertInLoopThread_def check_def Let_def
        set_index_def deref_def self_idx idx_ex split: if_splits option.splits)
next
  case (PPoll e)
  with assms show ?thesis
    by (auto simp: andThen_Inr_iff pp_removeChannel_def assertInLoopThread_def check_def Let_def
        set_index_def deref_def self_idx idx_ex split: if_splits option.splits)
qed

text \<open>What the poller watches for a registered channel.\<close>

lemma poller_interest_reg:
  assumes "poller_inv (p, h)" and "h c = Some ch" and "poller_channels p (ch_fd ch) = Some c"
  shows "poller_interest (p, h) (ch_fd ch) = nonzero (ch_events ch)"
proof (cases p)
  case (EPoll e)
  with assms ep_inv_chan [of e h c ch] show ?thesis
    by (auto simp: ep_chan_ok_def ep_interest_def nonzero_def)
next
  case (PPoll e)
  with assms pp_interest_eq [of e h "ch_fd ch"] show ?thesis by simp
qed

lemma el_interest_reg:
  assumes "el_inv s" and "el_channels s c = Some ch" and "el_reg s (ch_fd ch) = Some c"
  shows "el_interest s (ch_fd ch) = nonzero (ch_events ch)"
  using assms poller_interest_reg [of "el_poller s" "el_channels s" c ch]
  by (simp add: el_inv_def el_reg_def el_interest_def)

lemma poller_reg_alive: "poller_inv (p, h) \<Longrightarrow> poller_channels p fd = Some a \<Longrightarrow> h a \<noteq> None"
  by (cases p) (auto dest: ep_inv_regD pp_inv_regD)

lemma channel_remove_ok:
  assumes inv: "el_inv s" and ch: "el_channels s c = Some ch" and ev: "ch_events ch = 0"
    and reg: "el_reg s (ch_fd ch) = Some c" and quiet: "el_interest s (ch_fd ch) = None"
    and act: "el_eventHandling s \<Longrightarrow> el_current s = Some c \<or> c \<notin> set (el_active s)"
  shows "\<exists>p h2 i. channel_remove True c s = Inr (s\<lparr>el_poller := p, el_channels := h2\<rparr>) \<and>
     h2 c = Some (ch\<lparr>ch_addedToLoop := False, ch_index := i\<rparr>) \<and>
     poller_inv (p, h2(c := None)) \<and> fd_of (h2(c := None)) = (fd_of (el_channels s))(c := None) \<and>
     poller_channels p = (el_reg s)(ch_fd ch := None) \<and>
     poller_interest (p, h2(c := None)) = (el_interest s)(ch_fd ch := None) \<and>
     (\<forall>d dh. d \<noteq> c \<and> el_channels s d = Some dh \<longrightarrow> (\<exists>i. h2 d = Some (dh\<lparr>ch_index := i\<rparr>)))"
proof -
  let ?h = "el_channels s" and ?p = "el_poller s"
  let ?ch = "ch\<lparr>ch_addedToLoop := False\<rparr>"
  let ?h1 = "?h(c \<mapsto> ?ch)"
  have inv1: "poller_inv (?p, ?h1)"
    using inv ch by (intro poller_inv_upd) (simp_all add: el_inv_def core_def)
  have fd1: "fd_of (snd (?p, ?h1)) c = Some (ch_fd ch)" by (simp add: fd_of_def)
  have q1: "poller_interest (?p, ?h1) (ch_fd ch) = None"
    using quiet poller_interest_core [of ?p ?h1 ?h] by (simp add: el_interest_def)
  have "\<exists>s'. poller_remove_destroy (?p, ?h1) c = Inr s' \<and> poller_inv s' \<and>
      fd_of (snd s') = (fd_of (snd (?p, ?h1)))(c := None) \<and>
      (poller_channels (fst s'), poller_interest s') =
        spec_remove (ch_fd ch) (poller_channels (fst (?p, ?h1)), poller_interest (?p, ?h1))"
    using reg q1 by (intro lp.rem_law inv1 fd1) (simp_all add: el_reg_def)
  then obtain p h' where
    r: "poller_remove_destroy (?p, ?h1) c = Inr (p, h')" "poller_inv (p, h')"
    "fd_of h' = (fd_of ?h1)(c := None)"
    "(poller_channels p, poller_interest (p, h')) = spec_remove (ch_fd ch) (el_reg s, poller_interest (?p, ?h1))"
    by (auto simp: el_reg_def)
  from r(1) obtain h2 where h2: "poller_removeChannel True c (?p, ?h1) = Inr (p, h2)" "h' = h2(c := None)"
    by (auto simp: poller_remove_destroy_def andThen_Inr_iff erase_channel_def)
  from poller_remove_frame [OF h2(1), of c] obtain i where i: "h2 c = Some (?ch\<lparr>ch_index := i\<rparr>)" by auto
  have rm: "channel_remove True c s = Inr (s\<lparr>el_poller := p, el_channels := h2\<rparr>)"
    using ch ev act h2(1)
    by (auto simp: channel_remove_def chan_at_def isNoneEvent_def kNoneEvent_def el_removeChannel_def
        put_chan_def with_poller_def check_def)
  have regs: "poller_channels p = (el_reg s)(ch_fd ch := None)"
    and intr: "poller_interest (p, h') = (el_interest s)(ch_fd ch := None)"
    using r(4) poller_interest_core [of ?p ?h1 ?h] by (simp_all add: spec_remove_def el_interest_def)
  have "fd_of h' = (fd_of ?h)(c := None)" using r(3) by (auto simp: fd_of_def fun_eq_iff)
  moreover have "\<exists>i. h2 d = Some (dh\<lparr>ch_index := i\<rparr>)" if "d \<noteq> c" "?h d = Some dh" for d dh
    using poller_remove_frame [OF h2(1), of d] that by simp
  ultimately show ?thesis
    using rm r(2) regs intr i unfolding h2(2) by (intro exI [of _ p] exI [of _ h2] exI [of _ i]) simp
qed

lemma channel_remove_destroy_ok:
  assumes inv: "el_inv s" and ch: "el_channels s c = Some ch" and ev: "ch_events ch = 0"
    and reg: "el_reg s (ch_fd ch) = Some c" and quiet: "el_interest s (ch_fd ch) = None"
    and eh: "\<not> ch_eventHandling ch"
    and act: "el_eventHandling s \<Longrightarrow> el_current s = Some c \<or> c \<notin> set (el_active s)"
  shows "\<exists>s1 p h'. channel_remove True c s = Inr s1 \<and>
     destroyChannel True c s1 = Inr (s\<lparr>el_poller := p, el_channels := h'\<rparr>) \<and>
     poller_inv (p, h') \<and> fd_of h' = (fd_of (el_channels s))(c := None) \<and>
     poller_channels p = (el_reg s)(ch_fd ch := None) \<and>
     poller_interest (p, h') = (el_interest s)(ch_fd ch := None) \<and>
     (\<forall>d dh. d \<noteq> c \<and> el_channels s d = Some dh \<longrightarrow> (\<exists>i. h' d = Some (dh\<lparr>ch_index := i\<rparr>)))"
proof -
  from channel_remove_ok [OF inv ch ev reg quiet act] obtain p h2 i where
    r: "channel_remove True c s = Inr (s\<lparr>el_poller := p, el_channels := h2\<rparr>)"
    "h2 c = Some (ch\<lparr>ch_addedToLoop := False, ch_index := i\<rparr>)" "poller_inv (p, h2(c := None))"
    "fd_of (h2(c := None)) = (fd_of (el_channels s))(c := None)"
    "poller_channels p = (el_reg s)(ch_fd ch := None)"
    "poller_interest (p, h2(c := None)) = (el_interest s)(ch_fd ch := None)"
    "\<forall>d dh. d \<noteq> c \<and> el_channels s d = Some dh \<longrightarrow> (\<exists>i. h2 d = Some (dh\<lparr>ch_index := i\<rparr>))" by blast
  have "destroyChannel True c (s\<lparr>el_poller := p, el_channels := h2\<rparr>) =
      Inr (s\<lparr>el_poller := p, el_channels := h2(c := None)\<rparr>)"
    using r(2) eh r(5) by (simp add: destroyChannel_def chan_at_def el_hasChannel_def hasChannel_def)
  with r show ?thesis
    by (intro exI [of _ "s\<lparr>el_poller := p, el_channels := h2\<rparr>"] exI [of _ p] exI [of _ "h2(c := None)"]) simp
qed

section \<open>Life of a loop\<close>

lemma el_upd_simps:
  "el_inv (s\<lparr>el_poller := p, el_channels := h\<rparr>) = poller_inv (p, h)"
  "el_reg (s\<lparr>el_poller := p, el_channels := h\<rparr>) = poller_channels p"
  "el_interest (s\<lparr>el_poller := p, el_channels := h\<rparr>) = poller_interest (p, h)"
  by (simp_all add: el_inv_def el_reg_def el_interest_def)

text \<open>Registering a new channel for reading, as the constructors do.\<close>

lemma poller_inv_new_channel:
  assumes inv: "poller_inv (p, h)" and c: "h c = None" and ch: "ch_index ch = -1" "ch_events ch = 0" "0 \<le> ch_fd ch"
  shows "poller_inv (p, h(c \<mapsto> ch))"
proof (cases p)
  case (EPoll e)
  then have i: "ep_inv (e, h)" using inv by simp
  have unreg: "ep_channels e fd \<noteq> Some c" for fd using ep_inv_regD [OF i, of fd c] c by auto
  have "ep_chan_ok e d dh" if "(h(c \<mapsto> ch)) d = Some dh" for d dh
    using that ep_inv_chan [OF i, of d dh] unreg ch
    by (cases "d = c") (auto simp: ep_chan_ok_def index_consts api_events_def)
  moreover have "\<exists>dh. (h(c \<mapsto> ch)) d = Some dh \<and> ch_fd dh = fd" if "ep_channels e fd = Some d" for fd d
    using ep_inv_regD [OF i that] unreg that by auto
  ultimately show ?thesis using i EPoll by (simp add: ep_inv_def)
next
  case (PPoll e)
  then have i: "pp_inv (e, h)" using inv by simp
  have unreg: "pp_channels e fd \<noteq> Some c" for fd using pp_inv_regD [OF i, of fd c] c by auto
  have "pp_chan_ok e d dh" if "(h(c \<mapsto> ch)) d = Some dh" for d dh
    using that pp_inv_chan [OF i, of d dh] unreg ch
    by (cases "d = c") (auto simp: pp_chan_ok_def api_events_def)
  moreover have "\<exists>dh. (h(c \<mapsto> ch)) d = Some dh \<and> ch_fd dh = fd" if "pp_channels e fd = Some d" for fd d
    using pp_inv_regD [OF i that] unreg that by auto
  moreover have "\<exists>d dh. (h(c \<mapsto> ch)) d = Some dh \<and> ch_index dh = int j" if "j < length (pp_pollfds e)" for j
    using pp_inv_entryD [OF i that] c by (metis fun_upd_other option.distinct(1))
  ultimately show ?thesis using PPoll by (simp add: pp_inv_def)
qed

lemma register_new:
  assumes inv: "el_inv s" and c: "el_channels s c = None" and fd: "0 \<le> fd" and free: "el_reg s fd = None"
  shows "\<exists>p i. enableReading True c (put_chan c (setReadCallback cb (newChannel fd)) s) =
       Inr (s\<lparr>el_poller := p, el_channels := (el_channels s)(c \<mapsto> (setReadCallback cb (newChannel fd))
         \<lparr>ch_events := 3, ch_addedToLoop := True, ch_index := i\<rparr>)\<rparr>) \<and>
     poller_inv (p, (el_channels s)(c \<mapsto> (setReadCallback cb (newChannel fd))
         \<lparr>ch_events := 3, ch_addedToLoop := True, ch_index := i\<rparr>)) \<and>
     poller_channels p = (el_reg s)(fd \<mapsto> c)"
proof -
  let ?ch = "setReadCallback cb (newChannel fd)"
  let ?s = "put_chan c ?ch s"
  have ev: "ev_enableReading (ch_events ?ch) = 3"
    by (simp add: setReadCallback_def newChannel_def ev_enableReading_def kReadEvent_def poll_masks)
  have fdch: "ch_fd ?ch = fd" by (simp add: setReadCallback_def newChannel_def)
  have "el_inv ?s"
    using inv c fd
    by (auto simp: el_inv_def put_chan_def setReadCallback_def newChannel_def intro!: poller_inv_new_channel)
  moreover have "el_channels ?s c = Some ?ch" by (simp add: put_chan_def)
  moreover have "el_reg ?s = el_reg s" by (simp add: el_reg_def put_chan_def)
  moreover have "api_events 3" by (simp add: api_events_def)
  ultimately have "\<exists>p i. channel_set ev_enableReading True c ?s =
       Inr (?s\<lparr>el_poller := p, el_channels := (el_channels ?s)
         (c \<mapsto> ?ch\<lparr>ch_events := 3, ch_addedToLoop := True, ch_index := i\<rparr>)\<rparr>) \<and>
     poller_inv (p, (el_channels ?s)(c \<mapsto> ?ch\<lparr>ch_events := 3, ch_addedToLoop := True, ch_index := i\<rparr>)) \<and>
     poller_channels p = (el_reg s)(fd \<mapsto> c)"
    using channel_set_ok [of ?s c ?ch ev_enableReading] ev fdch free by auto
  then show ?thesis
    unfolding enableReading_def by (simp add: put_chan_def)
qed

lemma fresh_poller_inv: "poller_inv (newDefaultPoller b, Map.empty)"
  "poller_channels (newDefaultPoller b) = Map.empty"
  using ep_inv_fresh [of Map.empty] pp_inv_fresh [of Map.empty] ep_fresh_abs pp_fresh_abs
  by (auto simp: newDefaultPoller_def fresh_channels_def)

text \<open>What holds of an idle channel registered for reading.\<close>

lemma unregister_ok:
  assumes inv: "el_inv s" and ch: "el_channels s c = Some ch" and reg: "el_reg s (ch_fd ch) = Some c"
    and eh: "\<not> ch_eventHandling ch" and idle: "\<not> el_eventHandling s"
  shows "\<exists>s1 s2 p h'. disableAll True c s = Inr s1 \<and> channel_remove True c s1 = Inr s2 \<and>
     destroyChannel True c s2 = Inr (s\<lparr>el_poller := p, el_channels := h'\<rparr>) \<and>
     poller_inv (p, h') \<and> fd_of h' = (fd_of (el_channels s))(c := None) \<and>
     poller_channels p = (el_reg s)(ch_fd ch := None) \<and>
     (\<forall>d dh. d \<noteq> c \<and> el_channels s d = Some dh \<longrightarrow> (\<exists>i. h' d = Some (dh\<lparr>ch_index := i\<rparr>)))"
proof -
  have "api_events (ev_disableAll (ch_events ch))"
    by (simp add: ev_disableAll_def kNoneEvent_def api_events_def)
  from channel_set_ok [where f = ev_disableAll, OF inv ch this] reg obtain p i where
    s1: "disableAll True c s = Inr (s\<lparr>el_poller := p, el_channels := (el_channels s)
         (c \<mapsto> ch\<lparr>ch_events := 0, ch_addedToLoop := True, ch_index := i\<rparr>)\<rparr>)"
    and inv1: "poller_inv (p, (el_channels s)
         (c \<mapsto> ch\<lparr>ch_events := 0, ch_addedToLoop := True, ch_index := i\<rparr>))"
    and reg1: "poller_channels p = (el_reg s)(ch_fd ch \<mapsto> c)"
    and int1: "poller_interest (p, el_channels s) = (el_interest s)(ch_fd ch := None)"
    by (auto simp: disableAll_def ev_disableAll_def kNoneEvent_def nonzero_def)
  let ?ch = "ch\<lparr>ch_events := 0, ch_addedToLoop := True, ch_index := i\<rparr>"
  let ?h = "(el_channels s)(c \<mapsto> ?ch)"
  let ?s1 = "s\<lparr>el_poller := p, el_channels := ?h\<rparr>"
  have a: "el_inv ?s1" "el_channels ?s1 c = Some ?ch" "ch_events ?ch = 0" "el_reg ?s1 (ch_fd ?ch) = Some c"
    "\<not> ch_eventHandling ?ch"
    using inv1 reg1 eh by (simp_all add: el_upd_simps)
  have b: "el_interest ?s1 (ch_fd ?ch) = None"
    using int1 poller_interest_core [of p "el_channels s" ?h] by (simp add: el_upd_simps)
  have c: "el_eventHandling ?s1 \<Longrightarrow> el_current ?s1 = Some c \<or> c \<notin> set (el_active ?s1)"
    using idle by simp
  from channel_remove_destroy_ok [OF a(1-4) b a(5) c] obtain s2 p2 h2 where
    r: "channel_remove True c ?s1 = Inr s2"
    "destroyChannel True c s2 = Inr (?s1\<lparr>el_poller := p2, el_channels := h2\<rparr>)"
    "poller_inv (p2, h2)" "fd_of h2 = (fd_of ?h)(c := None)"
    "poller_channels p2 = (el_reg ?s1)(ch_fd ?ch := None)"
    "\<forall>d dh. d \<noteq> c \<and> ?h d = Some dh \<longrightarrow> (\<exists>i. h2 d = Some (dh\<lparr>ch_index := i\<rparr>))" by auto
  have "fd_of h2 = (fd_of (el_channels s))(c := None)"
    unfolding r(4) by (auto simp: fd_of_def fun_eq_iff)
  moreover have "poller_channels p2 = (el_reg s)(ch_fd ch := None)"
    unfolding r(5) el_upd_simps reg1 by simp
  moreover have "\<forall>d dh. d \<noteq> c \<and> el_channels s d = Some dh \<longrightarrow> (\<exists>i. h2 d = Some (dh\<lparr>ch_index := i\<rparr>))"
    using r(6) by simp
  ultimately show ?thesis using s1 r(1-3)
    by (intro exI [of _ ?s1] exI [of _ s2] exI [of _ p2] exI [of _ h2]) simp
qed

lemma fd_of_Some: "fd_of h c = Some fd \<Longrightarrow> \<exists>ch. h c = Some ch \<and> ch_fd ch = fd"
  by (auto simp: fd_of_def)

lemma fd_of_empty: "fd_of h = Map.empty \<longleftrightarrow> h = Map.empty"
  by (auto simp: fd_of_def fun_eq_iff)

lemma newEventLoop_ok:
  fixes tcb wcb :: 'cb
  assumes "tc \<noteq> wc" and "tfd \<noteq> wfd" and "0 \<le> tfd" and "0 \<le> wfd"
  shows "\<exists>(s :: ('f, 'cb) loop) i j. newEventLoop use_poll (tc, tfd, tcb) (wc, wfd, wcb) = Inr s \<and> el_inv s \<and>
     el_reg s = [tfd \<mapsto> tc, wfd \<mapsto> wc] \<and> \<not> el_eventHandling s \<and>
     el_channels s =
       [tc \<mapsto> (setReadCallback tcb (newChannel tfd))\<lparr>ch_events := 3, ch_addedToLoop := True, ch_index := i\<rparr>,
        wc \<mapsto> (setReadCallback wcb (newChannel wfd))\<lparr>ch_events := 3, ch_addedToLoop := True, ch_index := j\<rparr>]"
proof -
  define s0 :: "('f, 'cb) loop" where "s0 =
     \<lparr>el_looping = False, el_quit = False, el_eventHandling = False, el_callingPending = False,
      el_iteration = 0, el_poller = newDefaultPoller use_poll, el_channels = Map.empty, el_active = [],
      el_current = None, el_pending = [], el_wakeups = 0\<rparr>"
  have s0: "el_inv s0" "el_channels s0 tc = None" "el_reg s0 tfd = None" "el_reg s0 = Map.empty"
    using fresh_poller_inv by (simp_all add: s0_def el_inv_def el_reg_def)
  let ?tch = "\<lambda>i. (setReadCallback tcb (newChannel tfd))\<lparr>ch_events := 3, ch_addedToLoop := True, ch_index := i\<rparr>"
  let ?wch = "\<lambda>i. (setReadCallback wcb (newChannel wfd))\<lparr>ch_events := 3, ch_addedToLoop := True, ch_index := i\<rparr>"
  from register_new [OF s0(1,2) assms(3) s0(3), of tcb] obtain p1 i where
    r1: "enableReading True tc (put_chan tc (setReadCallback tcb (newChannel tfd)) s0) =
       Inr (s0\<lparr>el_poller := p1, el_channels := [tc \<mapsto> ?tch i]\<rparr>)"
    "poller_inv (p1, [tc \<mapsto> ?tch i])" "poller_channels p1 = [tfd \<mapsto> tc]"
    using s0(4) by (auto simp: s0_def)
  define s1 where "s1 = s0\<lparr>el_poller := p1, el_channels := [tc \<mapsto> ?tch i]\<rparr>"
  have s1: "el_inv s1" "el_channels s1 wc = None" "el_reg s1 wfd = None" "el_reg s1 = [tfd \<mapsto> tc]"
    "el_channels s1 = [tc \<mapsto> ?tch i]"
    using r1(2,3) assms(1,2) by (simp_all add: s1_def el_upd_simps)
  from register_new [OF s1(1,2) assms(4) s1(3), of wcb] obtain p2 j where
    r2: "enableReading True wc (put_chan wc (setReadCallback wcb (newChannel wfd)) s1) =
       Inr (s1\<lparr>el_poller := p2, el_channels := [tc \<mapsto> ?tch i, wc \<mapsto> ?wch j]\<rparr>)"
    "poller_inv (p2, [tc \<mapsto> ?tch i, wc \<mapsto> ?wch j])" "poller_channels p2 = [tfd \<mapsto> tc, wfd \<mapsto> wc]"
    unfolding s1(4,5) by blast
  have "newEventLoop use_poll (tc, tfd, tcb) (wc, wfd, wcb) =
      Inr (s1\<lparr>el_poller := p2, el_channels := [tc \<mapsto> ?tch i, wc \<mapsto> ?wch j]\<rparr>)"
    using r1(1) r2(1) by (simp add: newEventLoop_def s0_def [symmetric] s1_def [symmetric])
  with r2(2,3) show ?thesis by (auto simp: el_upd_simps) (auto simp: s1_def s0_def)
qed

text \<open>The destructor takes its two channels out of a loop and leaves the others.\<close>

lemma destroyEventLoop_ok:
  assumes inv: "el_inv s" and idle: "\<not> el_eventHandling s" and "tc \<noteq> wc" and fds: "ch_fd tch \<noteq> ch_fd wch"
    and w: "el_channels s wc = Some wch" "el_reg s (ch_fd wch) = Some wc" "\<not> ch_eventHandling wch"
    and t: "el_channels s tc = Some tch" "el_reg s (ch_fd tch) = Some tc" "\<not> ch_eventHandling tch"
  shows "\<exists>s'. destroyEventLoop tc wc s = Inr s' \<and> fd_of (el_channels s') = (fd_of (el_channels s))(wc := None, tc := None) \<and>
     el_reg s' = (el_reg s)(ch_fd wch := None, ch_fd tch := None)"
proof -
  from unregister_ok [OF inv w idle] obtain a b p h where
    u: "disableAll True wc s = Inr a" "channel_remove True wc a = Inr b"
    "destroyChannel True wc b = Inr (s\<lparr>el_poller := p, el_channels := h\<rparr>)" "poller_inv (p, h)"
    "fd_of h = (fd_of (el_channels s))(wc := None)" "poller_channels p = (el_reg s)(ch_fd wch := None)"
    "\<forall>d dh. d \<noteq> wc \<and> el_channels s d = Some dh \<longrightarrow> (\<exists>i. h d = Some (dh\<lparr>ch_index := i\<rparr>))" by blast
  let ?s = "s\<lparr>el_poller := p, el_channels := h\<rparr>"
  from u(7) t(1) assms(3) obtain k where k: "h tc = Some (tch\<lparr>ch_index := k\<rparr>)" by blast
  have "el_inv ?s" "el_channels ?s tc = Some (tch\<lparr>ch_index := k\<rparr>)"
    "el_reg ?s (ch_fd (tch\<lparr>ch_index := k\<rparr>)) = Some tc" "\<not> ch_eventHandling (tch\<lparr>ch_index := k\<rparr>)"
    "\<not> el_eventHandling ?s"
    using u(4,6) k t(2,3) fds idle by (simp_all add: el_upd_simps)
  from unregister_ok [OF this] obtain a' b' p' h' where
    "disableAll True tc ?s = Inr a'" "channel_remove True tc a' = Inr b'"
    "destroyChannel True tc b' = Inr (?s\<lparr>el_poller := p', el_channels := h'\<rparr>)"
    "fd_of h' = (fd_of h)(tc := None)" "poller_channels p' = (poller_channels p)(ch_fd tch := None)"
    by (auto simp: el_upd_simps)
  with u(1-3,5,6) show ?thesis by (simp add: destroyEventLoop_def el_upd_simps)
qed

text \<open>
  C27. A loop can be created and destroyed with either poller: the constructor registers the
  timer channel and the wakeup channel for reading, every assertion on the way holds, and the
  destructor unregisters and destroys both, leaving nothing registered.
\<close>

theorem event_loop_life:
  fixes tcb wcb :: 'cb
  assumes "tc \<noteq> wc" and "tfd \<noteq> wfd" and "0 \<le> tfd" and "0 \<le> wfd"
  shows "\<exists>s s' :: ('f, 'cb) loop. newEventLoop use_poll (tc, tfd, tcb) (wc, wfd, wcb) = Inr s \<and> el_inv s \<and>
     el_reg s = [tfd \<mapsto> tc, wfd \<mapsto> wc] \<and>
     destroyEventLoop tc wc s = Inr s' \<and> el_channels s' = Map.empty \<and> el_reg s' = Map.empty"
proof -
  from newEventLoop_ok [where 'f = 'f, OF assms, of use_poll tcb wcb] obtain s :: "('f, 'cb) loop" and i j where
    s: "newEventLoop use_poll (tc, tfd, tcb) (wc, wfd, wcb) = Inr s" "el_inv s" "el_reg s = [tfd \<mapsto> tc, wfd \<mapsto> wc]"
    "\<not> el_eventHandling s"
    "el_channels s =
       [tc \<mapsto> (setReadCallback tcb (newChannel tfd))\<lparr>ch_events := 3, ch_addedToLoop := True, ch_index := i\<rparr>,
        wc \<mapsto> (setReadCallback wcb (newChannel wfd))\<lparr>ch_events := 3, ch_addedToLoop := True, ch_index := j\<rparr>]" by blast
  obtain tch wch where ch: "el_channels s = [tc \<mapsto> tch, wc \<mapsto> wch]" "ch_fd tch = tfd" "ch_fd wch = wfd"
    "\<not> ch_eventHandling tch" "\<not> ch_eventHandling wch"
    using s(5) by (simp add: setReadCallback_def newChannel_def)
  from destroyEventLoop_ok [OF s(2,4) assms(1), of tch wch] ch s(3) assms(1,2) obtain s' where
    s': "destroyEventLoop tc wc s = Inr s'" "fd_of (el_channels s') = (fd_of (el_channels s))(wc := None, tc := None)"
    "el_reg s' = Map.empty" by fastforce
  have "fd_of (el_channels s') = Map.empty" unfolding s'(2) ch(1) by (auto simp: fd_of_def)
  with s(1-3) s'(1,3) show ?thesis by (auto simp: fd_of_empty)
qed

theorem event_loop_life_witness:
  "\<exists>s s' :: (unit, nat) loop. newEventLoop True (1, 4, 0) (2, 5, 1) = Inr s \<and> el_inv s \<and>
     el_reg s = [4 \<mapsto> 1, 5 \<mapsto> 2] \<and>
     destroyEventLoop 1 2 s = Inr s' \<and> el_channels s' = Map.empty \<and> el_reg s' = Map.empty"
  by (rule event_loop_life) simp_all

section \<open>Functors and quitting\<close>

text \<open>Functors that queue further functors: \<open>spawn f\<close> are those \<open>f\<close> passes to \<^verbatim>\<open>queueInLoop\<close>.\<close>

definition run_spawn :: "('f \<Rightarrow> 'f list) \<Rightarrow> 'f \<Rightarrow> ('f, 'cb) loop \<Rightarrow> ('f, 'cb) loop res" where
  "run_spawn spawn f s = Inr (foldl (\<lambda>s g. queueInLoop True g s) s (spawn f))"

lemma queue_fold:
  assumes "el_callingPending s"
  shows "foldl (\<lambda>s g. queueInLoop True g s) s gs =
     s\<lparr>el_pending := el_pending s @ gs, el_wakeups := el_wakeups s + length gs\<rparr>"
  using assms
proof (induction gs arbitrary: s)
  case (Cons g gs)
  then show ?case by (simp add: queueInLoop_def wakeup_def Let_def)
qed simp

lemma run_spawn_fold:
  assumes "el_callingPending s"
  shows "foldRes (run_spawn spawn) fs s =
     Inr (s\<lparr>el_pending := el_pending s @ concat (map spawn fs),
            el_wakeups := el_wakeups s + length (concat (map spawn fs))\<rparr>)"
  using assms
proof (induction fs arbitrary: s)
  case (Cons f fs)
  then show ?case by (simp add: run_spawn_def queue_fold)
qed simp

text \<open>
  \<^verbatim>\<open>doPendingFunctors\<close> runs exactly the functors that were queued before it, each once and in
  order. Functors they queue meanwhile are neither run in this round (so a functor that requeues
  itself cannot starve the loop) nor lost: they are pending, in order, and the loop was woken up
  for each of them, so that the next poll returns at once.
\<close>

theorem doPendingFunctors_round:
  "doPendingFunctors (run_spawn spawn) s =
     Inr (s\<lparr>el_callingPending := False, el_pending := concat (map spawn (el_pending s)),
            el_wakeups := el_wakeups s + length (concat (map spawn (el_pending s)))\<rparr>)"
  by (simp add: doPendingFunctors_def run_spawn_fold)

text \<open>Iterations in which the kernel reports nothing.\<close>

definition idle_kernel :: "nat \<Rightarrow> kernel" where
  "idle_kernel i = \<lparr>k_wait = (\<lambda>n. Inr []), k_poll = (\<lambda>fds. Inr (0, fds))\<rparr>"

lemma idle_body:
  assumes "el_pending s = []"
  shows "loop_body alive run runf idle_kernel s =
     Inr (s\<lparr>el_active := [], el_iteration := Suc (el_iteration s), el_current := None,
            el_eventHandling := False, el_callingPending := False\<rparr>)"
  using assms
  by (cases "el_poller s")
    (auto simp: loop_body_def idle_kernel_def ep_poll_def pp_poll_def doPendingFunctors_def Let_def)

lemma idle_loop:
  assumes "el_pending s = []" and "\<not> el_quit s"
  shows "loop_while (loop_body alive run runf idle_kernel) fuel s = None"
  using assms
proof (induction fuel arbitrary: s)
  case 0
  then show ?case by (simp add: loop_while.simps)
next
  case (Suc n)
  then show ?case using idle_body [of s alive run runf] by (simp add: loop_while.simps [of _ "Suc n"])
qed

text \<open>
  A \<^verbatim>\<open>quit()\<close> that comes before \<^verbatim>\<open>loop()\<close> is lost: \<^verbatim>\<open>loop()\<close> starts by resetting \<^verbatim>\<open>quit_\<close>. If
  nothing else happens the loop then never returns, whatever number of iterations is allowed.
  \<^verbatim>\<open>~EventLoopThread\<close> and the user calling \<^verbatim>\<open>quit()\<close> early from another thread rely on the opposite.
\<close>

theorem quit_before_loop_lost:
  assumes "\<not> el_looping s" and "el_pending s = []"
  shows "el_loop alive run runf idle_kernel fuel True (quit inLoop s) = None"
  using assms by (simp add: el_loop_def quit_def wakeup_def Let_def idle_loop)

theorem quit_before_loop_lost_witness:
  "el_loop (\<lambda>obj s. True) (\<lambda>cb s. Inr s) (\<lambda>f s. Inr s) idle_kernel 1000 True
     (quit False \<lparr>el_looping = False, el_quit = False, el_eventHandling = False,
       el_callingPending = False, el_iteration = 0, el_poller = EPoll newEPollPoller,
       el_channels = (Map.empty :: nat channels), el_active = [], el_current = None,
       el_pending = ([] :: nat list), el_wakeups = 0\<rparr>) = None"
  by (rule quit_before_loop_lost) simp_all

end
