(* ===== verification/Kaycc_Timestamp.thy ===== *)
theory Kaycc_Timestamp
  imports Kaycc_Prelude Complex_Main "HOL-Library.Log_Nat" "HOL-Library.Signed_Division"
begin

text \<open>
  Timestamp (base/timestamp.h, .cpp) and the counter of base/atomic.h. A Timestamp is its
  \<^verbatim>\<open>microSecondsSinceEpoch_\<close>, an \<^verbatim>\<open>int64_t\<close>; signed overflow is undefined and reported as such.
  A \<^verbatim>\<open>double\<close> is the rational number it denotes, and the one multiplication the code does with it is
  rounded to 53 significant bits, ties to even. Infinities, NaN and the subnormal range do not
  occur: a product outside \<^verbatim>\<open>int64_t\<close> is undefined at the conversion anyway, and a subnormal
  product is converted to 0.
\<close>

named_theorems time_simps "timestamps"

section \<open>int64\_t\<close>

definition int64 :: "int \<Rightarrow> bool" where
  "int64 x \<longleftrightarrow> - (2 ^ 63) \<le> x \<and> x < 2 ^ 63"

definition i64 :: "int \<Rightarrow> int res" where
  "i64 x = (if int64 x then Inr x else Inl (Undefined ''int64_t overflow''))"

lemma i64_ok [simp]: "int64 x \<Longrightarrow> i64 x = Inr x"
  by (simp add: i64_def)

section \<open>double\<close>

text \<open>The binary exponent of a positive rational.\<close>

definition exponent :: "rat \<Rightarrow> int" where
  "exponent q =
     (let (a, b) = quotient_of q; e = bitlen a - bitlen b
      in if 2 powi e \<le> q then e else e - 1)"

definition round_even :: "rat \<Rightarrow> int" where
  "round_even x =
     (let f = \<lfloor>x\<rfloor>; d = x - of_int f
      in if d < 1/2 then f else if d > 1/2 then f + 1 else if even f then f else f + 1)"

definition to_double :: "rat \<Rightarrow> rat" where
  "to_double q =
     (if q = 0 then 0
      else let ulp = 2 powi (exponent \<bar>q\<bar> - 52)
           in sgn q * of_int (round_even (\<bar>q\<bar> / ulp)) * ulp)"

text \<open>\<^verbatim>\<open>static_cast<int64_t>\<close> of a \<^verbatim>\<open>double\<close> truncates.\<close>

definition double_to_int :: "rat \<Rightarrow> int" where
  "double_to_int q = (if q < 0 then - \<lfloor>- q\<rfloor> else \<lfloor>q\<rfloor>)"

section \<open>Timestamp\<close>

type_synonym timestamp = int

definition kMicroSecondsPerSecond :: int where
  "kMicroSecondsPerSecond = 1000000"

definition ts_invalid :: timestamp where
  "ts_invalid = 0"

definition ts_valid :: "timestamp \<Rightarrow> bool" where
  "ts_valid t \<longleftrightarrow> t > 0"

definition swap_ts :: "timestamp \<times> timestamp \<Rightarrow> timestamp \<times> timestamp" where
  "swap_ts = (\<lambda>(a, b). (b, a))"

definition secondsSinceEpoch :: "timestamp \<Rightarrow> int" where
  "secondsSinceEpoch t = t sdiv kMicroSecondsPerSecond"

definition fromUnixTime :: "int \<Rightarrow> int \<Rightarrow> timestamp res" where
  "fromUnixTime t microseconds =
     andThen (i64 (t * kMicroSecondsPerSecond)) (\<lambda>s. i64 (s + microseconds))"

text \<open>\<open>gettimeofday\<close> is an argument: the pair \<^verbatim>\<open>tv_sec\<close>, \<^verbatim>\<open>tv_usec\<close> it stored.\<close>

definition ts_now :: "int \<times> int \<Rightarrow> timestamp res" where
  "ts_now = (\<lambda>(tv_sec, tv_usec).
     andThen (i64 (tv_sec * kMicroSecondsPerSecond)) (\<lambda>s. i64 (s + tv_usec)))"

definition ts_less :: "timestamp \<Rightarrow> timestamp \<Rightarrow> bool" where
  "ts_less lhs rhs \<longleftrightarrow> lhs < rhs"

definition ts_equal :: "timestamp \<Rightarrow> timestamp \<Rightarrow> bool" where
  "ts_equal lhs rhs \<longleftrightarrow> lhs = rhs"

definition timeDifference :: "timestamp \<Rightarrow> timestamp \<Rightarrow> rat res" where
  "timeDifference high low =
     andThen (i64 (high - low)) (\<lambda>diff.
     Inr (to_double (to_double (of_int diff) / of_int kMicroSecondsPerSecond)))"

text \<open>The microseconds a number of seconds is converted to.\<close>

definition delta_us :: "rat \<Rightarrow> int" where
  "delta_us seconds = double_to_int (to_double (seconds * of_int kMicroSecondsPerSecond))"

definition addTime :: "timestamp \<Rightarrow> rat \<Rightarrow> timestamp res" where
  "addTime t seconds = andThen (i64 (delta_us seconds)) (\<lambda>delta. i64 (t + delta))"

subsection \<open>Printing\<close>

text \<open>\<^verbatim>\<open>printf\<close> conversions \<^verbatim>\<open>%ld\<close> and \<^verbatim>\<open>%06ld\<close>: the sign counts towards the width.\<close>

fun digits :: "nat \<Rightarrow> string" where
  "digits n = (if n < 10 then [char_of (48 + n)] else digits (n div 10) @ [char_of (48 + n mod 10)])"

declare digits.simps [simp del]

definition fmt_d :: "int \<Rightarrow> string" where
  "fmt_d x = (if x < 0 then CHR ''-'' # digits (nat (- x)) else digits (nat x))"

definition fmt_06d :: "int \<Rightarrow> string" where
  "fmt_06d x =
     (if x < 0 then CHR ''-'' # replicate (5 - length (digits (nat (- x)))) (CHR ''0'') @ digits (nat (- x))
      else replicate (6 - length (digits (nat x))) (CHR ''0'') @ digits (nat x))"

text \<open>\<^verbatim>\<open>snprintf\<close> keeps at most \<open>size - 1\<close> characters, here 30 of the 31 it may use.\<close>

definition toString :: "timestamp \<Rightarrow> string" where
  "toString t =
     (let seconds = t sdiv kMicroSecondsPerSecond; microseconds = t smod kMicroSecondsPerSecond
      in take 30 (fmt_d seconds @ CHR ''.'' # fmt_06d microseconds))"

section \<open>Rounding\<close>

lemma powi_int: "0 \<le> n \<Longrightarrow> (2::rat) powi n = of_int (2 ^ nat n)"
  by (simp add: power_int_def)

text \<open>A positive rational lies between the power of its exponent and the next one.\<close>

lemma exponent_bounds:
  assumes "0 < q"
  shows "2 powi exponent q \<le> q" and "q < 2 powi (exponent q + 1)"
proof -
  obtain a b where ab: "quotient_of q = (a, b)" by (cases "quotient_of q")
  have b: "0 < b" using quotient_of_denom_pos [OF ab] .
  have q: "q = of_int a / of_int b" using quotient_of_div [OF ab] .
  have a: "0 < a" using assms q b by (simp add: zero_less_divide_iff)
  define e where "e = bitlen a - bitlen b"
  have pos: "0 \<le> bitlen a - 1" "0 \<le> bitlen b - 1" "0 \<le> bitlen a" "0 \<le> bitlen b"
    using a b by (simp_all add: bitlen_def floorlog_def)
  have la: "(2::rat) powi (bitlen a - 1) \<le> of_int a" and ua: "of_int a < (2::rat) powi bitlen a"
    using bitlen_bounds [OF a] pos unfolding powi_int [OF pos(1)] powi_int [OF pos(3)] of_int_le_iff
      of_int_less_iff by simp_all
  have lb: "(2::rat) powi (bitlen b - 1) \<le> of_int b" and ub: "of_int b < (2::rat) powi bitlen b"
    using bitlen_bounds [OF b] pos unfolding powi_int [OF pos(2)] powi_int [OF pos(4)] of_int_le_iff
      of_int_less_iff by simp_all
  have "(2::rat) powi (e - 1) = 2 powi (bitlen a - 1) / 2 powi bitlen b"
    by (simp add: e_def power_int_diff)
  also have "\<dots> \<le> q" unfolding q using la ub a b by (intro frac_le) auto
  finally have low: "2 powi (e - 1) \<le> q" .
  have "q < 2 powi bitlen a / 2 powi (bitlen b - 1)"
    unfolding q using ua lb a by (intro frac_less) auto
  also have "\<dots> = 2 powi (e + 1)" by (simp add: e_def power_int_diff power_int_add)
  finally have high: "q < 2 powi (e + 1)" .
  have "exponent q = (if 2 powi e \<le> q then e else e - 1)"
    by (simp add: exponent_def ab e_def)
  with low high show "2 powi exponent q \<le> q" and "q < 2 powi (exponent q + 1)" by auto
qed

lemma exponent_ge_0:
  assumes "1 \<le> q"
  shows "0 \<le> exponent q"
proof (rule ccontr)
  assume "\<not> 0 \<le> exponent q"
  then have "(2::rat) powi (exponent q + 1) \<le> 2 powi 0" by (intro power_int_increasing) auto
  with exponent_bounds(2) [of q] assms show False by simp
qed

lemma round_even_ge: "of_int n \<le> x \<Longrightarrow> n \<le> round_even x"
proof -
  assume "of_int n \<le> x"
  then have "n \<le> \<lfloor>x\<rfloor>" by (simp add: le_floor_iff)
  then show ?thesis by (simp add: round_even_def Let_def)
qed

lemma round_even_int [simp]: "round_even (of_int n) = n"
  by (simp add: round_even_def)

lemma to_double_pos:
  "0 < q \<Longrightarrow> to_double q =
     of_int (round_even (q / 2 powi (exponent q - 52))) * 2 powi (exponent q - 52)"
  by (simp add: to_double_def Let_def)

text \<open>Rounding never takes a number of at least one below one.\<close>

lemma to_double_ge_1:
  assumes "1 \<le> q"
  shows "1 \<le> to_double q"
proof -
  define e where "e = exponent q"
  have q: "0 < q" using assms by simp
  have le: "2 powi e \<le> q" using exponent_bounds(1) [OF q] by (simp add: e_def)
  have sp: "(2::rat) powi (e - 52) > 0" by simp
  have split: "(2::rat) powi e = 2 ^ 52 * 2 powi (e - 52)" by (simp add: power_int_diff)
  with le sp have "2 ^ 52 \<le> q / 2 powi (e - 52)" by (simp add: pos_le_divide_eq)
  then have "2 ^ 52 \<le> round_even (q / 2 powi (e - 52))"
    by (intro round_even_ge) simp
  then have "of_int (2 ^ 52) \<le> (of_int (round_even (q / 2 powi (e - 52))) :: rat)"
    by (simp only: of_int_le_iff)
  then have n: "(2::rat) ^ 52 \<le> of_int (round_even (q / 2 powi (e - 52)))" by simp
  have "(1::rat) \<le> 2 powi e" using exponent_ge_0 [OF assms] by (simp add: e_def one_le_power_int)
  also have "\<dots> \<le> of_int (round_even (q / 2 powi (e - 52))) * 2 powi (e - 52)"
    using mult_right_mono [OF n, of "2 powi (e - 52)"] sp by (simp add: split)
  finally show ?thesis using to_double_pos [OF q] by (simp add: e_def)
qed

text \<open>Integers of up to 53 bits are exact.\<close>

lemma to_double_int:
  assumes "0 \<le> n" and "n < 2 ^ 53"
  shows "to_double (of_int n) = of_int n"
proof (cases "n = 0")
  case True
  then show ?thesis by (simp add: to_double_def)
next
  case False
  define q where "q = (of_int n :: rat)"
  define e where "e = exponent q"
  have q: "0 < q" using False assms by (simp add: q_def)
  have "e < 53"
  proof (rule ccontr)
    assume "\<not> e < 53"
    then have "(2::rat) powi 53 \<le> 2 powi e" by (intro power_int_increasing) auto
    also have "\<dots> \<le> q" using exponent_bounds(1) [OF q] by (simp add: e_def)
    finally have "(2::rat) ^ 53 \<le> of_int n" by (simp add: q_def)
    then have "of_int (2 ^ 53) \<le> (of_int n :: rat)" by simp
    then have "2 ^ 53 \<le> n" by (simp only: of_int_le_iff)
    with assms(2) show False by simp
  qed
  then have inv: "(1::rat) / 2 powi (e - 52) = of_int (2 ^ nat (52 - e))"
    using powi_int [of "52 - e"] by (simp add: power_int_diff)
  have "q / 2 powi (e - 52) = of_int (n * 2 ^ nat (52 - e))"
    using inv by (simp add: q_def divide_inverse)
  then have "round_even (q / 2 powi (e - 52)) = n * 2 ^ nat (52 - e)" by (simp only: round_even_int)
  then have "of_int (round_even (q / 2 powi (e - 52))) = q / 2 powi (e - 52)"
    by (simp add: \<open>q / 2 powi (e - 52) = of_int (n * 2 ^ nat (52 - e))\<close>)
  then have "to_double q = q" using to_double_pos [OF q] by (simp add: e_def)
  then show ?thesis by (simp add: q_def)
qed

lemma delta_us_pos:
  assumes "1 \<le> seconds * 1000000"
  shows "1 \<le> delta_us seconds"
proof -
  have "1 \<le> to_double (seconds * 1000000)" using assms by (rule to_double_ge_1)
  then show ?thesis by (simp add: delta_us_def double_to_int_def kMicroSecondsPerSecond_def le_floor_iff)
qed

lemma delta_us_nonneg:
  assumes "0 \<le> seconds"
  shows "0 \<le> delta_us seconds"
proof -
  have "0 \<le> to_double (seconds * 1000000)"
  proof (cases "seconds = 0")
    case False
    then have "0 < seconds * 1000000" using assms by simp
    then have "0 \<le> round_even (seconds * 1000000 / 2 powi (exponent (seconds * 1000000) - 52))"
      by (intro round_even_ge) simp
    then show ?thesis using to_double_pos [OF \<open>0 < seconds * 1000000\<close>] by simp
  qed (simp add: to_double_def)
  then show ?thesis by (simp add: delta_us_def double_to_int_def kMicroSecondsPerSecond_def)
qed

lemma delta_us_int:
  assumes "0 \<le> n" and "n * 1000000 < 2 ^ 53"
  shows "delta_us (of_int n) = n * 1000000"
proof -
  have "to_double (of_int (n * 1000000)) = of_int (n * 1000000)"
    using assms by (intro to_double_int) auto
  then have "to_double (of_int n * 1000000) = of_int (n * 1000000)" by simp
  then show ?thesis
    using assms(1) by (simp only: delta_us_def double_to_int_def kMicroSecondsPerSecond_def
        of_int_numeral floor_of_int) simp
qed

text \<open>
  \<^verbatim>\<open>addTime\<close> and \<^verbatim>\<open>timeDifference\<close> are inverse on whole seconds: adding \<open>n\<close> seconds (up to
  \<open>2 ^ 53\<close> microseconds, about 285 years) moves a timestamp by exactly \<open>n * 1000000\<close> microseconds in
  spite of the conversion through \<^verbatim>\<open>double\<close>, and the difference of the two is \<open>n\<close> again.
\<close>

theorem addTime_timeDifference:
  assumes "0 \<le> n" and "n * 1000000 < 2 ^ 53" and "int64 (t + n * 1000000)"
  shows "addTime t (of_int n) = Inr (t + n * 1000000) \<and>
    timeDifference (t + n * 1000000) t = Inr (of_int n)"
proof
  have r: "int64 (n * 1000000)" using assms(1,2) by (simp add: int64_def)
  show "addTime t (of_int n) = Inr (t + n * 1000000)"
    using delta_us_int [OF assms(1,2)] r assms(3) by (simp add: addTime_def)
  have "to_double (of_int (n * 1000000)) = of_int (n * 1000000)"
    using assms(1,2) by (intro to_double_int) auto
  moreover have "to_double (of_int n) = of_int n"
    using assms(1,2) by (intro to_double_int) auto
  ultimately show "timeDifference (t + n * 1000000) t = Inr (of_int n)"
    using r by (simp add: timeDifference_def kMicroSecondsPerSecond_def)
qed

theorem addTime_timeDifference_witness:
  "addTime 1500000000000000 3600 = Inr 1500003600000000"
  using addTime_timeDifference [of 3600 1500000000000000] by (simp add: int64_def)

section \<open>Reading a printed timestamp back\<close>

definition num_of :: "string \<Rightarrow> nat" where
  "num_of s = foldl (\<lambda>n c. 10 * n + (of_char c - 48)) 0 s"

definition parse_ts :: "string \<Rightarrow> int" where
  "parse_ts s =
     int (num_of (takeWhile (\<lambda>c. c \<noteq> CHR ''.'') s)) * 1000000 +
     int (num_of (tl (dropWhile (\<lambda>c. c \<noteq> CHR ''.'') s)))"

lemma num_of_snoc: "num_of (s @ [c]) = 10 * num_of s + (of_char c - 48)"
  by (simp add: num_of_def)

lemma num_of_zeros: "num_of (replicate k (CHR ''0'') @ s) = num_of s"
  by (induction k) (simp_all add: num_of_def)

lemma of_char_digit: "d < 10 \<Longrightarrow> of_char (char_of (48 + d) :: char) = 48 + (d :: nat)"
  by (simp add: of_char_of)

lemma num_of_digits: "num_of (digits n) = n"
proof (induction n rule: digits.induct)
  case (1 n)
  show ?case
  proof (cases "n < 10")
    case True
    then show ?thesis using of_char_digit [of n] by (simp add: digits.simps [of n] num_of_def)
  next
    case False
    then show ?thesis using "1.IH" of_char_digit [of "n mod 10"]
      by (simp add: digits.simps [of n] num_of_snoc)
  qed
qed

lemma digits_not_dot: "c \<in> set (digits n) \<Longrightarrow> c \<noteq> CHR ''.''"
proof (induction n rule: digits.induct)
  case (1 n)
  have nd: "char_of (48 + d) \<noteq> CHR ''.''" if "d < 10" for d :: nat
  proof
    assume "char_of (48 + d) = CHR ''.''"
    then have "of_char (char_of (48 + d) :: char) = (of_char (CHR ''.'') :: nat)" by simp
    then show False using that by (simp add: of_char_of)
  qed
  show ?case
  proof (cases "n < 10")
    case True
    then show ?thesis using "1.prems" nd [of n] by (simp add: digits.simps [of n])
  next
    case False
    then show ?thesis using "1.prems" "1.IH" nd [of "n mod 10"]
      by (auto simp: digits.simps [of n])
  qed
qed

lemma length_digits: "n < 10 ^ k \<Longrightarrow> 0 < k \<Longrightarrow> length (digits n) \<le> k"
proof (induction n arbitrary: k rule: digits.induct)
  case (1 n)
  show ?case
  proof (cases "n < 10")
    case True
    then show ?thesis using "1.prems" by (simp add: digits.simps [of n])
  next
    case False
    with "1.prems" obtain j where j: "k = Suc j" "0 < j"
      by (metis One_nat_def Suc_pred bot_nat_0.not_eq_extremum power_one_right)
    have "n div 10 < 10 ^ j" using "1.prems"(1) j by (simp add: less_mult_imp_div_less mult.commute)
    from "1.IH" [OF False this j(2)] False j show ?thesis by (simp add: digits.simps [of n])
  qed
qed

text \<open>
  \<^verbatim>\<open>Timestamp::toString\<close> loses nothing: for every timestamp from the epoch on, the 32-byte
  buffer is large enough and the printed seconds and microseconds read back as the timestamp.
\<close>

theorem toString_reads_back:
  assumes "0 \<le> t" and "t < 2 ^ 63"
  shows "parse_ts (toString t) = t"
proof -
  define s u where "s = nat (t div 1000000)" and "u = nat (t mod 1000000)"
  have split: "t sdiv kMicroSecondsPerSecond = int s" "t smod kMicroSecondsPerSecond = int u"
    using assms(1) by (simp_all add: s_def u_def kMicroSecondsPerSecond_def signed_divide_int_def
        signed_modulo_int_def sgn_if)
  have u: "u < 10 ^ 6" by (simp add: u_def nat_less_iff)
  have s: "s < 10 ^ 13" using assms by (simp add: s_def nat_less_iff)
  let ?u = "replicate (6 - length (digits u)) (CHR ''0'') @ digits u"
  have "length (digits s) \<le> 13" using length_digits [OF s] by simp
  moreover have "length ?u = 6" using length_digits [OF u] by simp
  ultimately have "toString t = digits s @ CHR ''.'' # ?u"
    by (simp add: toString_def split fmt_d_def fmt_06d_def)
  then have "takeWhile (\<lambda>c. c \<noteq> CHR ''.'') (toString t) = digits s"
    "dropWhile (\<lambda>c. c \<noteq> CHR ''.'') (toString t) = CHR ''.'' # ?u"
    using digits_not_dot [of _ s] by (simp_all add: takeWhile_append2 dropWhile_append2)
  then have "parse_ts (toString t) = int s * 1000000 + int u"
    by (simp add: parse_ts_def num_of_zeros num_of_digits)
  also have "\<dots> = t" using pos_imp_zdiv_nonneg_iff [of 1000000 t] assms(1) by (simp add: s_def u_def)
  finally show ?thesis .
qed

theorem toString_reads_back_witness: "parse_ts (toString 1500000000000042) = 1500000000000042"
  using toString_reads_back [of 1500000000000042] by simp

section \<open>AtomicInteger\<close>

text \<open>
  The operations of base/atomic.h on the stored value of an \<open>AtomicInt32\<close> or \<open>AtomicInt64\<close>, each an atomic step; they
  return the result and the new value. Addition wraps around.
\<close>

definition getAndAdd :: "'a::len word \<Rightarrow> 'a word \<Rightarrow> 'a word \<times> 'a word" where
  "getAndAdd x v = (v, v + x)"

definition addAndGet :: "'a::len word \<Rightarrow> 'a word \<Rightarrow> 'a word \<times> 'a word" where
  "addAndGet x v = (let (old, v') = getAndAdd x v in (old + x, v'))"

definition incrementAndGet :: "'a::len word \<Rightarrow> 'a word \<times> 'a word" where
  "incrementAndGet v = addAndGet 1 v"

definition decrementAndGet :: "'a::len word \<Rightarrow> 'a word \<times> 'a word" where
  "decrementAndGet v = addAndGet (-1) v"

definition getAndSet :: "'a::len word \<Rightarrow> 'a word \<Rightarrow> 'a word \<times> 'a word" where
  "getAndSet x v = (v, x)"

text \<open>The operations without a result.\<close>

definition add_atomic :: "'a::len word \<Rightarrow> 'a word \<Rightarrow> 'a word" where
  "add_atomic x v = snd (getAndAdd x v)"

definition increment :: "'a::len word \<Rightarrow> 'a word" where
  "increment v = snd (incrementAndGet v)"

definition decrement :: "'a::len word \<Rightarrow> 'a word" where
  "decrement v = snd (decrementAndGet v)"

text \<open>\<^verbatim>\<open>__sync_val_compare_and_swap(&value_, 0, 0)\<close>\<close>

definition get_atomic :: "'a::len word \<Rightarrow> 'a word \<times> 'a word" where
  "get_atomic v = (v, if v = 0 then 0 else v)"

end
