(* ===== verification/Kaycc_TcpConnection.thy ===== *)
theory Kaycc_TcpConnection
  imports Kaycc_Buffer Kaycc_EventLoop Kaycc_Timestamp
begin

text \<open>
  TcpConnection (net/tcpconnection.h, .cpp) on top of the models of Buffer, Channel and EventLoop.
  The state holds the loop the connection lives in, the address of its channel there, and the two
  buffers. The functors the class queues are the constructors of \<open>conn_functor\<close>, the callbacks it gives
  its channel those of \<open>conn_cb\<close>. The results of write(2) and readv(2) are arguments of the
  operations that call them, and the user's callbacks are an argument \<open>user\<close> that may do anything to
  the connection. \<open>tc_wire\<close> records the bytes the kernel took, \<open>tc_shut\<close> whether
  \<^verbatim>\<open>socket_->shutdownWrite()\<close> was called, \<open>tc_accepted\<close> the bytes \<^verbatim>\<open>sendInLoop\<close> took responsibility
  for, \<open>tc_closes\<close> how often \<^verbatim>\<open>closeCallback_\<close> was called; no operation of the class reads them.
\<close>

named_theorems conn_simps "operations of a connection"

section \<open>State\<close>

datatype StateE = kDisconnected | kConnecting | kConnected | kDisconnecting

datatype conn_cb = CbRead | CbWrite | CbClose | CbError | CbOther nat

datatype conn_functor =
    FWriteComplete
  | FHighWater nat
  | FSend "byte list"
  | FShutdown
  | FForceClose
  | FStartRead
  | FStopRead

type_synonym conn_loop = "(conn_functor, conn_cb) loop"

record conn =
  tc_loop :: conn_loop
  tc_chan :: nat
  tc_state :: StateE
  tc_reading :: bool
  tc_input :: buffer
  tc_output :: buffer
  tc_highWaterMark :: nat
  tc_hasWriteComplete :: bool      \<comment> \<open>\<^verbatim>\<open>writeCompleteCallback_\<close> is set\<close>
  tc_hasHighWater :: bool          \<comment> \<open>\<^verbatim>\<open>highWaterMarkCallback_\<close> is set\<close>
  tc_wire :: "byte list"
  tc_shut :: bool
  tc_accepted :: "byte list"
  tc_delayed :: "rat list"         \<comment> \<open>delays given to \<^verbatim>\<open>runAfter\<close> by \<^verbatim>\<open>forceCloseWithDelay\<close>\<close>
  tc_closes :: nat                 \<comment> \<open>calls of \<^verbatim>\<open>closeCallback_\<close> so far\<close>

text \<open>The calls of user code.\<close>

datatype ucall = UConnection | UMessage | UClose | UWriteComplete | UHighWater nat

type_synonym user = "ucall \<Rightarrow> conn \<Rightarrow> conn res"

text \<open>The result of write(2): an \<^verbatim>\<open>errno\<close> or the number of bytes taken.\<close>

type_synonym written = "int + nat"

definition EWOULDBLOCK :: int where "EWOULDBLOCK = 11"
definition EPIPE :: int where "EPIPE = 32"
definition ECONNRESET :: int where "ECONNRESET = 104"

section \<open>Operations\<close>

definition on_loop :: "(conn_loop \<Rightarrow> conn_loop res) \<Rightarrow> conn \<Rightarrow> conn res" where
  "on_loop f c = andThen (f (tc_loop c)) (\<lambda>l. Inr (c\<lparr>tc_loop := l\<rparr>))"

definition conn_chan :: "conn \<Rightarrow> (conn_cb channel \<Rightarrow> 'a res) \<Rightarrow> 'a res" where
  "conn_chan c = chan_at (tc_loop c) (tc_chan c)"

definition conn_queue :: "bool \<Rightarrow> conn_functor \<Rightarrow> conn \<Rightarrow> conn" where
  "conn_queue inLoop f c = c\<lparr>tc_loop := queueInLoop inLoop f (tc_loop c)\<rparr>"

definition newTcpConnection :: "conn_loop \<Rightarrow> nat \<Rightarrow> int \<Rightarrow> conn" where
  "newTcpConnection l chan sockfd =
     \<lparr>tc_loop = put_chan chan
        (setErrorCallback CbError (setCloseCallback CbClose (setWriteCallback CbWrite
          (setReadCallback CbRead (newChannel sockfd))))) l,
      tc_chan = chan, tc_state = kConnecting, tc_reading = True,
      tc_input = emptyBuffer, tc_output = emptyBuffer, tc_highWaterMark = 64 * 1024 * 1024,
      tc_hasWriteComplete = False, tc_hasHighWater = False,
      tc_wire = [], tc_shut = False, tc_accepted = [], tc_delayed = [], tc_closes = 0\<rparr>"

definition destroyTcpConnection :: "conn \<Rightarrow> conn res" where
  "destroyTcpConnection c =
     check (tc_state c = kDisconnected) ''tcpconnection.cpp:77'' (
     on_loop (destroyChannel True (tc_chan c)) c)"

definition sendInLoop :: "bool \<Rightarrow> written \<Rightarrow> byte list \<Rightarrow> conn \<Rightarrow> conn res" where
  "sendInLoop inLoop w data c =
     assertInLoopThread inLoop (
     if tc_state c = kDisconnected then Inr c
     else conn_chan c (\<lambda>ch.
     let len = length data;
         (nwrote, remaining, faultError, c1) =
           (if \<not> isWriting ch \<and> readableBytes (tc_output c) = 0 then
              (case w of
                 Inr n \<Rightarrow>
                   let cw = c\<lparr>tc_wire := tc_wire c @ take n data\<rparr>
                   in (n, sz_sub len n, False,
                       if sz_sub len n = 0 \<and> tc_hasWriteComplete c
                       then conn_queue inLoop FWriteComplete cw else cw)
               | Inl errno \<Rightarrow>
                   (0, len, errno \<noteq> EWOULDBLOCK \<and> (errno = EPIPE \<or> errno = ECONNRESET), c))
            else (0, len, False, c))
     in check (remaining \<le> len) ''tcpconnection.cpp:204'' (
     if \<not> faultError then
       let c2 = c1\<lparr>tc_accepted := tc_accepted c1 @ data\<rparr> in
       if remaining > 0 then
         let oldLen = readableBytes (tc_output c2);
             c3 = (if sz_add oldLen remaining \<ge> tc_highWaterMark c2 \<and> oldLen < tc_highWaterMark c2 \<and>
                      tc_hasHighWater c2
                   then conn_queue inLoop (FHighWater (sz_add oldLen remaining)) c2 else c2)
         in andThen (append_buf (tc_output c3) (take remaining (drop nwrote data))) (\<lambda>out.
            let c4 = c3\<lparr>tc_output := out\<rparr>
            in if \<not> isWriting ch then on_loop (enableWriting inLoop (tc_chan c4)) c4 else Inr c4)
       else Inr c2
     else Inr c1)))"

text \<open>\<^verbatim>\<open>send(const std::string&)\<close>; in another thread the message is bound into a functor.\<close>

definition send :: "bool \<Rightarrow> written \<Rightarrow> byte list \<Rightarrow> conn \<Rightarrow> conn res" where
  "send inLoop w message c =
     (if tc_state c = kConnected then
        if inLoop then sendInLoop inLoop w message c
        else Inr (conn_queue inLoop (FSend message) c)
      else Inr c)"

text \<open>\<^verbatim>\<open>send(const void*, int)\<close>: a negative length becomes a huge \<^verbatim>\<open>size_t\<close>, which the string rejects.\<close>

definition send_raw :: "bool \<Rightarrow> written \<Rightarrow> byte list \<Rightarrow> int \<Rightarrow> conn \<Rightarrow> conn res" where
  "send_raw inLoop w message len c =
     (if len < 0 then Inl (Throws ''std::length_error'')
      else if length message < nat len then Inl (Undefined ''tcpconnection.cpp:95: read past the message'')
      else send inLoop w (take (nat len) message) c)"

text \<open>\<^verbatim>\<open>send(Buffer*)\<close>, with the caller's buffer \<open>b\<close>.\<close>

definition send_buffer :: "bool \<Rightarrow> written \<Rightarrow> buffer \<Rightarrow> conn \<Rightarrow> (conn \<times> buffer) res" where
  "send_buffer inLoop w b c =
     (if tc_state c = kConnected then
        if inLoop then
          andThen (sendInLoop inLoop w (range_of b (peek b) (peek b + readableBytes b)) c) (\<lambda>c'.
          Inr (c', retrieveAll b))
        else
          andThen (retrieveAllAsString b) (\<lambda>(str, b').
          Inr (conn_queue inLoop (FSend str) c, b'))
      else Inr (c, b))"

definition shutdownInLoop :: "bool \<Rightarrow> conn \<Rightarrow> conn res" where
  "shutdownInLoop inLoop c =
     assertInLoopThread inLoop (
     conn_chan c (\<lambda>ch. if \<not> isWriting ch then Inr (c\<lparr>tc_shut := True\<rparr>) else Inr c))"

definition shutdown :: "bool \<Rightarrow> conn \<Rightarrow> conn res" where
  "shutdown inLoop c =
     (if tc_state c = kConnected then
        let c1 = c\<lparr>tc_state := kDisconnecting\<rparr>
        in if inLoop then shutdownInLoop inLoop c1 else Inr (conn_queue inLoop FShutdown c1)
      else Inr c)"

definition handleClose :: "user \<Rightarrow> bool \<Rightarrow> conn \<Rightarrow> conn res" where
  "handleClose user inLoop c =
     assertInLoopThread inLoop (
     check (tc_state c = kConnected \<or> tc_state c = kDisconnecting) ''tcpconnection.cpp:407'' (
     andThen (on_loop (disableAll inLoop (tc_chan c)) (c\<lparr>tc_state := kDisconnected\<rparr>)) (\<lambda>c1.
     andThen (user UConnection c1) (\<lambda>c2. user UClose (c2\<lparr>tc_closes := Suc (tc_closes c2)\<rparr>)))))"

definition forceClose :: "bool \<Rightarrow> conn \<Rightarrow> conn" where
  "forceClose inLoop c =
     (if tc_state c = kConnected \<or> tc_state c = kDisconnecting
      then conn_queue inLoop FForceClose (c\<lparr>tc_state := kDisconnecting\<rparr>) else c)"

definition forceCloseWithDelay :: "rat \<Rightarrow> conn \<Rightarrow> conn" where
  "forceCloseWithDelay seconds c =
     (if tc_state c = kConnected \<or> tc_state c = kDisconnecting
      then c\<lparr>tc_state := kDisconnecting, tc_delayed := tc_delayed c @ [seconds]\<rparr> else c)"

definition forceCloseInLoop :: "user \<Rightarrow> bool \<Rightarrow> conn \<Rightarrow> conn res" where
  "forceCloseInLoop user inLoop c =
     assertInLoopThread inLoop (
     if tc_state c = kConnected \<or> tc_state c = kDisconnecting then handleClose user inLoop c else Inr c)"

definition startReadInLoop :: "bool \<Rightarrow> conn \<Rightarrow> conn res" where
  "startReadInLoop inLoop c =
     assertInLoopThread inLoop (
     conn_chan c (\<lambda>ch.
     if \<not> tc_reading c \<or> \<not> isReading ch then
       andThen (on_loop (enableReading inLoop (tc_chan c)) c) (\<lambda>c'. Inr (c'\<lparr>tc_reading := True\<rparr>))
     else Inr c))"

definition startRead :: "bool \<Rightarrow> conn \<Rightarrow> conn res" where
  "startRead inLoop c = (if inLoop then startReadInLoop inLoop c else Inr (conn_queue inLoop FStartRead c))"

definition stopReadInLoop :: "bool \<Rightarrow> conn \<Rightarrow> conn res" where
  "stopReadInLoop inLoop c =
     assertInLoopThread inLoop (
     conn_chan c (\<lambda>ch.
     if tc_reading c \<or> isReading ch then
       andThen (on_loop (disableReading inLoop (tc_chan c)) c) (\<lambda>c'. Inr (c'\<lparr>tc_reading := False\<rparr>))
     else Inr c))"

definition stopRead :: "bool \<Rightarrow> conn \<Rightarrow> conn res" where
  "stopRead inLoop c = (if inLoop then stopReadInLoop inLoop c else Inr (conn_queue inLoop FStopRead c))"

text \<open>\<open>self\<close> is the identity of the shared pointer the channel is tied to.\<close>

definition connectEstablished :: "user \<Rightarrow> nat \<Rightarrow> bool \<Rightarrow> conn \<Rightarrow> conn res" where
  "connectEstablished user self inLoop c =
     assertInLoopThread inLoop (
     check (tc_state c = kConnecting) ''tcpconnection.cpp:321'' (
     conn_chan c (\<lambda>ch.
     let c1 = c\<lparr>tc_state := kConnected, tc_loop := put_chan (tc_chan c) (tie self ch) (tc_loop c)\<rparr>
     in andThen (on_loop (enableReading inLoop (tc_chan c1)) c1) (\<lambda>c2. user UConnection c2))))"

definition connectDestroyed :: "user \<Rightarrow> bool \<Rightarrow> conn \<Rightarrow> conn res" where
  "connectDestroyed user inLoop c =
     assertInLoopThread inLoop (
     andThen
       (if tc_state c = kConnected then
          andThen (on_loop (disableAll inLoop (tc_chan c)) (c\<lparr>tc_state := kDisconnected\<rparr>)) (\<lambda>c1.
          user UConnection c1)
        else Inr c)
       (\<lambda>c2. on_loop (channel_remove inLoop (tc_chan c2)) c2))"

text \<open>\<^verbatim>\<open>handleError\<close> reads \<^verbatim>\<open>SO_ERROR\<close> and logs it.\<close>

definition handleError :: "conn \<Rightarrow> conn res" where
  "handleError c = Inr c"

definition handleRead_conn :: "user \<Rightarrow> (nat \<Rightarrow> int + byte list) \<Rightarrow> bool \<Rightarrow> conn \<Rightarrow> conn res" where
  "handleRead_conn user readv inLoop c =
     assertInLoopThread inLoop (
     andThen (readFd readv (tc_input c) 0) (\<lambda>(b, n, savedErrno).
     let c1 = c\<lparr>tc_input := b\<rparr>
     in if n > 0 then user UMessage c1
        else if n = 0 then handleClose user inLoop c1
        else handleError c1))"

definition handleWrite :: "written \<Rightarrow> bool \<Rightarrow> conn \<Rightarrow> conn res" where
  "handleWrite w inLoop c =
     assertInLoopThread inLoop (
     conn_chan c (\<lambda>ch.
     if isWriting ch then
       (case w of
          Inl errno \<Rightarrow> Inr c
        | Inr n \<Rightarrow>
            if n > 0 then
              let c1 = c\<lparr>tc_wire := tc_wire c @ take n (range_of (tc_output c) (peek (tc_output c))
                           (peek (tc_output c) + readableBytes (tc_output c)))\<rparr>
              in andThen (retrieve (tc_output c1) n) (\<lambda>out.
              let c2 = c1\<lparr>tc_output := out\<rparr>
              in if readableBytes (tc_output c2) = 0 then
                   andThen (on_loop (disableWriting inLoop (tc_chan c2)) c2) (\<lambda>c3.
                   let c4 = (if tc_hasWriteComplete c3 then conn_queue inLoop FWriteComplete c3 else c3)
                   in if tc_state c4 = kDisconnecting then shutdownInLoop inLoop c4 else Inr c4)
                 else Inr c2)
            else Inr c)
     else Inr c))"

definition stateToString :: "StateE \<Rightarrow> string" where
  "stateToString st =
     (case st of
        kDisconnected \<Rightarrow> ''kDisconnected''
      | kConnecting \<Rightarrow> ''kConnecting''
      | kConnected \<Rightarrow> ''kConnected''
      | kDisconnecting \<Rightarrow> ''kDisconnecting'')"

definition connected :: "conn \<Rightarrow> bool" where
  "connected c \<longleftrightarrow> tc_state c = kConnected"

definition disconnected :: "conn \<Rightarrow> bool" where
  "disconnected c \<longleftrightarrow> tc_state c = kDisconnected"

definition setWriteCompleteCallback :: "conn \<Rightarrow> conn" where
  "setWriteCompleteCallback c = c\<lparr>tc_hasWriteComplete := True\<rparr>"

definition setHighWaterMarkCallback :: "nat \<Rightarrow> conn \<Rightarrow> conn" where
  "setHighWaterMarkCallback mark c = c\<lparr>tc_hasHighWater := True, tc_highWaterMark := mark\<rparr>"

text \<open>Running a queued functor; \<open>w\<close> is the result of the write it may make.\<close>

definition run_functor :: "user \<Rightarrow> written \<Rightarrow> conn_functor \<Rightarrow> conn \<Rightarrow> conn res" where
  "run_functor user w f c =
     (case f of
        FWriteComplete \<Rightarrow> user UWriteComplete c
      | FHighWater n \<Rightarrow> user (UHighWater n) c
      | FSend data \<Rightarrow> sendInLoop True w data c
      | FShutdown \<Rightarrow> shutdownInLoop True c
      | FForceClose \<Rightarrow> forceCloseInLoop user True c
      | FStartRead \<Rightarrow> startReadInLoop True c
      | FStopRead \<Rightarrow> stopReadInLoop True c)"

section \<open>Invariant of an established connection\<close>

text \<open>
  The channel is registered; while the connection is open it watches for writability exactly if
  the output buffer is not empty, afterwards it watches nothing; and the bytes taken by the kernel
  followed by those in the output buffer are all bytes accepted for sending.
\<close>

definition chan_inv :: "conn \<Rightarrow> conn_cb channel \<Rightarrow> bool" where
  "chan_inv c ch \<longleftrightarrow>
     el_channels (tc_loop c) (tc_chan c) = Some ch \<and>
     el_reg (tc_loop c) (ch_fd ch) = Some (tc_chan c) \<and> api_events (ch_events ch) \<and>
     (if tc_state c = kDisconnected then ch_events ch = 0
      else isWriting ch \<longleftrightarrow> contents (tc_output c) \<noteq> [])"

definition conn_inv :: "conn \<Rightarrow> bool" where
  "conn_inv c \<longleftrightarrow>
     el_inv (tc_loop c) \<and> buffer_wf (tc_input c) \<and> buffer_wf (tc_output c) \<and>
     tc_state c \<noteq> kConnecting \<and>
     tc_wire c @ contents (tc_output c) = tc_accepted c \<and> (\<exists>ch. chan_inv c ch)"

lemma conn_invD:
  assumes "conn_inv c"
  shows "el_inv (tc_loop c)" and "buffer_wf (tc_input c)" and "buffer_wf (tc_output c)"
    and "tc_state c \<noteq> kConnecting" and "tc_wire c @ contents (tc_output c) = tc_accepted c"
  using assms by (auto simp: conn_inv_def)

lemma conn_inv_chan:
  assumes "conn_inv c"
  obtains ch where "chan_inv c ch" and "el_channels (tc_loop c) (tc_chan c) = Some ch"
    and "el_reg (tc_loop c) (ch_fd ch) = Some (tc_chan c)" and "api_events (ch_events ch)"
  using assms by (auto simp: conn_inv_def chan_inv_def)

lemma conn_chan_Some [conn_simps]:
  "el_channels (tc_loop c) (tc_chan c) = Some ch \<Longrightarrow> conn_chan c k = k ch"
  by (simp add: conn_chan_def chan_at_def)

lemma queueInLoop_frame [conn_simps]:
  "el_inv (queueInLoop b f l) = el_inv l" "el_channels (queueInLoop b f l) = el_channels l"
  "el_reg (queueInLoop b f l) = el_reg l"
  by (simp_all add: queueInLoop_def wakeup_def Let_def el_inv_def el_reg_def)

lemma conn_queue_frame [conn_simps]:
  "chan_inv (conn_queue b f c) ch = chan_inv c ch" "conn_inv (conn_queue b f c) = conn_inv c"
  "tc_output (conn_queue b f c) = tc_output c" "tc_chan (conn_queue b f c) = tc_chan c"
  "tc_state (conn_queue b f c) = tc_state c"
  by (simp_all add: conn_queue_def chan_inv_def conn_inv_def conn_simps)

lemma conn_frame [conn_simps]:
  "chan_inv (c\<lparr>tc_shut := b\<rparr>) ch = chan_inv c ch" "chan_inv (c\<lparr>tc_input := i\<rparr>) ch = chan_inv c ch"
  "chan_inv (c\<lparr>tc_reading := r\<rparr>) ch = chan_inv c ch" "chan_inv (c\<lparr>tc_closes := n\<rparr>) ch = chan_inv c ch"
  by (simp_all add: chan_inv_def)

lemma conn_inv_frame [conn_simps]:
  "conn_inv (c\<lparr>tc_shut := b\<rparr>) = conn_inv c" "conn_inv (c\<lparr>tc_reading := r\<rparr>) = conn_inv c"
  "conn_inv (c\<lparr>tc_closes := n\<rparr>) = conn_inv c"
  "conn_inv c \<Longrightarrow> buffer_wf i \<Longrightarrow> conn_inv (c\<lparr>tc_input := i\<rparr>)"
  by (simp_all add: conn_inv_def conn_frame)

text \<open>Changing the events of the connection's channel.\<close>

lemma conn_set:
  assumes inv: "el_inv (tc_loop c)" and ch: "el_channels (tc_loop c) (tc_chan c) = Some ch"
    and reg: "el_reg (tc_loop c) (ch_fd ch) = Some (tc_chan c)" and ev: "api_events (f (ch_events ch))"
  shows "\<exists>l ch'. on_loop (channel_set f True (tc_chan c)) c = Inr (c\<lparr>tc_loop := l\<rparr>) \<and> el_inv l \<and>
     el_channels l (tc_chan c) = Some ch' \<and> ch_fd ch' = ch_fd ch \<and> ch_events ch' = f (ch_events ch) \<and>
     el_reg l (ch_fd ch) = Some (tc_chan c)"
proof -
  from channel_set_ok [where f = f, OF inv ch ev] reg obtain p i where
    "channel_set f True (tc_chan c) (tc_loop c) =
       Inr ((tc_loop c)\<lparr>el_poller := p, el_channels := (el_channels (tc_loop c))
         (tc_chan c \<mapsto> ch\<lparr>ch_events := f (ch_events ch), ch_addedToLoop := True, ch_index := i\<rparr>)\<rparr>)"
    "poller_inv (p, (el_channels (tc_loop c))
         (tc_chan c \<mapsto> ch\<lparr>ch_events := f (ch_events ch), ch_addedToLoop := True, ch_index := i\<rparr>))"
    "poller_channels p = (el_reg (tc_loop c))(ch_fd ch \<mapsto> tc_chan c)" by blast
  then show ?thesis by (auto simp: on_loop_def el_upd_simps)
qed

lemma isWriting_ops:
  assumes "api_events (ch_events ch)"
  shows "ch_events ch' = ev_enableWriting (ch_events ch) \<Longrightarrow> isWriting ch'"
    and "ch_events ch' = ev_disableWriting (ch_events ch) \<Longrightarrow> \<not> isWriting ch'"
    and "ch_events ch' = ev_enableReading (ch_events ch) \<Longrightarrow> isWriting ch' = isWriting ch"
    and "ch_events ch' = ev_disableReading (ch_events ch) \<Longrightarrow> isWriting ch' = isWriting ch"
  using writing_ops [OF assms] by (auto simp: isWriting_def)

text \<open>
  The output buffer has room for an answer to everything in the input buffer. The user's callbacks may do
  what they like as long as they keep the invariant, and they may rely on this room; only the close
  callback, which belongs to TcpServer or TcpClient, does not get it.
\<close>

definition roomy :: "conn \<Rightarrow> bool" where
  "roomy c \<longleftrightarrow>
     length (contents (tc_output c)) + 2 * length (contents (tc_input c)) + 2 ^ 20 \<le> max_buf"

definition user_law :: "user \<Rightarrow> bool" where
  "user_law user \<longleftrightarrow>
     (\<forall>u c. conn_inv c \<and> (u = UClose \<or> roomy c) \<longrightarrow> (\<exists>c'. user u c = Inr c' \<and> conn_inv c'))"

lemma user_lawD:
  "user_law user \<Longrightarrow> conn_inv c \<Longrightarrow> u = UClose \<or> roomy c \<Longrightarrow> \<exists>c'. user u c = Inr c' \<and> conn_inv c'"
  by (simp add: user_law_def)

lemma roomy_frame [conn_simps]:
  "roomy (c\<lparr>tc_loop := l\<rparr>) = roomy c" "roomy (c\<lparr>tc_state := st\<rparr>) = roomy c"
  by (simp_all add: roomy_def)

lemma contents_range:
  assumes "buffer_wf b"
  shows "range_of b (peek b) (peek b + readableBytes b) = contents b"
  using assms range_of_peek [of b] readableBytes_eq [OF assms] wf_indices [OF assms]
  by (simp add: peek_def beginWrite_def)

section \<open>Sending\<close>

text \<open>The part of \<^verbatim>\<open>sendInLoop\<close> that buffers what the kernel did not take.\<close>

text \<open>The last part of \<^verbatim>\<open>sendInLoop\<close>: what the kernel did not take is buffered, and writability watched for.\<close>

definition send_tail :: "conn_cb channel \<Rightarrow> byte list \<Rightarrow> conn \<Rightarrow> conn res" where
  "send_tail ch rest c =
     andThen (append_buf (tc_output c) rest) (\<lambda>out.
     if \<not> isWriting ch then on_loop (enableWriting True (tc_chan c)) (c\<lparr>tc_output := out\<rparr>)
     else Inr (c\<lparr>tc_output := out\<rparr>))"

lemma send_tail_ok:
  assumes inv: "el_inv (tc_loop c)" and wf: "buffer_wf (tc_input c)" "buffer_wf (tc_output c)"
    and ch: "chan_inv c ch" and st: "tc_state c \<noteq> kConnecting" "tc_state c \<noteq> kDisconnected"
    and stream: "tc_wire c @ contents (tc_output c) @ rest = tc_accepted c" and rest: "rest \<noteq> []"
    and fits: "fits (tc_output c) (length rest)"
  shows "\<exists>c'. send_tail ch rest c = Inr c' \<and> conn_inv c' \<and> tc_accepted c' = tc_accepted c"
proof -
  obtain out where out: "append_buf (tc_output c) rest = Inr out" "buffer_wf out"
    "contents out = contents (tc_output c) @ rest" using wf(2) fits by (rule bq.app_E)
  let ?c = "c\<lparr>tc_output := out\<rparr>"
  note D = ch [unfolded chan_inv_def]
  show ?thesis
  proof (cases "isWriting ch")
    case True
    then have "conn_inv ?c"
      using inv wf out D st stream rest by (auto simp: conn_inv_def chan_inv_def)
    with True out(1) show ?thesis by (intro exI [of _ ?c]) (simp add: send_tail_def)
  next
    case False
    have "api_events (ev_enableWriting (ch_events ch))" using D by (simp add: channel_simps)
    with conn_set [of ?c ch ev_enableWriting] inv D obtain l ch' where
      l: "on_loop (enableWriting True (tc_chan c)) ?c = Inr (?c\<lparr>tc_loop := l\<rparr>)" "el_inv l"
      "el_channels l (tc_chan c) = Some ch'" "ch_fd ch' = ch_fd ch"
      "ch_events ch' = ev_enableWriting (ch_events ch)" "el_reg l (ch_fd ch) = Some (tc_chan c)"
      by (auto simp: enableWriting_def)
    have "isWriting ch'" "api_events (ch_events ch')"
      using l(5) D isWriting_ops(1) [of ch ch'] by (simp_all add: channel_simps)
    then have "conn_inv (?c\<lparr>tc_loop := l\<rparr>)"
      using l wf out st stream rest by (auto simp: conn_inv_def chan_inv_def)
    with False out(1) l(1) show ?thesis by (intro exI [of _ "?c\<lparr>tc_loop := l\<rparr>"]) (simp add: send_tail_def)
  qed
qed

definition write_ok :: "written \<Rightarrow> nat \<Rightarrow> bool" where
  "write_ok w n \<longleftrightarrow> (case w of Inl e \<Rightarrow> True | Inr k \<Rightarrow> k \<le> n)"

text \<open>The peer is gone, and the code gives the data up.\<close>

definition refused :: "written \<Rightarrow> bool" where
  "refused w \<longleftrightarrow> w = Inl EPIPE \<or> w = Inl ECONNRESET"

lemma fits_mono: "fits b n \<Longrightarrow> m \<le> n \<Longrightarrow> fits b m"
  by (simp add: fits_def)

lemma fits_size: "fits b n \<Longrightarrow> n < size_mod"
  by (simp add: fits_def max_buf_def)

text \<open>Buffering the bytes \<open>rest\<close> after the bookkeeping of the high-water mark.\<close>

lemma send_buffered:
  assumes inv: "conn_inv c" and ch: "chan_inv c ch" and st: "tc_state c \<noteq> kDisconnected"
    and data: "data = took @ rest" "rest \<noteq> []" and took: "contents (tc_output c) \<noteq> [] \<Longrightarrow> took = []"
    and fits: "fits (tc_output c) (length data)"
    and c2: "c2 = c\<lparr>tc_wire := tc_wire c @ took, tc_accepted := tc_accepted c @ data\<rparr>"
    and c3: "c3 = c2 \<or> c3 = conn_queue True f c2"
  shows "\<exists>c'. send_tail ch rest c3 = Inr c' \<and> conn_inv c' \<and> tc_accepted c' = tc_accepted c @ data"
proof -
  note D = conn_invD [OF inv]
  have same: "el_inv (tc_loop c3) = el_inv (tc_loop c)" "tc_input c3 = tc_input c" "tc_output c3 = tc_output c"
    "chan_inv c3 ch = chan_inv c ch" "tc_state c3 = tc_state c" "tc_wire c3 = tc_wire c @ took"
    "tc_accepted c3 = tc_accepted c @ data"
    using c3 by (auto simp: c2 conn_queue_def conn_simps chan_inv_def)
  have "tc_wire c3 @ contents (tc_output c3) @ rest = tc_accepted c3"
    using D(5) took data by (cases "contents (tc_output c) = []") (auto simp: same)
  moreover have "fits (tc_output c3) (length rest)"
    using fits data(1) by (auto simp: same intro: fits_mono)
  ultimately have "\<exists>c'. send_tail ch rest c3 = Inr c' \<and> conn_inv c' \<and> tc_accepted c' = tc_accepted c3"
    using D(1-4) ch st data(2) by (intro send_tail_ok) (simp_all add: same)
  then show ?thesis by (simp add: same)
qed

lemma send_done:
  assumes inv: "conn_inv c" and st: "tc_state c \<noteq> kDisconnected"
    and data: "data = took" and took: "contents (tc_output c) \<noteq> [] \<Longrightarrow> took = []"
    and c2: "c2 = c\<lparr>tc_wire := tc_wire c @ took, tc_accepted := tc_accepted c @ data\<rparr>"
    and c3: "c3 = c2 \<or> c3 = conn_queue True f c2"
  shows "conn_inv c3 \<and> tc_accepted c3 = tc_accepted c @ data"
proof -
  have "conn_inv c2"
    using inv took by (cases "contents (tc_output c) = []") (auto simp: c2 data conn_inv_def chan_inv_def)
  then have "conn_inv c3" using c3 by (auto simp: conn_simps)
  with c3 show ?thesis by (auto simp: c2 conn_queue_def)
qed

text \<open>
  \<^verbatim>\<open>sendInLoop\<close> on an open connection, in terms of the readable bytes: how much the kernel took at once, what is
  left, and which callbacks are queued.
\<close>

definition taken :: "written \<Rightarrow> byte list \<Rightarrow> conn \<Rightarrow> byte list" where
  "taken w data c = (case w of Inl e \<Rightarrow> [] | Inr n \<Rightarrow> if contents (tc_output c) = [] then take n data else [])"

definition sent :: "written \<Rightarrow> byte list \<Rightarrow> conn \<Rightarrow> conn" where
  "sent w data c = c\<lparr>tc_wire := tc_wire c @ taken w data c, tc_accepted := tc_accepted c @ data\<rparr>"

lemma sendInLoop_eq:
  assumes inv: "conn_inv c" and w: "write_ok w (length data)" and fits: "fits (tc_output c) (length data)"
    and st: "tc_state c \<noteq> kDisconnected" and ch: "chan_inv c ch"
  shows "sendInLoop True w data c =
     (let old = length (contents (tc_output c));
          rest = drop (length (taken w data c)) data;
          total = sz_add old (length rest)
      in if old = 0 \<and> refused w then Inr c
         else if rest = [] then
           Inr (if old = 0 \<and> w = Inr (length data) \<and> tc_hasWriteComplete c
                then conn_queue True FWriteComplete (sent w data c) else sent w data c)
         else send_tail ch rest
           (if tc_highWaterMark c \<le> total \<and> old < tc_highWaterMark c \<and> tc_hasHighWater c
            then conn_queue True (FHighWater total) (sent w data c) else sent w data c))"
proof -
  note facts = st ch [unfolded chan_inv_def] readableBytes_contents [OF conn_invD(3) [OF inv]]
  have lt: "length data < size_mod" using fits by (rule fits_size)
  note defs = sendInLoop_def send_tail_def taken_def sent_def conn_simps Let_def conn_queue_def refused_def
  show ?thesis
  proof (cases "contents (tc_output c) = [] \<and> (\<exists>n. w = Inr n)")
    case True
    then obtain n where n: "w = Inr n" "contents (tc_output c) = []" by blast
    have le: "n \<le> length data" using w n by (simp add: write_ok_def)
    then have "sz_sub (length data) n = length data - n" using lt by (rule sz_sub_eq)
    with facts n le show ?thesis by (cases "n = length data") (simp_all add: defs min_def)
  next
    case False
    with facts show ?thesis
      by (cases w) (auto simp: defs EWOULDBLOCK_def EPIPE_def ECONNRESET_def)
  qed
qed

lemma sendInLoop_ok:
  assumes inv: "conn_inv c" and w: "write_ok w (length data)" and fits: "fits (tc_output c) (length data)"
  shows "\<exists>c'. sendInLoop True w data c = Inr c' \<and> conn_inv c' \<and>
     tc_accepted c' = tc_accepted c @
       (if tc_state c = kDisconnected \<or> contents (tc_output c) = [] \<and> refused w then [] else data)"
proof (cases "tc_state c = kDisconnected \<or> contents (tc_output c) = [] \<and> refused w")
  case True
  obtain ch where "chan_inv c ch" using inv by (rule conn_inv_chan)
  with True inv sendInLoop_eq [OF inv w fits] have "sendInLoop True w data c = Inr c"
    by (cases "tc_state c = kDisconnected") (simp_all add: sendInLoop_def)
  with True inv show ?thesis by simp
next
  case False
  then have st: "tc_state c \<noteq> kDisconnected" by simp
  obtain ch where ch: "chan_inv c ch" using inv by (rule conn_inv_chan)
  let ?rest = "drop (length (taken w data c)) data"
  have data: "data = taken w data c @ ?rest"
    by (auto simp: taken_def min_def split: sum.splits)
  have took: "contents (tc_output c) \<noteq> [] \<Longrightarrow> taken w data c = []"
    by (auto simp: taken_def split: sum.splits)
  note eq = sendInLoop_eq [OF inv w fits st ch, unfolded Let_def]
  show ?thesis
  proof (cases "?rest = []")
    case True
    define c' where "c' = (if contents (tc_output c) = [] \<and> w = Inr (length data) \<and> tc_hasWriteComplete c
      then conn_queue True FWriteComplete (sent w data c) else sent w data c)"
    have "sendInLoop True w data c = Inr c'" using eq False True by (auto simp: c'_def)
    moreover have "conn_inv c' \<and> tc_accepted c' = tc_accepted c @ data"
      by (rule send_done [OF inv st _ took sent_def, where f = FWriteComplete]) (use data True in \<open>auto simp: c'_def\<close>)
    ultimately show ?thesis using False by auto
  next
    case rest: False
    from send_buffered [OF inv ch st data rest took fits sent_def] eq False rest show ?thesis by auto
  qed
qed

section \<open>Writing, reading, closing\<close>

lemma shutdownInLoop_ok:
  assumes inv: "conn_inv c"
  shows "\<exists>b. shutdownInLoop True c = Inr (c\<lparr>tc_shut := b\<rparr>) \<and> conn_inv (c\<lparr>tc_shut := b\<rparr>) \<and>
     (b \<longrightarrow> tc_shut c \<or> tc_state c = kDisconnected \<or> contents (tc_output c) = []) \<and>
     (contents (tc_output c) = [] \<longrightarrow> b \<or> tc_state c = kDisconnected)"
proof -
  obtain ch where ch: "chan_inv c ch" and at: "el_channels (tc_loop c) (tc_chan c) = Some ch"
    using inv by (rule conn_inv_chan)
  have "conn_inv (c\<lparr>tc_shut := b\<rparr>)" for b
    using inv by (simp add: conn_simps)
  moreover have "shutdownInLoop True c = Inr (c\<lparr>tc_shut := tc_shut c \<or> \<not> isWriting ch\<rparr>)"
    using at by (cases "isWriting ch") (simp_all add: shutdownInLoop_def conn_simps)
  moreover have "tc_state c = kDisconnected \<or> (isWriting ch \<longleftrightarrow> contents (tc_output c) \<noteq> [])"
    using ch by (auto simp: chan_inv_def)
  ultimately show ?thesis by (intro exI [of _ "tc_shut c \<or> \<not> isWriting ch"]) auto
qed

text \<open>The output buffer is empty: \<^verbatim>\<open>handleWrite\<close> stops watching and goes on with a pending shutdown.\<close>

lemma drained_ok:
  assumes loop: "el_inv (tc_loop c)" and wf: "buffer_wf (tc_input c)" "buffer_wf (tc_output c)"
    and ch: "el_channels (tc_loop c) (tc_chan c) = Some ch" "el_reg (tc_loop c) (ch_fd ch) = Some (tc_chan c)"
      "api_events (ch_events ch)"
    and stream: "tc_wire c = tc_accepted c" and empty: "contents (tc_output c) = []"
    and st: "tc_state c \<noteq> kConnecting" "tc_state c \<noteq> kDisconnected"
  shows "\<exists>c'. andThen (on_loop (disableWriting True (tc_chan c)) c) (\<lambda>c3.
       let c4 = (if tc_hasWriteComplete c3 then conn_queue True FWriteComplete c3 else c3)
       in if tc_state c4 = kDisconnecting then shutdownInLoop True c4 else Inr c4) = Inr c' \<and>
     conn_inv c' \<and> tc_accepted c' = tc_accepted c \<and> tc_state c' = tc_state c \<and> tc_output c' = tc_output c \<and>
     tc_shut c' = (tc_shut c \<or> tc_state c = kDisconnecting)"
proof -
  have "api_events (ev_disableWriting (ch_events ch))" using ch(3) by (simp add: channel_simps)
  with conn_set [of c ch ev_disableWriting] loop ch obtain l ch' where
    l: "on_loop (disableWriting True (tc_chan c)) c = Inr (c\<lparr>tc_loop := l\<rparr>)" "el_inv l"
    "el_channels l (tc_chan c) = Some ch'" "ch_fd ch' = ch_fd ch"
    "ch_events ch' = ev_disableWriting (ch_events ch)" "el_reg l (ch_fd ch) = Some (tc_chan c)"
    by (auto simp: disableWriting_def)
  have "\<not> isWriting ch'" "api_events (ch_events ch')"
    using l(5) ch(3) isWriting_ops(2) [of ch ch'] by (simp_all add: channel_simps)
  then have inv: "conn_inv (c\<lparr>tc_loop := l\<rparr>)"
    using l wf stream empty st by (auto simp: conn_inv_def chan_inv_def)
  define c4 where "c4 = (if tc_hasWriteComplete c then conn_queue True FWriteComplete (c\<lparr>tc_loop := l\<rparr>)
    else c\<lparr>tc_loop := l\<rparr>)"
  have inv4: "conn_inv c4" using inv by (simp add: c4_def conn_simps)
  have same: "tc_state c4 = tc_state c" "tc_output c4 = tc_output c" "tc_shut c4 = tc_shut c"
    "tc_accepted c4 = tc_accepted c"
    by (simp_all add: c4_def conn_queue_def)
  from shutdownInLoop_ok [OF inv4] empty st obtain b where
    "shutdownInLoop True c4 = Inr (c4\<lparr>tc_shut := b\<rparr>)" "conn_inv (c4\<lparr>tc_shut := b\<rparr>)" "b" by (auto simp: same)
  with l(1) inv4 show ?thesis by (simp add: c4_def [symmetric] same)
qed

text \<open>\<^verbatim>\<open>handleWrite\<close> moves bytes from the output buffer to the kernel.\<close>

lemma handleWrite_ok:
  assumes inv: "conn_inv c" and w: "write_ok w (length (contents (tc_output c)))"
  shows "\<exists>c'. handleWrite w True c = Inr c' \<and> conn_inv c' \<and> tc_accepted c' = tc_accepted c \<and>
     tc_state c' = tc_state c \<and>
     (tc_state c \<noteq> kDisconnected \<longrightarrow>
        contents (tc_output c') = (case w of Inl e \<Rightarrow> contents (tc_output c)
                                   | Inr n \<Rightarrow> drop n (contents (tc_output c))) \<and>
        tc_shut c' = (tc_shut c \<or> tc_state c = kDisconnecting \<and> contents (tc_output c) \<noteq> [] \<and>
                        contents (tc_output c') = []))"
proof -
  note D = conn_invD [OF inv]
  obtain ch where ch: "chan_inv c ch" and at: "el_channels (tc_loop c) (tc_chan c) = Some ch"
    and reg: "el_reg (tc_loop c) (ch_fd ch) = Some (tc_chan c)" and api: "api_events (ch_events ch)"
    using inv by (rule conn_inv_chan)
  let ?out = "contents (tc_output c)"
  show ?thesis
  proof (cases "isWriting ch \<and> (\<exists>n. w = Inr n \<and> 0 < n)")
    case False
    have "handleWrite w True c = Inr c"
      using at False by (cases w) (auto simp: handleWrite_def conn_simps)
    moreover have "tc_state c \<noteq> kDisconnected \<Longrightarrow> \<not> isWriting ch \<Longrightarrow> ?out = []"
      using ch by (simp add: chan_inv_def)
    ultimately show ?thesis using inv False by (auto split: sum.splits)
  next
    case True
    then obtain n where n: "w = Inr n" "0 < n" and wr: "isWriting ch" by blast
    have opened: "tc_state c \<noteq> kDisconnected"
      using ch wr by (auto simp: chan_inv_def isWriting_def has_bits_def)
    have ne: "?out \<noteq> []" using ch opened wr by (simp add: chan_inv_def)
    have le: "n \<le> length ?out" using w n by (simp add: write_ok_def)
    obtain out where out: "retrieve (tc_output c) n = Inr out" "buffer_wf out" "contents out = drop n ?out"
      using D(3) le by (rule bq.ret_E)
    have rb: "readableBytes out = length (contents out)" using out(2) by (rule readableBytes_contents)
    define c2 where "c2 = c\<lparr>tc_wire := tc_wire c @ take n ?out, tc_output := out\<rparr>"
    have stream: "tc_wire c2 @ contents out = tc_accepted c"
      using D(5) out(3) by (simp add: c2_def)
    note exec = at wr n out(1) rb contents_range [OF D(3)]
    show ?thesis
    proof (cases "contents out = []")
      case False
      have "handleWrite w True c = Inr c2" using exec False by (simp add: handleWrite_def conn_simps c2_def)
      moreover have "conn_inv c2"
        using D(1,2,4) out(2) stream ch wr False opened by (auto simp: conn_inv_def chan_inv_def c2_def)
      ultimately show ?thesis using n out(3) False by (intro exI [of _ c2]) (simp add: c2_def)
    next
      case True
      have "tc_wire c2 = tc_accepted c2" using stream True by (simp add: c2_def)
      with drained_ok [of c2 ch] D(1,2,4) out(2) at reg api True opened show ?thesis
        using exec ne out(3) True by (auto simp: handleWrite_def conn_simps c2_def)
    qed
  qed
qed

text \<open>\<^verbatim>\<open>disableAll\<close> with the state set to \<^verbatim>\<open>kDisconnected\<close>, as both ways of closing do.\<close>

lemma close_channel:
  assumes inv: "conn_inv c"
  shows "\<exists>l. on_loop (disableAll True (tc_chan c)) (c\<lparr>tc_state := kDisconnected\<rparr>) =
       Inr (c\<lparr>tc_state := kDisconnected, tc_loop := l\<rparr>) \<and> conn_inv (c\<lparr>tc_state := kDisconnected, tc_loop := l\<rparr>)"
proof -
  note D = conn_invD [OF inv]
  obtain ch where at: "el_channels (tc_loop c) (tc_chan c) = Some ch"
    and reg: "el_reg (tc_loop c) (ch_fd ch) = Some (tc_chan c)"
    using inv by (rule conn_inv_chan)
  let ?c = "c\<lparr>tc_state := kDisconnected\<rparr>"
  have ev: "ev_disableAll (ch_events ch) = 0" by (simp add: ev_disableAll_def kNoneEvent_def)
  have api: "api_events 0" by (simp add: api_events_def)
  from conn_set [of ?c ch ev_disableAll] D(1) at reg ev api obtain l ch' where
    "on_loop (disableAll True (tc_chan c)) ?c = Inr (?c\<lparr>tc_loop := l\<rparr>)" "el_inv l"
    "el_channels l (tc_chan c) = Some ch'" "ch_fd ch' = ch_fd ch" "ch_events ch' = 0"
    "el_reg l (ch_fd ch) = Some (tc_chan c)" by (auto simp: disableAll_def)
  with D api show ?thesis by (intro exI [of _ l]) (auto simp: conn_inv_def chan_inv_def)
qed

lemma handleClose_ok:
  assumes inv: "conn_inv c" and law: "user_law user" and st: "tc_state c \<noteq> kDisconnected" and room: "roomy c"
  shows "\<exists>c'. handleClose user True c = Inr c' \<and> conn_inv c'"
proof -
  from close_channel [OF inv] obtain l where
    l: "on_loop (disableAll True (tc_chan c)) (c\<lparr>tc_state := kDisconnected\<rparr>) =
      Inr (c\<lparr>tc_state := kDisconnected, tc_loop := l\<rparr>)"
    "conn_inv (c\<lparr>tc_state := kDisconnected, tc_loop := l\<rparr>)" by blast
  from user_lawD [OF law l(2), of UConnection] room obtain c1 where
    c1: "user UConnection (c\<lparr>tc_state := kDisconnected, tc_loop := l\<rparr>) = Inr c1" "conn_inv c1"
    by (auto simp: conn_simps)
  have "conn_inv (c1\<lparr>tc_closes := Suc (tc_closes c1)\<rparr>)" using c1(2) by (simp add: conn_simps)
  note cl = user_lawD [OF law this, of UClose]
  have "tc_state c = kConnected \<or> tc_state c = kDisconnecting"
    using st conn_invD(4) [OF inv] by (cases "tc_state c") auto
  with l(1) c1 cl show ?thesis by (simp add: handleClose_def)
qed

text \<open>Room for what is read now and for an answer to it.\<close>

definition read_room :: "(nat \<Rightarrow> int + byte list) \<Rightarrow> conn \<Rightarrow> bool" where
  "read_room readv c \<longleftrightarrow>
     (case readv (readFd_capacity (tc_input c)) of
        Inl e \<Rightarrow> True
      | Inr bs \<Rightarrow> length (contents (tc_output c)) + 2 * (length (contents (tc_input c)) + length bs) + 2 ^ 20
                  \<le> max_buf)"

lemma handleRead_conn_ok:
  assumes inv: "conn_inv c" and law: "user_law user" and st: "tc_state c \<noteq> kDisconnected"
    and rl: "readv_law readv" and room: "read_room readv c"
  shows "\<exists>c'. handleRead_conn user readv True c = Inr c' \<and> conn_inv c'"
proof (cases "readv (readFd_capacity (tc_input c))")
  case (Inl e)
  have "c\<lparr>tc_input := tc_input c\<rparr> = c" by simp
  with Inl inv readFd_error [where readv = readv and b = "tc_input c" and se = 0, OF Inl] show ?thesis by (simp add: handleRead_conn_def handleError_def)
next
  case (Inr bs)
  have fits: "length (contents (tc_input c)) + 3 * extrabuf_size + kCheapPrepend \<le> max_buf"
    using room Inr by (simp add: read_room_def extrabuf_size_def buffer_consts)
  from readFd_ok [OF conn_invD(2) [OF inv] rl fits Inr, of 0] obtain b where
    b: "readFd readv (tc_input c) 0 = Inr (b, int (length bs), 0)" "buffer_wf b"
    "contents b = contents (tc_input c) @ bs" by blast
  have room1: "roomy (c\<lparr>tc_input := b\<rparr>)" using room Inr b(3) by (simp add: read_room_def roomy_def)
  have inv1: "conn_inv (c\<lparr>tc_input := b\<rparr>)" using inv b(2) by (simp add: conn_simps)
  show ?thesis
  proof (cases "bs = []")
    case True
    with b(1) handleClose_ok [OF inv1 law] st room1 show ?thesis by (simp add: handleRead_conn_def)
  next
    case False
    with b(1) user_lawD [OF law inv1, of UMessage] room1 show ?thesis by (simp add: handleRead_conn_def)
  qed
qed

lemma reading_ok:
  assumes inv: "conn_inv c"
  shows "tc_state c \<noteq> kDisconnected \<Longrightarrow> \<exists>c'. startReadInLoop True c = Inr c' \<and> conn_inv c'"
    and "\<exists>c'. stopReadInLoop True c = Inr c' \<and> conn_inv c'"
proof -
  note D = conn_invD [OF inv]
  obtain ch where ch: "chan_inv c ch" and at: "el_channels (tc_loop c) (tc_chan c) = Some ch"
    and reg: "el_reg (tc_loop c) (ch_fd ch) = Some (tc_chan c)" and api: "api_events (ch_events ch)"
    using inv by (rule conn_inv_chan)
  have a1: "api_events (ev_enableReading (ch_events ch))" "api_events (ev_disableReading (ch_events ch))"
    using api by (simp_all add: channel_simps)
  from conn_set [where f = ev_enableReading, OF D(1) at reg a1(1)] obtain l ch' where
    l: "on_loop (enableReading True (tc_chan c)) c = Inr (c\<lparr>tc_loop := l\<rparr>)" "el_inv l"
    "el_channels l (tc_chan c) = Some ch'" "ch_fd ch' = ch_fd ch"
    "ch_events ch' = ev_enableReading (ch_events ch)" "el_reg l (ch_fd ch) = Some (tc_chan c)"
    by (auto simp: enableReading_def)
  show "\<exists>c'. startReadInLoop True c = Inr c' \<and> conn_inv c'" if st: "tc_state c \<noteq> kDisconnected"
  proof -
    have "isWriting ch' = isWriting ch" using isWriting_ops(3) [OF api l(5)] .
    then have "conn_inv (c\<lparr>tc_loop := l, tc_reading := True\<rparr>)"
      using D l ch a1 st by (auto simp: conn_inv_def chan_inv_def)
    with inv l(1) at show ?thesis by (auto simp: startReadInLoop_def conn_simps)
  qed
  from conn_set [where f = ev_disableReading, OF D(1) at reg a1(2)] obtain m dh where
    m: "on_loop (disableReading True (tc_chan c)) c = Inr (c\<lparr>tc_loop := m\<rparr>)" "el_inv m"
    "el_channels m (tc_chan c) = Some dh" "ch_fd dh = ch_fd ch"
    "ch_events dh = ev_disableReading (ch_events ch)" "el_reg m (ch_fd ch) = Some (tc_chan c)"
    by (auto simp: disableReading_def)
  have "isWriting dh = isWriting ch" using isWriting_ops(4) [OF api m(5)] .
  moreover have "ch_events ch = 0 \<Longrightarrow> ch_events dh = 0" using m(5) by (simp add: ev_disableReading_def)
  ultimately have "conn_inv (c\<lparr>tc_loop := m, tc_reading := False\<rparr>)"
    using D m ch a1 by (auto simp: conn_inv_def chan_inv_def)
  with inv m(1) at show "\<exists>c'. stopReadInLoop True c = Inr c' \<and> conn_inv c'"
    by (auto simp: stopReadInLoop_def conn_simps)
qed

section \<open>Properties\<close>

text \<open>
  What happens to an established connection in its loop thread. \<open>PostSend\<close> is \<^verbatim>\<open>send\<close> in another
  thread, \<open>Functor\<close> a queued functor that runs.
\<close>

datatype conn_op =
    Send written "byte list"
  | PostSend "byte list"
  | Writable written
  | Readable "nat \<Rightarrow> int + byte list"
  | Shutdown
  | ForceClose
  | StartRead
  | StopRead
  | Functor written conn_functor

fun conn_step :: "user \<Rightarrow> conn_op \<Rightarrow> conn \<Rightarrow> conn res" where
  "conn_step user (Send w data) c = send True w data c"
| "conn_step user (PostSend data) c = send False (Inr 0) data c"
| "conn_step user (Writable w) c = handleWrite w True c"
| "conn_step user (Readable readv) c = handleRead_conn user readv True c"
| "conn_step user Shutdown c = shutdown True c"
| "conn_step user ForceClose c = Inr (forceClose True c)"
| "conn_step user StartRead c = startRead True c"
| "conn_step user StopRead c = stopRead True c"
| "conn_step user (Functor w f) c = run_functor user w f c"

text \<open>
  The kernel never takes more bytes than it is given, the buffers stay below \<open>2 ^ 62\<close> bytes, the
  channel of a closed connection reports no events, and \<^verbatim>\<open>startRead\<close> is not used on a closed
  connection.
\<close>

fun op_ok :: "conn_op \<Rightarrow> conn \<Rightarrow> bool" where
  "op_ok (Send w data) c \<longleftrightarrow> write_ok w (length data) \<and> fits (tc_output c) (length data)"
| "op_ok (PostSend data) c \<longleftrightarrow> True"
| "op_ok (Writable w) c \<longleftrightarrow> write_ok w (length (contents (tc_output c)))"
| "op_ok (Readable readv) c \<longleftrightarrow>
     tc_state c \<noteq> kDisconnected \<and> readv_law readv \<and> read_room readv c"
| "op_ok Shutdown c \<longleftrightarrow> True"
| "op_ok ForceClose c \<longleftrightarrow> True"
| "op_ok StartRead c \<longleftrightarrow> tc_state c \<noteq> kDisconnected"
| "op_ok StopRead c \<longleftrightarrow> True"
| "op_ok (Functor w f) c \<longleftrightarrow>
     (case f of
        FSend data \<Rightarrow> write_ok w (length data) \<and> fits (tc_output c) (length data)
      | FStartRead \<Rightarrow> tc_state c \<noteq> kDisconnected
      | FShutdown \<Rightarrow> True
      | FStopRead \<Rightarrow> True
      | _ \<Rightarrow> roomy c)"

lemma conn_inv_state:
  assumes "conn_inv c" and "tc_state c \<noteq> kDisconnected" and "st = kConnected \<or> st = kDisconnecting"
  shows "conn_inv (c\<lparr>tc_state := st\<rparr>)"
  using assms by (auto simp: conn_inv_def chan_inv_def)

lemma run_functor_ok:
  assumes "conn_inv c" and "user_law user" and "op_ok (Functor w f) c"
  shows "\<exists>c'. run_functor user w f c = Inr c' \<and> conn_inv c'"
proof (cases f)
  case FForceClose
  then show ?thesis using assms(1,3) handleClose_ok [OF assms(1,2)]
    by (cases "tc_state c") (auto simp: run_functor_def forceCloseInLoop_def)
next
  case (FSend data)
  then show ?thesis using assms(3) sendInLoop_ok [OF assms(1), of w data] by (auto simp: run_functor_def)
next
  case FShutdown
  then show ?thesis using shutdownInLoop_ok [OF assms(1)] by (auto simp: run_functor_def)
next
  case FStartRead
  then show ?thesis using assms(3) reading_ok(1) [OF assms(1)] by (simp add: run_functor_def)
next
  case FStopRead
  then show ?thesis using reading_ok(2) [OF assms(1)] by (simp add: run_functor_def)
qed (use user_lawD [OF assms(2,1)] assms(3) in \<open>simp_all add: run_functor_def\<close>)

lemma conn_step_ok:
  assumes "conn_inv c" and "user_law user" and "op_ok op c"
  shows "\<exists>c'. conn_step user op c = Inr c' \<and> conn_inv c'"
proof (cases op)
  case (Send w data)
  then show ?thesis using assms sendInLoop_ok [OF assms(1), of w data] by (auto simp: send_def)
next
  case (PostSend data)
  then show ?thesis using assms(1) by (simp add: send_def conn_simps)
next
  case (Writable w)
  then show ?thesis using assms handleWrite_ok [OF assms(1), of w] by auto
next
  case (Readable readv)
  then show ?thesis using assms handleRead_conn_ok [OF assms(1,2), of readv] by simp
next
  case Shutdown
  show ?thesis
  proof (cases "tc_state c = kConnected")
    case True
    have "conn_inv (c\<lparr>tc_state := kDisconnecting\<rparr>)" using assms(1) True by (intro conn_inv_state) simp_all
    from shutdownInLoop_ok [OF this] Shutdown True show ?thesis by (auto simp: shutdown_def)
  next
    case False
    with Shutdown assms(1) show ?thesis by (simp add: shutdown_def)
  qed
next
  case ForceClose
  have "conn_inv (forceClose True c)"
  proof (cases "tc_state c = kConnected \<or> tc_state c = kDisconnecting")
    case True
    then have "conn_inv (c\<lparr>tc_state := kDisconnecting\<rparr>)" using assms(1) by (intro conn_inv_state) auto
    with True show ?thesis by (simp add: forceClose_def conn_simps)
  qed (use assms(1) in \<open>simp add: forceClose_def\<close>)
  with ForceClose show ?thesis by simp
next
  case StartRead
  then show ?thesis using assms(3) reading_ok(1) [OF assms(1)] by (simp add: startRead_def)
next
  case StopRead
  then show ?thesis using reading_ok(2) [OF assms(1)] by (simp add: stopRead_def)
next
  case (Functor w f)
  with run_functor_ok [OF assms(1,2)] assms(3) show ?thesis by simp
qed

text \<open>
  C2. The connection's invariant: whatever sequence of sends (from any thread), writable and
  readable events, partial or failing writes, shutdowns and queued functors an established
  connection goes through, no assertion of the connection, its channel, its buffers or the poller
  fails, and the invariant is kept. In particular the bytes the kernel took followed by the bytes
  still in the output buffer are at all times exactly the bytes accepted for sending, in order,
  and the channel watches for writability exactly while the output buffer is not empty. The user's
  callbacks may act on the connection in any way that keeps the invariant too; they may count on the output
  buffer having room for an answer to the input buffer.
\<close>

theorem connection_safe:
  assumes "conn_inv c" and "user_law user" and "op_ok op c"
  shows "\<exists>c'. conn_step user op c = Inr c' \<and> conn_inv c'"
  using assms by (rule conn_step_ok)

text \<open>
  A connection in a loop of its own, established, with nothing sent yet. The events its channel
  watches are a parameter of the loop.
\<close>

definition demo_chan :: "32 word \<Rightarrow> conn_cb channel" where
  "demo_chan ev = (newChannel 7)\<lparr>ch_events := ev, ch_index := kAdded, ch_addedToLoop := True\<rparr>"

definition demo_loop :: "32 word \<Rightarrow> conn_loop" where
  "demo_loop ev =
     \<lparr>el_looping = True, el_quit = False, el_eventHandling = False, el_callingPending = False,
      el_iteration = 0,
      el_poller = EPoll \<lparr>ep_channels = [7 \<mapsto> 1], ep_nevents = 16, ep_ctls = [(EPOLL_CTL_ADD, 7, ev, 1)]\<rparr>,
      el_channels = [1 \<mapsto> demo_chan ev], el_active = [], el_current = None, el_pending = [], el_wakeups = 0\<rparr>"

definition demo_conn :: conn where
  "demo_conn = (newTcpConnection (demo_loop 3) 1 7)\<lparr>tc_loop := demo_loop 3, tc_state := kConnected\<rparr>"

lemma demo_chan_events: "ch_events (demo_chan ev) = ev" "ch_fd (demo_chan ev) = 7"
  "ch_index (demo_chan ev) = kAdded" "\<not> isWriting (demo_chan 3)" "isWriting (demo_chan 7)"
  "\<not> ch_eventHandling (demo_chan ev)"
  by (simp_all add: demo_chan_def newChannel_def isWriting_def has_bits_def kWriteEvent_def poll_masks)

lemma demo_loop_inv: "api_events ev \<Longrightarrow> el_inv (demo_loop ev)"
  by (auto simp: ep_inv_def el_inv_def demo_loop_def ep_chan_ok_def demo_chan_events index_consts requested_def
      valid_ctls_def split: if_splits)

lemma demo_conn_inv: "conn_inv demo_conn"
proof -
  have "el_inv (demo_loop 3)" by (rule demo_loop_inv) (simp add: api_events_def)
  moreover have "chan_inv demo_conn (demo_chan 3)"
    by (simp add: chan_inv_def demo_conn_def newTcpConnection_def demo_loop_def el_reg_def demo_chan_events
        api_events_def contents_emptyBuffer)
  ultimately show ?thesis
    by (auto simp: conn_inv_def demo_conn_def newTcpConnection_def emptyBuffer_wf contents_emptyBuffer)
qed

definition quiet_user :: user where
  "quiet_user u c = Inr c"

lemma quiet_user_law: "user_law quiet_user"
  by (simp add: user_law_def quiet_user_def)

theorem connection_safe_witness:
  "\<exists>c'. conn_step quiet_user (Send (Inr 2) [1, 2, 3]) demo_conn = Inr c' \<and> conn_inv c'"
  by (rule connection_safe [OF demo_conn_inv quiet_user_law])
    (simp add: write_ok_def fits_def demo_conn_def newTcpConnection_def contents_emptyBuffer buffer_consts)

text \<open>
  C11. What \<^verbatim>\<open>sendInLoop\<close> accepts. On an open connection the message is accepted as a whole, whatever
  part of it the kernel takes at once and however much is already buffered; it is dropped only when
  the connection is closed, or when nothing is buffered and the write fails with EPIPE or
  ECONNRESET. It is never partly dropped, duplicated or reordered.
\<close>

theorem send_all_or_nothing:
  assumes "conn_inv c" and "write_ok w (length data)" and "fits (tc_output c) (length data)"
  shows "\<exists>c'. sendInLoop True w data c = Inr c' \<and>
     tc_wire c' @ contents (tc_output c') = tc_wire c @ contents (tc_output c) @
       (if tc_state c = kDisconnected \<or> contents (tc_output c) = [] \<and> refused w then [] else data)"
proof -
  from sendInLoop_ok [OF assms] obtain c' where
    c': "sendInLoop True w data c = Inr c'" "conn_inv c'"
    "tc_accepted c' = tc_accepted c @
       (if tc_state c = kDisconnected \<or> contents (tc_output c) = [] \<and> refused w then [] else data)" by blast
  have "tc_wire c' @ contents (tc_output c') = tc_wire c @ contents (tc_output c) @
       (if tc_state c = kDisconnected \<or> contents (tc_output c) = [] \<and> refused w then [] else data)"
    unfolding conn_invD(5) [OF c'(2)] c'(3) conn_invD(5) [OF assms(1), symmetric] append_assoc ..
  with c'(1) show ?thesis by blast
qed

theorem send_all_or_nothing_witness:
  "\<exists>c'. sendInLoop True (Inr 2) [1, 2, 3] demo_conn = Inr c' \<and>
     tc_wire c' @ contents (tc_output c') = [1, 2, 3]"
  using send_all_or_nothing [OF demo_conn_inv, of "Inr 2" "[1, 2, 3]"]
  by (simp add: write_ok_def fits_def demo_conn_def newTcpConnection_def contents_emptyBuffer buffer_consts
      refused_def)

text \<open>
  C28. Graceful shutdown: \<^verbatim>\<open>handleWrite\<close> hands the kernel exactly a prefix of the output buffer and
  keeps the rest; on a connection that is shutting down the write side of the socket is closed
  exactly when the last buffered byte has been handed over, never earlier, so that no accepted byte
  is cut off.
\<close>

theorem shutdown_after_drain:
  assumes "conn_inv c" and "tc_state c = kDisconnecting" and "contents (tc_output c) \<noteq> []" and "\<not> tc_shut c"
    and "n \<le> length (contents (tc_output c))"
  shows "\<exists>c'. handleWrite (Inr n) True c = Inr c' \<and> contents (tc_output c') = drop n (contents (tc_output c)) \<and>
     tc_wire c' @ contents (tc_output c') = tc_wire c @ contents (tc_output c) \<and>
     (tc_shut c' \<longleftrightarrow> n = length (contents (tc_output c)))"
proof -
  have "write_ok (Inr n) (length (contents (tc_output c)))" using assms(5) by (simp add: write_ok_def)
  from handleWrite_ok [OF assms(1) this] show ?thesis
  proof (elim exE conjE)
    fix c'
    assume c': "handleWrite (Inr n) True c = Inr c'" "conn_inv c'" "tc_accepted c' = tc_accepted c"
      and rest: "tc_state c \<noteq> kDisconnected \<longrightarrow>
        contents (tc_output c') = (case Inr n of Inl e \<Rightarrow> contents (tc_output c)
                                   | Inr n \<Rightarrow> drop n (contents (tc_output c))) \<and>
        tc_shut c' = (tc_shut c \<or> tc_state c = kDisconnecting \<and> contents (tc_output c) \<noteq> [] \<and>
                        contents (tc_output c') = [])"
    have out: "contents (tc_output c') = drop n (contents (tc_output c))" using rest assms(2) by simp
    have "tc_shut c' \<longleftrightarrow> contents (tc_output c') = []" using rest assms(2-4) by simp
    then have "tc_shut c' \<longleftrightarrow> n = length (contents (tc_output c))" using out assms(5) by auto
    moreover have "tc_wire c' @ contents (tc_output c') = tc_wire c @ contents (tc_output c)"
      unfolding conn_invD(5) [OF c'(2)] c'(3) conn_invD(5) [OF assms(1)] ..
    ultimately show ?thesis using c'(1) out by (intro exI [of _ c'] conjI)
  qed
qed

theorem shutdown_after_drain_witness:
  "\<exists>c c'. handleWrite (Inr 2) True c = Inr c' \<and> \<not> tc_shut c \<and> tc_shut c' \<and>
     contents (tc_output c) = [1, 2] \<and> contents (tc_output c') = []"
proof -
  have "fits emptyBuffer (length [1, 2])" by (simp add: fits_def contents_emptyBuffer buffer_consts)
  then obtain out where out: "buffer_wf out" "contents out = [1, 2]"
    using bq.app_E [OF emptyBuffer_wf] contents_emptyBuffer by (metis append_Nil)
  define c where "c = demo_conn\<lparr>tc_loop := demo_loop 7, tc_state := kDisconnecting, tc_output := out, tc_accepted := [1, 2]\<rparr>"
  have "el_inv (demo_loop 7)" by (rule demo_loop_inv) (simp add: api_events_def)
  moreover have "chan_inv c (demo_chan 7)"
    by (simp add: chan_inv_def c_def demo_conn_def newTcpConnection_def demo_loop_def el_reg_def demo_chan_events
        api_events_def out)
  ultimately have "conn_inv c"
    using out by (auto simp: conn_inv_def c_def demo_conn_def newTcpConnection_def emptyBuffer_wf)
  moreover have "tc_state c = kDisconnecting" "contents (tc_output c) = [1, 2]" "\<not> tc_shut c"
    by (simp_all add: c_def demo_conn_def newTcpConnection_def out)
  moreover from calculation obtain c' where
    "handleWrite (Inr 2) True c = Inr c'" "contents (tc_output c') = []" "tc_shut c'"
    using shutdown_after_drain [of c 2] by auto
  ultimately show ?thesis by blast
qed

end
