(* ===== verification/Kaycc_ConnectionLife.thy ===== *)
theory Kaycc_ConnectionLife
  imports Kaycc_TcpConnection
begin

text \<open>
  The life of a TcpConnection between \<^verbatim>\<open>connectEstablished\<close>, \<^verbatim>\<open>connectDestroyed\<close> and the
  destructor, and the two notifications about the output buffer.
\<close>

section \<open>Notifications about the output buffer\<close>

lemma queue_pending [simp]:
  "el_pending (queueInLoop b f l) = el_pending l @ [f]"
  "el_pending (tc_loop (conn_queue b f c)) = el_pending (tc_loop c) @ [f]"
  by (simp_all add: conn_queue_def queueInLoop_def wakeup_def Let_def)

lemma enableWriting_pending:
  assumes "on_loop (enableWriting b a) c = Inr c'"
  shows "el_pending (tc_loop c') = el_pending (tc_loop c) \<and> tc_output c' = tc_output c"
  using assms
  by (auto simp: on_loop_def enableWriting_def channel_set_def chan_at_def channel_update_def put_chan_def
      el_updateChannel_def with_poller_def andThen_Inr_iff deref_def
      assertInLoopThread_def check_def split: option.splits if_splits)

text \<open>The last part of \<^verbatim>\<open>sendInLoop\<close> queues nothing.\<close>

lemma send_tail_pending:
  assumes "send_tail ch rest c = Inr c'"
    and "buffer_wf (tc_output c)" and "fits (tc_output c) (length rest)"
  shows "el_pending (tc_loop c') = el_pending (tc_loop c) \<and>
     contents (tc_output c') = contents (tc_output c) @ rest"
proof -
  obtain out where out: "append_buf (tc_output c) rest = Inr out" "contents out = contents (tc_output c) @ rest"
    using assms(2,3) by (rule bq.app_E)
  with assms(1) enableWriting_pending [of True "tc_chan c" "c\<lparr>tc_output := out\<rparr>" c'] show ?thesis
    by (auto simp: send_tail_def split: if_splits)
qed

lemma fits_add:
  assumes "fits b n" and "buffer_wf b" and "m \<le> n"
  shows "sz_add (length (contents b)) m = length (contents b) + m"
  using assms by (simp add: fits_def max_buf_def sz_add_def)

text \<open>
  The two notifications: \<^verbatim>\<open>sendInLoop\<close> queues the write-complete callback exactly if the
  kernel took the whole message at once, and the high-water-mark callback exactly if this message
  makes the output buffer grow from below the mark to the mark or beyond it, with the new length as
  its argument; nothing else is queued. What the kernel did not take is appended to the buffer.
\<close>

theorem send_notifications:
  assumes inv: "conn_inv c" and w: "write_ok w (length data)" and fits: "fits (tc_output c) (length data)"
    and st: "tc_state c \<noteq> kDisconnected" and "contents (tc_output c) = [] \<Longrightarrow> \<not> refused w"
  shows "\<exists>c'. sendInLoop True w data c = Inr c' \<and>
     contents (tc_output c') = contents (tc_output c) @
       (case w of Inl e \<Rightarrow> data | Inr n \<Rightarrow> if contents (tc_output c) = [] then drop n data else data) \<and>
     el_pending (tc_loop c') = el_pending (tc_loop c) @
       (if contents (tc_output c) = [] \<and> w = Inr (length data) \<and> tc_hasWriteComplete c
        then [FWriteComplete] else []) @
       (if tc_hasHighWater c \<and> length (contents (tc_output c)) < tc_highWaterMark c \<and>
           tc_highWaterMark c \<le> length (contents (tc_output c'))
        then [FHighWater (length (contents (tc_output c')))] else [])"
proof -
  from sendInLoop_ok [OF inv w fits] obtain c' where ok: "sendInLoop True w data c = Inr c'" by blast
  obtain ch where ch: "chan_inv c ch" using inv by (rule conn_inv_chan)
  let ?old = "contents (tc_output c)" and ?rest = "drop (length (taken w data c)) data"
  have eq: "Inr c' = (if ?rest = [] then
      Inr (if ?old = [] \<and> w = Inr (length data) \<and> tc_hasWriteComplete c
           then conn_queue True FWriteComplete (sent w data c) else sent w data c)
      else send_tail ch ?rest
        (if tc_highWaterMark c \<le> length ?old + length ?rest \<and> length ?old < tc_highWaterMark c \<and> tc_hasHighWater c
         then conn_queue True (FHighWater (length ?old + length ?rest)) (sent w data c) else sent w data c))"
    using sendInLoop_eq [OF inv w fits st ch] ok assms(5) fits_add [OF fits conn_invD(3) [OF inv], of "length ?rest"]
    by (auto simp: Let_def)
  have rest: "?rest = (case w of Inl e \<Rightarrow> data | Inr n \<Rightarrow> if ?old = [] then drop n data else data)"
    using w by (auto simp: taken_def write_ok_def min_def split: sum.splits)
  have complete: "w = Inr (length data) \<and> ?old = [] \<Longrightarrow> ?rest = []" by (simp add: taken_def)
  have "contents (tc_output c') = ?old @ ?rest \<and>
      el_pending (tc_loop c') = el_pending (tc_loop c) @
        (if ?old = [] \<and> w = Inr (length data) \<and> tc_hasWriteComplete c then [FWriteComplete] else []) @
        (if tc_hasHighWater c \<and> length ?old < tc_highWaterMark c \<and> tc_highWaterMark c \<le> length (?old @ ?rest)
         then [FHighWater (length (?old @ ?rest))] else [])"
  proof (cases "?rest = []")
    case True
    with eq show ?thesis by (auto simp: sent_def conn_queue_def)
  next
    case False
    define c3 where "c3 = (if tc_highWaterMark c \<le> length ?old + length ?rest \<and> length ?old < tc_highWaterMark c \<and>
        tc_hasHighWater c then conn_queue True (FHighWater (length ?old + length ?rest)) (sent w data c) else sent w data c)"
    have c3: "tc_output c3 = tc_output c" by (simp add: c3_def sent_def conn_queue_def)
    have "fits (tc_output c3) (length ?rest)" unfolding c3 by (rule fits_mono [OF fits]) simp
    moreover have "send_tail ch ?rest c3 = Inr c'" using eq unfolding c3_def if_not_P [OF False] by (rule sym)
    ultimately have "el_pending (tc_loop c') = el_pending (tc_loop c3) \<and> contents (tc_output c') = ?old @ ?rest"
      using send_tail_pending [of ch ?rest c3 c'] conn_invD(3) [OF inv] by (simp add: c3)
    with False complete show ?thesis by (auto simp: c3_def sent_def)
  qed
  with ok rest show ?thesis by auto
qed

theorem send_notifications_witness:
  "\<exists>c'. sendInLoop True (Inr 1) [1, 2, 3] (setHighWaterMarkCallback 2 demo_conn) = Inr c' \<and>
     el_pending (tc_loop c') = [FHighWater 2] \<and> length (contents (tc_output c')) = 2"
proof -
  let ?c = "setHighWaterMarkCallback 2 demo_conn"
  have inv: "conn_inv ?c"
    using demo_conn_inv by (auto simp: setHighWaterMarkCallback_def conn_inv_def chan_inv_def)
  have fits: "fits (tc_output ?c) (length [1, 2, 3])"
    by (simp add: setHighWaterMarkCallback_def demo_conn_def newTcpConnection_def fits_def
        contents_emptyBuffer buffer_consts)
  have ok: "write_ok (Inr 1) (length [1, 2, 3])" by (simp add: write_ok_def)
  have "tc_state ?c \<noteq> kDisconnected" "\<not> refused (Inr 1)"
    by (simp_all add: setHighWaterMarkCallback_def demo_conn_def newTcpConnection_def refused_def)
  from send_notifications [OF inv ok fits this] show ?thesis
    by (auto simp: setHighWaterMarkCallback_def demo_conn_def newTcpConnection_def contents_emptyBuffer demo_loop_def)
qed

section \<open>Establishing\<close>

lemma new_connection_channel:
  assumes inv: "el_inv l" and fresh: "el_channels l a = None" and fd: "0 \<le> fd" and free: "el_reg l fd = None"
  defines "c \<equiv> newTcpConnection l a fd"
  shows "el_inv (tc_loop c)" and "\<exists>ch. el_channels (tc_loop c) a = Some ch \<and> ch_fd ch = fd \<and> ch_events ch = 0"
    and "el_reg (tc_loop c) = el_reg l"
  using inv fresh fd
  by (auto simp: c_def newTcpConnection_def el_inv_def put_chan_def newChannel_def setReadCallback_def
      setWriteCallback_def setCloseCallback_def setErrorCallback_def el_reg_def intro!: poller_inv_new_channel)

lemma el_inv_tie:
  assumes "el_inv l" and "el_channels l a = Some ch"
  shows "el_inv (put_chan a (tie self ch) l)"
  using assms by (auto simp: el_inv_def put_chan_def tie_def core_def intro: poller_inv_upd)

text \<open>A connection between its constructor and \<^verbatim>\<open>connectEstablished\<close>.\<close>

definition connecting_conn :: "conn \<Rightarrow> conn_cb channel \<Rightarrow> bool" where
  "connecting_conn c ch \<longleftrightarrow>
     tc_state c = kConnecting \<and> el_inv (tc_loop c) \<and> el_channels (tc_loop c) (tc_chan c) = Some ch \<and>
     ch_events ch = 0 \<and> el_reg (tc_loop c) (ch_fd ch) = None \<and>
     tc_input c = emptyBuffer \<and> tc_output c = emptyBuffer \<and> tc_wire c = [] \<and> tc_accepted c = []"

lemma establish_connecting:
  fixes self
  assumes c: "connecting_conn c ch"
  defines "c1 \<equiv> c\<lparr>tc_state := kConnected, tc_loop := put_chan (tc_chan c) (tie self ch) (tc_loop c)\<rparr>"
  shows "\<exists>l. connectEstablished user self True c = user UConnection (c1\<lparr>tc_loop := l\<rparr>) \<and>
     on_loop (enableReading True (tc_chan c)) c1 = Inr (c1\<lparr>tc_loop := l\<rparr>) \<and>
     conn_inv (c1\<lparr>tc_loop := l\<rparr>) \<and> el_interest l (ch_fd ch) = Some kReadEvent"
proof -
  note C = c [unfolded connecting_conn_def]
  let ?a = "tc_chan c" and ?fd = "ch_fd ch" and ?l = "tc_loop c1"
  have l1: "el_inv ?l" "el_channels ?l ?a = Some (tie self ch)" "el_reg ?l = el_reg (tc_loop c)"
    using el_inv_tie [of "tc_loop c" ?a ch] C by (simp_all add: c1_def put_chan_def el_reg_def)
  have t: "ch_fd (tie self ch) = ?fd" "ch_events (tie self ch) = 0" using C by (simp_all add: tie_def)
  have ev: "ev_enableReading 0 = kReadEvent" "kReadEvent \<noteq> 0" "api_events kReadEvent"
    by (simp_all add: ev_enableReading_def kReadEvent_def poll_masks api_events_def)
  from channel_set_ok [where f = ev_enableReading, OF l1(1,2)] t ev C l1(3) obtain p i where
    s: "channel_set ev_enableReading True ?a ?l = Inr (?l\<lparr>el_poller := p, el_channels := (el_channels ?l)
         (?a \<mapsto> (tie self ch)\<lparr>ch_events := kReadEvent, ch_addedToLoop := True, ch_index := i\<rparr>)\<rparr>)"
    "poller_inv (p, (el_channels ?l)
         (?a \<mapsto> (tie self ch)\<lparr>ch_events := kReadEvent, ch_addedToLoop := True, ch_index := i\<rparr>))"
    "poller_channels p = (el_reg (tc_loop c))(?fd \<mapsto> ?a)" by auto
  define ch2 where "ch2 = (tie self ch)\<lparr>ch_events := kReadEvent, ch_addedToLoop := True, ch_index := i\<rparr>"
  define l2 where "l2 = ?l\<lparr>el_poller := p, el_channels := (el_channels ?l)(?a \<mapsto> ch2)\<rparr>"
  have l2: "el_inv l2" "el_channels l2 ?a = Some ch2" "el_reg l2 ?fd = Some ?a" "ch_fd ch2 = ?fd"
    "ch_events ch2 = kReadEvent"
    using s(2,3) t by (simp_all add: l2_def ch2_def el_upd_simps)
  have "\<not> isWriting ch2"
    by (simp add: isWriting_def has_bits_def l2(5) kReadEvent_def kWriteEvent_def poll_masks)
  then have "conn_inv (c1\<lparr>tc_loop := l2\<rparr>)"
    using l2 ev C by (auto simp: conn_inv_def chan_inv_def c1_def emptyBuffer_wf contents_emptyBuffer)
  moreover have "el_interest l2 ?fd = Some kReadEvent"
    using el_interest_reg [OF l2(1,2)] l2(3-5) ev(2) by (simp add: nonzero_def)
  moreover have set: "on_loop (enableReading True ?a) c1 = Inr (c1\<lparr>tc_loop := l2\<rparr>)"
    using s(1) by (simp add: on_loop_def enableReading_def l2_def ch2_def)
  moreover have "connectEstablished user self True c = user UConnection (c1\<lparr>tc_loop := l2\<rparr>)"
    using C set by (simp add: connectEstablished_def conn_simps c1_def)
  ultimately show ?thesis by blast
qed

lemma establish_ok:
  assumes inv: "el_inv l" and fresh: "el_channels l a = None" and fd: "0 \<le> fd" and free: "el_reg l fd = None"
  shows "\<exists>c. connectEstablished user self True (newTcpConnection l a fd) = user UConnection c \<and>
     conn_inv c \<and> tc_state c = kConnected \<and> tc_accepted c = [] \<and> tc_wire c = [] \<and>
     tc_input c = emptyBuffer \<and> tc_output c = emptyBuffer \<and>
     el_interest (tc_loop c) fd = Some kReadEvent"
proof -
  let ?c = "newTcpConnection l a fd"
  note new = new_connection_channel [OF inv fresh fd free]
  obtain ch where ch: "el_channels (tc_loop ?c) a = Some ch" "ch_fd ch = fd" "ch_events ch = 0" using new(2) by blast
  have "connecting_conn ?c ch"
    using new(1) free ch unfolding connecting_conn_def new(3) by (simp add: newTcpConnection_def)
  from establish_connecting [OF this, where self = self and user = user] ch(2) show ?thesis
    by (auto simp: newTcpConnection_def)
qed

text \<open>
  Establishing a connection: on a loop that does not know the descriptor, the constructor
  followed by \<^verbatim>\<open>connectEstablished\<close> registers the channel for reading, moves the state to
  \<^verbatim>\<open>kConnected\<close> and establishes the invariant before the user's connection callback runs; the result
  is the state the callback leaves.
\<close>

theorem establish_connection:
  assumes inv: "el_inv l" and fresh: "el_channels l a = None" and fd: "0 \<le> fd" and free: "el_reg l fd = None"
  shows "\<exists>c. connectEstablished user self True (newTcpConnection l a fd) = user UConnection c \<and>
     conn_inv c \<and> tc_state c = kConnected \<and> tc_accepted c = [] \<and> tc_wire c = [] \<and>
     tc_input c = emptyBuffer \<and> tc_output c = emptyBuffer \<and>
     el_interest (tc_loop c) fd = Some kReadEvent"
  using assms by (rule establish_ok)

text \<open>A loop that knows no channel yet.\<close>

definition demo_loop0 :: conn_loop where
  "demo_loop0 = (demo_loop 3)\<lparr>el_poller := EPoll newEPollPoller, el_channels := Map.empty\<rparr>"

lemma demo_loop0_inv: "el_inv demo_loop0"
  by (simp add: demo_loop0_def el_inv_def ep_inv_def newEPollPoller_def requested_def valid_ctls_def)

theorem establish_connection_witness:
  "\<exists>c. connectEstablished quiet_user 1 True (newTcpConnection demo_loop0 5 9) = Inr c \<and> conn_inv c \<and>
     tc_state c = kConnected \<and> el_interest (tc_loop c) 9 = Some kReadEvent"
  using establish_connection [OF demo_loop0_inv, of 5 9 quiet_user 1]
  by (auto simp: demo_loop0_def el_reg_def newEPollPoller_def quiet_user_def)

section \<open>Destroying\<close>

text \<open>A closed connection outside of event dispatch, as a functor finds it.\<close>

definition closed_conn :: "conn \<Rightarrow> bool" where
  "closed_conn c \<longleftrightarrow>
     conn_inv c \<and> tc_state c = kDisconnected \<and> \<not> el_eventHandling (tc_loop c) \<and>
     (\<exists>ch. el_channels (tc_loop c) (tc_chan c) = Some ch \<and> \<not> ch_eventHandling ch)"

text \<open>The user's callbacks do not bring a closed connection to watch events again.\<close>

definition closed_law :: "user \<Rightarrow> bool" where
  "closed_law user \<longleftrightarrow> (\<forall>u c. closed_conn c \<longrightarrow> (\<exists>c'. user u c = Inr c' \<and> closed_conn c'))"

lemma close_idle:
  assumes inv: "conn_inv c" and idle: "\<not> el_eventHandling (tc_loop c)"
    and ch: "el_channels (tc_loop c) (tc_chan c) = Some ch" "\<not> ch_eventHandling ch"
  shows "\<exists>c'. on_loop (disableAll True (tc_chan c)) (c\<lparr>tc_state := kDisconnected\<rparr>) = Inr c' \<and> closed_conn c'"
proof -
  from close_channel [OF inv] obtain l where
    l: "on_loop (disableAll True (tc_chan c)) (c\<lparr>tc_state := kDisconnected\<rparr>) =
      Inr (c\<lparr>tc_state := kDisconnected, tc_loop := l\<rparr>)"
    "conn_inv (c\<lparr>tc_state := kDisconnected, tc_loop := l\<rparr>)" by blast
  note D = conn_invD [OF inv]
  obtain dh where at: "el_channels (tc_loop c) (tc_chan c) = Some dh"
    and reg: "el_reg (tc_loop c) (ch_fd dh) = Some (tc_chan c)"
    using inv by (rule conn_inv_chan)
  have "api_events (ev_disableAll (ch_events ch))"
    by (simp add: ev_disableAll_def kNoneEvent_def api_events_def)
  from channel_set_ok [where f = ev_disableAll, OF D(1) ch(1) this] at reg ch(1) obtain p i where
    "channel_set ev_disableAll True (tc_chan c) (tc_loop c) =
       Inr ((tc_loop c)\<lparr>el_poller := p, el_channels := (el_channels (tc_loop c))
         (tc_chan c \<mapsto> ch\<lparr>ch_events := ev_disableAll (ch_events ch), ch_addedToLoop := True, ch_index := i\<rparr>)\<rparr>)"
    by auto
  with l(1) have "l = (tc_loop c)\<lparr>el_poller := p, el_channels := (el_channels (tc_loop c))
         (tc_chan c \<mapsto> ch\<lparr>ch_events := ev_disableAll (ch_events ch), ch_addedToLoop := True, ch_index := i\<rparr>)\<rparr>"
    by (auto simp: on_loop_def disableAll_def dest: arg_cong [where f = tc_loop])
  with l idle ch(2) show ?thesis by (auto simp: closed_conn_def)
qed

lemma remove_closed:
  assumes "closed_conn c"
  shows "\<exists>c1 c2. on_loop (channel_remove True (tc_chan c)) c = Inr c1 \<and> destroyTcpConnection c1 = Inr c2 \<and>
     el_inv (tc_loop c2) \<and> el_channels (tc_loop c2) (tc_chan c) = None \<and>
     (\<forall>fd. el_reg (tc_loop c2) fd \<noteq> Some (tc_chan c))"
proof -
  have inv: "conn_inv c" and st: "tc_state c = kDisconnected" and idle: "\<not> el_eventHandling (tc_loop c)"
    using assms by (auto simp: closed_conn_def)
  note D = conn_invD [OF inv]
  obtain ch where ch: "chan_inv c ch" "el_channels (tc_loop c) (tc_chan c) = Some ch"
    and reg: "el_reg (tc_loop c) (ch_fd ch) = Some (tc_chan c)"
    using inv by (rule conn_inv_chan)
  have ev: "ch_events ch = 0" using ch(1) st by (simp add: chan_inv_def)
  have eh: "\<not> ch_eventHandling ch" using assms ch(2) by (auto simp: closed_conn_def)
  have quiet: "el_interest (tc_loop c) (ch_fd ch) = None"
    using el_interest_reg [OF D(1) ch(2) reg] ev by (simp add: nonzero_def)
  from channel_remove_destroy_ok [OF D(1) ch(2) ev reg quiet eh] idle obtain s1 p h' where
    r: "channel_remove True (tc_chan c) (tc_loop c) = Inr s1"
    "destroyChannel True (tc_chan c) s1 = Inr ((tc_loop c)\<lparr>el_poller := p, el_channels := h'\<rparr>)"
    "poller_inv (p, h')" "fd_of h' = (fd_of (el_channels (tc_loop c)))(tc_chan c := None)" by auto
  have gone: "h' (tc_chan c) = None"
    using r(4) by (metis fd_of_def fun_upd_same option.map_disc_iff)
  have "poller_channels p fd \<noteq> Some (tc_chan c)" for fd
    using poller_reg_alive [OF r(3)] gone by blast
  with r gone st show ?thesis
    by (auto simp: on_loop_def destroyTcpConnection_def el_upd_simps)
qed

text \<open>
  Destroying a connection: run as a functor on a connection that is open or closed,
  \<^verbatim>\<open>connectDestroyed\<close> closes it if need be (calling the connection callback), takes the channel out of the
  poller, and then the destructors of the connection and of its channel succeed and leave a loop
  that no longer knows the channel.
\<close>

theorem destroy_connection:
  assumes inv: "conn_inv c" and st: "tc_state c \<noteq> kDisconnecting"
    and idle: "\<not> el_eventHandling (tc_loop c)"
    and ch: "el_channels (tc_loop c) (tc_chan c) = Some ch" "\<not> ch_eventHandling ch"
    and law: "closed_law user"
  shows "\<exists>c1 c2. connectDestroyed user True c = Inr c1 \<and> destroyTcpConnection c1 = Inr c2 \<and>
     el_inv (tc_loop c2) \<and> el_channels (tc_loop c2) (tc_chan c1) = None \<and>
     (\<forall>fd. el_reg (tc_loop c2) fd \<noteq> Some (tc_chan c1))"
proof -
  have fin: "\<exists>c1 c2. on_loop (channel_remove True (tc_chan d)) d = Inr c1 \<and> destroyTcpConnection c1 = Inr c2 \<and>
     el_inv (tc_loop c2) \<and> el_channels (tc_loop c2) (tc_chan c1) = None \<and>
     (\<forall>fd. el_reg (tc_loop c2) fd \<noteq> Some (tc_chan c1))" if "closed_conn d" for d
    using remove_closed [OF that] by (auto simp: on_loop_def andThen_Inr_iff)
  show ?thesis
  proof (cases "tc_state c = kConnected")
    case True
    from close_idle [OF inv idle ch] obtain c0 where
      c0: "on_loop (disableAll True (tc_chan c)) (c\<lparr>tc_state := kDisconnected\<rparr>) = Inr c0" "closed_conn c0" by blast
    with law obtain d where "user UConnection c0 = Inr d" "closed_conn d" by (auto simp: closed_law_def)
    with True c0(1) fin show ?thesis by (simp add: connectDestroyed_def)
  next
    case False
    then have "tc_state c = kDisconnected" using st conn_invD(4) [OF inv] by (cases "tc_state c") auto
    then have "closed_conn c" using inv idle ch by (simp add: closed_conn_def)
    with False fin show ?thesis by (simp add: connectDestroyed_def)
  qed
qed

theorem destroy_connection_witness:
  "\<exists>c1 c2. connectDestroyed quiet_user True demo_conn = Inr c1 \<and> destroyTcpConnection c1 = Inr c2 \<and>
     el_channels (tc_loop c2) (tc_chan c1) = None"
proof -
  have "closed_law quiet_user" by (simp add: closed_law_def quiet_user_def)
  moreover have "tc_state demo_conn \<noteq> kDisconnecting" "\<not> el_eventHandling (tc_loop demo_conn)"
    "el_channels (tc_loop demo_conn) (tc_chan demo_conn) = Some (demo_chan 3)"
    by (simp_all add: demo_conn_def newTcpConnection_def demo_loop_def)
  ultimately show ?thesis using destroy_connection [OF demo_conn_inv] demo_chan_events(6) by blast
qed

text \<open>
  C37. \<^verbatim>\<open>connectDestroyed\<close> closes the channel only in state \<^verbatim>\<open>kConnected\<close>. On a connection that is shutting down
  (\<^verbatim>\<open>kDisconnecting\<close>) but whose channel still watches anything, as it does while the peer has not
  closed its side, \<^verbatim>\<open>Channel::remove\<close> fails its assertion. \<^verbatim>\<open>TcpServer::~TcpServer\<close> runs
  \<^verbatim>\<open>connectDestroyed\<close> on every connection without looking at its state.
\<close>

theorem destroy_while_shutting_down:
  assumes inv: "conn_inv c" and st: "tc_state c = kDisconnecting"
    and ch: "el_channels (tc_loop c) (tc_chan c) = Some ch" "ch_events ch \<noteq> 0"
  shows "connectDestroyed user True c = Inl (Assertion ''channel.cpp:53'')"
  using assms
  by (simp add: connectDestroyed_def on_loop_def channel_remove_def chan_at_def isNoneEvent_def kNoneEvent_def)

theorem destroy_while_shutting_down_witness:
  "\<exists>c. shutdown True demo_conn = Inr c \<and>
     connectDestroyed quiet_user True c = Inl (Assertion ''channel.cpp:53'')"
proof -
  let ?c = "demo_conn\<lparr>tc_state := kDisconnecting, tc_shut := True\<rparr>"
  have sh: "shutdown True demo_conn = Inr ?c"
    by (simp add: shutdown_def shutdownInLoop_def conn_chan_def chan_at_def demo_conn_def newTcpConnection_def
        demo_loop_def demo_chan_events)
  have "conn_inv (demo_conn\<lparr>tc_state := kDisconnecting\<rparr>)"
    using demo_conn_inv by (intro conn_inv_state) (simp_all add: demo_conn_def newTcpConnection_def)
  then have "conn_inv ?c" by (simp add: conn_simps)
  moreover have "el_channels (tc_loop ?c) (tc_chan ?c) = Some (demo_chan 3)" "ch_events (demo_chan 3) \<noteq> 0"
    by (simp_all add: demo_conn_def newTcpConnection_def demo_loop_def demo_chan_events)
  ultimately show ?thesis using sh destroy_while_shutting_down [of ?c "demo_chan 3" quiet_user] by simp
qed

text \<open>
  C36. \<^verbatim>\<open>startReadInLoop\<close> does not look at the state. On a connection that is closed and waits for
  \<^verbatim>\<open>connectDestroyed\<close> it makes the channel watch for reading again, and then \<^verbatim>\<open>connectDestroyed\<close> fails the assertion
  of \<^verbatim>\<open>Channel::remove\<close>. \<^verbatim>\<open>startRead\<close> called from another thread is queued and can run that late.
\<close>

theorem start_read_after_close:
  assumes cl: "closed_conn c"
  shows "\<exists>c'. run_functor user w FStartRead c = Inr c' \<and>
     connectDestroyed user True c' = Inl (Assertion ''channel.cpp:53'')"
proof -
  have inv: "conn_inv c" and st: "tc_state c = kDisconnected" using cl by (auto simp: closed_conn_def)
  obtain ch where ch: "chan_inv c ch" "el_channels (tc_loop c) (tc_chan c) = Some ch"
    "el_reg (tc_loop c) (ch_fd ch) = Some (tc_chan c)" "api_events (ch_events ch)"
    using inv by (rule conn_inv_chan)
  have ev: "ch_events ch = 0" using ch(1) st by (simp add: chan_inv_def)
  from conn_set [where f = ev_enableReading, OF conn_invD(1) [OF inv] ch(2,3) api_events_ops(1) [OF ch(4)]] obtain l ch' where
    l: "on_loop (enableReading True (tc_chan c)) c = Inr (c\<lparr>tc_loop := l\<rparr>)"
      "el_channels l (tc_chan c) = Some ch'" "ch_events ch' = ev_enableReading (ch_events ch)"
    by (auto simp: enableReading_def)
  have "\<not> isReading ch" using ev by (simp add: isReading_def has_bits_def)
  then have "run_functor user w FStartRead c = Inr (c\<lparr>tc_loop := l, tc_reading := True\<rparr>)"
    using ch(2) l(1) by (simp add: run_functor_def startReadInLoop_def conn_simps)
  moreover have "\<not> isNoneEvent ch'"
    using enabled_not_none(1) [OF ch(4)] l(3) by (simp add: isNoneEvent_def kNoneEvent_def)
  then have "connectDestroyed user True (c\<lparr>tc_loop := l, tc_reading := True\<rparr>) = Inl (Assertion ''channel.cpp:53'')"
    using st l(2) by (simp add: connectDestroyed_def on_loop_def channel_remove_def chan_at_def)
  ultimately show ?thesis by blast
qed

theorem start_read_after_close_witness:
  "\<exists>c c'. handleClose quiet_user True demo_conn = Inr c \<and> run_functor quiet_user (Inr 0) FStartRead c = Inr c' \<and>
     connectDestroyed quiet_user True c' = Inl (Assertion ''channel.cpp:53'')"
proof -
  have d: "\<not> el_eventHandling (tc_loop demo_conn)" "el_channels (tc_loop demo_conn) (tc_chan demo_conn) = Some (demo_chan 3)"
    "tc_state demo_conn = kConnected"
    by (simp_all add: demo_conn_def newTcpConnection_def demo_loop_def)
  from close_idle [OF demo_conn_inv d(1,2) demo_chan_events(6)] obtain c where
    c: "on_loop (disableAll True (tc_chan demo_conn)) (demo_conn\<lparr>tc_state := kDisconnected\<rparr>) = Inr c" "closed_conn c" by blast
  let ?c = "c\<lparr>tc_closes := Suc (tc_closes c)\<rparr>"
  have "closed_conn ?c" using c(2) by (simp add: closed_conn_def conn_simps)
  moreover have "handleClose quiet_user True demo_conn = Inr ?c"
    using c(1) d(3) by (simp add: handleClose_def quiet_user_def)
  ultimately show ?thesis using start_read_after_close [of ?c quiet_user "Inr 0"] by blast
qed

end
