(* ===== verification/Kaycc_LoopSteps.thy ===== *)
theory Kaycc_LoopSteps
  imports Kaycc_EventLoop
begin

text \<open>
  How the loop thread and other threads interleave (net/eventloop.cpp: \<^verbatim>\<open>loop\<close>, \<^verbatim>\<open>queueInLoop\<close>,
  \<^verbatim>\<open>quit\<close>, \<^verbatim>\<open>wakeup\<close>, \<^verbatim>\<open>handleRead\<close>, \<^verbatim>\<open>doPendingFunctors\<close>). Every step is one atomic action of one
  thread: a critical section of \<^verbatim>\<open>mutex_\<close>, one access of a flag, or one system call. In between any
  thread may run. The eventfd is a parameter: \<open>wr\<close> and \<open>rd\<close> are the effects of write(2) and read(2)
  on its state and \<open>readable\<close> says whether poll(2) reports it; what is used of eventfd(2) is that a
  written eventfd is readable.
\<close>

section \<open>Steps\<close>

text \<open>Where the loop thread is inside \<^verbatim>\<open>loop()\<close>.\<close>

datatype loop_pc =
    Top        \<comment> \<open>about to test \<^verbatim>\<open>!quit_\<close>\<close>
  | Polling    \<comment> \<open>inside \<^verbatim>\<open>poller_->poll\<close>\<close>
  | Handling bool  \<comment> \<open>handling events; \<open>True\<close> while the wakeup channel is still to be handled\<close>
  | Swapping   \<comment> \<open>in \<^verbatim>\<open>doPendingFunctors\<close>, before the swap\<close>
  | Calling    \<comment> \<open>in \<^verbatim>\<open>doPendingFunctors\<close>, running functors\<close>
  | Stopped    \<comment> \<open>\<^verbatim>\<open>loop()\<close> returned\<close>

text \<open>
  \<open>ls_posted\<close> and \<open>ls_executed\<close> are history: all functors ever queued and all that ran. \<open>ls_inflight\<close>
  counts the other threads that are between their first action (push or setting \<^verbatim>\<open>quit_\<close>) and the
  write to the eventfd.
\<close>

record ('f, 'k) lstate =
  ls_pc :: loop_pc
  ls_pending :: "'f list"
  ls_batch :: "'f list"       \<comment> \<open>the local vector \<^verbatim>\<open>functors\<close>\<close>
  ls_calling :: bool
  ls_quit :: bool
  ls_inflight :: nat
  ls_evfd :: 'k
  ls_posted :: "'f list"
  ls_executed :: "'f list"

inductive loop_step ::
    "('k \<Rightarrow> 'k) \<Rightarrow> ('k \<Rightarrow> 'k) \<Rightarrow> ('k \<Rightarrow> bool) \<Rightarrow> ('f, 'k) lstate \<Rightarrow> ('f, 'k) lstate \<Rightarrow> bool"
  for wr rd readable where
  other_push:
    "loop_step wr rd readable s
       (s\<lparr>ls_pending := ls_pending s @ [f], ls_posted := ls_posted s @ [f], ls_inflight := Suc (ls_inflight s)\<rparr>)"
| other_quit:
    "loop_step wr rd readable s (s\<lparr>ls_quit := True, ls_inflight := Suc (ls_inflight s)\<rparr>)"
| other_wakeup:
    "ls_inflight s = Suc n \<Longrightarrow>
     loop_step wr rd readable s (s\<lparr>ls_inflight := n, ls_evfd := wr (ls_evfd s)\<rparr>)"
| test_quit:
    "ls_pc s = Top \<Longrightarrow>
     loop_step wr rd readable s (s\<lparr>ls_pc := if ls_quit s then Stopped else Polling\<rparr>)"
| poll_returns:
    "ls_pc s = Polling \<Longrightarrow> loop_step wr rd readable s (s\<lparr>ls_pc := Handling (readable (ls_evfd s))\<rparr>)"
| handle_wakeup:
    "ls_pc s = Handling True \<Longrightarrow>
     loop_step wr rd readable s (s\<lparr>ls_pc := Handling False, ls_evfd := rd (ls_evfd s)\<rparr>)"
| callback_queues:
    "ls_pc s = Handling b \<Longrightarrow> \<not> ls_calling s \<Longrightarrow>
     loop_step wr rd readable s (s\<lparr>ls_pending := ls_pending s @ [f], ls_posted := ls_posted s @ [f]\<rparr>)"
| callback_quits:
    "ls_pc s = Handling b \<or> ls_pc s = Calling \<Longrightarrow> loop_step wr rd readable s (s\<lparr>ls_quit := True\<rparr>)"
| begin_pending:
    "ls_pc s = Handling False \<Longrightarrow>
     loop_step wr rd readable s (s\<lparr>ls_pc := Swapping, ls_calling := True\<rparr>)"
| swap_pending:
    "ls_pc s = Swapping \<Longrightarrow>
     loop_step wr rd readable s (s\<lparr>ls_pc := Calling, ls_batch := ls_pending s, ls_pending := []\<rparr>)"
| run_functor:
    "ls_pc s = Calling \<Longrightarrow> ls_batch s = f # fs \<Longrightarrow>
     loop_step wr rd readable s (s\<lparr>ls_batch := fs, ls_executed := ls_executed s @ [f]\<rparr>)"
| functor_queues:
    "ls_pc s = Calling \<Longrightarrow> ls_calling s \<Longrightarrow>
     loop_step wr rd readable s
       (s\<lparr>ls_pending := ls_pending s @ [f], ls_posted := ls_posted s @ [f], ls_evfd := wr (ls_evfd s)\<rparr>)"
| end_pending:
    "ls_pc s = Calling \<Longrightarrow> ls_batch s = [] \<Longrightarrow>
     loop_step wr rd readable s (s\<lparr>ls_pc := Top, ls_calling := False\<rparr>)"

text \<open>\<^verbatim>\<open>loop()\<close> was just entered, with \<open>fs\<close> already queued.\<close>

definition entered :: "'f list \<Rightarrow> 'k \<Rightarrow> ('f, 'k) lstate" where
  "entered fs k =
     \<lparr>ls_pc = Top, ls_pending = fs, ls_batch = [], ls_calling = False, ls_quit = False,
      ls_inflight = 0, ls_evfd = k, ls_posted = fs, ls_executed = []\<rparr>"

section \<open>Nothing is lost\<close>

definition eventfd_law :: "('k \<Rightarrow> 'k) \<Rightarrow> ('k \<Rightarrow> bool) \<Rightarrow> bool" where
  "eventfd_law wr readable \<longleftrightarrow> (\<forall>k. readable (wr k))"

definition fifo_inv :: "('f, 'k) lstate \<Rightarrow> bool" where
  "fifo_inv s \<longleftrightarrow>
     ls_executed s @ ls_batch s @ ls_pending s = ls_posted s \<and>
     (ls_pc s \<noteq> Calling \<longrightarrow> ls_batch s = [])"

lemma fifo_inv_step: "loop_step wr rd readable s t \<Longrightarrow> fifo_inv s \<Longrightarrow> fifo_inv t"
  by (induction rule: loop_step.induct) (auto simp: fifo_inv_def)

interpretation fifo_sys: step_system "loop_step wr rd readable" "entered fs k" fifo_inv for wr rd readable fs k
  by unfold_locales (simp add: fifo_inv_def entered_def, rule fifo_inv_step)

text \<open>
  C7. Functors are executed in exactly the order in which they were queued, none twice and none
  dropped, however the queueing threads interleave with the loop: at every moment the executed
  ones, those in the current batch and those pending are, in this order, all that were posted. What is
  still pending when the loop has been left is never executed.
\<close>

theorem functors_fifo:
  assumes "reaches (loop_step wr rd readable) (entered fs k) s"
  shows "ls_executed s @ ls_batch s @ ls_pending s = ls_posted s"
  using fifo_sys.inv_reaches [OF assms] by (simp add: fifo_inv_def)

text \<open>
  The state of the eventfd matters where the next swap comes only after another poll, and for
  \<^verbatim>\<open>quit_\<close> where the next test comes only after the poll.
\<close>

definition wake_inv :: "('k \<Rightarrow> bool) \<Rightarrow> ('f, 'k) lstate \<Rightarrow> bool" where
  "wake_inv readable s \<longleftrightarrow>
     (ls_pc s \<in> {Top, Polling, Calling} \<and> ls_pending s \<noteq> [] \<longrightarrow>
        readable (ls_evfd s) \<or> 0 < ls_inflight s) \<and>
     (ls_pc s = Polling \<and> ls_quit s \<longrightarrow> readable (ls_evfd s) \<or> 0 < ls_inflight s)"

lemma wake_inv_step:
  assumes law: "eventfd_law wr readable" and st: "loop_step wr rd readable s t" and inv: "wake_inv readable s"
  shows "wake_inv readable t"
  using st inv law by (induction rule: loop_step.induct) (auto simp: wake_inv_def eventfd_law_def)

text \<open>
  What may be queued when \<^verbatim>\<open>loop()\<close> is entered: functors of other threads, whose \<^verbatim>\<open>queueInLoop\<close> wrote the eventfd.
\<close>

definition announced :: "('k \<Rightarrow> bool) \<Rightarrow> 'f list \<Rightarrow> 'k \<Rightarrow> bool" where
  "announced readable fs k \<longleftrightarrow> (fs \<noteq> [] \<longrightarrow> readable k)"

lemma wake_inv_reaches:
  assumes "eventfd_law wr readable" and "announced readable fs k"
    and "reaches (loop_step wr rd readable) (entered fs k) s"
  shows "wake_inv readable s"
  using assms(3)
proof induction
  case reaches_start
  show ?case using assms(2) by (simp add: wake_inv_def entered_def announced_def)
next
  case (reaches_step s t)
  then show ?case using wake_inv_step [OF assms(1)] by blast
qed

text \<open>
  C21. No wakeup is lost: whenever the loop sleeps in \<^verbatim>\<open>poll\<close> while functors are pending or a quit was
  requested, and no other thread is still about to write the eventfd, the eventfd is readable, so
  the poll returns at once instead of sleeping until its timeout. This holds for every
  interleaving, and also for functors that other threads queued before \<^verbatim>\<open>loop()\<close> was entered; only what the loop
  thread itself queued before it, without a write to the eventfd, can have to wait.
\<close>

theorem no_lost_wakeup:
  assumes "eventfd_law wr readable" and "announced readable fs k"
    and "reaches (loop_step wr rd readable) (entered fs k) s"
    and "ls_pc s = Polling" and "ls_pending s \<noteq> [] \<or> ls_quit s" and "ls_inflight s = 0"
  shows "readable (ls_evfd s)"
  using wake_inv_reaches [OF assms(1-3)] assms(4-6) by (auto simp: wake_inv_def)

text \<open>An eventfd as its counter.\<close>

lemma counter_law: "eventfd_law Suc (\<lambda>n. 0 < n)"
  by (simp add: eventfd_law_def)

definition demo_sleep :: "(nat, nat) lstate" where
  "demo_sleep = (entered [] 0)\<lparr>ls_pc := Polling\<rparr>"

definition demo_pushed :: "(nat, nat) lstate" where
  "demo_pushed = demo_sleep\<lparr>ls_pending := [7], ls_posted := [7], ls_inflight := 1\<rparr>"

definition demo_woken :: "(nat, nat) lstate" where
  "demo_woken = demo_pushed\<lparr>ls_inflight := 0, ls_evfd := 1\<rparr>"

lemma demo_woken_reached: "reaches (loop_step Suc (\<lambda>n. 0) (\<lambda>n. 0 < n)) (entered [] 0) demo_woken"
proof -
  let ?st = "loop_step Suc (\<lambda>n. 0) (\<lambda>n. 0 < (n :: nat))"
  have "?st (entered [] 0) demo_sleep"
    using loop_step.test_quit [of "entered [] 0" Suc "\<lambda>n. 0" "\<lambda>n. 0 < n"]
    by (simp add: demo_sleep_def entered_def)
  moreover have "?st demo_sleep demo_pushed"
    using loop_step.other_push [of Suc "\<lambda>n. 0" "\<lambda>n. 0 < n" demo_sleep 7]
    by (simp add: demo_pushed_def demo_sleep_def entered_def)
  moreover have "?st demo_pushed demo_woken"
    using loop_step.other_wakeup [of demo_pushed 0 Suc "\<lambda>n. 0" "\<lambda>n. 0 < n"]
    by (simp add: demo_woken_def demo_pushed_def demo_sleep_def entered_def)
  ultimately show ?thesis by (blast intro: reaches.intros)
qed

theorem functors_fifo_witness:
  "ls_executed demo_woken @ ls_batch demo_woken @ ls_pending demo_woken = ls_posted demo_woken"
  using functors_fifo [OF demo_woken_reached] .

theorem no_lost_wakeup_witness: "0 < ls_evfd demo_woken"
  by (rule no_lost_wakeup [OF counter_law _ demo_woken_reached])
    (simp_all add: announced_def demo_woken_def demo_pushed_def demo_sleep_def entered_def)

section \<open>Quitting\<close>

text \<open>
  What the loop thread does by itself. In the worst case \<^verbatim>\<open>poll\<close> returns for nothing but the eventfd.
\<close>

inductive own_step ::
    "('k \<Rightarrow> 'k) \<Rightarrow> ('k \<Rightarrow> 'k) \<Rightarrow> ('k \<Rightarrow> bool) \<Rightarrow> ('f, 'k) lstate \<Rightarrow> ('f, 'k) lstate \<Rightarrow> bool"
  for wr rd readable where
  own: "loop_step wr rd readable s t \<Longrightarrow> ls_pc s = Polling \<longrightarrow> readable (ls_evfd s) \<Longrightarrow>
    ls_pc t \<noteq> ls_pc s \<or> ls_executed t \<noteq> ls_executed s \<Longrightarrow> own_step wr rd readable s t"

text \<open>The steps left until the next test of \<^verbatim>\<open>quit_\<close>, and that test.\<close>

definition quit_rank :: "('f, 'k) lstate \<Rightarrow> nat" where
  "quit_rank s =
     (case ls_pc s of
        Stopped \<Rightarrow> 0
      | Top \<Rightarrow> 1
      | Calling \<Rightarrow> 2 + length (ls_batch s)
      | Swapping \<Rightarrow> 3 + length (ls_pending s)
      | Handling b \<Rightarrow> (if b then 5 else 4) + length (ls_pending s)
      | Polling \<Rightarrow> 6 + length (ls_pending s))"

definition quitting :: "('k \<Rightarrow> bool) \<Rightarrow> ('f, 'k) lstate \<Rightarrow> bool" where
  "quitting readable s \<longleftrightarrow> ls_quit s \<and> wake_inv readable s \<and> ls_inflight s = 0"

lemma own_step_quit:
  assumes "own_step wr rd readable s t" and "eventfd_law wr readable" and "quitting readable s"
  shows "quitting readable t \<and> quit_rank t < quit_rank s"
proof -
  from assms(1) have st: "loop_step wr rd readable s t" and rd: "ls_pc s = Polling \<longrightarrow> readable (ls_evfd s)"
    and ch: "ls_pc t \<noteq> ls_pc s \<or> ls_executed t \<noteq> ls_executed s"
    by (auto elim: own_step.cases)
  have "wake_inv readable t" using wake_inv_step [OF assms(2) st] assms(3) by (simp add: quitting_def)
  with st rd ch assms(3) show ?thesis
    by (induction rule: loop_step.induct) (auto simp: quitting_def quit_rank_def)
qed

lemma quitting_not_stuck:
  assumes "quitting readable s" and "\<nexists>t. own_step wr rd readable s t"
  shows "ls_pc s = Stopped"
proof (rule ccontr)
  assume "ls_pc s \<noteq> Stopped"
  then have "\<exists>t. own_step wr rd readable s t"
  proof (cases "ls_pc s")
    case Top
    then show ?thesis using own_step.own [OF loop_step.test_quit [OF Top]] by (cases "ls_quit s") fastforce+
  next
    case Polling
    then have "readable (ls_evfd s)" using assms(1) by (auto simp: quitting_def wake_inv_def)
    then show ?thesis using own_step.own [OF loop_step.poll_returns [OF Polling]] Polling by fastforce
  next
    case (Handling b)
    then show ?thesis
      using own_step.own [OF loop_step.handle_wakeup, of s] own_step.own [OF loop_step.begin_pending, of s]
      by (cases b) fastforce+
  next
    case Swapping
    then show ?thesis using own_step.own [OF loop_step.swap_pending [OF Swapping]] by fastforce
  next
    case Calling
    then show ?thesis
      using own_step.own [OF loop_step.run_functor [OF Calling]] own_step.own [OF loop_step.end_pending [OF Calling]]
      by (cases "ls_batch s") fastforce+
  qed simp
  with assms(2) show False by blast
qed

lemma quit_steps: "eventfd_law wr readable \<Longrightarrow> ranked_steps (own_step wr rd readable) (quitting readable) quit_rank"
  by unfold_locales (use own_step_quit in blast)+

text \<open>
  C22. \<^verbatim>\<open>quit\<close> ends the loop. Once \<^verbatim>\<open>quit_\<close> is set inside \<^verbatim>\<open>loop()\<close>, by whatever thread, and the write to the eventfd
  is done, the loop thread takes only boundedly many steps, at most the functors of one batch and six
  more, and it cannot stop anywhere but at the end of \<^verbatim>\<open>loop()\<close>, even if no descriptor but the eventfd ever
  becomes ready. Counted are consecutive steps of the loop thread in which its functors queue nothing; as for C21, what
  was queued before \<^verbatim>\<open>loop()\<close> was entered was queued with a write to the eventfd.
\<close>

theorem quit_ends_loop:
  assumes law: "eventfd_law wr readable" and "announced readable fs k"
    and "reaches (loop_step wr rd readable) (entered fs k) s"
    and "ls_quit s" and "ls_inflight s = 0" and "(own_step wr rd readable ^^ n) s t"
  shows "n \<le> quit_rank s \<and> ((\<nexists>u. own_step wr rd readable t u) \<longrightarrow> ls_pc t = Stopped)"
proof -
  have "quitting readable s" using wake_inv_reaches [OF assms(1-3)] assms(4,5) by (simp add: quitting_def)
  from ranked_steps.bounded [OF quit_steps [OF law] assms(6) this] have "quitting readable t" "n \<le> quit_rank s" by auto
  with quitting_not_stuck show ?thesis by blast
qed

theorem quit_ends_loop_witness:
  "\<exists>s t. reaches (loop_step Suc (\<lambda>n. 0) (\<lambda>n. 0 < n)) (entered [] 0 :: (nat, nat) lstate) s \<and>
     own_step Suc (\<lambda>n. 0) (\<lambda>n. 0 < n) s t \<and> 1 \<le> quit_rank s \<and> ls_pc s = Polling"
proof -
  let ?st = "loop_step Suc (\<lambda>n. 0) (\<lambda>n. 0 < (n :: nat))"
  define s1 where "s1 = demo_woken\<lparr>ls_quit := True, ls_inflight := 1\<rparr>"
  define s where "s = s1\<lparr>ls_inflight := 0, ls_evfd := Suc (Suc 0)\<rparr>"
  define t where "t = s\<lparr>ls_pc := Handling True\<rparr>"
  have w: "ls_inflight demo_woken = 0" "ls_evfd demo_woken = 1" "ls_pc demo_woken = Polling"
    by (simp_all add: demo_woken_def demo_pushed_def demo_sleep_def entered_def)
  have "?st demo_woken s1" using loop_step.other_quit [of Suc "\<lambda>n. 0" "\<lambda>n. 0 < n" demo_woken] w by (simp add: s1_def)
  moreover have "?st s1 s" using loop_step.other_wakeup [of s1 0 Suc "\<lambda>n. 0" "\<lambda>n. 0 < n"] w by (simp add: s_def s1_def)
  ultimately have r: "reaches ?st (entered [] 0) s" using demo_woken_reached by (meson reaches.intros)
  have "?st s t" using loop_step.poll_returns [of s Suc "\<lambda>n. 0" "\<lambda>n. 0 < n"] w by (simp add: t_def s_def s1_def)
  then have o: "own_step Suc (\<lambda>n. 0) (\<lambda>n. 0 < n) s t" by (rule own_step.own) (use w in \<open>simp_all add: t_def s_def s1_def\<close>)
  have "(own_step Suc (\<lambda>n. 0) (\<lambda>n. 0 < n) ^^ 1) s t" using o by (auto simp: relcompp.simps)
  from quit_ends_loop [OF counter_law _ r _ _ this] o r w show ?thesis by (auto simp: s_def s1_def announced_def)
qed

section \<open>What quitting leaves behind\<close>

text \<open>
  \<^verbatim>\<open>loop\<close> tests \<^verbatim>\<open>quit_\<close> after \<^verbatim>\<open>doPendingFunctors\<close> and does not look at the queue again. A functor that is queued
  while the batch runs, or between the batch and the test, is still queued when \<^verbatim>\<open>loop\<close> returns, so it
  is destroyed and not run. For \<^verbatim>\<open>TcpServer\<close>, whose destructor queues \<^verbatim>\<open>connectDestroyed\<close> into the pool's loops
  just before the pool quits them, that is a connection which is never taken down.
\<close>

theorem quit_strands_functors:
  "\<exists>s. reaches (loop_step wr rd readable) (entered [] k) s \<and>
     ls_pc s = Stopped \<and> ls_posted s = [f] \<and> ls_pending s = [f] \<and> ls_executed s = [] \<and> ls_inflight s = 0"
proof -
  let ?st = "loop_step wr rd readable"
  define s1 where "s1 = (entered [] k)\<lparr>ls_pending := [f], ls_posted := [f], ls_inflight := 1\<rparr>"
  define s2 where "s2 = s1\<lparr>ls_inflight := 0, ls_evfd := wr k\<rparr>"
  define s3 where "s3 = s2\<lparr>ls_quit := True, ls_inflight := 1\<rparr>"
  define s4 where "s4 = s3\<lparr>ls_inflight := 0, ls_evfd := wr (wr k)\<rparr>"
  define s5 where "s5 = s4\<lparr>ls_pc := Stopped\<rparr>"
  note D = s1_def s2_def s3_def s4_def s5_def entered_def
  have "?st (entered [] k) s1" using loop_step.other_push [of wr rd readable "entered [] k" f] by (simp add: D)
  moreover have "?st s1 s2" using loop_step.other_wakeup [of s1 0 wr rd readable] by (simp add: D)
  moreover have "?st s2 s3" using loop_step.other_quit [of wr rd readable s2] by (simp add: D)
  moreover have "?st s3 s4" using loop_step.other_wakeup [of s3 0 wr rd readable] by (simp add: D)
  moreover have "?st s4 s5" using loop_step.test_quit [of s4 wr rd readable] by (simp add: D)
  ultimately have "reaches ?st (entered [] k) s5" by (meson reaches.intros)
  then show ?thesis by (intro exI [of _ s5]) (simp add: D)
qed

end
