(* ===== verification/Kaycc_TimerQueue.thy ===== *)
theory Kaycc_TimerQueue
  imports Kaycc_Timestamp Kaycc_Poller "HOL-Library.Product_Lexorder"
begin

text \<open>
  TimerQueue with Timer and TimerId (net/timerqueue.h, .cpp, net/timer.h, .cpp, net/timerid.h).
  Timers are heap objects: \<open>tq_heap\<close> maps an address to a Timer, \<^verbatim>\<open>delete\<close> removes it, and using an
  address that is not there is undefined. The two \<^verbatim>\<open>std::set\<close>s are strictly sorted lists of pairs in
  the lexicographic order of \<^verbatim>\<open>std::pair\<close>. Clock readings are arguments, \<^verbatim>\<open>new\<close> is a parameter
  that returns a fresh address, and the calls of \<^verbatim>\<open>timerfd_settime\<close> are recorded. All operations of
  this theory are those that run in the loop thread.
\<close>

named_theorems tq_simps "operations of the timer queue"

section \<open>std::set\<close>

text \<open>
  \<^verbatim>\<open>insert\<close> is \<open>insort_insert\<close> with the flag whether the element is new; \<^verbatim>\<open>erase\<close> returns the
  number of erased elements; \<^verbatim>\<open>lower_bound\<close> splits the set.
\<close>

definition std_insert :: "'a :: linorder \<Rightarrow> 'a list \<Rightarrow> 'a list \<times> bool" where
  "std_insert x xs = (insort_insert x xs, x \<notin> set xs)"

definition std_erase :: "'a \<Rightarrow> 'a list \<Rightarrow> 'a list \<times> nat" where
  "std_erase x xs = (filter (\<lambda>y. y \<noteq> x) xs, if x \<in> set xs then 1 else 0)"

definition before :: "'a :: linorder \<Rightarrow> 'a list \<Rightarrow> 'a list" where
  "before x xs = takeWhile (\<lambda>y. y < x) xs"

definition from_bound :: "'a :: linorder \<Rightarrow> 'a list \<Rightarrow> 'a list" where
  "from_bound x xs = dropWhile (\<lambda>y. y < x) xs"

abbreviation std_set :: "'a :: linorder list \<Rightarrow> bool" where
  "std_set xs \<equiv> sorted xs \<and> distinct xs"

section \<open>State\<close>

record 'cb timer =
  tm_callback :: 'cb
  tm_expiration :: timestamp
  tm_interval :: rat
  tm_repeat :: bool
  tm_sequence :: int

type_synonym entry = "timestamp \<times> nat"

type_synonym timerId = "nat \<times> int"

record 'cb tqueue =
  tq_timers :: "entry list"
  tq_active :: "timerId list"
  tq_calling :: bool               \<comment> \<open>\<^verbatim>\<open>callingExpiredTimers_\<close>\<close>
  tq_canceling :: "timerId list"
  tq_heap :: "nat \<rightharpoonup> 'cb timer"
  tq_numCreated :: int             \<comment> \<open>\<^verbatim>\<open>Timer::s_numCreated_\<close>\<close>
  tq_settime :: "(int \<times> int) list"  \<comment> \<open>the \<^verbatim>\<open>it_value\<close>s given to \<^verbatim>\<open>timerfd_settime\<close>\<close>

definition newTimerQueue :: "'cb tqueue" where
  "newTimerQueue =
     \<lparr>tq_timers = [], tq_active = [], tq_calling = False, tq_canceling = [], tq_heap = Map.empty,
      tq_numCreated = 0, tq_settime = []\<rparr>"

definition newTimer :: "'cb \<Rightarrow> timestamp \<Rightarrow> rat \<Rightarrow> int \<Rightarrow> 'cb timer" where
  "newTimer cb when interval seq =
     \<lparr>tm_callback = cb, tm_expiration = when, tm_interval = interval, tm_repeat = (interval > 0),
      tm_sequence = seq\<rparr>"

definition restart :: "timestamp \<Rightarrow> 'cb timer \<Rightarrow> 'cb timer res" where
  "restart now t =
     (if tm_repeat t then andThen (addTime now (tm_interval t)) (\<lambda>e. Inr (t\<lparr>tm_expiration := e\<rparr>))
      else Inr (t\<lparr>tm_expiration := ts_invalid\<rparr>))"

definition timer_at :: "'cb tqueue \<Rightarrow> nat \<Rightarrow> ('cb timer \<Rightarrow> 'a res) \<Rightarrow> 'a res" where
  "timer_at q a k = (case tq_heap q a of None \<Rightarrow> Inl (Undefined ''dangling Timer*'') | Some t \<Rightarrow> k t)"

section \<open>Operations\<close>

definition howMuchTimeFromNow :: "timestamp \<Rightarrow> timestamp \<Rightarrow> (int \<times> int) res" where
  "howMuchTimeFromNow now when =
     andThen (i64 (when - now)) (\<lambda>us0.
     let microseconds = (if us0 < 100 then 100 else us0)
     in Inr (microseconds sdiv kMicroSecondsPerSecond, microseconds smod kMicroSecondsPerSecond * 1000))"

definition resetTimerfd :: "timestamp \<Rightarrow> timestamp \<Rightarrow> 'cb tqueue \<Rightarrow> 'cb tqueue res" where
  "resetTimerfd now expiration q =
     andThen (howMuchTimeFromNow now expiration) (\<lambda>v. Inr (q\<lparr>tq_settime := tq_settime q @ [v]\<rparr>))"

definition sizes_ok :: "string \<Rightarrow> 'cb tqueue \<Rightarrow> 'a res \<Rightarrow> 'a res" where
  "sizes_ok loc q = check (length (tq_timers q) = length (tq_active q)) loc"

definition insert_timer :: "nat \<Rightarrow> 'cb tqueue \<Rightarrow> (bool \<times> 'cb tqueue) res" where
  "insert_timer a q =
     sizes_ok ''timerqueue.cpp:255'' q (timer_at q a (\<lambda>t.
     let when = tm_expiration t;
         earliestChanged = (case tq_timers q of [] \<Rightarrow> True | (e, b) # _ \<Rightarrow> when < e);
         (timers', fresh) = std_insert (when, a) (tq_timers q)
     in check fresh ''timerqueue.cpp:269'' (
     let (active', fresh') = std_insert (a, tm_sequence t) (tq_active q)
     in check fresh' ''timerqueue.cpp:275'' (
     let q' = q\<lparr>tq_timers := timers', tq_active := active'\<rparr>
     in sizes_ok ''timerqueue.cpp:278'' q' (Inr (earliestChanged, q'))))))"

definition addTimerInLoop :: "timestamp \<Rightarrow> nat \<Rightarrow> 'cb tqueue \<Rightarrow> 'cb tqueue res" where
  "addTimerInLoop now a q =
     andThen (insert_timer a q) (\<lambda>(earliestChanged, q1).
     if earliestChanged then timer_at q1 a (\<lambda>t. resetTimerfd now (tm_expiration t) q1) else Inr q1)"

text \<open>
  \<^verbatim>\<open>addTimer\<close> in the loop thread: \<^verbatim>\<open>new Timer\<close> at the address \<open>alloc\<close> gives, then \<^verbatim>\<open>addTimerInLoop\<close>
  at once. The result is the TimerId.
\<close>

definition create_timer ::
    "((nat \<rightharpoonup> 'cb timer) \<Rightarrow> nat) \<Rightarrow> 'cb \<Rightarrow> timestamp \<Rightarrow> rat \<Rightarrow> 'cb tqueue \<Rightarrow> nat \<times> 'cb tqueue" where
  "create_timer alloc cb when interval q =
     (let a = alloc (tq_heap q); seq = tq_numCreated q + 1
      in (a, q\<lparr>tq_heap := (tq_heap q)(a \<mapsto> newTimer cb when interval seq), tq_numCreated := seq\<rparr>))"

definition addTimer ::
    "((nat \<rightharpoonup> 'cb timer) \<Rightarrow> nat) \<Rightarrow> timestamp \<Rightarrow> 'cb \<Rightarrow> timestamp \<Rightarrow> rat \<Rightarrow> 'cb tqueue \<Rightarrow>
     (timerId \<times> 'cb tqueue) res" where
  "addTimer alloc now cb when interval q =
     (let (a, q1) = create_timer alloc cb when interval q
      in andThen (addTimerInLoop now a q1) (\<lambda>q2.
         timer_at q2 a (\<lambda>t. Inr ((a, tm_sequence t), q2))))"

definition cancelInLoop :: "timerId \<Rightarrow> 'cb tqueue \<Rightarrow> 'cb tqueue res" where
  "cancelInLoop tid q =
     sizes_ok ''timerqueue.cpp:155'' q (
     andThen
       (if tid \<in> set (tq_active q) then
          timer_at q (fst tid) (\<lambda>t.
          let (timers', n) = std_erase (tm_expiration t, fst tid) (tq_timers q)
          in check (n = 1) ''timerqueue.cpp:161'' (
          Inr (q\<lparr>tq_timers := timers', tq_heap := (tq_heap q)(fst tid := None),
                 tq_active := fst (std_erase tid (tq_active q))\<rparr>)))
        else if tq_calling q then
          Inr (q\<lparr>tq_canceling := fst (std_insert tid (tq_canceling q))\<rparr>)
        else Inr q)
       (\<lambda>q'. sizes_ok ''timerqueue.cpp:171'' q' (Inr q')))"

text \<open>\<^verbatim>\<open>reinterpret_cast<Timer*>(UINTPTR_MAX)\<close> with the macro redefined as \<^verbatim>\<open>4294967295U\<close>.\<close>

definition sentry_ptr :: nat where
  "sentry_ptr = 4294967295"

definition erase_active :: "entry \<Rightarrow> 'cb tqueue \<Rightarrow> 'cb tqueue res" where
  "erase_active e q =
     timer_at q (snd e) (\<lambda>t.
     let (active', n) = std_erase (snd e, tm_sequence t) (tq_active q)
     in check (n = 1) ''timerqueue.cpp:213'' (Inr (q\<lparr>tq_active := active'\<rparr>)))"

definition getExpired :: "timestamp \<Rightarrow> 'cb tqueue \<Rightarrow> (entry list \<times> 'cb tqueue) res" where
  "getExpired now q =
     sizes_ok ''timerqueue.cpp:198'' q (
     let sentry = (now, sentry_ptr);
         endIt = from_bound sentry (tq_timers q)
     in check (case endIt of [] \<Rightarrow> True | (e, a) # _ \<Rightarrow> now < e) ''timerqueue.cpp:204'' (
     let expired = before sentry (tq_timers q)
     in andThen (foldRes erase_active expired (q\<lparr>tq_timers := endIt\<rparr>)) (\<lambda>q'.
        sizes_ok ''timerqueue.cpp:216'' q' (Inr (expired, q')))))"

definition reset_one :: "timestamp \<Rightarrow> entry \<Rightarrow> 'cb tqueue \<Rightarrow> 'cb tqueue res" where
  "reset_one now e q =
     timer_at q (snd e) (\<lambda>t.
     if tm_repeat t \<and> (snd e, tm_sequence t) \<notin> set (tq_canceling q) then
       andThen (restart now t) (\<lambda>t'.
       andThen (insert_timer (snd e) (q\<lparr>tq_heap := (tq_heap q)(snd e \<mapsto> t')\<rparr>)) (\<lambda>(changed, q').
       Inr q'))
     else Inr (q\<lparr>tq_heap := (tq_heap q)(snd e := None)\<rparr>))"

text \<open>\<open>now2\<close>: the clock when \<^verbatim>\<open>resetTimerfd\<close> runs at the end.\<close>

definition reset_queue :: "timestamp \<Rightarrow> timestamp \<Rightarrow> entry list \<Rightarrow> 'cb tqueue \<Rightarrow> 'cb tqueue res" where
  "reset_queue now now2 expired q =
     andThen (foldRes (reset_one now) expired q) (\<lambda>q1.
     andThen (case tq_timers q1 of
                [] \<Rightarrow> Inr ts_invalid
              | (e, a) # _ \<Rightarrow> timer_at q1 a (\<lambda>t. Inr (tm_expiration t))) (\<lambda>nextExpire.
     if ts_valid nextExpire then resetTimerfd now2 nextExpire q1 else Inr q1))"

text \<open>
  A user callback runs in the loop thread and acts on the queue through \<^verbatim>\<open>addTimer\<close> and \<^verbatim>\<open>cancel\<close>.
  \<open>script cb q\<close> are the calls it makes when started in the state \<open>q\<close>; a call carries its clock
  reading.
\<close>

datatype 'cb tq_call = CAdd timestamp 'cb timestamp rat | CCancel timerId

fun tq_exec :: "((nat \<rightharpoonup> 'cb timer) \<Rightarrow> nat) \<Rightarrow> 'cb tq_call \<Rightarrow> 'cb tqueue \<Rightarrow> 'cb tqueue res" where
  "tq_exec alloc (CAdd now cb when interval) q =
     andThen (addTimer alloc now cb when interval q) (\<lambda>(tid, q'). Inr q')"
| "tq_exec alloc (CCancel tid) q = cancelInLoop tid q"

definition run_timer ::
    "((nat \<rightharpoonup> 'cb timer) \<Rightarrow> nat) \<Rightarrow> ('cb \<Rightarrow> 'cb tqueue \<Rightarrow> 'cb tq_call list) \<Rightarrow> entry \<Rightarrow> 'cb tqueue \<Rightarrow>
     'cb tqueue res" where
  "run_timer alloc script e q =
     timer_at q (snd e) (\<lambda>t. foldRes (tq_exec alloc) (script (tm_callback t) q) q)"

definition handleRead_tq ::
    "((nat \<rightharpoonup> 'cb timer) \<Rightarrow> nat) \<Rightarrow> ('cb \<Rightarrow> 'cb tqueue \<Rightarrow> 'cb tq_call list) \<Rightarrow> timestamp \<Rightarrow> timestamp \<Rightarrow>
     'cb tqueue \<Rightarrow> 'cb tqueue res" where
  "handleRead_tq alloc script now now2 q =
     andThen (getExpired now q) (\<lambda>(expired, q1).
     let q2 = q1\<lparr>tq_calling := True, tq_canceling := []\<rparr>
     in andThen (foldRes (run_timer alloc script) expired q2) (\<lambda>q3.
        reset_queue now now2 expired (q3\<lparr>tq_calling := False\<rparr>)))"

text \<open>The loop of \<^verbatim>\<open>~TimerQueue\<close> that frees the timers.\<close>

definition delete_timer :: "entry \<Rightarrow> 'cb tqueue \<Rightarrow> 'cb tqueue res" where
  "delete_timer e q = timer_at q (snd e) (\<lambda>t. Inr (q\<lparr>tq_heap := (tq_heap q)(snd e := None)\<rparr>))"

definition destroyTimerQueue :: "'cb tqueue \<Rightarrow> 'cb tqueue res" where
  "destroyTimerQueue q = foldRes delete_timer (tq_timers q) q"

section \<open>Invariant\<close>

definition queued :: "'cb tqueue \<Rightarrow> nat set" where
  "queued q = fst ` set (tq_active q)"

text \<open>
  Bounds under which no \<^verbatim>\<open>int64_t\<close> overflows: \<open>2 ^ 61\<close> microseconds are more than 73000 years.
\<close>

definition clock_ok :: "timestamp \<Rightarrow> bool" where
  "clock_ok now \<longleftrightarrow> 0 \<le> now \<and> now \<le> 2305843009213693952"

definition when_ok :: "timestamp \<Rightarrow> bool" where
  "when_ok e \<longleftrightarrow> - 4611686018427387904 \<le> e \<and> e \<le> 4611686018427387904"

definition interval_ok :: "rat \<Rightarrow> bool" where
  "interval_ok i \<longleftrightarrow> delta_us i \<le> 2305843009213693952"

definition timer_ok :: "int \<Rightarrow> 'cb timer \<Rightarrow> bool" where
  "timer_ok n t \<longleftrightarrow>
     1 \<le> tm_sequence t \<and> tm_sequence t \<le> n \<and> when_ok (tm_expiration t) \<and>
     interval_ok (tm_interval t) \<and> (tm_repeat t \<longleftrightarrow> 0 < tm_interval t)"

definition tq_inv :: "'cb tqueue \<Rightarrow> bool" where
  "tq_inv q \<longleftrightarrow>
     std_set (tq_timers q) \<and> std_set (tq_active q) \<and> finite (dom (tq_heap q)) \<and>
     (\<forall>e a. (e, a) \<in> set (tq_timers q) \<longleftrightarrow>
        (\<exists>t. tq_heap q a = Some t \<and> tm_expiration t = e \<and> (a, tm_sequence t) \<in> set (tq_active q))) \<and>
     (\<forall>a s. (a, s) \<in> set (tq_active q) \<longrightarrow> (\<exists>t. tq_heap q a = Some t \<and> tm_sequence t = s)) \<and>
     (\<forall>a t. tq_heap q a = Some t \<longrightarrow> timer_ok (tq_numCreated q) t) \<and> 0 \<le> tq_numCreated q"

lemma tq_invD:
  assumes "tq_inv q"
  shows "sorted (tq_timers q)" and "distinct (tq_timers q)"
    and "sorted (tq_active q)" and "distinct (tq_active q)"
    and "finite (dom (tq_heap q))" and "0 \<le> tq_numCreated q"
  using assms by (auto simp: tq_inv_def)

lemma tq_inv_timers:
  "tq_inv q \<Longrightarrow> (e, a) \<in> set (tq_timers q) \<longleftrightarrow>
     (\<exists>t. tq_heap q a = Some t \<and> tm_expiration t = e \<and> (a, tm_sequence t) \<in> set (tq_active q))"
  by (simp add: tq_inv_def)

lemma tq_inv_active:
  "tq_inv q \<Longrightarrow> (a, s) \<in> set (tq_active q) \<Longrightarrow> \<exists>t. tq_heap q a = Some t \<and> tm_sequence t = s"
  by (simp add: tq_inv_def)

lemma tq_inv_timer_ok: "tq_inv q \<Longrightarrow> tq_heap q a = Some t \<Longrightarrow> timer_ok (tq_numCreated q) t"
  by (simp add: tq_inv_def)

lemma tq_invI:
  assumes "std_set (tq_timers q)" and "std_set (tq_active q)" and "finite (dom (tq_heap q))"
    and "\<And>e a. (e, a) \<in> set (tq_timers q) \<longleftrightarrow>
        (\<exists>t. tq_heap q a = Some t \<and> tm_expiration t = e \<and> (a, tm_sequence t) \<in> set (tq_active q))"
    and "\<And>a s. (a, s) \<in> set (tq_active q) \<Longrightarrow> \<exists>t. tq_heap q a = Some t \<and> tm_sequence t = s"
    and "\<And>a t. tq_heap q a = Some t \<Longrightarrow> timer_ok (tq_numCreated q) t"
    and "0 \<le> tq_numCreated q"
  shows "tq_inv q"
  using assms by (simp add: tq_inv_def)

text \<open>Queued timers: the two sets describe the same timers.\<close>

lemma queued_iff:
  assumes "tq_inv q"
  shows "a \<in> queued q \<longleftrightarrow> (\<exists>t. tq_heap q a = Some t \<and> (a, tm_sequence t) \<in> set (tq_active q))"
  using tq_inv_active [OF assms] by (force simp: queued_def)

lemma queued_timers:
  assumes inv: "tq_inv q"
  shows "snd ` set (tq_timers q) = queued q"
proof
  show "snd ` set (tq_timers q) \<subseteq> queued q"
    using tq_inv_timers [OF inv] by (force simp: queued_def)
  show "queued q \<subseteq> snd ` set (tq_timers q)"
  proof
    fix a
    assume "a \<in> queued q"
    then obtain t where "tq_heap q a = Some t" "(a, tm_sequence t) \<in> set (tq_active q)"
      using queued_iff [OF inv] by blast
    then have "(tm_expiration t, a) \<in> set (tq_timers q)" using tq_inv_timers [OF inv] by blast
    then show "a \<in> snd ` set (tq_timers q)" by force
  qed
qed

lemma tq_distinct:
  assumes inv: "tq_inv q"
  shows "distinct (map snd (tq_timers q))" and "distinct (map fst (tq_active q))"
proof -
  have "inj_on snd (set (tq_timers q))"
    using tq_inv_timers [OF inv] by (force simp: inj_on_def)
  then show "distinct (map snd (tq_timers q))" using tq_invD(2) [OF inv] by (simp add: distinct_map)
  have "inj_on fst (set (tq_active q))"
    using tq_inv_active [OF inv] by (intro inj_onI) (metis option.inject prod.collapse)
  then show "distinct (map fst (tq_active q))" using tq_invD(4) [OF inv] by (simp add: distinct_map)
qed

text \<open>Hence every size assertion holds.\<close>

lemma tq_sizes: "tq_inv q \<Longrightarrow> length (tq_timers q) = length (tq_active q)"
  using tq_distinct [of q] queued_timers [of q]
  by (metis distinct_card length_map list.set_map queued_def)

lemma sizes_ok_inv [tq_simps]: "tq_inv q \<Longrightarrow> sizes_ok loc q k = k"
  by (simp add: sizes_ok_def tq_sizes)

lemma timer_at_Some [simp]: "tq_heap q a = Some t \<Longrightarrow> timer_at q a k = k t"
  by (simp add: timer_at_def)

section \<open>Inserting\<close>

definition queue_in :: "nat \<Rightarrow> 'cb timer \<Rightarrow> 'cb tqueue \<Rightarrow> 'cb tqueue" where
  "queue_in a t q =
     q\<lparr>tq_timers := insort_insert (tm_expiration t, a) (tq_timers q),
       tq_active := insort_insert (a, tm_sequence t) (tq_active q)\<rparr>"

lemma queued_queue_in: "queued (queue_in a t q) = insert a (queued q)"
  by (simp add: queued_def queue_in_def set_insort_insert)

lemma tq_inv_queue_in:
  assumes inv: "tq_inv q" and t: "tq_heap q a = Some t" and new: "a \<notin> queued q"
  shows "tq_inv (queue_in a t q)"
proof (rule tq_invI)
  show "(e, b) \<in> set (tq_timers (queue_in a t q)) \<longleftrightarrow>
      (\<exists>u. tq_heap (queue_in a t q) b = Some u \<and> tm_expiration u = e \<and>
        (b, tm_sequence u) \<in> set (tq_active (queue_in a t q)))" for e b
    using tq_inv_timers [OF inv, of e b] t new
    by (force simp: queue_in_def set_insort_insert queued_def)
  show "\<exists>u. tq_heap (queue_in a t q) b = Some u \<and> tm_sequence u = s"
    if "(b, s) \<in> set (tq_active (queue_in a t q))" for b s
    using that tq_inv_active [OF inv, of b s] t by (auto simp: queue_in_def set_insort_insert)
qed (use tq_invD [OF inv] tq_inv_timer_ok [OF inv] in
    \<open>auto simp: queue_in_def sorted_insort_insert distinct_insort_insert\<close>)

lemma insert_timer_ok:
  assumes inv: "tq_inv q" and t: "tq_heap q a = Some t" and new: "a \<notin> queued q"
  shows "insert_timer a q =
     Inr (case tq_timers q of [] \<Rightarrow> True | (e, b) # _ \<Rightarrow> tm_expiration t < e, queue_in a t q)"
proof -
  have "(tm_expiration t, a) \<notin> set (tq_timers q)" using queued_timers [OF inv] new by force
  moreover have "(a, tm_sequence t) \<notin> set (tq_active q)" using new by (force simp: queued_def)
  moreover have "sizes_ok ''timerqueue.cpp:278'' (queue_in a t q) k = k" for k :: "(bool \<times> 'a tqueue) res"
    using tq_inv_queue_in [OF assms] by (simp add: tq_simps)
  ultimately show ?thesis
    using t sizes_ok_inv [OF inv]
    by (simp add: insert_timer_def std_insert_def Let_def queue_in_def)
qed

section \<open>Ownership\<close>

text \<open>
  Between calls every Timer object is owned by the queue: it is queued, or it is one of the
  expired timers \<open>E\<close> that \<^verbatim>\<open>handleRead\<close> holds in its local vector. Nothing leaks, and nothing that
  was deleted is referenced.
\<close>

definition tq_own :: "entry list \<Rightarrow> 'cb tqueue \<Rightarrow> bool" where
  "tq_own E q \<longleftrightarrow>
     tq_inv q \<and> distinct (map snd E) \<and> snd ` set E \<inter> queued q = {} \<and>
     dom (tq_heap q) = queued q \<union> snd ` set E"

lemma tq_ownD:
  assumes "tq_own E q"
  shows "tq_inv q" and "distinct (map snd E)" and "snd ` set E \<inter> queued q = {}"
    and "dom (tq_heap q) = queued q \<union> snd ` set E"
  using assms by (auto simp: tq_own_def)

lemma tq_own_heap:
  assumes "tq_own E q" and "e \<in> set E"
  obtains t where "tq_heap q (snd e) = Some t" and "snd e \<notin> queued q"
  using tq_ownD(3,4) [OF assms(1)] assms(2) by (metis (no_types, lifting) IntI UnI2 domD empty_iff image_eqI)

text \<open>Every timer of \<open>q'\<close> is one of \<open>q\<close> or has a sequence number that \<open>q\<close> had not given out.\<close>

definition same_or_new :: "'cb tqueue \<Rightarrow> 'cb tqueue \<Rightarrow> bool" where
  "same_or_new q q' \<longleftrightarrow>
     tq_numCreated q \<le> tq_numCreated q' \<and>
     (\<forall>a t. tq_heap q' a = Some t \<longrightarrow>
        (\<exists>u. tq_heap q a = Some u \<and> tm_sequence u = tm_sequence t) \<or> tq_numCreated q < tm_sequence t)"

lemma same_or_new_refl: "same_or_new q q"
  by (simp add: same_or_new_def)

lemma same_or_new_trans:
  assumes "same_or_new q r" and "same_or_new r s"
  shows "same_or_new q s"
  unfolding same_or_new_def
proof (intro conjI allI impI)
  show "tq_numCreated q \<le> tq_numCreated s" using assms by (simp add: same_or_new_def)
  fix a t
  assume t: "tq_heap s a = Some t"
  from assms(2) t consider u where "tq_heap r a = Some u" "tm_sequence u = tm_sequence t"
    | "tq_numCreated r < tm_sequence t" by (auto simp: same_or_new_def)
  then show "(\<exists>u. tq_heap q a = Some u \<and> tm_sequence u = tm_sequence t) \<or> tq_numCreated q < tm_sequence t"
  proof cases
    case 1
    then show ?thesis using assms(1) unfolding same_or_new_def by metis
  next
    case 2
    with assms(1) show ?thesis by (simp add: same_or_new_def)
  qed
qed

lemma same_or_new_removed:
  "tq_heap q' = (tq_heap q)(a := None) \<Longrightarrow> tq_numCreated q' = tq_numCreated q \<Longrightarrow> same_or_new q q'"
  by (auto simp: same_or_new_def split: if_splits)

text \<open>What a call of the queue keeps while the timers \<open>E\<close> are being processed.\<close>

definition tq_keeps :: "entry list \<Rightarrow> 'cb tqueue \<Rightarrow> 'cb tqueue \<Rightarrow> bool" where
  "tq_keeps E q q' \<longleftrightarrow>
     tq_own E q' \<and> (\<forall>a \<in> snd ` set E. tq_heap q' a = tq_heap q a) \<and> tq_calling q' = tq_calling q \<and>
     set (tq_canceling q) \<subseteq> set (tq_canceling q') \<and> same_or_new q q'"

lemma tq_keeps_trans: "tq_keeps E q r \<Longrightarrow> tq_keeps E r s \<Longrightarrow> tq_keeps E q s"
  using same_or_new_trans [of q r s] by (simp add: tq_keeps_def) blast

lemma tq_keeps_refl: "tq_own E q \<Longrightarrow> tq_keeps E q q"
  by (simp add: tq_keeps_def same_or_new_refl)

definition alloc_law :: "((nat \<rightharpoonup> 'cb timer) \<Rightarrow> nat) \<Rightarrow> bool" where
  "alloc_law alloc \<longleftrightarrow> (\<forall>h. finite (dom h) \<longrightarrow> h (alloc h) = None)"

lemma resetTimerfd_ok:
  assumes "clock_ok now" and "when_ok e"
  shows "\<exists>v. resetTimerfd now e q = Inr (q\<lparr>tq_settime := tq_settime q @ [v]\<rparr>)"
  using assms by (auto simp: resetTimerfd_def howMuchTimeFromNow_def int64_def clock_ok_def when_ok_def Let_def)

lemma tq_own_settime [simp]: "tq_own E (q\<lparr>tq_settime := x\<rparr>) = tq_own E q"
  by (simp add: tq_own_def tq_inv_def queued_def)

lemma tq_own_flags [simp]:
  "tq_own E (q\<lparr>tq_calling := b\<rparr>) = tq_own E q"
  "tq_own E (q\<lparr>tq_canceling := c\<rparr>) = tq_own E q"
  by (simp_all add: tq_own_def tq_inv_def queued_def)

text \<open>\<^verbatim>\<open>new Timer\<close> at a fresh address.\<close>

lemma tq_inv_create:
  assumes inv: "tq_inv q" and a: "tq_heap q a = None" and n: "tm_sequence t = tq_numCreated q + 1"
    and t: "timer_ok (tq_numCreated q + 1) t"
  shows "tq_inv (q\<lparr>tq_heap := (tq_heap q)(a \<mapsto> t), tq_numCreated := tq_numCreated q + 1\<rparr>)"
proof -
  let ?q = "q\<lparr>tq_heap := (tq_heap q)(a \<mapsto> t), tq_numCreated := tq_numCreated q + 1\<rparr>"
  have na: "(a, s) \<notin> set (tq_active q)" for s using tq_inv_active [OF inv, of a s] a by auto
  have "timer_ok (tq_numCreated q + 1) u" if "tq_heap q b = Some u" for b u
    using tq_inv_timer_ok [OF inv that] by (simp add: timer_ok_def)
  then show ?thesis
    using tq_invD [OF inv] tq_inv_timers [OF inv] tq_inv_active [OF inv] na a t
    by (intro tq_invI) (auto split: if_splits)
qed

lemma tq_own_create:
  assumes own: "tq_own E q" and a: "tq_heap q a = None" and t: "timer_ok (tq_numCreated q + 1) t"
    and n: "tm_sequence t = tq_numCreated q + 1"
  shows "tq_own ((e, a) # E) (q\<lparr>tq_heap := (tq_heap q)(a \<mapsto> t), tq_numCreated := tq_numCreated q + 1\<rparr>)"
proof -
  note D = tq_ownD [OF own]
  have "a \<notin> queued q" "a \<notin> snd ` set E" using D(4) a by auto
  then show ?thesis
    using tq_inv_create [OF D(1) a n t] D(2-4) by (auto simp: tq_own_def queued_def)
qed

text \<open>Queueing one of the timers held outside.\<close>

lemma tq_own_queue_in:
  assumes own: "tq_own ((e, a) # E) q" and t: "tq_heap q a = Some t"
  shows "tq_own E (queue_in a t q)"
proof -
  note D = tq_ownD [OF own]
  have "a \<notin> queued q" using D(3) by auto
  then show ?thesis
    using tq_inv_queue_in [OF D(1) t] D(2-4)
    by (auto simp: tq_own_def queued_queue_in) (auto simp: queue_in_def)
qed

lemma addTimerInLoop_ok:
  assumes own: "tq_own ((e, a) # E) q" and t: "tq_heap q a = Some t" and now: "clock_ok now"
  shows "\<exists>log. addTimerInLoop now a q = Inr ((queue_in a t q)\<lparr>tq_settime := log\<rparr>)"
proof -
  note D = tq_ownD [OF own]
  have "a \<notin> queued q" using D(3) by auto
  note ins = insert_timer_ok [OF D(1) t this]
  have "when_ok (tm_expiration t)" using tq_inv_timer_ok [OF D(1) t] by (simp add: timer_ok_def)
  from resetTimerfd_ok [OF now this, of "queue_in a t q"] obtain v where
    v: "resetTimerfd now (tm_expiration t) (queue_in a t q) =
      Inr ((queue_in a t q)\<lparr>tq_settime := tq_settime (queue_in a t q) @ [v]\<rparr>)" ..
  have h: "tq_heap (queue_in a t q) a = Some t" using t by (simp add: queue_in_def)
  have same: "(queue_in a t q)\<lparr>tq_settime := tq_settime q\<rparr> = queue_in a t q"
    by (simp add: queue_in_def)
  show ?thesis
  proof (cases "case tq_timers q of [] \<Rightarrow> True | (e, b) # _ \<Rightarrow> tm_expiration t < e")
    case True
    then show ?thesis using ins v h by (auto simp: addTimerInLoop_def)
  next
    case False
    then show ?thesis using ins same by (auto simp: addTimerInLoop_def intro: exI [of _ "tq_settime q"])
  qed
qed

lemma addTimer_ok:
  fixes cb :: 'cb
  assumes own: "tq_own E q" and law: "alloc_law alloc" and now: "clock_ok now"
    and w: "when_ok when" and i: "interval_ok interval"
  defines "a \<equiv> alloc (tq_heap q)"
    and "t \<equiv> newTimer cb when interval (tq_numCreated q + 1)"
  shows "\<exists>q'. addTimer alloc now cb when interval q = Inr ((a, tq_numCreated q + 1), q') \<and>
     tq_keeps E q q' \<and> tq_heap q a = None \<and> tq_heap q' = (tq_heap q)(a \<mapsto> t) \<and>
     queued q' = insert a (queued q) \<and> tq_numCreated q' = tq_numCreated q + 1 \<and>
     tq_canceling q' = tq_canceling q"
proof -
  note D = tq_ownD [OF own]
  have a: "tq_heap q a = None"
    using law tq_invD(5) [OF D(1)] by (simp add: alloc_law_def a_def)
  define q1 where "q1 = q\<lparr>tq_heap := (tq_heap q)(a \<mapsto> t), tq_numCreated := tq_numCreated q + 1\<rparr>"
  have "timer_ok (tq_numCreated q + 1) t"
    using w i tq_invD(6) [OF D(1)] by (simp add: timer_ok_def t_def newTimer_def)
  moreover have n: "tm_sequence t = tq_numCreated q + 1" by (simp add: t_def newTimer_def)
  ultimately have own1: "tq_own ((when, a) # E) q1" unfolding q1_def by (intro tq_own_create own a)
  have t1: "tq_heap q1 a = Some t" by (simp add: q1_def)
  from addTimerInLoop_ok [OF own1 t1 now] obtain log where
    ok: "addTimerInLoop now a q1 = Inr ((queue_in a t q1)\<lparr>tq_settime := log\<rparr>)" ..
  let ?q = "(queue_in a t q1)\<lparr>tq_settime := log\<rparr>"
  have own2: "tq_own E (queue_in a t q1)" using own1 t1 by (rule tq_own_queue_in)
  have ne: "a \<notin> snd ` set E" using D(4) a by auto
  have heap: "tq_heap ?q = (tq_heap q)(a \<mapsto> t)" by (simp add: queue_in_def q1_def)
  have "addTimer alloc now cb when interval q = Inr ((a, tq_numCreated q + 1), ?q)"
    using ok heap n
    by (simp add: addTimer_def create_timer_def a_def [symmetric] t_def [symmetric] q1_def [symmetric] Let_def)
  moreover have "tq_keeps E q ?q"
  proof -
    have "\<forall>b \<in> snd ` set E. tq_heap ?q b = tq_heap q b" unfolding heap using ne by (metis fun_upd_apply)
    moreover have "same_or_new q ?q"
      unfolding same_or_new_def heap using n by (auto simp: queue_in_def q1_def split: if_splits)
    moreover have "tq_calling ?q = tq_calling q" "tq_canceling ?q = tq_canceling q"
      by (simp_all add: queue_in_def q1_def)
    ultimately show ?thesis using own2 by (simp add: tq_keeps_def)
  qed
  moreover have "queued ?q = insert a (queued q)"
    using queued_queue_in [of a t q1] by (simp add: queued_def q1_def)
  ultimately show ?thesis using a heap by (intro exI [of _ ?q]) (simp add: queue_in_def q1_def)
qed

section \<open>Cancelling\<close>

definition dequeue :: "timerId \<Rightarrow> timestamp \<Rightarrow> 'cb tqueue \<Rightarrow> 'cb tqueue" where
  "dequeue tid e q =
     q\<lparr>tq_timers := filter (\<lambda>y. y \<noteq> (e, fst tid)) (tq_timers q),
       tq_active := filter (\<lambda>y. y \<noteq> tid) (tq_active q)\<rparr>"

lemma tq_inv_dequeue:
  assumes inv: "tq_inv q" and t: "tq_heap q a = Some t" and "(a, tm_sequence t) \<in> set (tq_active q)"
  shows "tq_inv (dequeue (a, tm_sequence t) (tm_expiration t) q)"
    and "queued (dequeue (a, tm_sequence t) (tm_expiration t) q) = queued q - {a}"
proof -
  show "tq_inv (dequeue (a, tm_sequence t) (tm_expiration t) q)"
    using tq_invD [OF inv] tq_inv_timers [OF inv] tq_inv_active [OF inv] tq_inv_timer_ok [OF inv] t
    by (intro tq_invI) (auto simp: dequeue_def sorted_wrt_filter)
  show "queued (dequeue (a, tm_sequence t) (tm_expiration t) q) = queued q - {a}"
    using tq_inv_active [OF inv] t by (force simp: dequeue_def queued_def)
qed

text \<open>A queued timer is deleted; any other id only enters the list of the running \<^verbatim>\<open>handleRead\<close>.\<close>

lemma cancelInLoop_queued:
  assumes own: "tq_own E q" and t: "tq_heap q a = Some t" and act: "(a, tm_sequence t) \<in> set (tq_active q)"
  shows "\<exists>q'. cancelInLoop (a, tm_sequence t) q = Inr q' \<and> tq_keeps E q q' \<and>
     tq_heap q' = (tq_heap q)(a := None) \<and> queued q' = queued q - {a}"
proof -
  note D = tq_ownD [OF own]
  let ?d = "dequeue (a, tm_sequence t) (tm_expiration t) q"
  let ?q = "?d\<lparr>tq_heap := (tq_heap q)(a := None)\<rparr>"
  note inv = tq_inv_dequeue [OF D(1) t act]
  have qd: "queued ?q = queued q - {a}" using inv(2) by (simp add: queued_def)
  have na: "(a, s) \<notin> set (tq_active ?d)" for s using inv(2) by (force simp: queued_def)
  have "tq_inv ?q"
    using tq_invD [OF inv(1)] tq_inv_timers [OF inv(1)] tq_inv_active [OF inv(1)]
      tq_inv_timer_ok [OF inv(1)] na
    by (intro tq_invI) (auto simp: dequeue_def split: if_splits)
  moreover have aq: "a \<in> queued q" using act by (force simp: queued_def)
  ultimately have own': "tq_own E ?q" using D(2-4) qd by (auto simp: tq_own_def)
  have "(tm_expiration t, a) \<in> set (tq_timers q)" using tq_inv_timers [OF D(1)] t act by blast
  then have "cancelInLoop (a, tm_sequence t) q = Inr ?q"
    using t act tq_sizes [OF D(1)] tq_sizes [OF tq_ownD(1) [OF own']]
    by (simp add: cancelInLoop_def std_erase_def Let_def dequeue_def sizes_ok_def)
  moreover have "same_or_new q ?q" by (rule same_or_new_removed [of _ _ a]) (simp_all add: dequeue_def)
  then have "tq_keeps E q ?q" using own' D(3) aq by (auto simp: tq_keeps_def dequeue_def)
  ultimately show ?thesis using qd by (intro exI [of _ ?q]) simp
qed

lemma cancelInLoop_other:
  assumes own: "tq_own E q" and act: "tid \<notin> set (tq_active q)"
  shows "\<exists>c. cancelInLoop tid q = Inr (q\<lparr>tq_canceling := c\<rparr>) \<and> tq_keeps E q (q\<lparr>tq_canceling := c\<rparr>) \<and>
     set c = (if tq_calling q then insert tid (set (tq_canceling q)) else set (tq_canceling q))"
proof -
  note D = tq_ownD [OF own]
  let ?c = "if tq_calling q then insort_insert tid (tq_canceling q) else tq_canceling q"
  have own': "tq_own E (q\<lparr>tq_canceling := ?c\<rparr>)" using own by simp
  have "cancelInLoop tid q = Inr (q\<lparr>tq_canceling := ?c\<rparr>)"
    using act tq_sizes [OF D(1)] by (simp add: cancelInLoop_def std_insert_def sizes_ok_def)
  moreover have "tq_keeps E q (q\<lparr>tq_canceling := ?c\<rparr>)"
    using own' by (auto simp: tq_keeps_def set_insort_insert same_or_new_def)
  ultimately show ?thesis by (intro exI [of _ ?c]) (simp add: set_insort_insert)
qed

fun call_ok :: "'cb tq_call \<Rightarrow> bool" where
  "call_ok (CAdd now cb when interval) \<longleftrightarrow> clock_ok now \<and> when_ok when \<and> interval_ok interval"
| "call_ok (CCancel tid) \<longleftrightarrow> True"

lemma tq_exec_keeps:
  assumes own: "tq_own E q" and law: "alloc_law alloc" and ok: "call_ok c"
  shows "\<exists>q'. tq_exec alloc c q = Inr q' \<and> tq_keeps E q q'"
proof (cases c)
  case (CAdd now cb w i)
  with ok have "clock_ok now" "when_ok w" "interval_ok i" by simp_all
  from addTimer_ok [OF own law this, of cb] CAdd show ?thesis by auto
next
  case (CCancel tid)
  show ?thesis
  proof (cases "tid \<in> set (tq_active q)")
    case True
    obtain a s where tid: "tid = (a, s)" by (cases tid)
    with True tq_inv_active [OF tq_ownD(1) [OF own]] obtain t where
      "tq_heap q a = Some t" "tm_sequence t = s" by blast
    with cancelInLoop_queued [OF own, of a t] True tid CCancel show ?thesis by auto
  next
    case False
    from cancelInLoop_other [OF own False] CCancel show ?thesis by auto
  qed
qed

lemma tq_calls_keep:
  assumes own: "tq_own E q" and law: "alloc_law alloc" and ok: "list_all call_ok cs"
  shows "\<exists>q'. foldRes (tq_exec alloc) cs q = Inr q' \<and> tq_keeps E q q'"
  using own ok
proof (induction cs arbitrary: q)
  case Nil
  then show ?case by (auto intro: tq_keeps_refl)
next
  case (Cons c cs)
  then obtain r where r: "tq_exec alloc c q = Inr r" "tq_keeps E q r"
    using tq_exec_keeps [OF _ law, of E q c] by auto
  then have "tq_own E r" by (simp add: tq_keeps_def)
  from Cons.IH [OF this] Cons.prems r show ?case by (auto intro: tq_keeps_trans)
qed

section \<open>Expiration\<close>

lemma before_filter: "sorted xs \<Longrightarrow> before x xs = filter (\<lambda>y. y < x) xs"
proof (induction xs)
  case (Cons y ys)
  show ?case
  proof (cases "y < x")
    case True
    then show ?thesis using Cons by (simp add: before_def)
  next
    case False
    then have "filter (\<lambda>y. y < x) ys = []" using Cons.prems by (auto simp: filter_empty_conv)
    then show ?thesis using False by (simp add: before_def)
  qed
qed (simp add: before_def)

lemma from_bound_filter: "sorted xs \<Longrightarrow> from_bound x xs = filter (\<lambda>y. \<not> y < x) xs"
proof (induction xs)
  case (Cons y ys)
  show ?case
  proof (cases "y < x")
    case True
    then show ?thesis using Cons by (simp add: from_bound_def)
  next
    case False
    then have "filter (\<lambda>y. \<not> y < x) ys = ys" using Cons.prems by (auto simp: filter_id_conv)
    then show ?thesis using False by (simp add: from_bound_def)
  qed
qed (simp add: from_bound_def)

definition due :: "timestamp \<Rightarrow> entry \<Rightarrow> bool" where
  "due now e \<longleftrightarrow> fst e \<le> now"

text \<open>
  The pointer in \<^verbatim>\<open>sentry\<close> is \<open>2 ^ 32 - 1\<close>. It separates the due timers from the others if no timer
  that expires at this very microsecond lives at or above that address.
\<close>

definition sentry_separates :: "timestamp \<Rightarrow> 'cb tqueue \<Rightarrow> bool" where
  "sentry_separates now q \<longleftrightarrow> (\<forall>a. (now, a) \<in> set (tq_timers q) \<longrightarrow> a < sentry_ptr)"

lemma sentry_due:
  assumes "sentry_separates now q" and "e \<in> set (tq_timers q)"
  shows "e < (now, sentry_ptr) \<longleftrightarrow> due now e"
  using assms by (cases e) (auto simp: due_def sentry_separates_def less_prod_def)

lemma erase_active_fold:
  assumes "\<And>a s. (a, s) \<in> set (tq_active q) \<Longrightarrow> \<exists>t. tq_heap q a = Some t \<and> tm_sequence t = s"
    and "\<And>e. e \<in> set E \<Longrightarrow> \<exists>t. tq_heap q (snd e) = Some t \<and> (snd e, tm_sequence t) \<in> set (tq_active q)"
    and "distinct (map snd E)"
  shows "foldRes erase_active E q =
     Inr (q\<lparr>tq_active := filter (\<lambda>y. fst y \<notin> snd ` set E) (tq_active q)\<rparr>)"
  using assms
proof (induction E arbitrary: q)
  case (Cons e E)
  from Cons.prems(2) [of e] obtain t where
    t: "tq_heap q (snd e) = Some t" "(snd e, tm_sequence t) \<in> set (tq_active q)" by auto
  define q1 where "q1 = q\<lparr>tq_active := filter (\<lambda>y. y \<noteq> (snd e, tm_sequence t)) (tq_active q)\<rparr>"
  have step: "erase_active e q = Inr q1"
    using t by (simp add: erase_active_def std_erase_def q1_def)
  have "(a, s) \<in> set (tq_active q1) \<Longrightarrow> \<exists>t. tq_heap q1 a = Some t \<and> tm_sequence t = s" for a s
    using Cons.prems(1) [of a s] by (simp add: q1_def)
  moreover have "\<exists>u. tq_heap q1 (snd f) = Some u \<and> (snd f, tm_sequence u) \<in> set (tq_active q1)"
    if "f \<in> set E" for f
  proof -
    from that Cons.prems(3) have "snd f \<noteq> snd e" by (metis distinct.simps(2) image_eqI list.simps(9) set_map)
    with Cons.prems(2) [of f] that show ?thesis by (auto simp: q1_def)
  qed
  ultimately have "foldRes erase_active E q1 =
      Inr (q1\<lparr>tq_active := filter (\<lambda>y. fst y \<notin> snd ` set E) (tq_active q1)\<rparr>)"
    using Cons.prems(3) by (intro Cons.IH) auto
  moreover have "filter (\<lambda>y. fst y \<notin> snd ` set E) (tq_active q1) =
      filter (\<lambda>y. fst y \<notin> snd ` set (e # E)) (tq_active q)"
  proof -
    have "y = (snd e, tm_sequence t) \<longleftrightarrow> fst y = snd e" if "y \<in> set (tq_active q)" for y
      using Cons.prems(1) [of "fst y" "snd y"] that t(1) by (cases y) auto
    then have "filter (\<lambda>y. y \<noteq> (snd e, tm_sequence t)) (tq_active q) =
        filter (\<lambda>y. fst y \<noteq> snd e) (tq_active q)"
      by (simp cong: filter_cong)
    then show ?thesis by (simp add: q1_def conj_commute)
  qed
  ultimately show ?case using step by (simp add: q1_def)
qed simp

definition take_due :: "timestamp \<Rightarrow> 'cb tqueue \<Rightarrow> 'cb tqueue" where
  "take_due now q =
     q\<lparr>tq_timers := filter (\<lambda>e. \<not> due now e) (tq_timers q),
       tq_active := filter (\<lambda>y. fst y \<notin> snd ` set (filter (due now) (tq_timers q))) (tq_active q)\<rparr>"

lemma due_iff:
  assumes inv: "tq_inv q" and t: "tq_heap q a = Some t" and act: "(a, tm_sequence t) \<in> set (tq_active q)"
  shows "a \<in> snd ` set (filter (due now) (tq_timers q)) \<longleftrightarrow> tm_expiration t \<le> now"
proof
  assume "a \<in> snd ` set (filter (due now) (tq_timers q))"
  then obtain e where "(e, a) \<in> set (tq_timers q)" "e \<le> now" by (auto simp: due_def)
  with tq_inv_timers [OF inv] t show "tm_expiration t \<le> now" by auto
next
  assume "tm_expiration t \<le> now"
  moreover have "(tm_expiration t, a) \<in> set (tq_timers q)" using tq_inv_timers [OF inv] t act by blast
  ultimately show "a \<in> snd ` set (filter (due now) (tq_timers q))"
    by (force simp: due_def)
qed

lemma tq_own_take_due:
  assumes own: "tq_own [] q"
  shows "tq_own (filter (due now) (tq_timers q)) (take_due now q)"
proof -
  let ?X = "filter (due now) (tq_timers q)"
  note D = tq_ownD [OF own]
  have "tq_inv (take_due now q)"
  proof (rule tq_invI)
    show "(e, a) \<in> set (tq_timers (take_due now q)) \<longleftrightarrow>
        (\<exists>t. tq_heap (take_due now q) a = Some t \<and> tm_expiration t = e \<and>
          (a, tm_sequence t) \<in> set (tq_active (take_due now q)))" for e a
      using tq_inv_timers [OF D(1), of e a] due_iff [OF D(1), of a _ now]
      by (auto simp: take_due_def due_def not_le [symmetric])
  qed (use tq_invD [OF D(1)] tq_inv_active [OF D(1)] tq_inv_timer_ok [OF D(1)] in
      \<open>auto simp: take_due_def sorted_wrt_filter\<close>)
  moreover have "distinct (map snd ?X)" using tq_distinct(1) [OF D(1)] by (rule distinct_map_filter)
  moreover have "queued (take_due now q) = queued q - snd ` set ?X"
    by (auto simp: queued_def take_due_def)
  moreover have "snd ` set ?X \<subseteq> queued q" using queued_timers [OF D(1)] by auto
  ultimately show ?thesis using D(4) by (auto simp: tq_own_def take_due_def)
qed

lemma getExpired_ok:
  assumes own: "tq_own [] q" and sep: "sentry_separates now q"
  shows "getExpired now q = Inr (filter (due now) (tq_timers q), take_due now q)"
proof -
  note D = tq_ownD [OF own]
  let ?X = "filter (due now) (tq_timers q)"
  have b: "before (now, sentry_ptr) (tq_timers q) = ?X"
    using sentry_due [OF sep] by (simp add: before_filter [OF tq_invD(1) [OF D(1)]] cong: filter_cong)
  have f: "from_bound (now, sentry_ptr) (tq_timers q) = filter (\<lambda>e. \<not> due now e) (tq_timers q)"
    using sentry_due [OF sep] by (simp add: from_bound_filter [OF tq_invD(1) [OF D(1)]] cong: filter_cong)
  have c: "case filter (\<lambda>e. \<not> due now e) (tq_timers q) of [] \<Rightarrow> True | (e, a) # _ \<Rightarrow> now < e"
  proof (cases "filter (\<lambda>e. \<not> due now e) (tq_timers q)")
    case (Cons e es)
    have "e \<in> set (filter (\<lambda>e. \<not> due now e) (tq_timers q))" unfolding Cons by simp
    then have "\<not> due now e" by simp
    then show ?thesis unfolding Cons by (cases e) (simp add: due_def)
  qed simp
  let ?q = "q\<lparr>tq_timers := filter (\<lambda>e. \<not> due now e) (tq_timers q)\<rparr>"
  have "foldRes erase_active ?X ?q =
      Inr (?q\<lparr>tq_active := filter (\<lambda>y. fst y \<notin> snd ` set ?X) (tq_active ?q)\<rparr>)"
  proof (rule erase_active_fold)
    show "\<exists>t. tq_heap ?q (snd e) = Some t \<and> (snd e, tm_sequence t) \<in> set (tq_active ?q)"
      if "e \<in> set ?X" for e
      using that tq_inv_timers [OF D(1), of "fst e" "snd e"] by auto
  qed (use tq_inv_active [OF D(1)] tq_distinct(1) [OF D(1)] in \<open>auto intro: distinct_map_filter\<close>)
  then have fold: "foldRes erase_active ?X ?q = Inr (take_due now q)" by (simp add: take_due_def)
  show ?thesis
    using fold c tq_sizes [OF D(1)] tq_sizes [OF tq_ownD(1) [OF tq_own_take_due [OF own, of now]]]
    by (simp add: getExpired_def sizes_ok_def b f)
qed

section \<open>Rescheduling\<close>

definition rearmed :: "timerId list \<Rightarrow> nat \<Rightarrow> 'cb timer \<Rightarrow> bool" where
  "rearmed cs a t \<longleftrightarrow> tm_repeat t \<and> (a, tm_sequence t) \<notin> set cs"

definition after_reset :: "timestamp \<Rightarrow> timerId list \<Rightarrow> nat \<Rightarrow> 'cb timer \<Rightarrow> 'cb timer option" where
  "after_reset now cs a t =
     (if rearmed cs a t then Some (t\<lparr>tm_expiration := now + delta_us (tm_interval t)\<rparr>) else None)"

lemma restart_ok:
  assumes "timer_ok n t" and "clock_ok now" and "tm_repeat t"
  shows "restart now t = Inr (t\<lparr>tm_expiration := now + delta_us (tm_interval t)\<rparr>)"
    and "timer_ok n (t\<lparr>tm_expiration := now + delta_us (tm_interval t)\<rparr>)"
proof -
  have d: "0 \<le> delta_us (tm_interval t)" "delta_us (tm_interval t) \<le> 2305843009213693952"
    using assms(1,3) delta_us_nonneg [of "tm_interval t"] by (auto simp: timer_ok_def interval_ok_def)
  have n: "0 \<le> now" "now \<le> 2305843009213693952" using assms(2) by (auto simp: clock_ok_def)
  show "restart now t = Inr (t\<lparr>tm_expiration := now + delta_us (tm_interval t)\<rparr>)"
    using d n assms(3) by (simp add: restart_def addTime_def int64_def)
  show "timer_ok n (t\<lparr>tm_expiration := now + delta_us (tm_interval t)\<rparr>)"
    using assms(1) d n by (simp add: timer_ok_def when_ok_def)
qed

lemma tq_own_heap_upd:
  assumes own: "tq_own ((e, a) # E) q" and t: "timer_ok (tq_numCreated q) t"
  shows "tq_own ((e, a) # E) (q\<lparr>tq_heap := (tq_heap q)(a \<mapsto> t)\<rparr>)"
proof -
  note D = tq_ownD [OF own]
  have a: "a \<notin> queued q" "a \<in> dom (tq_heap q)" using D(3,4) by auto
  then have "(a, s) \<notin> set (tq_active q)" for s by (force simp: queued_def)
  then have "tq_inv (q\<lparr>tq_heap := (tq_heap q)(a \<mapsto> t)\<rparr>)"
    using tq_invD [OF D(1)] tq_inv_timers [OF D(1)] tq_inv_active [OF D(1)] tq_inv_timer_ok [OF D(1)] t
    by (intro tq_invI) (auto split: if_splits)
  then show ?thesis using D(2-4) a by (auto simp: tq_own_def queued_def)
qed

lemma tq_own_delete:
  assumes own: "tq_own ((e, a) # E) q"
  shows "tq_own E (q\<lparr>tq_heap := (tq_heap q)(a := None)\<rparr>)"
proof -
  note D = tq_ownD [OF own]
  have a: "a \<notin> queued q" "a \<notin> snd ` set E" using D(2,3) by auto
  then have "(a, s) \<notin> set (tq_active q)" for s by (force simp: queued_def)
  then have "tq_inv (q\<lparr>tq_heap := (tq_heap q)(a := None)\<rparr>)"
    using tq_invD [OF D(1)] tq_inv_timers [OF D(1)] tq_inv_active [OF D(1)] tq_inv_timer_ok [OF D(1)]
    by (intro tq_invI) (auto split: if_splits)
  then show ?thesis using D(2-4) a by (auto simp: tq_own_def queued_def)
qed

lemma reset_one_ok:
  assumes own: "tq_own (e # E) q" and t: "tq_heap q (snd e) = Some t" and now: "clock_ok now"
  shows "\<exists>q'. reset_one now e q = Inr q' \<and> tq_own E q' \<and> tq_canceling q' = tq_canceling q \<and>
     tq_heap q' = (tq_heap q)(snd e := after_reset now (tq_canceling q) (snd e) t) \<and>
     queued q' = (if rearmed (tq_canceling q) (snd e) t then insert (snd e) (queued q) else queued q) \<and>
     tq_numCreated q' = tq_numCreated q"
proof -
  obtain x a where e: "e = (x, a)" by (cases e)
  note D = tq_ownD [OF own]
  show ?thesis
  proof (cases "rearmed (tq_canceling q) a t")
    case True
    let ?t = "t\<lparr>tm_expiration := now + delta_us (tm_interval t)\<rparr>"
    let ?q = "q\<lparr>tq_heap := (tq_heap q)(a \<mapsto> ?t)\<rparr>"
    have tok: "timer_ok (tq_numCreated q) t" using D(1) t by (rule tq_inv_timer_ok)
    have rep: "tm_repeat t" using True by (simp add: rearmed_def)
    note r = restart_ok [OF tok now rep]
    have own1: "tq_own ((x, a) # E) ?q" using own r(2) unfolding e by (rule tq_own_heap_upd)
    have t1: "tq_heap ?q a = Some ?t" by simp
    have nq: "a \<notin> queued ?q" using tq_ownD(3) [OF own1] by auto
    have "reset_one now e q = Inr (queue_in a ?t ?q)"
      using t True r(1) insert_timer_ok [OF tq_ownD(1) [OF own1] t1 nq]
      by (simp add: reset_one_def e rearmed_def)
    moreover have "tq_own E (queue_in a ?t ?q)" using own1 t1 by (rule tq_own_queue_in)
    moreover have "queued (queue_in a ?t ?q) = insert a (queued q)"
      by (simp add: queued_queue_in) (simp add: queued_def)
    ultimately show ?thesis using True
      by (intro exI [of _ "queue_in a ?t ?q"]) (simp add: e after_reset_def, simp add: queue_in_def)
  next
    case False
    let ?q = "q\<lparr>tq_heap := (tq_heap q)(a := None)\<rparr>"
    have "tq_own E ?q" using own unfolding e by (rule tq_own_delete)
    moreover have "reset_one now e q = Inr ?q" using t False by (auto simp: reset_one_def e rearmed_def)
    ultimately show ?thesis using False
      by (intro exI [of _ ?q]) (simp add: e after_reset_def queued_def)
  qed
qed

lemma reset_fold:
  assumes "tq_own E q" and now: "clock_ok now"
  shows "\<exists>q'. foldRes (reset_one now) E q = Inr q' \<and> tq_own [] q' \<and> tq_numCreated q' = tq_numCreated q \<and>
     (\<forall>a. tq_heap q' a = (if a \<in> snd ` set E
        then (case tq_heap q a of None \<Rightarrow> None | Some t \<Rightarrow> after_reset now (tq_canceling q) a t)
        else tq_heap q a))"
  using assms(1)
proof (induction E arbitrary: q)
  case (Cons e E)
  have "e \<in> set (e # E)" by simp
  with Cons.prems obtain t where t: "tq_heap q (snd e) = Some t" and "snd e \<notin> queued q"
    by (rule tq_own_heap)
  from reset_one_ok [OF Cons.prems t now] obtain r where
    r: "reset_one now e q = Inr r" "tq_own E r" "tq_canceling r = tq_canceling q"
    "tq_heap r = (tq_heap q)(snd e := after_reset now (tq_canceling q) (snd e) t)"
    "tq_numCreated r = tq_numCreated q" by blast
  have ne: "snd e \<notin> snd ` set E" using tq_ownD(2) [OF Cons.prems] by simp
  from Cons.IH [OF r(2), unfolded r(3)] obtain q' where
    q': "foldRes (reset_one now) E r = Inr q'" "tq_own [] q'" "tq_numCreated q' = tq_numCreated r"
    "\<And>a. tq_heap q' a = (if a \<in> snd ` set E
        then (case tq_heap r a of None \<Rightarrow> None | Some t \<Rightarrow> after_reset now (tq_canceling q) a t)
        else tq_heap r a)" by blast
  show ?case
    using r(1) q' t ne by (intro exI [of _ q']) (auto simp: r(4,5))
qed simp

lemma tq_own_settime_ex: "tq_own E q \<Longrightarrow> tq_own E (q\<lparr>tq_settime := l\<rparr>)"
  by simp

lemma reset_queue_ok:
  assumes own: "tq_own E q" and now: "clock_ok now" "clock_ok now2"
  shows "\<exists>q'. reset_queue now now2 E q = Inr q' \<and> tq_own [] q' \<and> tq_numCreated q' = tq_numCreated q \<and>
     (\<forall>a. tq_heap q' a = (if a \<in> snd ` set E
        then (case tq_heap q a of None \<Rightarrow> None | Some t \<Rightarrow> after_reset now (tq_canceling q) a t)
        else tq_heap q a))"
proof -
  from reset_fold [OF own now(1)] obtain r where
    r: "foldRes (reset_one now) E q = Inr r" "tq_own [] r" "tq_numCreated r = tq_numCreated q"
    "\<forall>a. tq_heap r a = (if a \<in> snd ` set E
        then (case tq_heap q a of None \<Rightarrow> None | Some t \<Rightarrow> after_reset now (tq_canceling q) a t)
        else tq_heap q a)" by blast
  note D = tq_ownD [OF r(2)]
  show ?thesis
  proof (cases "tq_timers r")
    case Nil
    then show ?thesis using r by (simp add: reset_queue_def ts_valid_def ts_invalid_def)
  next
    case (Cons e es)
    obtain x a where e: "e = (x, a)" by (cases e)
    have "(x, a) \<in> set (tq_timers r)" using Cons e by simp
    then obtain t where t: "tq_heap r a = Some t" "tm_expiration t = x"
      using tq_inv_timers [OF D(1)] by blast
    have "when_ok x" using tq_inv_timer_ok [OF D(1) t(1)] t(2) by (simp add: timer_ok_def)
    from resetTimerfd_ok [OF now(2) this, of r] obtain v where
      v: "resetTimerfd now2 x r = Inr (r\<lparr>tq_settime := tq_settime r @ [v]\<rparr>)" ..
    have "reset_queue now now2 E q =
        (if ts_valid x then Inr (r\<lparr>tq_settime := tq_settime r @ [v]\<rparr>) else Inr r)"
      using r(1) Cons e t v by (simp add: reset_queue_def)
    then show ?thesis using r(2-4) by (cases "ts_valid x") simp_all
  qed
qed

text \<open>Running the callbacks of the expired timers, each of which may add and cancel timers.\<close>

definition script_ok :: "('cb \<Rightarrow> 'cb tqueue \<Rightarrow> 'cb tq_call list) \<Rightarrow> bool" where
  "script_ok script \<longleftrightarrow> (\<forall>cb q. list_all call_ok (script cb q))"

lemma run_timer_keeps:
  assumes own: "tq_own E q" and law: "alloc_law alloc" and ok: "script_ok script" and e: "e \<in> set E"
  shows "\<exists>q'. run_timer alloc script e q = Inr q' \<and> tq_keeps E q q'"
proof -
  obtain t where "tq_heap q (snd e) = Some t" using own e by (rule tq_own_heap)
  then show ?thesis
    using tq_calls_keep [OF own law, of "script (tm_callback t) q"] ok
    by (simp add: run_timer_def script_ok_def)
qed

lemma run_timers_keep:
  assumes own: "tq_own E q" and law: "alloc_law alloc" and ok: "script_ok script" and sub: "set F \<subseteq> set E"
  shows "\<exists>q'. foldRes (run_timer alloc script) F q = Inr q' \<and> tq_keeps E q q'"
proof (rule foldRes_invariant)
  show "tq_keeps E q q" using own by (rule tq_keeps_refl)
  fix e r
  assume e: "e \<in> set F" and r: "tq_keeps E q r"
  have "tq_own E r" using r by (simp add: tq_keeps_def)
  moreover have "e \<in> set E" using e sub by blast
  ultimately obtain r' where "run_timer alloc script e r = Inr r'" "tq_keeps E r r'"
    using run_timer_keeps [OF _ law ok, of E r e] by blast
  with r show "\<exists>t. run_timer alloc script e r = Inr t \<and> tq_keeps E q t"
    by (blast intro: tq_keeps_trans)
qed

lemma handleRead_ok:
  assumes own: "tq_own [] q" and law: "alloc_law alloc" and ok: "script_ok script"
    and now: "clock_ok now" "clock_ok now2" and sep: "sentry_separates now q"
  defines "X \<equiv> filter (due now) (tq_timers q)"
    and "q2 \<equiv> (take_due now q)\<lparr>tq_calling := True, tq_canceling := []\<rparr>"
  shows "\<exists>q3 q'. handleRead_tq alloc script now now2 q = Inr q' \<and> tq_own [] q' \<and>
     tq_numCreated q' = tq_numCreated q3 \<and> foldRes (run_timer alloc script) X q2 = Inr q3 \<and> tq_keeps X q2 q3 \<and>
     (\<forall>a. tq_heap q' a = (if a \<in> snd ` set X
        then (case tq_heap q a of None \<Rightarrow> None | Some t \<Rightarrow> after_reset now (tq_canceling q3) a t)
        else tq_heap q3 a))"
proof -
  have own2: "tq_own X q2" using tq_own_take_due [OF own, of now] by (simp add: X_def q2_def)
  from run_timers_keep [OF own2 law ok, of X] obtain q3 where
    q3: "foldRes (run_timer alloc script) X q2 = Inr q3" "tq_keeps X q2 q3" by blast
  define q4 where "q4 = q3\<lparr>tq_calling := False\<rparr>"
  have own4: "tq_own X q4" using q3(2) by (simp add: tq_keeps_def q4_def)
  have q4: "tq_heap q4 = tq_heap q3" "tq_canceling q4 = tq_canceling q3" "tq_numCreated q4 = tq_numCreated q3"
    by (simp_all add: q4_def)
  from reset_queue_ok [OF own4 now] obtain q' where
    q': "reset_queue now now2 X q4 = Inr q'" "tq_own [] q'" "tq_numCreated q' = tq_numCreated q3"
    "\<And>a. tq_heap q' a = (if a \<in> snd ` set X
        then (case tq_heap q3 a of None \<Rightarrow> None | Some t \<Rightarrow> after_reset now (tq_canceling q3) a t)
        else tq_heap q3 a)" unfolding q4 by blast
  have same: "tq_heap q3 a = tq_heap q a" if "a \<in> snd ` set X" for a
    using q3(2) that by (auto simp: tq_keeps_def q2_def take_due_def)
  have "handleRead_tq alloc script now now2 q = Inr q'"
    using getExpired_ok [OF own sep] q3(1) q'(1)
    by (simp add: handleRead_tq_def X_def [symmetric] q2_def [symmetric] q4_def [symmetric] Let_def)
  with q3 q' same show ?thesis by (intro exI [of _ q3] exI [of _ q']) auto
qed

section \<open>Properties\<close>

text \<open>What reaches the queue from outside: calls in the loop thread, and the timerfd becoming readable.\<close>

datatype 'cb tq_event = TCall "'cb tq_call" | TFire timestamp timestamp

fun tq_step ::
    "((nat \<rightharpoonup> 'cb timer) \<Rightarrow> nat) \<Rightarrow> ('cb \<Rightarrow> 'cb tqueue \<Rightarrow> 'cb tq_call list) \<Rightarrow> 'cb tq_event \<Rightarrow>
     'cb tqueue \<Rightarrow> 'cb tqueue res" where
  "tq_step alloc script (TCall c) q = tq_exec alloc c q"
| "tq_step alloc script (TFire now now2) q = handleRead_tq alloc script now now2 q"

fun event_ok :: "'cb tq_event \<Rightarrow> bool" where
  "event_ok (TCall c) = call_ok c"
| "event_ok (TFire now now2) \<longleftrightarrow> clock_ok now \<and> clock_ok now2"

text \<open>
  Otherwise the first entry at or after \<open>sentry\<close> is due, and the assertion after \<^verbatim>\<open>lower_bound\<close>
  fails.
\<close>

lemma getExpired_fault:
  assumes inv: "tq_inv q" and sep: "\<not> sentry_separates now q"
  shows "getExpired now q = Inl (Assertion ''timerqueue.cpp:204'')"
proof -
  obtain a where a: "(now, a) \<in> set (tq_timers q)" "\<not> a < sentry_ptr"
    using sep by (auto simp: sentry_separates_def)
  define es where "es = from_bound (now, sentry_ptr) (tq_timers q)"
  have f: "es = filter (\<lambda>y. \<not> y < (now, sentry_ptr)) (tq_timers q)"
    using from_bound_filter [OF tq_invD(1) [OF inv]] by (simp add: es_def)
  have mem: "(now, a) \<in> set es" using a by (simp add: f less_prod_def)
  then obtain x b fs where es: "es = (x, b) # fs" by (cases es) auto
  have "sorted es" using tq_invD(1) [OF inv] by (simp add: f sorted_wrt_filter)
  with es mem have "(x, b) \<le> (now, a)" by auto
  then have "\<not> now < x" by (auto simp: less_eq_prod_def)
  then show ?thesis
    using tq_sizes [OF inv] es by (simp add: getExpired_def sizes_ok_def es_def [symmetric] Let_def)
qed

lemma tq_step_ok:
  assumes own: "tq_own [] q" and law: "alloc_law alloc" and sok: "script_ok script" and ev: "event_ok ev"
  shows "(\<exists>q'. tq_step alloc script ev q = Inr q' \<and> tq_own [] q') \<or>
     tq_step alloc script ev q = Inl (Assertion ''timerqueue.cpp:204'')"
proof (cases ev)
  case (TCall c)
  with ev tq_exec_keeps [OF own law, of c] show ?thesis by (auto simp: tq_keeps_def)
next
  case (TFire now now2)
  with ev have c: "clock_ok now" "clock_ok now2" by simp_all
  show ?thesis
  proof (cases "sentry_separates now q")
    case True
    from handleRead_ok [OF own law sok c True] TFire show ?thesis by auto
  next
    case False
    from getExpired_fault [OF tq_ownD(1) [OF own] False] TFire show ?thesis
      by (simp add: handleRead_tq_def)
  qed
qed

lemma tq_run_ok:
  assumes "tq_own [] q" and law: "alloc_law alloc" and sok: "script_ok script"
    and "list_all event_ok evs"
  shows "(\<exists>q'. foldRes (tq_step alloc script) evs q = Inr q' \<and> tq_own [] q') \<or>
     foldRes (tq_step alloc script) evs q = Inl (Assertion ''timerqueue.cpp:204'')"
  using assms(1,4)
proof (induction evs arbitrary: q)
  case (Cons ev evs)
  from Cons.prems(2) have "event_ok ev" "list_all event_ok evs" by simp_all
  with tq_step_ok [OF Cons.prems(1) law sok, of ev] Cons.IH show ?case by force
qed simp

lemma tq_own_new: "tq_own [] newTimerQueue"
  by (simp add: tq_own_def tq_inv_def newTimerQueue_def queued_def)

lemma delete_fold:
  assumes "distinct (map snd E)" and "\<And>e. e \<in> set E \<Longrightarrow> tq_heap q (snd e) \<noteq> None"
  shows "foldRes delete_timer E q = Inr (q\<lparr>tq_heap := (\<lambda>a. if a \<in> snd ` set E then None else tq_heap q a)\<rparr>)"
  using assms
proof (induction E arbitrary: q)
  case (Cons e E)
  from Cons.prems(2) [of e] obtain t where t: "tq_heap q (snd e) = Some t" by auto
  let ?q = "q\<lparr>tq_heap := (tq_heap q)(snd e := None)\<rparr>"
  have "foldRes delete_timer E ?q =
      Inr (?q\<lparr>tq_heap := (\<lambda>a. if a \<in> snd ` set E then None else tq_heap ?q a)\<rparr>)"
  proof (rule Cons.IH)
    fix f
    assume f: "f \<in> set E"
    then have "snd f \<noteq> snd e" using Cons.prems(1) by (metis distinct.simps(2) image_eqI list.simps(9) set_map)
    then show "tq_heap ?q (snd f) \<noteq> None" using Cons.prems(2) [of f] f by simp
  qed (use Cons.prems(1) in simp)
  moreover have "(\<lambda>a. if a \<in> snd ` set E then None else tq_heap ?q a) =
      (\<lambda>a. if a \<in> snd ` set (e # E) then None else tq_heap q a)" by auto
  moreover have "delete_timer e q = Inr ?q" using t by (simp add: delete_timer_def)
  ultimately show ?case by simp
qed simp

text \<open>
  C4. The timer queue is memory safe: starting empty, any sequence of \<^verbatim>\<open>addTimer\<close>, \<^verbatim>\<open>cancel\<close> (with
  ids that may be stale or invented) and expirations, in which the callbacks themselves add and
  cancel timers, either succeeds or stops at the assertion after \<^verbatim>\<open>lower_bound\<close> in \<^verbatim>\<open>getExpired\<close>
  (characterised exactly by the next property); no other assertion fails, no deleted Timer is ever
  used and no arithmetic overflows. After a successful run every Timer object is in both sets, no
  object leaked, and the destructor frees each exactly once.
\<close>

theorem timer_queue_safe:
  assumes "alloc_law alloc" and "script_ok script" and "list_all event_ok evs"
  shows "(\<exists>q q'. foldRes (tq_step alloc script) evs newTimerQueue = Inr q \<and> tq_own [] q \<and>
       destroyTimerQueue q = Inr q' \<and> tq_heap q' = Map.empty) \<or>
     foldRes (tq_step alloc script) evs newTimerQueue = Inl (Assertion ''timerqueue.cpp:204'')"
  using tq_run_ok [OF tq_own_new assms]
proof
  assume "\<exists>q'. foldRes (tq_step alloc script) evs newTimerQueue = Inr q' \<and> tq_own [] q'"
  then obtain q where q: "foldRes (tq_step alloc script) evs newTimerQueue = Inr q" "tq_own [] q" by blast
  note D = tq_ownD [OF q(2)]
  have qd: "dom (tq_heap q) = snd ` set (tq_timers q)" using D(4) queued_timers [OF D(1)] by simp
  have "destroyTimerQueue q =
      Inr (q\<lparr>tq_heap := (\<lambda>a. if a \<in> snd ` set (tq_timers q) then None else tq_heap q a)\<rparr>)"
    unfolding destroyTimerQueue_def using qd
    by (intro delete_fold tq_distinct(1) [OF D(1)]) (metis domIff image_eqI)
  moreover have "(\<lambda>a. if a \<in> snd ` set (tq_timers q) then None else tq_heap q a) = Map.empty"
    using qd by (metis domIff)
  ultimately have "destroyTimerQueue q = Inr (q\<lparr>tq_heap := Map.empty\<rparr>)" by simp
  with q show ?thesis by (intro disjI1 exI [of _ q] exI [of _ "q\<lparr>tq_heap := Map.empty\<rparr>"]) simp
qed simp

text \<open>An allocator that grows upwards, and a callback that cancels a timer.\<close>

definition demo_alloc :: "(nat \<rightharpoonup> 'cb timer) \<Rightarrow> nat" where
  "demo_alloc h = Max (insert 4095 (dom h)) + 1"

lemma demo_alloc_law: "alloc_law demo_alloc"
  unfolding alloc_law_def
proof (intro allI impI)
  fix h :: "nat \<rightharpoonup> 'a timer"
  assume fin: "finite (dom h)"
  have "Max (insert 4095 (dom h)) + 1 \<notin> dom h"
  proof
    assume "Max (insert 4095 (dom h)) + 1 \<in> dom h"
    then have "Max (insert 4095 (dom h)) + 1 \<le> Max (insert 4095 (dom h))"
      using fin by (intro Max_ge) auto
    then show False by simp
  qed
  then show "h (demo_alloc h) = None" by (simp add: demo_alloc_def domIff)
qed

definition demo_script :: "nat \<Rightarrow> nat tqueue \<Rightarrow> nat tq_call list" where
  "demo_script cb q = (if cb = 1 then [CCancel (4096, 1)] else [])"

lemma demo_script_ok: "script_ok demo_script"
  by (simp add: script_ok_def demo_script_def)

definition demo_events :: "nat tq_event list" where
  "demo_events = [TCall (CAdd 10 1 20 1), TCall (CAdd 10 2 30 0), TFire 25 26, TFire 40 41]"

lemma demo_events_ok: "list_all event_ok demo_events"
  using delta_us_int [of 1] delta_us_int [of 0]
  by (simp add: demo_events_def clock_ok_def when_ok_def interval_ok_def)

theorem timer_queue_safe_witness:
  "(\<exists>q q'. foldRes (tq_step demo_alloc demo_script) demo_events newTimerQueue = Inr q \<and> tq_own [] q \<and>
       destroyTimerQueue q = Inr q' \<and> tq_heap q' = Map.empty) \<or>
     foldRes (tq_step demo_alloc demo_script) demo_events newTimerQueue =
       Inl (Assertion ''timerqueue.cpp:204'')"
  using timer_queue_safe [OF demo_alloc_law demo_script_ok demo_events_ok] .

text \<open>
  \<^verbatim>\<open>getExpired\<close> at time \<open>now\<close>: if every timer that expires exactly at \<open>now\<close> lives below address
  \<open>2 ^ 32 - 1\<close>, it returns exactly the timers with expiration at most \<open>now\<close>, in order of expiration,
  and leaves exactly the others in both sets. Otherwise its assertion fails and the process aborts.
  The pointer of \<^verbatim>\<open>sentry\<close> is meant to be the largest address, but the macro \<^verbatim>\<open>UINTPTR_MAX\<close> is
  redefined in the function as \<^verbatim>\<open>4294967295U\<close>, which is no bound on a 64-bit system.
\<close>

theorem getExpired_correct:
  assumes "tq_own [] q"
  shows "getExpired now q =
     (let expired = filter (\<lambda>(e, a). e \<le> now) (tq_timers q)
      in if \<exists>(e, a) \<in> set (tq_timers q). e = now \<and> 4294967295 \<le> a
         then Inl (Assertion ''timerqueue.cpp:204'')
         else Inr (expired,
           q\<lparr>tq_timers := filter (\<lambda>(e, a). now < e) (tq_timers q),
             tq_active := filter (\<lambda>(a, s). a \<notin> snd ` set expired) (tq_active q)\<rparr>))"
proof -
  have d: "due now = (\<lambda>(e, a). e \<le> now)" "(\<lambda>e. \<not> due now e) = (\<lambda>(e, a). now < e)"
    by (auto simp: due_def fun_eq_iff)
  have td: "take_due now q =
      q\<lparr>tq_timers := filter (\<lambda>(e, a). now < e) (tq_timers q),
        tq_active := filter (\<lambda>(a, s). a \<notin> snd ` set (filter (\<lambda>(e, a). e \<le> now) (tq_timers q))) (tq_active q)\<rparr>"
    unfolding take_due_def d(2) unfolding d(1) by (simp only: case_prod_unfold)
  have "sentry_separates now q \<longleftrightarrow>
      \<not> (\<exists>(e, a) \<in> set (tq_timers q). e = now \<and> 4294967295 \<le> a)"
    by (auto simp: sentry_separates_def sentry_ptr_def)
  with getExpired_ok [OF assms, of now] getExpired_fault [OF tq_ownD(1) [OF assms], of now]
  show ?thesis unfolding td d(1) Let_def by presburger
qed

text \<open>One timer at a typical address of a 64-bit process, expiring at time 20.\<close>

definition demo_queue :: "nat tqueue" where
  "demo_queue =
     \<lparr>tq_timers = [(20, 94000000000000)], tq_active = [(94000000000000, 1)], tq_calling = False,
      tq_canceling = [], tq_heap = [94000000000000 \<mapsto> newTimer 7 20 0 1], tq_numCreated = 1,
      tq_settime = []\<rparr>"

lemma demo_queue_own: "tq_own [] demo_queue"
  using delta_us_int [of 0]
  by (auto simp: tq_own_def tq_inv_def demo_queue_def queued_def newTimer_def timer_ok_def when_ok_def
      interval_ok_def split: if_splits)

theorem getExpired_correct_witness:
  "getExpired 19 demo_queue = Inr ([], demo_queue) \<and>
   getExpired 20 demo_queue = Inl (Assertion ''timerqueue.cpp:204'') \<and>
   is_ok (getExpired 21 demo_queue)"
  using getExpired_correct [OF demo_queue_own, of 19] getExpired_correct [OF demo_queue_own, of 20]
    getExpired_correct [OF demo_queue_own, of 21]
  by (simp add: demo_queue_def)

text \<open>
  C12. What one expiration does. The callbacks of the due timers run once each, in order of
  expiration; afterwards a due timer is scheduled again exactly if it repeats and no callback
  cancelled it, with the expiration \<open>now\<close> plus its interval, and is deleted otherwise. The reading \<open>now\<close>
  must not be one at which the assertion of \<^verbatim>\<open>getExpired\<close> fails (\<open>sentry_separates\<close>).
\<close>

theorem handleRead_reschedules:
  assumes "tq_own [] q" and "alloc_law alloc" and "script_ok script" and "clock_ok now" and "clock_ok now2"
    and "sentry_separates now q"
  shows "\<exists>q3 q'. handleRead_tq alloc script now now2 q = Inr q' \<and> tq_own [] q' \<and>
     foldRes (run_timer alloc script) (filter (\<lambda>(e, a). e \<le> now) (tq_timers q))
       ((take_due now q)\<lparr>tq_calling := True, tq_canceling := []\<rparr>) = Inr q3 \<and>
     (\<forall>e a t. (e, a) \<in> set (tq_timers q) \<and> e \<le> now \<and> tq_heap q a = Some t \<longrightarrow>
        (if tm_repeat t \<and> (a, tm_sequence t) \<notin> set (tq_canceling q3)
         then tq_heap q' a = Some (t\<lparr>tm_expiration := now + delta_us (tm_interval t)\<rparr>) \<and>
              (now + delta_us (tm_interval t), a) \<in> set (tq_timers q')
         else tq_heap q' a = None))"
proof -
  have d: "due now = (\<lambda>(e, a). e \<le> now)" by (auto simp: due_def fun_eq_iff)
  let ?X = "filter (\<lambda>(e, a). e \<le> now) (tq_timers q)"
  let ?q2 = "(take_due now q)\<lparr>tq_calling := True, tq_canceling := []\<rparr>"
  from handleRead_ok [OF assms, unfolded d] obtain q3 q' where
    q': "handleRead_tq alloc script now now2 q = Inr q'" "tq_own [] q'"
    "foldRes (run_timer alloc script) ?X ?q2 = Inr q3"
    "\<And>a. tq_heap q' a = (if a \<in> snd ` set ?X
        then (case tq_heap q a of None \<Rightarrow> None | Some t \<Rightarrow> after_reset now (tq_canceling q3) a t)
        else tq_heap q3 a)" by blast
  note D = tq_ownD [OF q'(2)]
  have listed: "(tm_expiration t, a) \<in> set (tq_timers q')" if "tq_heap q' a = Some t" for a t
    using that D(4) queued_iff [OF D(1), of a] tq_inv_timers [OF D(1), of "tm_expiration t" a]
    by (metis Un_empty_right domI image_empty list.set(1) option.inject)
  have "if tm_repeat t \<and> (a, tm_sequence t) \<notin> set (tq_canceling q3)
      then tq_heap q' a = Some (t\<lparr>tm_expiration := now + delta_us (tm_interval t)\<rparr>) \<and>
           (now + delta_us (tm_interval t), a) \<in> set (tq_timers q')
      else tq_heap q' a = None"
    if "(e, a) \<in> set (tq_timers q)" "e \<le> now" "tq_heap q a = Some t" for e a t
  proof -
    have "a \<in> snd ` set ?X" using that by force
    then have h: "tq_heap q' a = after_reset now (tq_canceling q3) a t" using q'(4) [of a] that(3) by simp
    show ?thesis using h listed [of a "t\<lparr>tm_expiration := now + delta_us (tm_interval t)\<rparr>"]
      by (auto simp: after_reset_def rearmed_def)
  qed
  with q'(1-3) show ?thesis by blast
qed

definition demo_repeat :: "nat tqueue" where
  "demo_repeat =
     \<lparr>tq_timers = [(20, 4096)], tq_active = [(4096, 1)], tq_calling = False,
      tq_canceling = [], tq_heap = [4096 \<mapsto> newTimer 7 20 1 1], tq_numCreated = 1, tq_settime = []\<rparr>"

lemma demo_repeat_own: "tq_own [] demo_repeat"
  using delta_us_int [of 1]
  by (auto simp: tq_own_def tq_inv_def demo_repeat_def queued_def newTimer_def timer_ok_def when_ok_def
      interval_ok_def split: if_splits)

lemma demo_clock: "clock_ok 20" "clock_ok 21" "sentry_separates 20 demo_repeat"
  by (simp_all add: clock_ok_def sentry_separates_def demo_repeat_def sentry_ptr_def)

theorem handleRead_reschedules_witness:
  "\<exists>q'. handleRead_tq demo_alloc demo_script 20 21 demo_repeat = Inr q' \<and>
     (1000020, 4096) \<in> set (tq_timers q')"
proof -
  have "run_timer demo_alloc demo_script (20, 4096)
      ((take_due 20 demo_repeat)\<lparr>tq_calling := True, tq_canceling := []\<rparr>) =
      Inr ((take_due 20 demo_repeat)\<lparr>tq_calling := True, tq_canceling := []\<rparr>)"
    by (simp add: run_timer_def take_due_def demo_repeat_def newTimer_def demo_script_def)
  then show ?thesis
    using handleRead_reschedules [OF demo_repeat_own demo_alloc_law demo_script_ok demo_clock(1,2,3)]
      delta_us_int [of 1]
    by (auto simp: demo_repeat_def newTimer_def)
qed

section \<open>Cancelling from a callback\<close>

lemma foldRes_split:
  assumes "foldRes f (xs @ y # ys) s = Inr t"
  obtains r r' where "foldRes f xs s = Inr r" and "f y r = Inr r'" and "foldRes f ys r' = Inr t"
  using assms by (auto simp: foldRes_append andThen_Inr_iff)

lemma cancel_recorded:
  assumes own: "tq_own E q" and law: "alloc_law alloc" and ok: "list_all call_ok cs"
    and call: "CCancel tid \<in> set cs" and E: "fst tid \<in> snd ` set E" and c: "tq_calling q"
    and run: "foldRes (tq_exec alloc) cs q = Inr q'"
  shows "tid \<in> set (tq_canceling q')"
proof -
  from call obtain cs1 cs2 where cs: "cs = cs1 @ CCancel tid # cs2" by (meson split_list)
  from run [unfolded cs] obtain r r' where r: "foldRes (tq_exec alloc) cs1 q = Inr r"
    "tq_exec alloc (CCancel tid) r = Inr r'" "foldRes (tq_exec alloc) cs2 r' = Inr q'"
    by (rule foldRes_split)
  have kr: "tq_keeps E q r" using tq_calls_keep [OF own law, of cs1] ok cs r(1) by auto
  then have own_r: "tq_own E r" and cr: "tq_calling r" using c by (simp_all add: tq_keeps_def)
  have "tid \<notin> set (tq_active r)"
    using tq_ownD(3) [OF own_r] E by (force simp: queued_def)
  from cancelInLoop_other [OF own_r this] r(2) cr have r': "tq_keeps E r r'" "tid \<in> set (tq_canceling r')"
    by auto
  then have "tq_own E r'" by (simp add: tq_keeps_def)
  from tq_calls_keep [OF this law, of cs2] ok cs r(3) have "tq_keeps E r' q'" by auto
  with r'(2) show ?thesis by (auto simp: tq_keeps_def)
qed

text \<open>
  Cancelling during expiration works: if the callback of some due timer (the timer itself or
  another one) calls \<^verbatim>\<open>cancel\<close> with the id of a due timer, that timer is not scheduled again even
  if it repeats; its object is deleted exactly once, at the end of \<^verbatim>\<open>handleRead\<close>.
\<close>

theorem cancel_during_expiration:
  assumes "tq_own [] q" and "alloc_law alloc" and "script_ok script" and "clock_ok now" and "clock_ok now2"
    and "sentry_separates now q"
    and "(e, a) \<in> set (tq_timers q)" and "e \<le> now" and "tq_heap q a = Some t"
    and "(e2, b) \<in> set (tq_timers q)" and "e2 \<le> now" and "tq_heap q b = Some u"
    and "\<And>r. CCancel (a, tm_sequence t) \<in> set (script (tm_callback u) r)"
  shows "\<exists>q'. handleRead_tq alloc script now now2 q = Inr q' \<and> tq_heap q' a = None \<and>
     a \<notin> snd ` set (tq_timers q')"
proof -
  let ?X = "filter (due now) (tq_timers q)"
  let ?q2 = "(take_due now q)\<lparr>tq_calling := True, tq_canceling := []\<rparr>"
  from handleRead_ok [OF assms(1-6)] obtain q3 q' where
    q': "handleRead_tq alloc script now now2 q = Inr q'" "tq_own [] q'"
    "foldRes (run_timer alloc script) ?X ?q2 = Inr q3"
    "\<And>a. tq_heap q' a = (if a \<in> snd ` set ?X
        then (case tq_heap q a of None \<Rightarrow> None | Some t \<Rightarrow> after_reset now (tq_canceling q3) a t)
        else tq_heap q3 a)" by blast
  have own2: "tq_own ?X ?q2" using tq_own_take_due [OF assms(1), of now] by simp
  have aX: "a \<in> snd ` set ?X" using assms(7,8) by (force simp: due_def)
  have bX: "(e2, b) \<in> set ?X" using assms(10,11) by (simp add: due_def)
  then obtain X1 X2 where X: "?X = X1 @ (e2, b) # X2" by (meson split_list)
  from q'(3) [unfolded X] obtain r r' where r: "foldRes (run_timer alloc script) X1 ?q2 = Inr r"
    "run_timer alloc script (e2, b) r = Inr r'" "foldRes (run_timer alloc script) X2 r' = Inr q3"
    by (rule foldRes_split)
  have sub: "set X1 \<subseteq> set ?X" "set X2 \<subseteq> set ?X" unfolding X by auto
  have kr: "tq_keeps ?X ?q2 r" using run_timers_keep [OF own2 assms(2,3) sub(1)] r(1) by auto
  then have own_r: "tq_own ?X r" and cr: "tq_calling r" by (simp_all add: tq_keeps_def)
  have "b \<in> snd ` set ?X" using bX by force
  then have hb: "tq_heap r b = Some u" using kr assms(12) by (auto simp: tq_keeps_def take_due_def)
  then have run: "foldRes (tq_exec alloc) (script (tm_callback u) r) r = Inr r'"
    using r(2) by (simp add: run_timer_def)
  have "list_all call_ok (script (tm_callback u) r)" using assms(3) by (simp add: script_ok_def)
  from cancel_recorded [OF own_r assms(2) this assms(13) _ cr run] aX
  have rec: "(a, tm_sequence t) \<in> set (tq_canceling r')" by simp
  have "tq_keeps ?X r r'" using run_timer_keeps [OF own_r assms(2,3) bX] r(2) by auto
  then have "tq_own ?X r'" by (simp add: tq_keeps_def)
  from run_timers_keep [OF this assms(2,3) sub(2)] r(3) have "tq_keeps ?X r' q3" by auto
  with rec have "(a, tm_sequence t) \<in> set (tq_canceling q3)" by (auto simp: tq_keeps_def)
  then have "tq_heap q' a = None"
    using q'(4) [of a] aX assms(9) by (simp add: after_reset_def rearmed_def)
  moreover from this have "a \<notin> snd ` set (tq_timers q')"
    using tq_ownD(4) [OF q'(2)] queued_timers [OF tq_ownD(1) [OF q'(2)]] by (metis UnI1 domIff)
  ultimately show ?thesis using q'(1) by blast
qed

definition self_cancel :: "nat \<Rightarrow> nat tqueue \<Rightarrow> nat tq_call list" where
  "self_cancel cb q = [CCancel (4096, 1)]"

theorem cancel_during_expiration_witness:
  "\<exists>q'. handleRead_tq demo_alloc self_cancel 20 21 demo_repeat = Inr q' \<and> tq_heap q' 4096 = None \<and>
     4096 \<notin> snd ` set (tq_timers q')"
proof (rule cancel_during_expiration [OF demo_repeat_own demo_alloc_law _ demo_clock(1,2,3)])
  show "script_ok self_cancel" by (simp add: script_ok_def self_cancel_def)
  show "(20, 4096) \<in> set (tq_timers demo_repeat)" by (simp add: demo_repeat_def)
  then show "(20, 4096) \<in> set (tq_timers demo_repeat)" .
  show "tq_heap demo_repeat 4096 = Some (newTimer 7 20 1 1)" by (simp add: demo_repeat_def)
  then show "tq_heap demo_repeat 4096 = Some (newTimer 7 20 1 1)" .
  show "\<And>r. CCancel (4096, tm_sequence (newTimer 7 20 1 1)) \<in>
      set (self_cancel (tm_callback (newTimer 7 20 1 1)) r)"
    by (simp add: self_cancel_def newTimer_def)
qed simp_all

section \<open>Stale ids\<close>

lemma tq_step_same_or_new:
  assumes own: "tq_own [] q" and law: "alloc_law alloc" and sok: "script_ok script" and ev: "event_ok ev"
    and run: "tq_step alloc script ev q = Inr q'"
  shows "tq_own [] q'" and "same_or_new q q'"
proof -
  show "tq_own [] q'" using tq_step_ok [OF own law sok ev] run by auto
  show "same_or_new q q'"
  proof (cases ev)
    case (TCall c)
    with ev tq_exec_keeps [OF own law, of c] run show ?thesis by (auto simp: tq_keeps_def)
  next
    case (TFire now now2)
    with ev have c: "clock_ok now" "clock_ok now2" by simp_all
    have sep: "sentry_separates now q"
    proof (rule ccontr)
      assume "\<not> sentry_separates now q"
      from getExpired_fault [OF tq_ownD(1) [OF own] this] run TFire show False
        by (simp add: handleRead_tq_def)
    qed
    from handleRead_ok [OF own law sok c sep] run TFire obtain q3 where
      k: "tq_keeps (filter (due now) (tq_timers q))
        ((take_due now q)\<lparr>tq_calling := True, tq_canceling := []\<rparr>) q3"
      and h: "\<And>a. tq_heap q' a = (if a \<in> snd ` set (filter (due now) (tq_timers q))
        then (case tq_heap q a of None \<Rightarrow> None | Some t \<Rightarrow> after_reset now (tq_canceling q3) a t)
        else tq_heap q3 a)"
      and n: "tq_numCreated q' = tq_numCreated q3" by auto
    have s3: "same_or_new q q3" using k by (simp add: tq_keeps_def same_or_new_def take_due_def)
    show ?thesis
      unfolding same_or_new_def
    proof (intro conjI allI impI)
      show "tq_numCreated q \<le> tq_numCreated q'" using s3 n by (simp add: same_or_new_def)
      fix a t
      assume t: "tq_heap q' a = Some t"
      show "(\<exists>u. tq_heap q a = Some u \<and> tm_sequence u = tm_sequence t) \<or> tq_numCreated q < tm_sequence t"
      proof (cases "a \<in> snd ` set (filter (due now) (tq_timers q))")
        case True
        with h [of a] t show ?thesis
          by (auto simp: after_reset_def split: option.splits if_splits)
      next
        case False
        with h [of a] t have "tq_heap q3 a = Some t" by simp
        with s3 show ?thesis by (simp add: same_or_new_def)
      qed
    qed
  qed
qed

lemma tq_run_same_or_new:
  assumes "tq_own [] q" and law: "alloc_law alloc" and sok: "script_ok script"
    and "list_all event_ok evs" and "foldRes (tq_step alloc script) evs q = Inr q'"
  shows "tq_own [] q' \<and> same_or_new q q'"
  using assms(1,4,5)
proof (induction evs arbitrary: q)
  case (Cons ev evs)
  from Cons.prems(3) obtain r where r: "tq_step alloc script ev q = Inr r"
    "foldRes (tq_step alloc script) evs r = Inr q'" by (auto simp: andThen_Inr_iff)
  from Cons.prems(2) have ok: "event_ok ev" "list_all event_ok evs" by simp_all
  note step = tq_step_same_or_new [OF Cons.prems(1) law sok ok(1) r(1)]
  from Cons.IH [OF step(1) ok(2) r(2)] step(2) show ?case by (blast intro: same_or_new_trans)
qed (simp add: same_or_new_refl)

text \<open>
  A stale TimerId is harmless: once the timer it named is gone, \<^verbatim>\<open>cancel\<close> with it never deletes
  or unschedules anything, however many timers were created, expired or cancelled in between and
  even if a new Timer object got the same address, because sequence numbers are never reused.
\<close>

theorem stale_cancel_harmless:
  assumes "tq_own [] q" and "alloc_law alloc" and "script_ok script"
    and "s \<le> tq_numCreated q" and "\<And>t. tq_heap q a = Some t \<Longrightarrow> tm_sequence t \<noteq> s"
    and "list_all event_ok evs" and "foldRes (tq_step alloc script) evs q = Inr q'"
  shows "\<exists>c. cancelInLoop (a, s) q' = Inr (q'\<lparr>tq_canceling := c\<rparr>)"
proof -
  from tq_run_same_or_new [OF assms(1-3,6,7)] have own: "tq_own [] q'" and new: "same_or_new q q'" by simp_all
  have "(a, s) \<notin> set (tq_active q')"
  proof
    assume "(a, s) \<in> set (tq_active q')"
    with tq_inv_active [OF tq_ownD(1) [OF own]] obtain t where t: "tq_heap q' a = Some t" "tm_sequence t = s"
      by blast
    moreover have "\<not> tq_numCreated q < tm_sequence t" using t(2) assms(4) by simp
    ultimately obtain u where "tq_heap q a = Some u" "tm_sequence u = s"
      using new unfolding same_or_new_def by metis
    with assms(5) show False by blast
  qed
  with cancelInLoop_other [OF own] show ?thesis by blast
qed

theorem stale_cancel_harmless_witness:
  "\<exists>c. cancelInLoop (4096, 0) demo_repeat = Inr (demo_repeat\<lparr>tq_canceling := c\<rparr>)"
  by (rule stale_cancel_harmless [OF demo_repeat_own demo_alloc_law demo_script_ok, where evs = "[]"])
    (auto simp: demo_repeat_def newTimer_def)

text \<open>
  C40. \<^verbatim>\<open>howMuchTimeFromNow\<close>: the \<^verbatim>\<open>timespec\<close> given to \<^verbatim>\<open>timerfd_settime\<close> is normalised (nanoseconds
  from 0 to 999999999), never zero (which would disarm the timer), and denotes the time to go,
  at least 100 microseconds, without any overflow.
\<close>

theorem howMuchTimeFromNow_correct:
  assumes "clock_ok now" and "when_ok when"
  shows "\<exists>sec nsec. howMuchTimeFromNow now when = Inr (sec, nsec) \<and> 0 \<le> nsec \<and> nsec < 1000000000 \<and>
     0 \<le> sec \<and> sec * 1000000000 + nsec = max 100 (when - now) * 1000 \<and> (sec, nsec) \<noteq> (0, 0)"
proof -
  define us where "us = max 100 (when - now)"
  have us: "100 \<le> us" by (simp add: us_def)
  have r: "int64 (when - now)" using assms by (auto simp: int64_def clock_ok_def when_ok_def)
  have q: "us sdiv 1000000 = us div 1000000" "us smod 1000000 = us mod 1000000"
    using us by (simp_all add: signed_divide_int_def signed_modulo_int_def sgn_if minus_mult_div_eq_mod)
  have clamp: "(if when - now < 100 then 100 else when - now) = us" by (simp add: us_def max_def)
  have "howMuchTimeFromNow now when = Inr (us div 1000000, us mod 1000000 * 1000)"
    using r by (simp add: howMuchTimeFromNow_def kMicroSecondsPerSecond_def clamp q Let_def)
  moreover have "us div 1000000 * 1000000000 + us mod 1000000 * 1000 = us * 1000" by presburger
  moreover have "0 \<le> us div 1000000" "0 \<le> us mod 1000000" "us mod 1000000 < 1000000"
    using us by (simp_all add: pos_imp_zdiv_nonneg_iff)
  ultimately show ?thesis using us by (intro exI) (auto simp: us_def [symmetric])
qed

theorem howMuchTimeFromNow_correct_witness:
  "\<exists>sec nsec. howMuchTimeFromNow 1000 2500999 = Inr (sec, nsec) \<and>
     sec * 1000000000 + nsec = 2499999 * 1000"
  using howMuchTimeFromNow_correct [of 1000 2500999] by (auto simp: clock_ok_def when_ok_def)

end
