(* ===== verification/Kaycc_LoopTimers.thy ===== *)
theory Kaycc_LoopTimers
  imports Kaycc_TimerQueue Kaycc_EventLoop
begin

text \<open>
  The timer interface of EventLoop (net/eventloop.cpp: \<^verbatim>\<open>runAt\<close>, \<^verbatim>\<open>runAfter\<close>, \<^verbatim>\<open>runEvery\<close>, \<^verbatim>\<open>cancel\<close>,
  \<^verbatim>\<open>handleRead\<close>) on top of TimerQueue and Timestamp, called in the loop thread, and what
  \<^verbatim>\<open>TimerQueue::addTimer\<close> does when it is called from another thread, step by step; and the pointer to the
  loop of a thread.
\<close>

section \<open>In the loop thread\<close>

text \<open>\<open>now1\<close> is what \<^verbatim>\<open>Timestamp::now()\<close> gives in \<^verbatim>\<open>runAfter\<close>, \<open>now\<close> what it gives in \<^verbatim>\<open>resetTimerfd\<close>.\<close>

definition runAt ::
    "((nat \<rightharpoonup> 'cb timer) \<Rightarrow> nat) \<Rightarrow> timestamp \<Rightarrow> timestamp \<Rightarrow> 'cb \<Rightarrow> 'cb tqueue \<Rightarrow> (timerId \<times> 'cb tqueue) res" where
  "runAt alloc now time cb q = addTimer alloc now cb time 0 q"

definition runAfter ::
    "((nat \<rightharpoonup> 'cb timer) \<Rightarrow> nat) \<Rightarrow> timestamp \<Rightarrow> timestamp \<Rightarrow> rat \<Rightarrow> 'cb \<Rightarrow> 'cb tqueue \<Rightarrow>
     (timerId \<times> 'cb tqueue) res" where
  "runAfter alloc now1 now delay cb q = andThen (addTime now1 delay) (\<lambda>time. runAt alloc now time cb q)"

definition runEvery ::
    "((nat \<rightharpoonup> 'cb timer) \<Rightarrow> nat) \<Rightarrow> timestamp \<Rightarrow> timestamp \<Rightarrow> rat \<Rightarrow> 'cb \<Rightarrow> 'cb tqueue \<Rightarrow>
     (timerId \<times> 'cb tqueue) res" where
  "runEvery alloc now1 now interval cb q =
     andThen (addTime now1 interval) (\<lambda>time. addTimer alloc now cb time interval q)"

definition cancel_tq :: "timerId \<Rightarrow> 'cb tqueue \<Rightarrow> 'cb tqueue res" where
  "cancel_tq timerId q = cancelInLoop timerId q"

definition cancel_el :: "timerId \<Rightarrow> 'cb tqueue \<Rightarrow> 'cb tqueue res" where
  "cancel_el timerId q = cancel_tq timerId q"

text \<open>A read of the eventfd takes the whole counter; reading 0 fails with EAGAIN and is only logged.\<close>

definition handleRead_el :: "('f, 'cb) loop \<Rightarrow> ('f, 'cb) loop" where
  "handleRead_el s = s\<lparr>el_wakeups := 0\<rparr>"

lemma addTime_ok:
  assumes "clock_ok now1" and "0 \<le> delay" and "interval_ok delay"
  shows "addTime now1 delay = Inr (now1 + delta_us delay)" and "when_ok (now1 + delta_us delay)"
  using assms delta_us_nonneg [OF assms(2)]
  by (auto simp: addTime_def i64_def int64_def clock_ok_def interval_ok_def when_ok_def)

text \<open>What a timer added by \<^verbatim>\<open>addTimer\<close> looks like to \<^verbatim>\<open>getExpired\<close> and \<^verbatim>\<open>cancel\<close>.\<close>

lemma added_timer:
  fixes cb :: 'cb
  assumes "tq_own [] q" and "alloc_law alloc" and "clock_ok now" and "when_ok when" and "interval_ok interval"
  shows "\<exists>a q'. addTimer alloc now cb when interval q = Inr ((a, tq_numCreated q + 1), q') \<and> tq_own [] q' \<and>
    tq_heap q a = None \<and> tq_heap q' = (tq_heap q)(a \<mapsto> newTimer cb when interval (tq_numCreated q + 1)) \<and>
    (\<forall>t. sentry_separates t q' \<longrightarrow>
       (\<exists>X q2. getExpired t q' = Inr (X, q2) \<and> ((when, a) \<in> set X \<longleftrightarrow> when \<le> t))) \<and>
    (\<exists>q2. cancel_el (a, tq_numCreated q + 1) q' = Inr q2 \<and> tq_heap q2 = tq_heap q)"
proof -
  let ?t = "newTimer cb when interval (tq_numCreated q + 1)" and ?a = "alloc (tq_heap q)"
  from addTimer_ok [OF assms, of cb] obtain q' where
    q': "addTimer alloc now cb when interval q = Inr ((?a, tq_numCreated q + 1), q')" "tq_keeps [] q q'"
    "tq_heap q ?a = None" "tq_heap q' = (tq_heap q)(?a \<mapsto> ?t)" "queued q' = insert ?a (queued q)" by blast
  have own: "tq_own [] q'" using q'(2) by (simp add: tq_keeps_def)
  note inv = tq_ownD(1) [OF own]
  have heap: "tq_heap q' ?a = Some ?t" using q'(4) by simp
  have act: "(?a, tm_sequence ?t) \<in> set (tq_active q')"
    using queued_iff [OF inv, of ?a] q'(5) heap by auto
  then have listed: "(when, ?a) \<in> set (tq_timers q')"
    using tq_inv_timers [OF inv, of "when" ?a] heap by (simp add: newTimer_def)
  have "\<exists>X q2. getExpired t q' = Inr (X, q2) \<and> ((when, ?a) \<in> set X \<longleftrightarrow> when \<le> t)"
    if "sentry_separates t q'" for t
    using getExpired_ok [OF own that] listed by (simp add: due_def)
  moreover have "\<exists>q2. cancel_el (?a, tq_numCreated q + 1) q' = Inr q2 \<and> tq_heap q2 = tq_heap q"
  proof -
    have "(tq_heap q')(?a := None) = tq_heap q" using q'(3,4) by (simp add: fun_upd_idem)
    then show ?thesis using cancelInLoop_queued [OF own heap act] by (auto simp: cancel_el_def cancel_tq_def newTimer_def)
  qed
  ultimately show ?thesis using q' own by blast
qed

text \<open>
  C26. \<^verbatim>\<open>runAfter\<close> and \<^verbatim>\<open>runEvery\<close> keep time: both succeed, return an id for a timer of its own and leave the
  other timers alone; the callback is handed out by exactly those expirations that come \<open>delay\<close> or more
  after the call, never earlier (those at which the assertion of \<^verbatim>\<open>getExpired\<close> fails aside, \<open>sentry_separates\<close>); the timer of \<^verbatim>\<open>runEvery\<close> repeats and that of \<^verbatim>\<open>runAfter\<close> does not;
  and cancelling the id takes the timer out again.
\<close>

theorem timers_keep_time:
  fixes cb :: 'cb
  assumes "tq_own [] q" and "alloc_law alloc" and "clock_ok now1" and "clock_ok now" and "0 < delay"
    and "interval_ok delay" and "run = runAfter \<and> \<not> every \<or> run = runEvery \<and> every"
  shows "\<exists>a q' tm. run alloc now1 now delay cb q = Inr ((a, tq_numCreated q + 1), q') \<and> tq_own [] q' \<and>
    tq_heap q a = None \<and> tq_heap q' = (tq_heap q)(a \<mapsto> tm) \<and> tm_callback tm = cb \<and> tm_repeat tm = every \<and>
    (\<forall>t. sentry_separates t q' \<longrightarrow>
       (\<exists>X q2. getExpired t q' = Inr (X, q2) \<and>
          ((now1 + delta_us delay, a) \<in> set X \<longleftrightarrow> now1 + delta_us delay \<le> t))) \<and>
    (\<exists>q2. cancel_el (a, tq_numCreated q + 1) q' = Inr q2 \<and> tq_heap q2 = tq_heap q)"
proof -
  have pos: "0 \<le> delay" using assms(5) by simp
  note time = addTime_ok [OF assms(3) pos assms(6)]
  define i where "i = (if every then delay else 0)"
  have "delta_us 0 = 0" using delta_us_int [of 0] by simp
  then have i: "interval_ok i" using assms(6) by (simp add: i_def interval_ok_def)
  have run: "run alloc now1 now delay cb q = addTimer alloc now cb (now1 + delta_us delay) i q"
    using assms(7) time(1) by (auto simp: runAfter_def runEvery_def runAt_def i_def)
  have "tm_repeat (newTimer cb e i n) = every" "tm_callback (newTimer cb e i n) = cb" for e n
    using assms(5) by (simp_all add: newTimer_def i_def)
  with added_timer [OF assms(1,2,4) time(2) i, of cb] run show ?thesis by metis
qed

theorem timers_keep_time_witness:
  "\<exists>a q'. runAfter demo_alloc 100 101 1 7 demo_repeat = Inr ((a, 2), q') \<and> tq_own [] q'"
proof -
  have "interval_ok 1" using delta_us_int [of 1] by (simp add: interval_ok_def)
  then show ?thesis
    using timers_keep_time [OF demo_repeat_own demo_alloc_law, of 100 101 1 runAfter False 7]
    by (auto simp: clock_ok_def demo_repeat_def)
qed

section \<open>The loop of a thread\<close>

text \<open>The descriptor of the wakeup channel: the constructor gives up where eventfd(2) fails.\<close>

definition createEventfd :: "int \<Rightarrow> int res" where
  "createEventfd evtfd = (if evtfd < 0 then Inl (Aborted ''eventloop.cpp:38'') else Inr evtfd)"

text \<open>
  \<^verbatim>\<open>t_loopInThisThread\<close>: the constructor stores the new loop unless there is one already, which is only
  logged; the destructor clears the pointer.
\<close>

definition register_loop :: "nat \<Rightarrow> nat option \<Rightarrow> nat option" where
  "register_loop this t_loop = (case t_loop of None \<Rightarrow> Some this | Some l \<Rightarrow> Some l)"

definition unregister_loop :: "nat option \<Rightarrow> nat option" where
  "unregister_loop t_loop = None"

definition getEventLoopOfCurrentThread :: "nat option \<Rightarrow> nat option" where
  "getEventLoopOfCurrentThread t_loop = t_loop"

text \<open>With one loop per thread the pointer is that loop while it lives; a second one that comes and goes loses it.\<close>

lemma loop_of_thread:
  "getEventLoopOfCurrentThread (register_loop a None) = Some a"
  "getEventLoopOfCurrentThread (unregister_loop (register_loop a None)) = None"
  "getEventLoopOfCurrentThread (unregister_loop (register_loop b (register_loop a None))) = None"
  by (simp_all add: getEventLoopOfCurrentThread_def register_loop_def unregister_loop_def)

section \<open>From another thread\<close>

text \<open>
  \<^verbatim>\<open>addTimer\<close> called outside the loop thread creates the Timer, queues \<^verbatim>\<open>addTimerInLoop\<close> and then reads
  \<^verbatim>\<open>timer->sequence()\<close> for the TimerId it returns. The loop thread runs in between. \<open>xt_queued\<close> are the
  queued timers, \<open>xt_reading\<close> those whose creator has not yet read the sequence number, \<open>xt_ids\<close> the
  results.
\<close>

record 'cb xtimers =
  xt_queue :: "'cb tqueue"
  xt_queued :: "nat list"
  xt_reading :: "nat list"
  xt_ids :: "timerId res list"

inductive addTimer_step ::
    "((nat \<rightharpoonup> 'cb timer) \<Rightarrow> nat) \<Rightarrow> ('cb \<Rightarrow> 'cb tqueue \<Rightarrow> 'cb tq_call list) \<Rightarrow> 'cb xtimers \<Rightarrow> 'cb xtimers \<Rightarrow> bool"
  for alloc script where
  create: "create_timer alloc cb when interval (xt_queue s) = (a, q) \<Longrightarrow>
    addTimer_step alloc script s (s\<lparr>xt_queue := q, xt_queued := xt_queued s @ [a], xt_reading := xt_reading s @ [a]\<rparr>)"
| add: "xt_queued s = a # as \<Longrightarrow> addTimerInLoop now a (xt_queue s) = Inr q \<Longrightarrow>
    addTimer_step alloc script s (s\<lparr>xt_queue := q, xt_queued := as\<rparr>)"
| fire: "handleRead_tq alloc script now now2 (xt_queue s) = Inr q \<Longrightarrow>
    addTimer_step alloc script s (s\<lparr>xt_queue := q\<rparr>)"
| read_id: "xt_reading s = a # as \<Longrightarrow>
    addTimer_step alloc script s (s\<lparr>xt_reading := as,
      xt_ids := xt_ids s @ [timer_at (xt_queue s) a (\<lambda>t. Inr (a, tm_sequence t))]\<rparr>)"

definition xt_start :: "'cb xtimers" where
  "xt_start = \<lparr>xt_queue = newTimerQueue, xt_queued = [], xt_reading = [], xt_ids = []\<rparr>"

text \<open>
  C39. Adding a timer from another thread can read freed memory: a one-shot timer that is already due may
  be added, run and deleted by the loop thread before its creator reads the sequence number.
\<close>

theorem addTimer_race:
  "\<exists>s. reaches (addTimer_step demo_alloc demo_script) xt_start s \<and> xt_ids s = [Inl (Undefined ''dangling Timer*'')]"
proof -
  let ?tm = "newTimer (7 :: nat) 10 0 1"
  define q1 where "q1 = newTimerQueue\<lparr>tq_heap := [4096 \<mapsto> ?tm], tq_numCreated := 1\<rparr>"
  define q2 where "q2 = q1\<lparr>tq_timers := [(10, 4096)], tq_active := [(4096, 1)], tq_settime := [(0, 100000)]\<rparr>"
  define q3 where "q3 = q1\<lparr>tq_heap := Map.empty, tq_settime := [(0, 100000)]\<rparr>"
  define s1 where "s1 = (xt_start :: nat xtimers)\<lparr>xt_queue := q1, xt_queued := [4096], xt_reading := [4096]\<rparr>"
  have create: "create_timer demo_alloc 7 10 0 (xt_queue xt_start) = (4096, q1)"
    by (simp add: create_timer_def xt_start_def newTimerQueue_def demo_alloc_def q1_def)
  have added: "addTimerInLoop 20 4096 q1 = Inr q2"
    by (simp add: addTimerInLoop_def insert_timer_def sizes_ok_def q1_def q2_def newTimerQueue_def newTimer_def
        std_insert_def insort_insert_key_def resetTimerfd_def howMuchTimeFromNow_def i64_def int64_def
        kMicroSecondsPerSecond_def signed_divide_int_def signed_modulo_int_def)
  have fire: "handleRead_tq demo_alloc demo_script 30 31 q2 = Inr q3"
    by (simp add: handleRead_tq_def getExpired_def sizes_ok_def from_bound_def before_def sentry_ptr_def
        erase_active_def std_erase_def q2_def q1_def q3_def newTimerQueue_def newTimer_def run_timer_def demo_script_def
        reset_queue_def reset_one_def ts_valid_def ts_invalid_def less_prod_def Let_def)
  have "addTimer_step demo_alloc demo_script xt_start s1"
    using addTimer_step.create [OF create] by (simp add: s1_def xt_start_def)
  with reaches_start have "reaches (addTimer_step demo_alloc demo_script) xt_start s1" by (rule reaches_step)
  moreover have "addTimer_step demo_alloc demo_script s1 (s1\<lparr>xt_queue := q2, xt_queued := []\<rparr>)"
    by (rule addTimer_step.add [where now = 20 and a = 4096]) (simp_all add: s1_def added)
  ultimately have "reaches (addTimer_step demo_alloc demo_script) xt_start (s1\<lparr>xt_queue := q2, xt_queued := []\<rparr>)"
    by (rule reaches_step)
  moreover have "addTimer_step demo_alloc demo_script (s1\<lparr>xt_queue := q2, xt_queued := []\<rparr>)
      (s1\<lparr>xt_queue := q3, xt_queued := []\<rparr>)"
    using addTimer_step.fire [of demo_alloc demo_script 30 31 "s1\<lparr>xt_queue := q2, xt_queued := []\<rparr>"] fire
    by (simp add: s1_def xt_start_def)
  ultimately have "reaches (addTimer_step demo_alloc demo_script) xt_start (s1\<lparr>xt_queue := q3, xt_queued := []\<rparr>)"
    by (rule reaches_step)
  moreover have "addTimer_step demo_alloc demo_script (s1\<lparr>xt_queue := q3, xt_queued := []\<rparr>)
      (s1\<lparr>xt_queue := q3, xt_queued := [], xt_reading := [], xt_ids := [Inl (Undefined ''dangling Timer*'')]\<rparr>)"
    using addTimer_step.read_id [of "s1\<lparr>xt_queue := q3, xt_queued := []\<rparr>" 4096 "[]" demo_alloc demo_script]
    by (simp add: s1_def xt_start_def timer_at_def q3_def)
  ultimately have "reaches (addTimer_step demo_alloc demo_script) xt_start
      (s1\<lparr>xt_queue := q3, xt_queued := [], xt_reading := [], xt_ids := [Inl (Undefined ''dangling Timer*'')]\<rparr>)"
    by (rule reaches_step)
  then show ?thesis
    by (intro exI [of _ "s1\<lparr>xt_queue := q3, xt_queued := [], xt_reading := [],
        xt_ids := [Inl (Undefined ''dangling Timer*'')]\<rparr>"]) simp
qed

end
