(* ===== verification/Kaycc_Acceptor.thy ===== *)
theory Kaycc_Acceptor
  imports Kaycc_EventLoop
begin

text \<open>
  Acceptor (net/acceptor.h, .cpp): the listening socket's channel in a loop, and the spare
  descriptor that keeps it able to refuse connections when the process has no descriptors left.
  Descriptors returned by the kernel (socket, open, accept) are arguments. \<open>ac_closed\<close> records the
  descriptors the class closed itself, in order; nothing reads it. What happens to
  the table of descriptors is in Kaycc\_Sockets.
\<close>

section \<open>State and operations\<close>

record ('f, 'cb) acceptor =
  ac_loop :: "('f, 'cb) loop"
  ac_chan :: nat
  ac_fd :: int
  ac_listenning :: bool
  ac_hasCallback :: bool         \<comment> \<open>\<^verbatim>\<open>newConnectionCallback_\<close> is set\<close>
  ac_idleFd :: int
  ac_closed :: "int list"

definition EMFILE :: int where "EMFILE = 24"

definition newAcceptor :: "'cb \<Rightarrow> ('f, 'cb) loop \<Rightarrow> nat \<Rightarrow> int \<Rightarrow> int \<Rightarrow> ('f, 'cb) acceptor res" where
  "newAcceptor cb l chan sockfd idleFd =
     check (0 \<le> idleFd) ''acceptor.cpp:27'' (
     Inr \<lparr>ac_loop = put_chan chan (setReadCallback cb (newChannel sockfd)) l,
          ac_chan = chan, ac_fd = sockfd, ac_listenning = False, ac_hasCallback = False,
          ac_idleFd = idleFd, ac_closed = []\<rparr>)"

definition setNewConnectionCallback :: "('f, 'cb) acceptor \<Rightarrow> ('f, 'cb) acceptor" where
  "setNewConnectionCallback a = a\<lparr>ac_hasCallback := True\<rparr>"

definition ac_on_loop ::
    "(('f, 'cb) loop \<Rightarrow> ('f, 'cb) loop res) \<Rightarrow> ('f, 'cb) acceptor \<Rightarrow> ('f, 'cb) acceptor res" where
  "ac_on_loop f a = andThen (f (ac_loop a)) (\<lambda>l. Inr (a\<lparr>ac_loop := l\<rparr>))"

definition ac_close :: "int \<Rightarrow> ('f, 'cb) acceptor \<Rightarrow> ('f, 'cb) acceptor" where
  "ac_close fd a = a\<lparr>ac_closed := ac_closed a @ [fd]\<rparr>"

text \<open>
  The destructor's body, then the members in reverse order: the channel, and the socket, which
  closes its descriptor.
\<close>

definition destroyAcceptor :: "bool \<Rightarrow> ('f, 'cb) acceptor \<Rightarrow> ('f, 'cb) acceptor res" where
  "destroyAcceptor inLoop a =
     andThen (ac_on_loop (disableAll inLoop (ac_chan a)) a) (\<lambda>a.
     andThen (ac_on_loop (channel_remove inLoop (ac_chan a)) a) (\<lambda>a.
     let a1 = ac_close (ac_idleFd a) a
     in andThen (ac_on_loop (destroyChannel inLoop (ac_chan a1)) a1) (\<lambda>a. Inr (ac_close (ac_fd a) a))))"

definition listen :: "bool \<Rightarrow> ('f, 'cb) acceptor \<Rightarrow> ('f, 'cb) acceptor res" where
  "listen inLoop a =
     assertInLoopThread inLoop (
     ac_on_loop (enableReading inLoop (ac_chan a)) (a\<lparr>ac_listenning := True\<rparr>))"

text \<open>
  \<open>accepted\<close> is what \<^verbatim>\<open>accept4\<close> returned with \<^verbatim>\<open>errno\<close> after it; \<open>again\<close> and \<open>reopened\<close> are the
  results of the second \<^verbatim>\<open>accept\<close> and of opening /dev/null again. \<open>newConnection\<close> is the callback.
\<close>

definition handleRead_ac ::
    "(int \<Rightarrow> ('f, 'cb) acceptor \<Rightarrow> ('f, 'cb) acceptor res) \<Rightarrow> int \<times> int \<Rightarrow> int \<Rightarrow> int \<Rightarrow> bool \<Rightarrow>
     ('f, 'cb) acceptor \<Rightarrow> ('f, 'cb) acceptor res" where
  "handleRead_ac newConnection accepted again reopened inLoop a =
     assertInLoopThread inLoop (
     let (connfd, errno) = accepted in
     if connfd > 0 then
       if ac_hasCallback a then newConnection connfd a else Inr (ac_close connfd a)
     else if errno = EMFILE then
       let a1 = ac_close (ac_idleFd a) a;
           a2 = a1\<lparr>ac_idleFd := again\<rparr>;
           a3 = ac_close (ac_idleFd a2) a2
       in Inr (a3\<lparr>ac_idleFd := reopened\<rparr>)
     else Inr a)"

section \<open>Properties\<close>

text \<open>What is left of the channels when one was added and taken out again, up to their places in the poller.\<close>

lemma channels_restored:
  assumes "cs c = None" and "fd_of h = (fd_of (cs(c \<mapsto> ch)))(c := None)"
    and "\<And>d dh. d \<noteq> c \<Longrightarrow> (cs(c \<mapsto> ch)) d = Some dh \<Longrightarrow> \<exists>j. h d = Some (dh\<lparr>ch_index := j\<rparr>)"
  shows "map_option (\<lambda>ch. ch\<lparr>ch_index := 0\<rparr>) (h d) = map_option (\<lambda>ch. ch\<lparr>ch_index := 0\<rparr>) (cs d)"
proof (cases "d = c \<or> cs d = None")
  case True
  then have "fd_of h d = None" unfolding assms(2) by (auto simp: fd_of_def)
  with True assms(1) show ?thesis by (auto simp: fd_of_def)
next
  case False
  then obtain dh where "cs d = Some dh" by auto
  with assms(3) [of d dh] False show ?thesis by auto
qed

text \<open>
  The life of an acceptor that listens: on a loop that does not know the descriptor,
  construction, \<^verbatim>\<open>listen\<close> and, outside of event dispatch, destruction succeed with either poller; in
  between the loop watches the socket for reading, afterwards it knows neither the channel nor the
  descriptor, its other channels are as before but for their poller index, and the spare
  descriptor and the socket are closed.
\<close>

theorem acceptor_life:
  assumes inv: "el_inv l" and c: "el_channels l chan = None" and fd: "0 \<le> fd" and free: "el_reg l fd = None"
    and idle: "\<not> el_eventHandling l" and spare: "0 \<le> idleFd"
  shows "\<exists>a0 a1 a2. newAcceptor cb l chan fd idleFd = Inr a0 \<and> listen True a0 = Inr a1 \<and>
     el_inv (ac_loop a1) \<and> el_reg (ac_loop a1) = (el_reg l)(fd \<mapsto> chan) \<and>
     destroyAcceptor True a1 = Inr a2 \<and> el_inv (ac_loop a2) \<and>
     el_reg (ac_loop a2) = el_reg l \<and> ac_closed a2 = [idleFd, fd] \<and>
     (\<forall>d. map_option (\<lambda>ch. ch\<lparr>ch_index := 0\<rparr>) (el_channels (ac_loop a2) d) =
          map_option (\<lambda>ch. ch\<lparr>ch_index := 0\<rparr>) (el_channels l d))"
proof -
  let ?ch = "\<lambda>i. (setReadCallback cb (newChannel fd))\<lparr>ch_events := 3, ch_addedToLoop := True, ch_index := i\<rparr>"
  from register_new [OF inv c fd free, of cb] obtain p i where
    r: "enableReading True chan (put_chan chan (setReadCallback cb (newChannel fd)) l) =
      Inr (l\<lparr>el_poller := p, el_channels := (el_channels l)(chan \<mapsto> ?ch i)\<rparr>)"
    "poller_inv (p, (el_channels l)(chan \<mapsto> ?ch i))" "poller_channels p = (el_reg l)(fd \<mapsto> chan)" by blast
  let ?l = "l\<lparr>el_poller := p, el_channels := (el_channels l)(chan \<mapsto> ?ch i)\<rparr>"
  have fdch: "ch_fd (?ch i) = fd" "\<not> ch_eventHandling (?ch i)"
    by (simp_all add: setReadCallback_def newChannel_def)
  have l: "el_inv ?l" "el_channels ?l chan = Some (?ch i)" "el_reg ?l (ch_fd (?ch i)) = Some chan"
    using r(2,3) by (simp_all add: el_upd_simps fdch)
  from unregister_ok [OF l fdch(2)] idle obtain s1 s2 p2 h2 where
    u: "disableAll True chan ?l = Inr s1" "channel_remove True chan s1 = Inr s2"
    "destroyChannel True chan s2 = Inr (?l\<lparr>el_poller := p2, el_channels := h2\<rparr>)"
    "poller_inv (p2, h2)" "fd_of h2 = (fd_of (el_channels ?l))(chan := None)"
    "poller_channels p2 = (el_reg ?l)(ch_fd (?ch i) := None)"
    "\<And>d dh. d \<noteq> chan \<Longrightarrow> el_channels ?l d = Some dh \<Longrightarrow> \<exists>j. h2 d = Some (dh\<lparr>ch_index := j\<rparr>)" by auto
  define a0 where "a0 = \<lparr>ac_loop = put_chan chan (setReadCallback cb (newChannel fd)) l, ac_chan = chan, ac_fd = fd,
    ac_listenning = False, ac_hasCallback = False, ac_idleFd = idleFd, ac_closed = []\<rparr>"
  have "newAcceptor cb l chan fd idleFd = Inr a0" using spare by (simp add: newAcceptor_def a0_def)
  moreover have "listen True a0 = Inr (a0\<lparr>ac_listenning := True, ac_loop := ?l\<rparr>)"
    using r(1) by (simp add: listen_def ac_on_loop_def a0_def)
  moreover have "destroyAcceptor True (a0\<lparr>ac_listenning := True, ac_loop := ?l\<rparr>) =
      Inr (a0\<lparr>ac_listenning := True, ac_loop := ?l\<lparr>el_poller := p2, el_channels := h2\<rparr>, ac_closed := [idleFd, fd]\<rparr>)"
    using u(1-3) by (simp add: destroyAcceptor_def ac_on_loop_def ac_close_def a0_def)
  moreover have "el_reg (?l\<lparr>el_poller := p2, el_channels := h2\<rparr>) = el_reg l"
    using u(6) r(3) free by (auto simp: el_reg_def fdch)
  moreover have "map_option (\<lambda>ch. ch\<lparr>ch_index := 0\<rparr>) (h2 d) =
      map_option (\<lambda>ch. ch\<lparr>ch_index := 0\<rparr>) (el_channels l d)" for d
    by (rule channels_restored [where c = chan and ch = "?ch i"]) (use c u(5,7) in simp_all)
  ultimately show ?thesis
    using l(1) r(3) u(4)
    by (intro exI [of _ a0] exI [of _ "a0\<lparr>ac_listenning := True, ac_loop := ?l\<rparr>"]
        exI [of _ "a0\<lparr>ac_listenning := True, ac_loop := ?l\<lparr>el_poller := p2, el_channels := h2\<rparr>, ac_closed := [idleFd, fd]\<rparr>"])
      (simp add: el_upd_simps)
qed

definition demo_ac_loop :: "bool \<Rightarrow> (unit, nat) loop" where
  "demo_ac_loop use_poll =
     \<lparr>el_looping = True, el_quit = False, el_eventHandling = False, el_callingPending = False,
      el_iteration = 0, el_poller = newDefaultPoller use_poll, el_channels = Map.empty, el_active = [],
      el_current = None, el_pending = [], el_wakeups = 0\<rparr>"

lemma demo_ac_loop: "el_inv (demo_ac_loop b)" "el_channels (demo_ac_loop b) = Map.empty"
  "el_reg (demo_ac_loop b) = Map.empty" "\<not> el_eventHandling (demo_ac_loop b)"
  using fresh_poller_inv [of b] by (simp_all add: demo_ac_loop_def el_inv_def el_reg_def)

theorem acceptor_life_witness:
  "\<exists>a0 a1 a2. newAcceptor 7 (demo_ac_loop True) 1 5 6 = Inr a0 \<and> listen True a0 = Inr a1 \<and>
     destroyAcceptor True a1 = Inr a2 \<and> ac_closed a2 = [6, 5]"
  using acceptor_life [of "demo_ac_loop True" 1 5 6 7] by (simp add: demo_ac_loop) blast

text \<open>
  An acceptor that never listened: its destructor registers the channel with no event, through
  \<^verbatim>\<open>disableAll\<close>, and removes it. EPollPoller accepts this. PollPoller, which marks an entry as
  ignored only when it updates an existing one, fails its assertion in \<^verbatim>\<open>removeChannel\<close>, so that a
  TcpServer that is destroyed without \<^verbatim>\<open>start()\<close> aborts under \<^verbatim>\<open>MUDUO_USE_POLL\<close>.
\<close>

theorem acceptor_unlistened:
  assumes inv: "el_inv l" and c: "el_channels l chan = None" and fd: "0 \<le> fd" and free: "el_reg l fd = None"
    and idle: "\<not> el_eventHandling l" and spare: "0 \<le> idleFd"
  shows "\<exists>a. newAcceptor cb l chan fd idleFd = Inr a \<and>
     (case el_poller l of
        EPoll p \<Rightarrow> (\<exists>a'. destroyAcceptor True a = Inr a')
      | PPoll p \<Rightarrow> destroyAcceptor True a = Inl (Assertion ''pollpoller.cpp:108''))"
proof -
  have "newAcceptor cb l chan fd idleFd = Inr \<lparr>ac_loop = put_chan chan (setReadCallback cb (newChannel fd)) l,
    ac_chan = chan, ac_fd = fd, ac_listenning = False, ac_hasCallback = False, ac_idleFd = idleFd, ac_closed = []\<rparr>"
    using spare by (simp add: newAcceptor_def)
  moreover have "fd \<noteq> - fd - 1" using fd by simp
  ultimately show ?thesis
    using free idle
    by (cases "el_poller l")
      (auto simp: destroyAcceptor_def ac_on_loop_def disableAll_def channel_set_def chan_at_def put_chan_def
        channel_update_def channel_remove_def el_updateChannel_def el_removeChannel_def with_poller_def
        pp_updateChannel_def pp_removeChannel_def ep_updateChannel_def ep_removeChannel_def ep_update_def
        setReadCallback_def newChannel_def ev_disableAll_def kNoneEvent_def isNoneEvent_def set_index_def
        index_consts el_reg_def ac_close_def destroyChannel_def el_hasChannel_def hasChannel_def nth_append
        Let_def check_def)
qed

theorem acceptor_unlistened_witness:
  "\<exists>a. newAcceptor 7 (demo_ac_loop True) 1 5 6 = Inr a \<and>
     destroyAcceptor True a = Inl (Assertion ''pollpoller.cpp:108'')"
  using acceptor_unlistened [of "demo_ac_loop True" 1 5 6 7]
  by (simp add: demo_ac_loop) (simp add: demo_ac_loop_def newDefaultPoller_def)

end
