(* ===== verification/Kaycc_Connector.thy ===== *)
theory Kaycc_Connector
  imports Kaycc_EventLoop Kaycc_Timestamp "HOL-Library.Multiset"
begin

text \<open>
  Connector (net/connector.h, .cpp): a non-blocking connect with retries. The state holds the loop,
  the address of the channel while there is one (\<^verbatim>\<open>channel_\<close>, a scoped pointer), and the back-off.
  Results of socket(2), connect(2) and \<^verbatim>\<open>SO_ERROR\<close> are arguments; so is the new-connection callback.
  \<open>cn_timers\<close> lists the delays given to \<^verbatim>\<open>runAfter\<close>, each for a later \<^verbatim>\<open>startInLoop\<close>; \<open>cn_created\<close>,
  \<open>cn_closed\<close> and \<open>cn_delivered\<close> record what became of the sockets, and nothing reads them.
\<close>

named_theorems cn_simps "operations of a connector"

section \<open>State\<close>

datatype States = cDisconnected | cConnecting | cConnected

datatype cn_functor = CnStartInLoop | CnStopInLoop | CnResetChannel

datatype cn_cb = CnHandleWrite | CnHandleError

type_synonym cn_loop = "(cn_functor, cn_cb) loop"

definition kMaxRetryDelayMs :: int where "kMaxRetryDelayMs = 30 * 1000"
definition kInitRetryDelayMs :: int where "kInitRetryDelayMs = 500"

record connector =
  cn_loop :: cn_loop
  cn_connect :: bool
  cn_state :: States
  cn_channel :: "nat option"
  cn_retryDelayMs :: int
  cn_timers :: "rat list"
  cn_created :: "int list"
  cn_closed :: "int list"
  cn_delivered :: "int list"

definition newConnector :: "cn_loop \<Rightarrow> connector" where
  "newConnector l =
     \<lparr>cn_loop = l, cn_connect = False, cn_state = cDisconnected, cn_channel = None,
      cn_retryDelayMs = kInitRetryDelayMs, cn_timers = [], cn_created = [], cn_closed = [], cn_delivered = []\<rparr>"

definition destroyConnector :: "connector \<Rightarrow> unit res" where
  "destroyConnector c = check (cn_channel c = None) ''connector.cpp:30'' (Inr ())"

text \<open>The values of <errno.h> on Linux.\<close>

definition errnos_connecting :: "int list" where
  "errnos_connecting = [0, 115, 4, 106]"   \<comment> \<open>success, EINPROGRESS, EINTR, EISCONN\<close>

definition errnos_retry :: "int list" where
  "errnos_retry = [11, 98, 99, 111, 101]"  \<comment> \<open>EAGAIN, EADDRINUSE, EADDRNOTAVAIL, ECONNREFUSED, ENETUNREACH\<close>

section \<open>Operations\<close>

definition cn_on_loop :: "(cn_loop \<Rightarrow> cn_loop res) \<Rightarrow> connector \<Rightarrow> connector res" where
  "cn_on_loop f c = andThen (f (cn_loop c)) (\<lambda>l. Inr (c\<lparr>cn_loop := l\<rparr>))"

definition cn_close :: "int \<Rightarrow> connector \<Rightarrow> connector" where
  "cn_close fd c = c\<lparr>cn_closed := cn_closed c @ [fd]\<rparr>"

definition retry :: "int \<Rightarrow> connector \<Rightarrow> connector" where
  "retry sockfd c =
     (let c1 = (cn_close sockfd c)\<lparr>cn_state := cDisconnected\<rparr>
      in if cn_connect c1 then
           c1\<lparr>cn_timers := cn_timers c1 @ [to_double (of_int (cn_retryDelayMs c1) / 1000)],
              cn_retryDelayMs := min (cn_retryDelayMs c1 * 2) kMaxRetryDelayMs\<rparr>
         else c1)"

text \<open>\<open>a\<close> is the address of the new Channel.\<close>

definition connecting :: "nat \<Rightarrow> int \<Rightarrow> connector \<Rightarrow> connector res" where
  "connecting a sockfd c =
     (let c1 = c\<lparr>cn_state := cConnecting\<rparr>
      in check (cn_channel c1 = None) ''connector.cpp:131'' (
         cn_on_loop (enableWriting True a)
           (c1\<lparr>cn_channel := Some a,
               cn_loop := put_chan a (setErrorCallback CnHandleError (setWriteCallback CnHandleWrite
                 (newChannel sockfd))) (cn_loop c1)\<rparr>)))"

text \<open>\<open>sockfd\<close> and \<open>savedErrno\<close>: the new socket and what connect(2) said.\<close>

definition connect :: "nat \<Rightarrow> int \<times> int \<Rightarrow> connector \<Rightarrow> connector res" where
  "connect a = (\<lambda>(sockfd, savedErrno) c.
     let c1 = c\<lparr>cn_created := cn_created c @ [sockfd]\<rparr>
     in if savedErrno \<in> set errnos_connecting then connecting a sockfd c1
        else if savedErrno \<in> set errnos_retry then Inr (retry sockfd c1)
        else Inr (cn_close sockfd c1))"

definition startInLoop :: "nat \<Rightarrow> int \<times> int \<Rightarrow> bool \<Rightarrow> connector \<Rightarrow> connector res" where
  "startInLoop a r inLoop c =
     assertInLoopThread inLoop (
     check (cn_state c = cDisconnected) ''connector.cpp:42'' (
     if cn_connect c then connect a r c else Inr c))"

definition start_cn :: "nat \<Rightarrow> int \<times> int \<Rightarrow> bool \<Rightarrow> connector \<Rightarrow> connector res" where
  "start_cn a r inLoop c =
     (let c1 = c\<lparr>cn_connect := True\<rparr>
      in if inLoop then startInLoop a r inLoop c1
         else Inr (c1\<lparr>cn_loop := queueInLoop inLoop CnStartInLoop (cn_loop c1)\<rparr>))"

definition removeAndResetChannel :: "connector \<Rightarrow> (int \<times> connector) res" where
  "removeAndResetChannel c =
     (case cn_channel c of
        None \<Rightarrow> Inl (Undefined ''null Channel*'')
      | Some a \<Rightarrow>
          andThen (cn_on_loop (disableAll True a) c) (\<lambda>c1.
          andThen (cn_on_loop (channel_remove True a) c1) (\<lambda>c2.
          chan_at (cn_loop c2) a (\<lambda>ch.
          Inr (ch_fd ch, c2\<lparr>cn_loop := queueInLoop True CnResetChannel (cn_loop c2)\<rparr>)))))"

definition resetChannel :: "connector \<Rightarrow> connector res" where
  "resetChannel c =
     (case cn_channel c of
        None \<Rightarrow> Inr c
      | Some a \<Rightarrow> cn_on_loop (destroyChannel True a) (c\<lparr>cn_channel := None\<rparr>))"

definition stop_cn :: "bool \<Rightarrow> connector \<Rightarrow> connector" where
  "stop_cn inLoop c =
     (let c1 = c\<lparr>cn_connect := False\<rparr>
      in c1\<lparr>cn_loop := queueInLoop inLoop CnStopInLoop (cn_loop c1)\<rparr>)"

definition stopInLoop :: "bool \<Rightarrow> connector \<Rightarrow> connector res" where
  "stopInLoop inLoop c =
     assertInLoopThread inLoop (
     if cn_state c = cConnecting then
       andThen (removeAndResetChannel (c\<lparr>cn_state := cDisconnected\<rparr>)) (\<lambda>(sockfd, c1). Inr (retry sockfd c1))
     else Inr c)"

definition restart_cn :: "nat \<Rightarrow> int \<times> int \<Rightarrow> bool \<Rightarrow> connector \<Rightarrow> connector res" where
  "restart_cn a r inLoop c =
     assertInLoopThread inLoop (
     startInLoop a r inLoop
       (c\<lparr>cn_state := cDisconnected, cn_retryDelayMs := kInitRetryDelayMs, cn_connect := True\<rparr>))"

text \<open>\<open>err\<close> is \<^verbatim>\<open>SO_ERROR\<close>, \<open>self\<close> whether the socket is connected to itself.\<close>

definition handleWrite_cn ::
    "(int \<Rightarrow> connector \<Rightarrow> connector res) \<Rightarrow> int \<Rightarrow> bool \<Rightarrow> connector \<Rightarrow> connector res" where
  "handleWrite_cn newConnection err self c =
     (if cn_state c = cConnecting then
        andThen (removeAndResetChannel c) (\<lambda>(sockfd, c1).
        if err \<noteq> 0 then Inr (retry sockfd c1)
        else if self then Inr (retry sockfd c1)
        else
          let c2 = c1\<lparr>cn_state := cConnected\<rparr>
          in if cn_connect c2 then newConnection sockfd (c2\<lparr>cn_delivered := cn_delivered c2 @ [sockfd]\<rparr>)
             else Inr (cn_close sockfd c2))
      else check (cn_state c = cDisconnected) ''connector.cpp:196'' (Inr c))"

definition handleError_cn :: "connector \<Rightarrow> connector res" where
  "handleError_cn c =
     (if cn_state c = cConnecting then
        andThen (removeAndResetChannel c) (\<lambda>(sockfd, c1). Inr (retry sockfd c1))
      else Inr c)"

section \<open>Invariant\<close>

text \<open>
  While connecting, the channel is registered and no reset is queued. Otherwise there is no
  channel, or one that is no longer registered and that the one queued \<^verbatim>\<open>resetChannel\<close> will destroy;
  the loop is in order without it. Every socket ever created is closed, was handed to the callback,
  or is the one being connected.
\<close>

definition resets :: "connector \<Rightarrow> nat" where
  "resets c = count_list (el_pending (cn_loop c)) CnResetChannel"

definition attached :: "connector \<Rightarrow> int \<Rightarrow> bool" where
  "attached c fd \<longleftrightarrow>
     el_inv (cn_loop c) \<and> resets c = 0 \<and>
     (\<exists>a ch. cn_channel c = Some a \<and> el_channels (cn_loop c) a = Some ch \<and>
        ch_fd ch = fd \<and> el_reg (cn_loop c) fd = Some a)"

definition detached :: "connector \<Rightarrow> bool" where
  "detached c \<longleftrightarrow>
     (case cn_channel c of
        None \<Rightarrow> el_inv (cn_loop c) \<and> resets c = 0
      | Some a \<Rightarrow>
          resets c = 1 \<and> poller_inv (el_poller (cn_loop c), (el_channels (cn_loop c))(a := None)) \<and>
          (\<exists>ch. el_channels (cn_loop c) a = Some ch \<and> el_reg (cn_loop c) (ch_fd ch) = None \<and>
             \<not> ch_addedToLoop ch))"

definition cn_inv :: "connector \<Rightarrow> bool" where
  "cn_inv c \<longleftrightarrow>
     (if cn_state c = cConnecting
      then \<exists>fd. attached c fd \<and> mset (cn_created c) = mset (cn_closed c) + mset (cn_delivered c) + {#fd#}
      else detached c \<and> mset (cn_created c) = mset (cn_closed c) + mset (cn_delivered c))"

text \<open>The channel may be removed now: it is not waiting for its turn in the current dispatch.\<close>

definition removable :: "connector \<Rightarrow> bool" where
  "removable c \<longleftrightarrow>
     (el_eventHandling (cn_loop c) \<longrightarrow>
        (\<forall>a. cn_channel c = Some a \<longrightarrow>
           el_current (cn_loop c) = Some a \<or> a \<notin> set (el_active (cn_loop c))))"

lemma cn_frame [cn_simps]:
  "attached (c\<lparr>cn_state := st\<rparr>) fd = attached c fd" "detached (c\<lparr>cn_state := st\<rparr>) = detached c"
  "attached (c\<lparr>cn_created := x\<rparr>) fd = attached c fd" "detached (c\<lparr>cn_created := x\<rparr>) = detached c"
  "detached (c\<lparr>cn_closed := x\<rparr>) = detached c" "detached (c\<lparr>cn_delivered := x\<rparr>) = detached c"
  "detached (c\<lparr>cn_timers := ts, cn_retryDelayMs := d\<rparr>) = detached c"
  "removable (c\<lparr>cn_state := st\<rparr>) = removable c"
  by (simp_all add: attached_def detached_def resets_def removable_def cong: option.case_cong)

lemma removeAndResetChannel_ok:
  assumes at: "attached c fd" and rem: "removable c"
  shows "\<exists>l. removeAndResetChannel c = Inr (fd, c\<lparr>cn_loop := l\<rparr>) \<and> detached (c\<lparr>cn_loop := l\<rparr>)"
proof -
  let ?s = "cn_loop c"
  obtain a ch where a: "cn_channel c = Some a" and ch: "el_channels ?s a = Some ch" "ch_fd ch = fd"
    and reg: "el_reg ?s (ch_fd ch) = Some a" and inv: "el_inv ?s" and rs: "resets c = 0"
    using at by (auto simp: attached_def)
  have api: "api_events (ev_disableAll (ch_events ch))" "ev_disableAll (ch_events ch) = 0"
    by (simp_all add: ev_disableAll_def kNoneEvent_def api_events_def)
  from channel_set_ok [where f = ev_disableAll, OF inv ch(1) api(1)] reg obtain p i where
    d: "disableAll True a ?s = Inr (?s\<lparr>el_poller := p, el_channels := (el_channels ?s)
         (a \<mapsto> ch\<lparr>ch_events := 0, ch_addedToLoop := True, ch_index := i\<rparr>)\<rparr>)"
    "poller_inv (p, (el_channels ?s)(a \<mapsto> ch\<lparr>ch_events := 0, ch_addedToLoop := True, ch_index := i\<rparr>))"
    "poller_channels p = (el_reg ?s)(ch_fd ch \<mapsto> a)" by (auto simp: disableAll_def api)
  define ch1 where "ch1 = ch\<lparr>ch_events := 0, ch_addedToLoop := True, ch_index := i\<rparr>"
  define s1 where "s1 = ?s\<lparr>el_poller := p, el_channels := (el_channels ?s)(a \<mapsto> ch1)\<rparr>"
  have s1: "el_inv s1" "el_channels s1 a = Some ch1" "ch_events ch1 = 0" "el_reg s1 (ch_fd ch1) = Some a"
    using d(2,3) by (simp_all add: s1_def ch1_def el_upd_simps)
  have quiet: "el_interest s1 (ch_fd ch1) = None"
    using el_interest_reg [OF s1(1,2,4)] s1(3) by (simp add: nonzero_def)
  have act: "el_eventHandling s1 \<Longrightarrow> el_current s1 = Some a \<or> a \<notin> set (el_active s1)"
    using rem a by (simp add: s1_def removable_def)
  from channel_remove_ok [OF s1 quiet act] obtain p2 h2 j where
    r: "channel_remove True a s1 = Inr (s1\<lparr>el_poller := p2, el_channels := h2\<rparr>)"
    "h2 a = Some (ch1\<lparr>ch_addedToLoop := False, ch_index := j\<rparr>)" "poller_inv (p2, h2(a := None))"
    "poller_channels p2 = (el_reg s1)(ch_fd ch1 := None)" by blast
  define l where "l = queueInLoop True CnResetChannel (s1\<lparr>el_poller := p2, el_channels := h2\<rparr>)"
  have l: "el_poller l = p2" "el_channels l = h2" "el_pending l = el_pending ?s @ [CnResetChannel]"
    by (simp_all add: l_def s1_def queueInLoop_def wakeup_def Let_def)
  have "removeAndResetChannel c = Inr (fd, c\<lparr>cn_loop := l\<rparr>)"
    using a d(1) r(1,2) ch(2)
    by (simp add: removeAndResetChannel_def cn_on_loop_def s1_def [symmetric] ch1_def [symmetric] chan_at_def l_def)
      (simp add: ch1_def)
  moreover have "detached (c\<lparr>cn_loop := l\<rparr>)"
    using a l r(2-4) rs by (simp add: detached_def resets_def el_reg_def ch1_def)
  ultimately show ?thesis by blast
qed

lemma retry_inv:
  assumes "detached c" and "mset (cn_created c) = mset (cn_closed c) + mset (cn_delivered c) + {#fd#}"
  shows "cn_inv (retry fd c)"
  using assms by (simp add: cn_inv_def retry_def cn_close_def Let_def cn_simps)

lemma connecting_ok:
  assumes inv: "el_inv (cn_loop c)" and rs: "resets c = 0" and none: "cn_channel c = None"
    and fresh: "el_channels (cn_loop c) a = None" and fd: "0 \<le> fd" and free: "el_reg (cn_loop c) fd = None"
  shows "\<exists>l. connecting a fd c = Inr (c\<lparr>cn_state := cConnecting, cn_channel := Some a, cn_loop := l\<rparr>) \<and>
     attached (c\<lparr>cn_state := cConnecting, cn_channel := Some a, cn_loop := l\<rparr>) fd"
proof -
  define ch where "ch = setErrorCallback CnHandleError (setWriteCallback CnHandleWrite (newChannel fd))"
  define l0 where "l0 = put_chan a ch (cn_loop c)"
  have ch: "ch_fd ch = fd" "ch_events ch = 0" "ch_index ch = -1"
    by (simp_all add: ch_def setErrorCallback_def setWriteCallback_def newChannel_def)
  have l0: "el_inv l0" "el_channels l0 a = Some ch" "el_reg l0 = el_reg (cn_loop c)"
    "el_pending l0 = el_pending (cn_loop c)"
    using inv fresh fd ch by (auto simp: l0_def el_inv_def put_chan_def el_reg_def intro!: poller_inv_new_channel)
  have ev: "api_events (ev_enableWriting (ch_events ch))" "ev_enableWriting (ch_events ch) \<noteq> 0"
    using ch by (simp_all add: ev_enableWriting_def kWriteEvent_def poll_masks api_events_def)
  from channel_set_ok [where f = ev_enableWriting, OF l0(1,2) ev(1)] ev(2) free ch(1) l0(3) obtain p i where
    e: "enableWriting True a l0 = Inr (l0\<lparr>el_poller := p, el_channels := (el_channels l0)(a \<mapsto>
         ch\<lparr>ch_events := ev_enableWriting (ch_events ch), ch_addedToLoop := True, ch_index := i\<rparr>)\<rparr>)"
    "poller_inv (p, (el_channels l0)(a \<mapsto>
         ch\<lparr>ch_events := ev_enableWriting (ch_events ch), ch_addedToLoop := True, ch_index := i\<rparr>))"
    "poller_channels p = (el_reg l0)(fd \<mapsto> a)" by (auto simp: enableWriting_def)
  define l where "l = l0\<lparr>el_poller := p, el_channels := (el_channels l0)(a \<mapsto>
         ch\<lparr>ch_events := ev_enableWriting (ch_events ch), ch_addedToLoop := True, ch_index := i\<rparr>)\<rparr>"
  have "connecting a fd c = Inr (c\<lparr>cn_state := cConnecting, cn_channel := Some a, cn_loop := l\<rparr>)"
    using none e(1) by (simp add: connecting_def cn_on_loop_def ch_def [symmetric] l0_def [symmetric] l_def)
  moreover have "attached (c\<lparr>cn_state := cConnecting, cn_channel := Some a, cn_loop := l\<rparr>) fd"
    using e(2,3) rs l0(4) ch(1) by (simp add: attached_def resets_def l_def el_upd_simps)
  ultimately show ?thesis by blast
qed

section \<open>Properties\<close>

text \<open>
  What happens to a connector in its loop thread: \<^verbatim>\<open>startInLoop\<close> (called by \<^verbatim>\<open>start\<close>, queued, or by the
  retry timer), the write and the error event of the channel, and the two queued functors, which
  leave the queue when they run.
\<close>

datatype cn_op =
    CnStart nat "int \<times> int"
  | CnWritable int bool
  | CnErrorEvent
  | CnStop
  | CnReset

definition unqueue :: "cn_functor \<Rightarrow> connector \<Rightarrow> connector" where
  "unqueue f c = c\<lparr>cn_loop := (cn_loop c)\<lparr>el_pending := remove1 f (el_pending (cn_loop c))\<rparr>\<rparr>"

fun cn_step :: "(int \<Rightarrow> connector \<Rightarrow> connector res) \<Rightarrow> cn_op \<Rightarrow> connector \<Rightarrow> connector res" where
  "cn_step user (CnStart a r) c = startInLoop a r True c"
| "cn_step user (CnWritable err self) c = handleWrite_cn user err self c"
| "cn_step user CnErrorEvent c = handleError_cn c"
| "cn_step user CnStop c = stopInLoop True (unqueue CnStopInLoop c)"
| "cn_step user CnReset c = resetChannel (unqueue CnResetChannel c)"

text \<open>
  A start finds no attempt in progress and the channel of the last one gone; the kernel hands out
  unused descriptors and the allocator unused addresses; the channel reports events only while it
  is registered; a functor runs only if it was queued, and \<^verbatim>\<open>resetChannel\<close> not within the channel's own
  event handling.
\<close>

fun cn_op_ok :: "cn_op \<Rightarrow> connector \<Rightarrow> bool" where
  "cn_op_ok (CnStart a r) c \<longleftrightarrow>
     cn_state c = cDisconnected \<and> cn_channel c = None \<and> el_channels (cn_loop c) a = None \<and>
     0 \<le> fst r \<and> el_reg (cn_loop c) (fst r) = None"
| "cn_op_ok (CnWritable err self) c \<longleftrightarrow> cn_state c = cConnecting \<and> removable c"
| "cn_op_ok CnErrorEvent c \<longleftrightarrow> removable c"
| "cn_op_ok CnStop c \<longleftrightarrow> removable c"
| "cn_op_ok CnReset c \<longleftrightarrow>
     0 < resets c \<and>
     (\<forall>a ch. cn_channel c = Some a \<and> el_channels (cn_loop c) a = Some ch \<longrightarrow> \<not> ch_eventHandling ch)"

definition cn_user_law :: "(int \<Rightarrow> connector \<Rightarrow> connector res) \<Rightarrow> bool" where
  "cn_user_law user \<longleftrightarrow> (\<forall>fd c. cn_inv c \<longrightarrow> (\<exists>c'. user fd c = Inr c' \<and> cn_inv c'))"

lemma unqueue_stop: "cn_inv (unqueue CnStopInLoop c) = cn_inv c" "removable (unqueue CnStopInLoop c) = removable c"
proof -
  have "count_list (remove1 CnStopInLoop xs) CnResetChannel = count_list xs CnResetChannel" for xs
    by (induction xs) auto
  then show "cn_inv (unqueue CnStopInLoop c) = cn_inv c" "removable (unqueue CnStopInLoop c) = removable c"
    by (simp_all add: cn_inv_def attached_def detached_def unqueue_def resets_def removable_def el_inv_def el_reg_def
        cong: option.case_cong)
qed

lemma remove_retry_ok:
  assumes inv: "cn_inv c" and st: "cn_state c = cConnecting" and rem: "removable c"
  shows "\<exists>sockfd c1. removeAndResetChannel (c\<lparr>cn_state := st\<rparr>) = Inr (sockfd, c1\<lparr>cn_state := st\<rparr>) \<and> detached c1 \<and>
     mset (cn_created c1) = mset (cn_closed c1) + mset (cn_delivered c1) + {#sockfd#} \<and>
     cn_connect c1 = cn_connect c"
proof -
  obtain fd where at: "attached c fd"
    and fds: "mset (cn_created c) = mset (cn_closed c) + mset (cn_delivered c) + {#fd#}"
    using inv st by (auto simp: cn_inv_def)
  from removeAndResetChannel_ok [of "c\<lparr>cn_state := st\<rparr>" fd] at rem obtain l where
    "removeAndResetChannel (c\<lparr>cn_state := st\<rparr>) = Inr (fd, c\<lparr>cn_state := st, cn_loop := l\<rparr>)"
    "detached (c\<lparr>cn_state := st, cn_loop := l\<rparr>)" by (auto simp: cn_simps)
  moreover have "c\<lparr>cn_state := st, cn_loop := l\<rparr> = c\<lparr>cn_loop := l\<rparr>\<lparr>cn_state := st\<rparr>" by simp
  ultimately show ?thesis using fds by (intro exI [of _ fd] exI [of _ "c\<lparr>cn_loop := l\<rparr>"]) (simp add: cn_simps)
qed

lemma start_ok:
  assumes inv: "cn_inv c" and ok: "cn_op_ok (CnStart a r) c"
  shows "\<exists>c'. startInLoop a r True c = Inr c' \<and> cn_inv c'"
proof -
  obtain fd e where r: "r = (fd, e)" by (cases r)
  have pre: "cn_state c = cDisconnected" "cn_channel c = None" "el_channels (cn_loop c) a = None"
    "0 \<le> fd" "el_reg (cn_loop c) fd = None" using ok r by simp_all
  have det: "detached c" and fds: "mset (cn_created c) = mset (cn_closed c) + mset (cn_delivered c)"
    using inv pre(1) by (simp_all add: cn_inv_def)
  have l: "el_inv (cn_loop c)" "resets c = 0" using det pre(2) by (simp_all add: detached_def)
  let ?c = "c\<lparr>cn_created := cn_created c @ [fd]\<rparr>"
  have "\<exists>l. connecting a fd ?c = Inr (?c\<lparr>cn_state := cConnecting, cn_channel := Some a, cn_loop := l\<rparr>) \<and>
     attached (?c\<lparr>cn_state := cConnecting, cn_channel := Some a, cn_loop := l\<rparr>) fd"
    using l pre by (intro connecting_ok) (simp_all add: resets_def)
  then obtain l' where
    l': "connecting a fd ?c = Inr (?c\<lparr>cn_state := cConnecting, cn_channel := Some a, cn_loop := l'\<rparr>)"
    "attached (?c\<lparr>cn_state := cConnecting, cn_channel := Some a, cn_loop := l'\<rparr>) fd" by blast
  have "cn_inv (?c\<lparr>cn_state := cConnecting, cn_channel := Some a, cn_loop := l'\<rparr>)"
    unfolding cn_inv_def using l'(2) fds by auto
  moreover have "cn_inv (retry fd ?c)" using det fds by (intro retry_inv) (simp_all add: cn_simps)
  moreover have "cn_inv (cn_close fd ?c)"
    using det fds pre(1) by (simp add: cn_inv_def cn_close_def cn_simps)
  ultimately show ?thesis
    using inv pre(1) l'(1) r by (simp add: startInLoop_def connect_def Let_def)
qed

lemma handleWrite_cn_ok:
  assumes inv: "cn_inv c" and law: "cn_user_law user" and st: "cn_state c = cConnecting" and rem: "removable c"
  shows "\<exists>c'. handleWrite_cn user err self c = Inr c' \<and> cn_inv c'"
proof -
  have "c\<lparr>cn_state := cConnecting\<rparr> = c" using st by simp
  with remove_retry_ok [OF inv st rem, of cConnecting] obtain fd c1 where
    c1: "removeAndResetChannel c = Inr (fd, c1\<lparr>cn_state := cConnecting\<rparr>)" "detached c1"
    "mset (cn_created c1) = mset (cn_closed c1) + mset (cn_delivered c1) + {#fd#}" by auto
  have "cn_inv (retry fd (c1\<lparr>cn_state := cConnecting\<rparr>))"
    using c1(2,3) by (intro retry_inv) (simp_all add: cn_simps)
  moreover have "cn_inv (c1\<lparr>cn_state := cConnected, cn_delivered := cn_delivered c1 @ [fd]\<rparr>)"
    "cn_inv (cn_close fd (c1\<lparr>cn_state := cConnected\<rparr>))"
    using c1(2,3) by (simp_all add: cn_inv_def cn_close_def cn_simps)
  ultimately show ?thesis
    using c1(1) st law by (auto simp: handleWrite_cn_def cn_user_law_def Let_def)
qed

lemma resetChannel_ok:
  assumes inv: "cn_inv c" and ok: "cn_op_ok CnReset c"
  shows "\<exists>c'. resetChannel (unqueue CnResetChannel c) = Inr c' \<and> cn_inv c' \<and> cn_channel c' = None"
proof -
  have rs: "0 < resets c" using ok by simp
  then have st: "cn_state c \<noteq> cConnecting" using inv by (auto simp: cn_inv_def attached_def)
  then have det: "detached c" using inv by (simp add: cn_inv_def)
  then obtain a where a: "cn_channel c = Some a" using rs by (cases "cn_channel c") (auto simp: detached_def)
  obtain ch where ch: "el_channels (cn_loop c) a = Some ch" "el_reg (cn_loop c) (ch_fd ch) = None"
    "\<not> ch_addedToLoop ch" and one: "resets c = 1"
    and p: "poller_inv (el_poller (cn_loop c), (el_channels (cn_loop c))(a := None))"
    using det a by (auto simp: detached_def)
  have eh: "\<not> ch_eventHandling ch" using ok a ch(1) by simp
  have cnt: "count_list (remove1 CnResetChannel xs) CnResetChannel = count_list xs CnResetChannel - 1" for xs
    by (induction xs) auto
  define l where "l = (cn_loop c)\<lparr>el_pending := remove1 CnResetChannel (el_pending (cn_loop c)),
    el_channels := (el_channels (cn_loop c))(a := None)\<rparr>"
  have "resetChannel (unqueue CnResetChannel c) = Inr (c\<lparr>cn_channel := None, cn_loop := l\<rparr>)"
    using a ch eh
    by (simp add: resetChannel_def unqueue_def cn_on_loop_def destroyChannel_def chan_at_def el_hasChannel_def
        hasChannel_def el_reg_def l_def)
  moreover have "detached (c\<lparr>cn_channel := None, cn_loop := l\<rparr>)"
    using p one cnt by (simp add: detached_def resets_def el_inv_def l_def)
  ultimately show ?thesis
    using inv st by (intro exI [of _ "c\<lparr>cn_channel := None, cn_loop := l\<rparr>"]) (simp add: cn_inv_def)
qed

lemma cn_step_ok:
  assumes "cn_inv c" and "cn_user_law user" and "cn_op_ok op c"
  shows "\<exists>c'. cn_step user op c = Inr c' \<and> cn_inv c'"
proof (cases op)
  case (CnStart a r)
  then show ?thesis using assms start_ok [of c a r] by simp
next
  case (CnWritable err self)
  then show ?thesis using assms handleWrite_cn_ok [OF assms(1,2), of err self] by simp
next
  case CnErrorEvent
  show ?thesis
  proof (cases "cn_state c = cConnecting")
    case True
    then have "c\<lparr>cn_state := cConnecting\<rparr> = c" by simp
    with remove_retry_ok [OF assms(1) True, of cConnecting] assms(3) CnErrorEvent True show ?thesis
      by (auto simp: handleError_cn_def cn_simps intro!: retry_inv)
  qed (use CnErrorEvent assms(1) in \<open>simp add: handleError_cn_def\<close>)
next
  case CnStop
  let ?c = "unqueue CnStopInLoop c"
  have inv: "cn_inv ?c" and rem: "removable ?c" using assms CnStop by (simp_all add: unqueue_stop)
  show ?thesis
  proof (cases "cn_state ?c = cConnecting")
    case True
    with remove_retry_ok [OF inv True rem, of cDisconnected] CnStop show ?thesis
      by (auto simp: stopInLoop_def cn_simps intro!: retry_inv)
  qed (use CnStop inv in \<open>simp add: stopInLoop_def\<close>)
next
  case CnReset
  then show ?thesis using assms resetChannel_ok [of c] by auto
qed

text \<open>A connector on a loop of its own.\<close>

definition demo_cn :: connector where
  "demo_cn = (newConnector \<lparr>el_looping = True, el_quit = False, el_eventHandling = False,
      el_callingPending = False, el_iteration = 0, el_poller = newDefaultPoller True,
      el_channels = Map.empty, el_active = [], el_current = None, el_pending = [], el_wakeups = 0\<rparr>)
      \<lparr>cn_connect := True\<rparr>"

lemma demo_cn_inv: "cn_inv demo_cn" "cn_op_ok (CnStart 1 (5, 115)) demo_cn"
  using fresh_poller_inv [of True]
  by (simp_all add: demo_cn_def newConnector_def cn_inv_def detached_def resets_def el_inv_def el_reg_def)

text \<open>
  Back-off: \<open>n\<close> failed attempts in a row after construction or \<^verbatim>\<open>restart\<close> schedule retries after
  0.5, 1, 2, 4, 8, 16 and then always 30 seconds; every failed socket is closed.
\<close>

theorem retry_backoff:
  assumes "cn_connect c" and "cn_retryDelayMs c = kInitRetryDelayMs"
  shows "fold retry fds c = c\<lparr>cn_state := if fds = [] then cn_state c else cDisconnected,
     cn_closed := cn_closed c @ fds,
     cn_timers := cn_timers c @ map (\<lambda>k. to_double (of_int (min (500 * 2 ^ k) 30000) / 1000)) [0..<length fds],
     cn_retryDelayMs := min (500 * 2 ^ length fds) 30000\<rparr>"
proof (induction fds rule: rev_induct)
  case Nil
  then show ?case using assms by (simp add: kInitRetryDelayMs_def)
next
  case (snoc fd fds)
  have "min (min (500 * 2 ^ length fds) 30000 * 2) 30000 = min (500 * 2 ^ Suc (length fds)) (30000 :: int)"
    by (simp add: min_def)
  with snoc assms(1) show ?case
    by (simp add: retry_def cn_close_def Let_def kMaxRetryDelayMs_def)
qed

theorem retry_backoff_witness:
  "cn_timers (fold retry [3, 4, 5] demo_cn) = map (\<lambda>k. to_double (of_int (min (500 * 2 ^ k) 30000) / 1000)) [0..<3]"
  using retry_backoff [of demo_cn "[3, 4, 5]"]
  by (simp add: demo_cn_def newConnector_def numeral_3_eq_3)

text \<open>
  C38. Stopping and starting again from another thread while a connect is in progress: both calls
  only queue a functor. \<^verbatim>\<open>stopInLoop\<close> then removes the channel but leaves its destruction to a functor
  queued behind \<^verbatim>\<open>startInLoop\<close>, whose connect finds the old channel and fails the assertion.
\<close>

theorem stop_start_race:
  assumes "cn_inv c" and "cn_state c = cConnecting" and "removable c" and "e \<in> set errnos_connecting"
  shows "\<exists>c1 c2. start_cn a r False (stop_cn False c) = Inr c1 \<and>
     el_pending (cn_loop c1) = el_pending (cn_loop c) @ [CnStopInLoop, CnStartInLoop] \<and>
     cn_step user CnStop c1 = Inr c2 \<and>
     startInLoop a (fd, e) True c2 = Inl (Assertion ''connector.cpp:131'')"
proof -
  define c1 where "c1 = c\<lparr>cn_connect := True, cn_loop :=
    queueInLoop False CnStartInLoop (queueInLoop False CnStopInLoop (cn_loop c))\<rparr>"
  define d where "d = unqueue CnStopInLoop c1"
  have c1: "start_cn a r False (stop_cn False c) = Inr c1"
    by (simp add: start_cn_def stop_cn_def c1_def Let_def)
  have pend: "el_pending (cn_loop c1) = el_pending (cn_loop c) @ [CnStopInLoop, CnStartInLoop]"
    by (simp add: c1_def queueInLoop_def wakeup_def Let_def)
  obtain sfd where at: "attached c sfd" using assms(1,2) by (auto simp: cn_inv_def)
  have cnt: "count_list (remove1 CnStopInLoop xs) CnResetChannel = count_list xs CnResetChannel" for xs
    by (induction xs) auto
  have "attached d sfd"
    using at cnt pend
    by (auto simp: attached_def d_def unqueue_def resets_def c1_def queueInLoop_def wakeup_def Let_def el_inv_def el_reg_def)
  moreover have "removable d"
    using assms(3) by (simp add: removable_def d_def unqueue_def c1_def queueInLoop_def wakeup_def Let_def)
  ultimately obtain l where
    l: "removeAndResetChannel (d\<lparr>cn_state := cDisconnected\<rparr>) = Inr (sfd, d\<lparr>cn_state := cDisconnected, cn_loop := l\<rparr>)"
    using removeAndResetChannel_ok [of "d\<lparr>cn_state := cDisconnected\<rparr>" sfd] by (auto simp: cn_simps)
  define c2 where "c2 = retry sfd (d\<lparr>cn_state := cDisconnected, cn_loop := l\<rparr>)"
  have "cn_state d = cConnecting" using assms(2) by (simp add: d_def unqueue_def c1_def)
  then have "cn_step user CnStop c1 = Inr c2" using l by (simp add: stopInLoop_def d_def [symmetric] c2_def)
  moreover have "startInLoop a (fd, e) True c2 = Inl (Assertion ''connector.cpp:131'')"
    using at assms(4)
    by (auto simp: c2_def retry_def cn_close_def Let_def startInLoop_def connect_def connecting_def d_def unqueue_def
        c1_def attached_def check_def)
  ultimately show ?thesis using c1 pend by blast
qed

theorem stop_start_race_witness:
  "\<exists>c c1 c2. cn_state c = cConnecting \<and> start_cn 2 (6, 115) False (stop_cn False c) = Inr c1 \<and>
     cn_step (\<lambda>fd c. Inr c) CnStop c1 = Inr c2 \<and>
     startInLoop 2 (6, 115) True c2 = Inl (Assertion ''connector.cpp:131'')"
proof -
  from demo_cn_inv fresh_poller_inv [of True] obtain l where
    l: "connecting 1 5 demo_cn = Inr (demo_cn\<lparr>cn_state := cConnecting, cn_channel := Some 1, cn_loop := l\<rparr>)"
    "attached (demo_cn\<lparr>cn_state := cConnecting, cn_channel := Some 1, cn_loop := l\<rparr>) 5"
    using connecting_ok [of demo_cn 1 5]
    by (auto simp: demo_cn_def newConnector_def el_inv_def el_reg_def resets_def)
  let ?c = "demo_cn\<lparr>cn_state := cConnecting, cn_channel := Some 1, cn_loop := l, cn_created := [5]\<rparr>"
  have "cn_inv ?c" using l(2) by (auto simp: cn_inv_def attached_def resets_def demo_cn_def newConnector_def)
  moreover have "removable ?c"
    using l(1)
    by (auto simp: removable_def demo_cn_def newConnector_def connecting_def cn_on_loop_def enableWriting_def
        channel_set_def chan_at_def channel_update_def put_chan_def el_updateChannel_def with_poller_def andThen_Inr_iff)
  moreover have st: "cn_state ?c = cConnecting" by simp
  moreover have "115 \<in> set errnos_connecting" by (simp add: errnos_connecting_def)
  ultimately show ?thesis
    using stop_start_race [of ?c 115 2 "(6, 115)" "\<lambda>fd c. Inr c" 6] st by blast
qed

end
