(* ===== verification/Kaycc_Locality.thy ===== *)
theory Kaycc_Locality
  imports Kaycc_ConnectionLife
begin

text \<open>
  What an operation of a TcpConnection leaves alone. All connections of a loop share its poller and its
  store of channels, so a property of one connection survives what another one does only if every
  operation is confined to the channel of its own connection. The confinement follows from the code of the
  operations alone, without the invariant. The locale \<open>conn_user\<close> is the contract of the user's
  callbacks under which all handlers of a connection are confined and close it at most once.
\<close>

named_theorems confined_intros "operations that are confined to the channel of a connection"

section \<open>Confinement in a loop\<close>

text \<open>
  Of its own channel an operation changes the events, the index and the registration flag; of the others
  at most the index, which \<^verbatim>\<open>PollPoller::removeChannel\<close> rewrites for the entry that fills the gap.
\<close>

definition no_index :: "'cb channel \<Rightarrow> 'cb channel" where
  "no_index ch = ch\<lparr>ch_index := 0\<rparr>"

definition identity :: "'cb channel \<Rightarrow> 'cb channel" where
  "identity ch = ch\<lparr>ch_index := 0, ch_events := 0, ch_addedToLoop := False\<rparr>"

definition others_kept :: "nat \<Rightarrow> ('f, 'cb) loop \<Rightarrow> ('f, 'cb) loop \<Rightarrow> bool" where
  "others_kept a l l' \<longleftrightarrow>
     (\<forall>b. b \<noteq> a \<longrightarrow> map_option no_index (el_channels l' b) = map_option no_index (el_channels l b)) \<and>
     (\<forall>b fd. b \<noteq> a \<longrightarrow> el_reg l' fd = Some b \<longleftrightarrow> el_reg l fd = Some b) \<and>
     el_eventHandling l' = el_eventHandling l"

definition confined_to :: "nat \<Rightarrow> ('f, 'cb) loop \<Rightarrow> ('f, 'cb) loop \<Rightarrow> bool" where
  "confined_to a l l' \<longleftrightarrow>
     others_kept a l l' \<and> map_option identity (el_channels l' a) = map_option identity (el_channels l a)"

lemma others_kept_refl [simp]: "others_kept a l l"
  by (simp add: others_kept_def)

lemma others_kept_trans: "others_kept a l m \<Longrightarrow> others_kept a m n \<Longrightarrow> others_kept a l n"
  by (simp add: others_kept_def)

lemma others_kept_chan:
  assumes "others_kept a l l'" and "el_channels l b = Some ch" and "b \<noteq> a"
  obtains i where "el_channels l' b = Some (ch\<lparr>ch_index := i\<rparr>)"
proof -
  have "map_option no_index (el_channels l' b) = Some (no_index ch)"
    using assms by (simp add: others_kept_def)
  then obtain ch' where ch': "el_channels l' b = Some ch'" "no_index ch' = no_index ch" by auto
  then have "ch' = ch\<lparr>ch_index := ch_index ch'\<rparr>" by (cases ch; cases ch') (simp add: no_index_def)
  with ch'(1) that show thesis by metis
qed

lemma confined_to_refl [simp]: "confined_to a l l"
  by (simp add: confined_to_def)

lemma confined_to_trans: "confined_to a l m \<Longrightarrow> confined_to a m n \<Longrightarrow> confined_to a l n"
  by (auto simp: confined_to_def intro: others_kept_trans)

lemma confined_to_chan:
  assumes "confined_to a l l'" and "el_channels l a = Some ch"
  obtains ch' where "el_channels l' a = Some ch'" and "identity ch' = identity ch"
  using assms by (auto simp: confined_to_def)

lemma identityD:
  assumes "identity ch' = identity ch"
  shows "ch_fd ch' = ch_fd ch" "ch_eventHandling ch' = ch_eventHandling ch" "ch_revents ch' = ch_revents ch"
    "ch_tied ch' = ch_tied ch" "ch_tie ch' = ch_tie ch" "ch_readCallback ch' = ch_readCallback ch"
    "ch_writeCallback ch' = ch_writeCallback ch" "ch_closeCallback ch' = ch_closeCallback ch"
    "ch_errorCallback ch' = ch_errorCallback ch"
  using assms by (cases ch; cases ch'; simp add: identity_def)+

lemma ep_reg_frame:
  assumes "ep_updateChannel b c (p, h) = Inr (p', h') \<or> ep_removeChannel b c (p, h) = Inr (p', h')" and "d \<noteq> c"
  shows "ep_channels p' fd = Some d \<longleftrightarrow> ep_channels p fd = Some d"
  using assms
  by (auto simp: ep_updateChannel_def ep_removeChannel_def ep_update_def assertInLoopThread_def check_def
      Let_def deref_def andThen_Inr_iff split: if_splits option.splits)

lemma pp_reg_frame:
  assumes "pp_updateChannel b c (p, h) = Inr (p', h') \<or> pp_removeChannel b c (p, h) = Inr (p', h')" and "d \<noteq> c"
  shows "pp_channels p' fd = Some d \<longleftrightarrow> pp_channels p fd = Some d"
  using assms
  by (auto simp: pp_updateChannel_def pp_removeChannel_def assertInLoopThread_def check_def
      Let_def deref_def andThen_Inr_iff split: if_splits option.splits)

lemma poller_reg_frame:
  assumes "poller_updateChannel b c (p, h) = Inr (p', h') \<or> poller_removeChannel b c (p, h) = Inr (p', h')"
    and "d \<noteq> c"
  shows "poller_channels p' fd = Some d \<longleftrightarrow> poller_channels p fd = Some d"
  using assms ep_reg_frame pp_reg_frame by (cases p) (fastforce simp: andThen_Inr_iff)+

lemma deref_Inr_iff: "deref h c k = Inr x \<longleftrightarrow> (\<exists>ch. h c = Some ch \<and> k ch = Inr x)"
  by (simp add: deref_def split: option.splits)

lemma assertInLoopThread_Inr_iff: "assertInLoopThread b k = Inr x \<longleftrightarrow> b \<and> k = Inr x"
  by (simp add: assertInLoopThread_def)

lemmas loop_inr = assertInLoopThread_Inr_iff check_Inr_iff chan_at_def deref_Inr_iff andThen_Inr_iff with_poller_def

lemma channel_set_confined:
  assumes "channel_set f b a l = Inr l'"
  shows "confined_to a l l' \<and> el_pending l' = el_pending l"
proof -
  from assms obtain ch p h' where ch: "el_channels l a = Some ch"
    and up: "poller_updateChannel b a (el_poller l,
        (el_channels l)(a \<mapsto> ch\<lparr>ch_events := f (ch_events ch), ch_addedToLoop := True\<rparr>)) = Inr (p, h')"
    and l': "l' = l\<lparr>el_poller := p, el_channels := h'\<rparr>"
    by (auto simp: channel_set_def channel_update_def el_updateChannel_def put_chan_def loop_inr)
  from poller_update_frame [OF up, of "ch\<lparr>ch_events := f (ch_events ch), ch_addedToLoop := True\<rparr>"] obtain i where
    i: "h' = (el_channels l)(a \<mapsto> ch\<lparr>ch_events := f (ch_events ch), ch_addedToLoop := True, ch_index := i\<rparr>)" by auto
  have "poller_channels p fd = Some d \<longleftrightarrow> el_reg l fd = Some d" if "d \<noteq> a" for d fd
    using poller_reg_frame [OF disjI1 [OF up] that] by (simp add: el_reg_def)
  then show ?thesis by (simp add: l' i confined_to_def others_kept_def el_reg_def ch identity_def)
qed

lemma channel_remove_confined:
  assumes "channel_remove b a l = Inr l'"
  shows "confined_to a l l' \<and> el_pending l' = el_pending l"
proof -
  from assms obtain ch p h' where ch: "el_channels l a = Some ch"
    and rm: "poller_removeChannel b a (el_poller l, (el_channels l)(a \<mapsto> ch\<lparr>ch_addedToLoop := False\<rparr>)) = Inr (p, h')"
    and l': "l' = l\<lparr>el_poller := p, el_channels := h'\<rparr>"
    by (auto simp: channel_remove_def el_removeChannel_def put_chan_def loop_inr)
  have "map_option no_index (h' d) = map_option no_index (el_channels l d)" if "d \<noteq> a" for d
    using poller_remove_frame [OF rm, of d] that by (cases "el_channels l d") (auto simp: no_index_def)
  moreover have "map_option identity (h' a) = map_option identity (el_channels l a)"
    using poller_remove_frame [OF rm, of a] ch by (auto simp: identity_def)
  moreover have "poller_channels p fd = Some d \<longleftrightarrow> el_reg l fd = Some d" if "d \<noteq> a" for d fd
    using poller_reg_frame [OF disjI2 [OF rm] that] by (simp add: el_reg_def)
  ultimately show ?thesis by (simp add: l' confined_to_def others_kept_def el_reg_def)
qed

lemma queueInLoop_confined: "confined_to a l (queueInLoop b f l)"
  by (simp add: confined_to_def others_kept_def conn_simps) (simp add: queueInLoop_def wakeup_def Let_def)

section \<open>Confined operations of a connection\<close>

text \<open>
  \<^verbatim>\<open>startRead\<close> is the one operation that may be queued behind the closing of the connection and then has
  an effect (see \<open>start_read_after_close\<close>), so confined operations do not queue it.
\<close>

definition confined :: "conn \<Rightarrow> conn \<Rightarrow> bool" where
  "confined c c' \<longleftrightarrow>
     tc_chan c' = tc_chan c \<and> confined_to (tc_chan c) (tc_loop c) (tc_loop c') \<and>
     (\<exists>fs. el_pending (tc_loop c') = el_pending (tc_loop c) @ fs \<and> FStartRead \<notin> set fs)"

lemma confined_refl [simp, confined_intros]: "confined c c"
  by (simp add: confined_def)

lemma confined_trans [trans]:
  assumes "confined c d" and "confined d e"
  shows "confined c e"
proof -
  from assms obtain fs gs where
    "el_pending (tc_loop e) = el_pending (tc_loop c) @ (fs @ gs)" "FStartRead \<notin> set (fs @ gs)"
    by (auto simp: confined_def)
  moreover have "confined_to (tc_chan c) (tc_loop c) (tc_loop e)" "tc_chan e = tc_chan c"
    using assms by (auto simp: confined_def intro: confined_to_trans)
  ultimately show ?thesis unfolding confined_def by blast
qed

text \<open>Only the loop and the address of the channel count.\<close>

lemma confined_upd [simp]:
  "confined c (d\<lparr>tc_state := st\<rparr>) = confined c d" "confined c (d\<lparr>tc_input := b\<rparr>) = confined c d"
  "confined c (d\<lparr>tc_output := b\<rparr>) = confined c d" "confined c (d\<lparr>tc_shut := s\<rparr>) = confined c d"
  "confined c (d\<lparr>tc_wire := w\<rparr>) = confined c d" "confined c (d\<lparr>tc_accepted := w\<rparr>) = confined c d"
  "confined c (d\<lparr>tc_reading := s\<rparr>) = confined c d" "confined c (d\<lparr>tc_closes := n\<rparr>) = confined c d"
  "confined c (d\<lparr>tc_delayed := r\<rparr>) = confined c d"
  "confined (c\<lparr>tc_state := st\<rparr>) d = confined c d" "confined (c\<lparr>tc_input := b\<rparr>) d = confined c d"
  "confined (c\<lparr>tc_output := b\<rparr>) d = confined c d" "confined (c\<lparr>tc_shut := s\<rparr>) d = confined c d"
  "confined (c\<lparr>tc_wire := w\<rparr>) d = confined c d" "confined (c\<lparr>tc_accepted := w\<rparr>) d = confined c d"
  "confined (c\<lparr>tc_reading := s\<rparr>) d = confined c d" "confined (c\<lparr>tc_closes := n\<rparr>) d = confined c d"
  by (simp_all add: confined_def)

lemma confined_queue [confined_intros]: "f \<noteq> FStartRead \<Longrightarrow> confined c (conn_queue b f c)"
  using queueInLoop_confined [of "tc_chan c" "tc_loop c" b f]
  by (simp add: confined_def conn_queue_def queueInLoop_def wakeup_def Let_def)

lemma confined_set:
  assumes "on_loop (channel_set f b (tc_chan c)) c = Inr c'"
  shows "confined c c' \<and> tc_state c' = tc_state c \<and> tc_closes c' = tc_closes c \<and>
     el_pending (tc_loop c') = el_pending (tc_loop c) \<and> tc_reading c' = tc_reading c"
  using assms channel_set_confined [of f b "tc_chan c" "tc_loop c"]
  by (auto simp: on_loop_def andThen_Inr_iff confined_def)

text \<open>
  An operation that does not close: the close callback is not called, and on a closed connection nothing is
  queued any more.
\<close>

definition calm :: "conn \<Rightarrow> conn \<Rightarrow> bool" where
  "calm c c' \<longleftrightarrow>
     tc_closes c' = tc_closes c \<and> (tc_state c' = kDisconnected \<longleftrightarrow> tc_state c = kDisconnected) \<and>
     (tc_state c' = kConnecting \<longleftrightarrow> tc_state c = kConnecting) \<and>
     (tc_state c = kDisconnected \<longrightarrow> el_pending (tc_loop c') = el_pending (tc_loop c))"

lemma calm_refl [simp]: "calm c c"
  by (simp add: calm_def)

lemma calm_trans: "calm c d \<Longrightarrow> calm d e \<Longrightarrow> calm c e"
  by (auto simp: calm_def)

lemma calm_upd [simp]:
  "calm c (d\<lparr>tc_input := b\<rparr>) = calm c d" "calm c (d\<lparr>tc_output := b\<rparr>) = calm c d"
  "calm c (d\<lparr>tc_shut := s\<rparr>) = calm c d" "calm c (d\<lparr>tc_wire := w\<rparr>) = calm c d"
  "calm c (d\<lparr>tc_accepted := w\<rparr>) = calm c d" "calm c (d\<lparr>tc_reading := s\<rparr>) = calm c d"
  "calm (c\<lparr>tc_input := b\<rparr>) d = calm c d" "calm (c\<lparr>tc_output := b\<rparr>) d = calm c d"
  "calm (c\<lparr>tc_wire := w\<rparr>) d = calm c d" "calm (c\<lparr>tc_accepted := w\<rparr>) d = calm c d"
  by (simp_all add: calm_def)

abbreviation tame :: "conn \<Rightarrow> conn \<Rightarrow> bool" where
  "tame c c' \<equiv> confined c c' \<and> calm c c'"

lemma tame_trans: "tame c d \<Longrightarrow> tame d e \<Longrightarrow> tame c e"
  by (blast intro: confined_trans calm_trans)

lemma tame_queue: "f \<noteq> FStartRead \<Longrightarrow> tc_state c \<noteq> kDisconnected \<Longrightarrow> tame c (conn_queue b f c)"
  by (simp add: confined_queue) (simp add: calm_def conn_queue_def)

lemma tame_set:
  assumes "on_loop (channel_set f b (tc_chan c)) c = Inr c'"
  shows "tame c c'"
  using confined_set [OF assms] by (simp add: calm_def)

lemma conn_chan_Inr_iff: "conn_chan c k = Inr x \<longleftrightarrow> (\<exists>ch. el_channels (tc_loop c) (tc_chan c) = Some ch \<and> k ch = Inr x)"
  by (simp add: conn_chan_def chan_at_def deref_Inr_iff)

lemmas conn_inr = assertInLoopThread_Inr_iff check_Inr_iff conn_chan_Inr_iff andThen_Inr_iff

lemma shutdownInLoop_tame: "shutdownInLoop b c = Inr c' \<Longrightarrow> tame c c'"
  by (auto simp: shutdownInLoop_def conn_inr split: if_splits)

text \<open>\<^verbatim>\<open>sendInLoop\<close> split at the write: the part before it and the part after it.\<close>

definition send_try :: "bool \<Rightarrow> written \<Rightarrow> byte list \<Rightarrow> conn_cb channel \<Rightarrow> conn \<Rightarrow> nat \<times> nat \<times> bool \<times> conn" where
  "send_try b w data ch c =
     (if \<not> isWriting ch \<and> readableBytes (tc_output c) = 0 then
        (case w of
           Inr n \<Rightarrow>
             let cw = c\<lparr>tc_wire := tc_wire c @ take n data\<rparr>
             in (n, sz_sub (length data) n, False,
                 if sz_sub (length data) n = 0 \<and> tc_hasWriteComplete c then conn_queue b FWriteComplete cw else cw)
         | Inl e \<Rightarrow> (0, length data, e \<noteq> EWOULDBLOCK \<and> (e = EPIPE \<or> e = ECONNRESET), c))
      else (0, length data, False, c))"

definition send_rest :: "bool \<Rightarrow> byte list \<Rightarrow> conn_cb channel \<Rightarrow> nat \<times> nat \<times> bool \<times> conn \<Rightarrow> conn res" where
  "send_rest b data ch = (\<lambda>(nwrote, remaining, faultError, c1).
     check (remaining \<le> length data) ''tcpconnection.cpp:204'' (
     if \<not> faultError then
       let c2 = c1\<lparr>tc_accepted := tc_accepted c1 @ data\<rparr> in
       if remaining > 0 then
         let oldLen = readableBytes (tc_output c2);
             c3 = (if sz_add oldLen remaining \<ge> tc_highWaterMark c2 \<and> oldLen < tc_highWaterMark c2 \<and>
                      tc_hasHighWater c2
                   then conn_queue b (FHighWater (sz_add oldLen remaining)) c2 else c2)
         in andThen (append_buf (tc_output c3) (take remaining (drop nwrote data))) (\<lambda>out.
            let c4 = c3\<lparr>tc_output := out\<rparr>
            in if \<not> isWriting ch then on_loop (enableWriting b (tc_chan c4)) c4 else Inr c4)
       else Inr c2
     else Inr c1))"

lemma sendInLoop_split:
  "sendInLoop b w data c = assertInLoopThread b (
     if tc_state c = kDisconnected then Inr c
     else conn_chan c (\<lambda>ch. send_rest b data ch (send_try b w data ch c)))"
  unfolding sendInLoop_def send_rest_def send_try_def Let_def split_beta by simp

lemma send_try_tame:
  assumes "tc_state c \<noteq> kDisconnected" and "send_try b w data ch c = (n, r, e, c1)"
  shows "tame c c1 \<and> tc_state c1 = tc_state c"
  using assms tame_queue [of FWriteComplete "c\<lparr>tc_wire := ws\<rparr>" b for ws]
  by (auto simp: send_try_def Let_def conn_simps split: if_splits sum.splits)

lemma send_rest_tame:
  assumes "send_rest b data ch (n, r, e, c1) = Inr c'" and st: "tc_state c1 \<noteq> kDisconnected"
  shows "tame c1 c'"
proof -
  define c2 where "c2 = c1\<lparr>tc_accepted := tc_accepted c1 @ data\<rparr>"
  have q: "tame c1 c2" "tame c1 (conn_queue b (FHighWater k) c2)" for k
    using st tame_queue [of "FHighWater k" c2 b] by (auto simp: c2_def)
  have set: "tame c1 c4" if "tame c1 c3" "on_loop (enableWriting b (tc_chan c3)) (c3\<lparr>tc_output := out\<rparr>) = Inr c4"
    for c3 c4 out
    using that tame_set [of ev_enableWriting b "c3\<lparr>tc_output := out\<rparr>" c4] tame_trans [of c1 c3 c4]
    by (simp add: enableWriting_def)
  show ?thesis
  proof (cases "e \<or> r = 0")
    case True
    then have "c' = c1 \<or> c' = c2" using assms(1) by (auto simp: send_rest_def c2_def check_Inr_iff Let_def split: if_splits)
    with q(1) show ?thesis by auto
  next
    case False
    define c3 where "c3 = (if sz_add (readableBytes (tc_output c2)) r \<ge> tc_highWaterMark c2 \<and>
        readableBytes (tc_output c2) < tc_highWaterMark c2 \<and> tc_hasHighWater c2
      then conn_queue b (FHighWater (sz_add (readableBytes (tc_output c2)) r)) c2 else c2)"
    have "andThen (append_buf (tc_output c3) (take r (drop n data))) (\<lambda>out.
        let c4 = c3\<lparr>tc_output := out\<rparr>
        in if \<not> isWriting ch then on_loop (enableWriting b (tc_chan c4)) c4 else Inr c4) = Inr c'"
      using assms(1) False
      unfolding send_rest_def split_conv check_Inr_iff c2_def [symmetric] Let_def c3_def by simp
    then obtain out where "(if \<not> isWriting ch then on_loop (enableWriting b (tc_chan c3)) (c3\<lparr>tc_output := out\<rparr>)
        else Inr (c3\<lparr>tc_output := out\<rparr>)) = Inr c'" by (fastforce simp: andThen_Inr_iff)
    moreover have c3: "tame c1 c3" using q by (simp add: c3_def)
    ultimately show ?thesis
      using set [OF c3, of out c'] by (cases "isWriting ch") auto
  qed
qed

lemma sendInLoop_tame:
  assumes "sendInLoop b w data c = Inr c'"
  shows "tame c c'"
proof (cases "tc_state c = kDisconnected")
  case True
  with assms show ?thesis by (simp add: sendInLoop_def conn_inr)
next
  case False
  with assms obtain ch n r e c1 where "send_try b w data ch c = (n, r, e, c1)"
    "send_rest b data ch (n, r, e, c1) = Inr c'"
    by (auto simp: sendInLoop_split conn_inr) (metis prod_cases4)
  with False send_try_tame send_rest_tame show ?thesis by (metis tame_trans)
qed

lemma send_tame: "send b w data c = Inr c' \<Longrightarrow> tame c c'"
  using sendInLoop_tame tame_queue [of "FSend data" c b] by (auto simp: send_def split: if_splits)

lemma shutdown_tame:
  assumes "shutdown b c = Inr c'"
  shows "tame c c'"
proof (cases "tc_state c = kConnected")
  case True
  let ?c = "c\<lparr>tc_state := kDisconnecting\<rparr>"
  have t: "tame c ?c" using True by (simp add: calm_def)
  have "tame ?c c'"
    using assms True shutdownInLoop_tame [of b ?c c'] tame_queue [of FShutdown ?c b]
    by (cases b) (auto simp: shutdown_def Let_def)
  with t tame_trans show ?thesis by blast
qed (use assms in \<open>simp add: shutdown_def\<close>)

lemma forceClose_tame: "tame c (forceClose b c)"
proof (cases "tc_state c = kConnected \<or> tc_state c = kDisconnecting")
  case True
  let ?c = "c\<lparr>tc_state := kDisconnecting\<rparr>"
  have "tame c ?c" using True by (auto simp: calm_def)
  moreover have "tame ?c (conn_queue b FForceClose ?c)" by (rule tame_queue) simp_all
  ultimately have "tame c (conn_queue b FForceClose ?c)" by (rule tame_trans)
  with True show ?thesis by (simp add: forceClose_def)
qed (simp add: forceClose_def)

lemma forceCloseWithDelay_tame: "tame c (forceCloseWithDelay seconds c)"
  by (auto simp: forceCloseWithDelay_def calm_def)

lemma stopReadInLoop_tame: "stopReadInLoop b c = Inr c' \<Longrightarrow> tame c c'"
  using tame_set [of ev_disableReading b c] by (auto simp: stopReadInLoop_def conn_inr disableReading_def split: if_splits)

lemma startReadInLoop_tame: "startReadInLoop b c = Inr c' \<Longrightarrow> tame c c'"
  using tame_set [of ev_enableReading b c] by (auto simp: startReadInLoop_def conn_inr enableReading_def split: if_splits)

text \<open>\<^verbatim>\<open>handleWrite\<close> after the last byte was written.\<close>

lemma drained_tame:
  assumes "on_loop (disableWriting b (tc_chan d)) d = Inr c3" and st: "tc_state d \<noteq> kDisconnected"
    and "(let c4 = (if tc_hasWriteComplete c3 then conn_queue b FWriteComplete c3 else c3)
      in if tc_state c4 = kDisconnecting then shutdownInLoop b c4 else Inr c4) = Inr c'"
  shows "tame d c'"
proof -
  define c4 where "c4 = (if tc_hasWriteComplete c3 then conn_queue b FWriteComplete c3 else c3)"
  have c3: "tame d c3" "tc_state c3 \<noteq> kDisconnected"
    using assms(1) st tame_set [of ev_disableWriting b d c3] confined_set [of ev_disableWriting b d c3]
    by (simp_all add: disableWriting_def)
  then have "tame d c4"
    using tame_queue [of FWriteComplete c3 b] tame_trans [of d c3 "conn_queue b FWriteComplete c3"]
    by (simp add: c4_def)
  moreover have "tame c4 c'"
    using assms(3) shutdownInLoop_tame [of b c4 c'] unfolding Let_def c4_def [symmetric]
    by (cases "tc_state c4 = kDisconnecting") simp_all
  ultimately show ?thesis by (rule tame_trans)
qed

lemma handleWrite_shape:
  assumes ok: "handleWrite w b c = Inr c'" and "c' \<noteq> c"
  obtains ch ws out where "el_channels (tc_loop c) (tc_chan c) = Some ch" and "isWriting ch"
    and "c' = c\<lparr>tc_wire := ws, tc_output := out\<rparr> \<or>
      (\<exists>c3. on_loop (disableWriting b (tc_chan c)) (c\<lparr>tc_wire := ws, tc_output := out\<rparr>) = Inr c3 \<and>
        (let c4 = (if tc_hasWriteComplete c3 then conn_queue b FWriteComplete c3 else c3)
         in if tc_state c4 = kDisconnecting then shutdownInLoop b c4 else Inr c4) = Inr c')"
proof -
  from assms obtain ch n where ch: "el_channels (tc_loop c) (tc_chan c) = Some ch" "isWriting ch" and b
    and n: "w = Inr n" "n > 0"
    by (auto simp: handleWrite_def conn_inr split: if_splits sum.splits)
  define ws where "ws = tc_wire c @ take n (range_of (tc_output c) (peek (tc_output c))
                           (peek (tc_output c) + readableBytes (tc_output c)))"
  have "andThen (retrieve (tc_output c) n) (\<lambda>out. let c2 = c\<lparr>tc_wire := ws, tc_output := out\<rparr>
      in if readableBytes (tc_output c2) = 0 then
           andThen (on_loop (disableWriting b (tc_chan c2)) c2) (\<lambda>c3.
             let c4 = (if tc_hasWriteComplete c3 then conn_queue b FWriteComplete c3 else c3)
             in if tc_state c4 = kDisconnecting then shutdownInLoop b c4 else Inr c4)
         else Inr c2) = Inr c'"
    using ok ch n \<open>b\<close> unfolding handleWrite_def ws_def Let_def by (simp add: conn_simps)
  then obtain out where out: "(let c2 = c\<lparr>tc_wire := ws, tc_output := out\<rparr>
      in if readableBytes (tc_output c2) = 0 then
           andThen (on_loop (disableWriting b (tc_chan c2)) c2) (\<lambda>c3.
             let c4 = (if tc_hasWriteComplete c3 then conn_queue b FWriteComplete c3 else c3)
             in if tc_state c4 = kDisconnecting then shutdownInLoop b c4 else Inr c4)
         else Inr c2) = Inr c'"
    unfolding andThen_Inr_iff by blast
  show thesis
  proof (cases "readableBytes out = 0")
    case True
    with out show thesis
      by (intro that [where ws = ws and out = out, OF ch] disjI2) (simp add: andThen_Inr_iff)
  next
    case False
    with out show thesis by (intro that [where ws = ws and out = out, OF ch] disjI1) simp
  qed
qed

lemma handleWrite_tame:
  assumes ok: "handleWrite w b c = Inr c'" and inv: "conn_inv c"
  shows "tame c c'"
proof (cases "c' = c")
  case False
  with ok obtain ch ws out where ch: "el_channels (tc_loop c) (tc_chan c) = Some ch" "isWriting ch"
    and c': "c' = c\<lparr>tc_wire := ws, tc_output := out\<rparr> \<or>
      (\<exists>c3. on_loop (disableWriting b (tc_chan c)) (c\<lparr>tc_wire := ws, tc_output := out\<rparr>) = Inr c3 \<and>
        (let c4 = (if tc_hasWriteComplete c3 then conn_queue b FWriteComplete c3 else c3)
         in if tc_state c4 = kDisconnecting then shutdownInLoop b c4 else Inr c4) = Inr c')"
    by (rule handleWrite_shape)
  define c2 where "c2 = c\<lparr>tc_wire := ws, tc_output := out\<rparr>"
  have t2: "tame c c2" "tc_state c2 = tc_state c" "tc_chan c2 = tc_chan c" by (simp_all add: c2_def)
  have st: "tc_state c2 \<noteq> kDisconnected"
    using inv ch by (auto simp: t2(2) conn_inv_def chan_inv_def isWriting_def has_bits_def)
  have "tame c2 c'"
    using c' drained_tame [OF _ st] unfolding c2_def [symmetric] t2(3) [symmetric] by fastforce
  with t2(1) show ?thesis by (rule tame_trans)
qed simp

section \<open>The contract of the user's callbacks\<close>

text \<open>One call of the close callback, with the connection closed.\<close>

definition closing :: "conn \<Rightarrow> conn \<Rightarrow> bool" where
  "closing c c' \<longleftrightarrow>
     tc_state c \<in> {kConnected, kDisconnecting} \<and> tc_state c' = kDisconnected \<and>
     tc_closes c' = Suc (tc_closes c)"

locale conn_user =
  fixes user :: user
  assumes law: "user_law user" and closed: "closed_law user"
    and tame: "user u c = Inr c' \<Longrightarrow> tame c c'"
begin

lemma handleClose_closes:
  assumes "handleClose user b c = Inr c'"
  shows "confined c c' \<and> closing c c' \<and> el_pending (tc_loop c') = el_pending (tc_loop c)"
proof -
  let ?c = "c\<lparr>tc_state := kDisconnected\<rparr>"
  from assms obtain c1 c2 where
    st: "tc_state c = kConnected \<or> tc_state c = kDisconnecting"
    and c1: "on_loop (disableAll b (tc_chan c)) ?c = Inr c1" and c2: "user UConnection c1 = Inr c2"
    and c': "user UClose (c2\<lparr>tc_closes := Suc (tc_closes c2)\<rparr>) = Inr c'"
    by (auto simp: handleClose_def conn_inr)
  have s1: "confined c c1" "tc_state c1 = kDisconnected" "tc_closes c1 = tc_closes c"
    "el_pending (tc_loop c1) = el_pending (tc_loop c)"
    using c1 confined_set [of ev_disableAll b ?c c1] by (simp_all add: disableAll_def)
  note t2 = tame [OF c2] and t' = tame [OF c']
  have "confined c c'" using s1(1) t2 t' by (auto intro: confined_trans)
  moreover have "closing c c'" "el_pending (tc_loop c') = el_pending (tc_loop c)"
    using st s1 t2 t' by (auto simp: closing_def calm_def)
  ultimately show ?thesis by simp
qed

text \<open>
  Every handler and every queued functor is confined to its connection and either leaves it open or
  closes it with one call of the close callback.
\<close>

lemma handleRead_effect:
  assumes "handleRead_conn user readv b c = Inr c'"
  shows "confined c c' \<and> (calm c c' \<or> closing c c')"
proof -
  from assms obtain i n e where r:
    "(if n > 0 then user UMessage (c\<lparr>tc_input := i\<rparr>)
      else if n = (0 :: int) then handleClose user b (c\<lparr>tc_input := i\<rparr>) else handleError (c\<lparr>tc_input := i\<rparr>)) = Inr c'"
    by (auto simp: handleRead_conn_def conn_inr Let_def)
  then show ?thesis
    using tame [of UMessage "c\<lparr>tc_input := i\<rparr>" c'] handleClose_closes [of b "c\<lparr>tc_input := i\<rparr>" c']
    by (auto simp: handleError_def closing_def split: if_splits)
qed

lemma run_functor_effect:
  assumes "run_functor user w f c = Inr c'" and "f \<noteq> FStartRead"
  shows "confined c c' \<and> (calm c c' \<or> closing c c')"
proof (cases f)
  case FForceClose
  with assms show ?thesis using handleClose_closes [of True c c']
    by (auto simp: run_functor_def forceCloseInLoop_def split: if_splits)
qed (use assms tame sendInLoop_tame shutdownInLoop_tame stopReadInLoop_tame in \<open>simp_all add: run_functor_def\<close>)

end

text \<open>The users of the witnesses keep the contract.\<close>

interpretation quiet: conn_user quiet_user
  by unfold_locales (simp_all add: quiet_user_law closed_law_def quiet_user_def)

text \<open>
  The callbacks of a connection whose user sets none: \<^verbatim>\<open>defaultConnectionCallback\<close> logs, \<^verbatim>\<open>defaultMessageCallback\<close>
  throws the input away.
\<close>

definition defaultMessageCallback :: "conn \<Rightarrow> conn" where
  "defaultMessageCallback c = c\<lparr>tc_input := retrieveAll (tc_input c)\<rparr>"

definition default_user :: user where
  "default_user u c = (case u of UMessage \<Rightarrow> Inr (defaultMessageCallback c) | _ \<Rightarrow> Inr c)"

interpretation defaults: conn_user default_user
proof unfold_locales
  have keep: "conn_inv (defaultMessageCallback c)" if "conn_inv c" for c
    using that conn_invD(2) [OF that] by (simp add: defaultMessageCallback_def conn_simps retrieveAll_ok)
  show "user_law default_user" using keep by (auto simp: user_law_def default_user_def split: ucall.split)
  show "closed_law default_user"
    using keep by (auto simp: closed_law_def default_user_def closed_conn_def defaultMessageCallback_def split: ucall.split)
  show "tame c c'" if "default_user u c = Inr c'" for u c c'
    using that by (auto simp: default_user_def defaultMessageCallback_def split: ucall.splits)
qed

end
