(* ===== verification/Kaycc_ConnectorRun.thy ===== *)
theory Kaycc_ConnectorRun
  imports Kaycc_Connector Kaycc_Locality
begin

text \<open>
  The life of a Connector from its constructor on (net/connector.cpp): calls of \<^verbatim>\<open>start\<close>, \<^verbatim>\<open>stop\<close> and \<^verbatim>\<open>restart\<close> from
  any thread that may make them, those of other threads access by access, the functors the loop runs in order, retry
  timers that expire, and events of the channel as the loop dispatches them, in any order. Nothing is assumed about the state a call finds: the
  two assertions a start can run into, \<^verbatim>\<open>state_ == kDisconnected\<close> in \<^verbatim>\<open>startInLoop\<close> and \<^verbatim>\<open>!channel_\<close> in
  \<^verbatim>\<open>connecting\<close>, are predicted exactly, and nothing else can fail.
\<close>

section \<open>Events\<close>

text \<open>
  \<open>a\<close> and \<open>r\<close> are, where an attempt may be made, the address of the new Channel, its socket and what connect(2)
  says. In \<open>EvReady\<close>, \<open>active\<close> are the channels of the poll, \<open>r\<close> is what the kernel reports for the connector's.
\<close>

datatype cn_event =
    EvStart nat "int \<times> int"        \<comment> \<open>by the loop thread, like \<open>EvStop\<close> and \<open>EvRestart\<close>\<close>
  | EvStop
  | EvFlag bool                    \<comment> \<open>another thread in \<^verbatim>\<open>start\<close> or \<^verbatim>\<open>stop\<close> stores \<^verbatim>\<open>connect_\<close>\<close>
  | EvPost bool                    \<comment> \<open>and queues \<^verbatim>\<open>startInLoop\<close> or \<^verbatim>\<open>stopInLoop\<close>\<close>
  | EvRestart nat "int \<times> int"
  | EvFunctor nat "int \<times> int"
  | EvTimer nat nat "int \<times> int"
  | EvReady "nat list" "32 word" int bool

text \<open>The loop runs the functor at the head of its queue.\<close>

definition run_queued :: "nat \<Rightarrow> int \<times> int \<Rightarrow> connector \<Rightarrow> connector res" where
  "run_queued a r c =
     (case el_pending (cn_loop c) of
        [] \<Rightarrow> Inr c
      | f # fs \<Rightarrow>
          let c1 = c\<lparr>cn_loop := (cn_loop c)\<lparr>el_pending := fs\<rparr>\<rparr>
          in case f of
               CnStartInLoop \<Rightarrow> startInLoop a r True c1
             | CnStopInLoop \<Rightarrow> stopInLoop True c1
             | CnResetChannel \<Rightarrow> resetChannel c1)"

text \<open>The timer that the \<open>k\<close>-th of the pending \<^verbatim>\<open>runAfter\<close> calls of \<^verbatim>\<open>retry\<close> started.\<close>

definition retry_timer :: "nat \<Rightarrow> nat \<Rightarrow> int \<times> int \<Rightarrow> connector \<Rightarrow> connector res" where
  "retry_timer k a r c = startInLoop a r True (c\<lparr>cn_timers := take k (cn_timers c) @ drop (Suc k) (cn_timers c)\<rparr>)"

definition run_cn_cb ::
    "(int \<Rightarrow> connector \<Rightarrow> connector res) \<Rightarrow> int \<Rightarrow> bool \<Rightarrow> cn_cb \<Rightarrow> connector \<Rightarrow> connector res" where
  "run_cn_cb user err self cb c =
     (case cb of CnHandleWrite \<Rightarrow> handleWrite_cn user err self c | CnHandleError \<Rightarrow> handleError_cn c)"

definition cn_get :: "nat \<Rightarrow> connector \<Rightarrow> cn_cb channel" where
  "cn_get a c = the (el_channels (cn_loop c) a)"

definition cn_put :: "nat \<Rightarrow> cn_cb channel \<Rightarrow> connector \<Rightarrow> connector" where
  "cn_put a ch c = c\<lparr>cn_loop := put_chan a ch (cn_loop c)\<rparr>"

definition cn_ready ::
    "(int \<Rightarrow> connector \<Rightarrow> connector res) \<Rightarrow> nat list \<Rightarrow> 32 word \<Rightarrow> int \<Rightarrow> bool \<Rightarrow> connector \<Rightarrow> connector res" where
  "cn_ready user active r err self c =
     (case cn_channel c of
        None \<Rightarrow> Inl (Undefined ''null Channel*'')
      | Some a \<Rightarrow>
          let c1 = c\<lparr>cn_loop := (cn_loop c)\<lparr>el_active := active, el_current := Some a, el_eventHandling := True\<rparr>\<rparr>
          in andThen (handleEvent (\<lambda>obj c. True) (run_cn_cb user err self) (cn_get a) (cn_put a)
               (cn_put a (set_revents r (cn_get a c1)) c1)) (\<lambda>c2.
             Inr (c2\<lparr>cn_loop := (cn_loop c2)\<lparr>el_active := [], el_current := None, el_eventHandling := False\<rparr>\<rparr>)))"

definition post_cn :: "bool \<Rightarrow> connector \<Rightarrow> connector" where
  "post_cn b c = c\<lparr>cn_loop := queueInLoop False (if b then CnStartInLoop else CnStopInLoop) (cn_loop c)\<rparr>"

fun cn_event_step :: "(int \<Rightarrow> connector \<Rightarrow> connector res) \<Rightarrow> cn_event \<Rightarrow> connector \<Rightarrow> connector res" where
  "cn_event_step user (EvStart a r) c = start_cn a r True c"
| "cn_event_step user EvStop c = Inr (stop_cn True c)"
| "cn_event_step user (EvFlag b) c = Inr (c\<lparr>cn_connect := b\<rparr>)"
| "cn_event_step user (EvPost b) c = Inr (post_cn b c)"
| "cn_event_step user (EvRestart a r) c = restart_cn a r True c"
| "cn_event_step user (EvFunctor a r) c = run_queued a r c"
| "cn_event_step user (EvTimer k a r) c = retry_timer k a r c"
| "cn_event_step user (EvReady active r err self) c = cn_ready user active r err self c"

text \<open>The calls of another thread are these two accesses, with anything between them.\<close>

lemma other_thread_calls:
  "foldRes (cn_event_step user) [EvFlag True, EvPost True] c = start_cn a r False c"
  "foldRes (cn_event_step user) [EvFlag False, EvPost False] c = Inr (stop_cn False c)"
  by (simp_all add: start_cn_def stop_cn_def post_cn_def Let_def)

text \<open>
  What the environment guarantees. The kernel hands out unused descriptors and the allocator unused addresses; a
  timer expires only after it was started; the poller reports a channel only while it is registered; and
  \<^verbatim>\<open>restart\<close>, which is for a connection that was closed, is not called while an attempt is in progress.
\<close>

definition new_socket :: "nat \<Rightarrow> int \<times> int \<Rightarrow> connector \<Rightarrow> bool" where
  "new_socket a r c \<longleftrightarrow>
     el_channels (cn_loop c) a = None \<and> 0 \<le> fst r \<and> el_reg (cn_loop c) (fst r) = None"

definition reported :: "connector \<Rightarrow> bool" where
  "reported c \<longleftrightarrow>
     (case cn_channel c of
        None \<Rightarrow> False
      | Some a \<Rightarrow> (case el_channels (cn_loop c) a of None \<Rightarrow> False | Some ch \<Rightarrow> el_reg (cn_loop c) (ch_fd ch) = Some a))"

fun cn_event_ok :: "cn_event \<Rightarrow> connector \<Rightarrow> bool" where
  "cn_event_ok (EvStart a r) c \<longleftrightarrow> new_socket a r c"
| "cn_event_ok EvStop c \<longleftrightarrow> True"
| "cn_event_ok (EvFlag b) c \<longleftrightarrow> True"
| "cn_event_ok (EvPost b) c \<longleftrightarrow> True"
| "cn_event_ok (EvRestart a r) c \<longleftrightarrow> new_socket a r c \<and> cn_state c \<noteq> cConnecting"
| "cn_event_ok (EvFunctor a r) c \<longleftrightarrow> new_socket a r c"
| "cn_event_ok (EvTimer k a r) c \<longleftrightarrow> new_socket a r c \<and> k < length (cn_timers c)"
| "cn_event_ok (EvReady active r err self) c \<longleftrightarrow> reported c"

fun cn_legal :: "(int \<Rightarrow> connector \<Rightarrow> connector res) \<Rightarrow> cn_event list \<Rightarrow> connector \<Rightarrow> bool" where
  "cn_legal user [] c \<longleftrightarrow> True"
| "cn_legal user (e # es) c \<longleftrightarrow>
     cn_event_ok e c \<and> (case cn_event_step user e c of Inl f \<Rightarrow> True | Inr c' \<Rightarrow> cn_legal user es c')"

text \<open>
  The assertion a start runs into: it is made while the connector is not disconnected, or an attempt succeeds so
  far while the channel of the last one still waits for \<^verbatim>\<open>resetChannel\<close>.
\<close>

definition start_fault :: "int \<times> int \<Rightarrow> connector \<Rightarrow> string option" where
  "start_fault r c =
     (if cn_state c \<noteq> cDisconnected then Some ''connector.cpp:42''
      else if cn_connect c \<and> cn_channel c \<noteq> None \<and> snd r \<in> set errnos_connecting then Some ''connector.cpp:131''
      else None)"

fun predicted :: "cn_event \<Rightarrow> connector \<Rightarrow> string option" where
  "predicted (EvStart a r) c = start_fault r (c\<lparr>cn_connect := True\<rparr>)"
| "predicted EvStop c = None"
| "predicted (EvFlag b) c = None"
| "predicted (EvPost b) c = None"
| "predicted (EvRestart a r) c = start_fault r (c\<lparr>cn_state := cDisconnected, cn_connect := True\<rparr>)"
| "predicted (EvFunctor a r) c =
     (case el_pending (cn_loop c) of CnStartInLoop # fs \<Rightarrow> start_fault r c | _ \<Rightarrow> None)"
| "predicted (EvTimer k a r) c = start_fault r c"
| "predicted (EvReady active r err self) c = None"

section \<open>The invariant between events\<close>

text \<open>The channel calls back its own connector; \<open>e\<close> tells whether it is being handled.\<close>

definition own_channel :: "bool \<Rightarrow> connector \<Rightarrow> bool" where
  "own_channel e c \<longleftrightarrow>
     (\<forall>a ch. cn_channel c = Some a \<longrightarrow> el_channels (cn_loop c) a = Some ch \<longrightarrow>
        ch_eventHandling ch = e \<and> \<not> ch_tied ch \<and> ch_writeCallback ch = Some CnHandleWrite \<and>
        ch_errorCallback ch = Some CnHandleError \<and> ch_closeCallback ch = None \<and> ch_readCallback ch = None)"

definition cn_safe :: "connector \<Rightarrow> bool" where
  "cn_safe c \<longleftrightarrow> cn_inv c \<and> own_channel False c \<and> \<not> el_eventHandling (cn_loop c)"

text \<open>An operation fails with the assertion that was predicted, or it succeeds and keeps the invariant.\<close>

definition as_predicted :: "connector res \<Rightarrow> string option \<Rightarrow> bool" where
  "as_predicted m p \<longleftrightarrow>
     (case p of None \<Rightarrow> \<exists>c'. m = Inr c' \<and> cn_safe c' | Some pos \<Rightarrow> m = Inl (Assertion pos))"

lemma as_predicted_simps [simp]:
  "as_predicted m None \<longleftrightarrow> (\<exists>c'. m = Inr c' \<and> cn_safe c')" "as_predicted m (Some pos) \<longleftrightarrow> m = Inl (Assertion pos)"
  by (simp_all add: as_predicted_def)

text \<open>
  The new-connection callback keeps the invariant, leaves the channel of the connector alone but for its place in
  the poller, and does not end the dispatching.
\<close>

definition connector_user :: "(int \<Rightarrow> connector \<Rightarrow> connector res) \<Rightarrow> bool" where
  "connector_user user \<longleftrightarrow>
     (\<forall>fd c. cn_inv c \<longrightarrow> (\<exists>c'. user fd c = Inr c' \<and> cn_inv c' \<and> cn_channel c' = cn_channel c \<and>
        (\<forall>a. cn_channel c = Some a \<longrightarrow>
           map_option no_index (el_channels (cn_loop c') a) = map_option no_index (el_channels (cn_loop c) a))))"

definition kept_channel :: "connector \<Rightarrow> connector \<Rightarrow> bool" where
  "kept_channel c c' \<longleftrightarrow> cn_channel c' = cn_channel c \<and>
     (\<forall>a. cn_channel c = Some a \<longrightarrow>
        map_option identity (el_channels (cn_loop c') a) = map_option identity (el_channels (cn_loop c) a))"

lemma kept_channel_own: "kept_channel c c' \<Longrightarrow> own_channel e c \<Longrightarrow> own_channel e c'"
  unfolding own_channel_def
proof (intro allI impI)
  fix a ch'
  assume k: "kept_channel c c'" and a: "cn_channel c' = Some a" "el_channels (cn_loop c') a = Some ch'"
    and own: "\<forall>a ch. cn_channel c = Some a \<longrightarrow> el_channels (cn_loop c) a = Some ch \<longrightarrow>
        ch_eventHandling ch = e \<and> \<not> ch_tied ch \<and> ch_writeCallback ch = Some CnHandleWrite \<and>
        ch_errorCallback ch = Some CnHandleError \<and> ch_closeCallback ch = None \<and> ch_readCallback ch = None"
  have "cn_channel c = Some a" using k a(1) by (simp add: kept_channel_def)
  moreover from this have "map_option identity (el_channels (cn_loop c) a) = Some (identity ch')"
    using k a(2) unfolding kept_channel_def by (metis option.simps(9))
  ultimately obtain ch where "cn_channel c = Some a" "el_channels (cn_loop c) a = Some ch" "identity ch' = identity ch" by auto
  with own identityD [of ch' ch] show "ch_eventHandling ch' = e \<and> \<not> ch_tied ch' \<and> ch_writeCallback ch' = Some CnHandleWrite \<and>
        ch_errorCallback ch' = Some CnHandleError \<and> ch_closeCallback ch' = None \<and> ch_readCallback ch' = None"
    by simp
qed

lemma identity_no_index: "identity (no_index ch) = identity ch"
  by (simp add: identity_def no_index_def)

lemma same_identity:
  "map_option no_index x = map_option no_index y \<Longrightarrow> map_option identity x = map_option identity y"
  by (cases x; cases y; clarsimp) (metis (mono_tags) identity_no_index)

lemma kept_channel_trans: "kept_channel c d \<Longrightarrow> kept_channel d e \<Longrightarrow> kept_channel c e"
  by (auto simp: kept_channel_def)

lemma kept_channel_retry [simp]: "kept_channel c (retry fd d) = kept_channel c d"
  by (simp add: kept_channel_def retry_def cn_close_def Let_def)

lemma removeAndResetChannel_kept:
  assumes "removeAndResetChannel c = Inr (fd, c')"
  shows "kept_channel c c' \<and> el_eventHandling (cn_loop c') = el_eventHandling (cn_loop c) \<and> cn_state c' = cn_state c"
proof -
  from assms obtain a l1 l2 where a: "cn_channel c = Some a" and l1: "disableAll True a (cn_loop c) = Inr l1"
    and l2: "channel_remove True a l1 = Inr l2" and c': "c' = c\<lparr>cn_loop := queueInLoop True CnResetChannel l2\<rparr>"
    by (auto simp: removeAndResetChannel_def cn_on_loop_def fault_simps chan_at_def deref_Inr_iff split: option.splits)
  have "confined_to a (cn_loop c) l1" "confined_to a l1 l2" "confined_to a l2 (queueInLoop True CnResetChannel l2)"
    using channel_set_confined [OF l1 [unfolded disableAll_def]] channel_remove_confined [OF l2] queueInLoop_confined
    by auto
  then have "confined_to a (cn_loop c) (cn_loop c')" using c' by (auto intro: confined_to_trans)
  with a c' show ?thesis by (simp add: kept_channel_def confined_to_def others_kept_def)
qed

lemma retry_simps [simp]:
  "cn_loop (retry fd c) = cn_loop c" "cn_channel (retry fd c) = cn_channel c" "cn_state (retry fd c) = cDisconnected"
  by (simp_all add: retry_def cn_close_def Let_def)

lemma handleError_kept:
  assumes "handleError_cn c = Inr c'"
  shows "kept_channel c c' \<and> el_eventHandling (cn_loop c') = el_eventHandling (cn_loop c) \<and>
     (cn_state c = cConnecting \<longrightarrow> cn_state c' = cDisconnected) \<and> (cn_state c \<noteq> cConnecting \<longrightarrow> c' = c)"
proof (cases "cn_state c = cConnecting")
  case True
  with assms obtain fd c1 where "removeAndResetChannel c = Inr (fd, c1)" "c' = retry fd c1"
    by (auto simp: handleError_cn_def andThen_Inr_iff)
  with removeAndResetChannel_kept [OF this(1)] True show ?thesis by simp
qed (use assms in \<open>simp add: handleError_cn_def kept_channel_def\<close>)

lemma handleWrite_kept:
  assumes "connector_user user" and "handleWrite_cn user err self c = Inr c'"
    and inv: "cn_inv c" and rem: "cn_state c = cConnecting \<Longrightarrow> removable c"
  shows "kept_channel c c'"
proof (cases "cn_state c = cConnecting")
  case True
  then have "c\<lparr>cn_state := cConnecting\<rparr> = c" by simp
  with remove_retry_ok [OF inv True rem [OF True], of cConnecting] obtain fd c1 where
    c1: "removeAndResetChannel c = Inr (fd, c1\<lparr>cn_state := cConnecting\<rparr>)" "detached c1"
    "mset (cn_created c1) = mset (cn_closed c1) + mset (cn_delivered c1) + {#fd#}" by auto
  let ?d = "c1\<lparr>cn_state := cConnected, cn_delivered := cn_delivered c1 @ [fd]\<rparr>"
  have k: "kept_channel c ?d" "kept_channel c (c1\<lparr>cn_state := cConnected\<rparr>)"
    using removeAndResetChannel_kept [OF c1(1)] by (simp_all add: kept_channel_def)
  have "cn_inv ?d" using c1(2,3) by (simp add: cn_inv_def cn_simps)
  with assms(1) obtain d' where d': "user fd ?d = Inr d'" "cn_channel d' = cn_channel ?d"
    "\<And>a. cn_channel ?d = Some a \<Longrightarrow>
      map_option no_index (el_channels (cn_loop d') a) = map_option no_index (el_channels (cn_loop ?d) a)"
    unfolding connector_user_def by meson
  have "kept_channel ?d d'" using d'(2,3) by (auto simp: kept_channel_def intro!: same_identity)
  with k(1) have "kept_channel c d'" by (rule kept_channel_trans)
  with assms(2) True c1(1) k d'(1) show ?thesis
    by (auto simp: handleWrite_cn_def Let_def cn_close_def kept_channel_def retry_def split: if_splits)
qed (use assms(2) in \<open>auto simp: handleWrite_cn_def check_Inr_iff kept_channel_def\<close>)

section \<open>Starting\<close>

lemma connecting_kept_own:
  assumes "connecting a fd c = Inr c'"
  shows "own_channel False c' \<and> el_eventHandling (cn_loop c') = el_eventHandling (cn_loop c)"
proof -
  define ch where "ch = setErrorCallback CnHandleError (setWriteCallback CnHandleWrite (newChannel fd))"
  from assms obtain l where l: "channel_set ev_enableWriting True a (put_chan a ch (cn_loop c)) = Inr l"
    "c' = c\<lparr>cn_state := cConnecting, cn_channel := Some a, cn_loop := l\<rparr>"
    by (auto simp: connecting_def cn_on_loop_def fault_simps ch_def enableWriting_def check_Inr_iff)
  have "confined_to a (put_chan a ch (cn_loop c)) l" using channel_set_confined [OF l(1)] by simp
  then have "el_eventHandling l = el_eventHandling (cn_loop c)" "map_option identity (el_channels l a) = Some (identity ch)"
    by (simp_all add: confined_to_def others_kept_def put_chan_def)
  moreover from this(2) obtain ch' where "el_channels l a = Some ch'" "identity ch' = identity ch" by auto
  moreover note identityD [OF this(2)]
  ultimately show ?thesis
    by (simp add: own_channel_def l(2) ch_def setErrorCallback_def setWriteCallback_def newChannel_def)
qed

lemma startInLoop_own:
  assumes "startInLoop a r True c = Inr c'" and "own_channel False c"
  shows "own_channel False c' \<and> el_eventHandling (cn_loop c') = el_eventHandling (cn_loop c)"
proof (cases "cn_connect c \<and> snd r \<in> set errnos_connecting")
  case True
  with assms(1) have "connecting a (fst r) (c\<lparr>cn_created := cn_created c @ [fst r]\<rparr>) = Inr c'"
    by (cases r) (auto simp: startInLoop_def connect_def check_Inr_iff Let_def)
  from connecting_kept_own [OF this] show ?thesis by simp
next
  case False
  with assms show ?thesis
    by (cases r) (auto simp: startInLoop_def connect_def check_Inr_iff Let_def own_channel_def cn_close_def split: if_splits)
qed

text \<open>A start does what is predicted, whatever state it finds.\<close>

lemma start_predicted:
  assumes safe: "cn_safe c" and new: "new_socket a r c"
  shows "as_predicted (startInLoop a r True c) (start_fault r c)"
proof (cases "start_fault r c")
  case (Some pos)
  then show ?thesis
    by (cases r) (auto simp: start_fault_def startInLoop_def connect_def connecting_def Let_def split: if_splits)
next
  case None
  have inv: "cn_inv c" "own_channel False c" "\<not> el_eventHandling (cn_loop c)" using safe by (simp_all add: cn_safe_def)
  have st: "cn_state c = cDisconnected" using None by (simp add: start_fault_def split: if_splits)
  have "\<exists>c'. startInLoop a r True c = Inr c' \<and> cn_inv c'"
  proof (cases "cn_channel c = None")
    case True
    with new st have "cn_op_ok (CnStart a r) c" by (simp add: new_socket_def)
    from start_ok [OF inv(1) this] show ?thesis .
  next
    case False
    obtain fd e where r: "r = (fd, e)" by (cases r)
    have det: "detached c" "mset (cn_created c) = mset (cn_closed c) + mset (cn_delivered c)"
      using inv(1) st by (simp_all add: cn_inv_def)
    let ?c = "c\<lparr>cn_created := cn_created c @ [fd]\<rparr>"
    have "cn_inv (retry fd ?c)" using det by (intro retry_inv) (simp_all add: cn_simps)
    moreover have "cn_inv (cn_close fd ?c)" using det st by (simp add: cn_inv_def cn_close_def cn_simps)
    ultimately show ?thesis
      using False None inv(1) st r by (auto simp: startInLoop_def connect_def Let_def start_fault_def split: if_splits)
  qed
  then obtain c' where c': "startInLoop a r True c = Inr c'" "cn_inv c'" by blast
  with startInLoop_own [OF c'(1) inv(2)] inv(3) None show ?thesis by (simp add: cn_safe_def)
qed

text \<open>Calls of other threads and what is taken off the queue do not touch the channel.\<close>

lemma resets_queue: "f \<noteq> CnResetChannel \<Longrightarrow> count_list (xs @ [f]) CnResetChannel = count_list xs CnResetChannel"
  by simp

lemma cn_safe_frame:
  "cn_safe (c\<lparr>cn_connect := b\<rparr>) = cn_safe c" "cn_safe (c\<lparr>cn_timers := ts\<rparr>) = cn_safe c"
  "cn_safe (c\<lparr>cn_retryDelayMs := d\<rparr>) = cn_safe c"
  "f \<noteq> CnResetChannel \<Longrightarrow> cn_safe (c\<lparr>cn_loop := queueInLoop b f (cn_loop c)\<rparr>) = cn_safe c"
  by (simp_all add: cn_safe_def cn_inv_def attached_def detached_def resets_def own_channel_def queueInLoop_def wakeup_def
      Let_def el_inv_def el_reg_def cong: option.case_cong)

lemma cn_safe_pop:
  "el_pending (cn_loop c) = f # fs \<Longrightarrow> f \<noteq> CnResetChannel \<Longrightarrow>
     cn_safe (c\<lparr>cn_loop := (cn_loop c)\<lparr>el_pending := fs\<rparr>\<rparr>) = cn_safe c"
  by (simp add: cn_safe_def cn_inv_def attached_def detached_def resets_def own_channel_def el_inv_def el_reg_def
      cong: option.case_cong)

lemma cn_safe_disconnect:
  assumes "cn_safe c" and "cn_state c \<noteq> cConnecting"
  shows "cn_safe (c\<lparr>cn_state := cDisconnected\<rparr>)"
  using assms by (simp add: cn_safe_def cn_inv_def cn_simps own_channel_def)

lemma queued_predicted:
  assumes safe: "cn_safe c" and new: "new_socket a r c"
  shows "as_predicted (run_queued a r c) (predicted (EvFunctor a r) c)"
proof (cases "el_pending (cn_loop c)")
  case (Cons f fs)
  let ?c = "c\<lparr>cn_loop := (cn_loop c)\<lparr>el_pending := fs\<rparr>\<rparr>"
  have inv: "cn_inv c" "own_channel False c" "\<not> el_eventHandling (cn_loop c)" using safe by (simp_all add: cn_safe_def)
  show ?thesis
  proof (cases f)
    case CnStartInLoop
    have "new_socket a r ?c" using new by (simp add: new_socket_def el_reg_def)
    moreover have "start_fault r ?c = start_fault r c" by (simp add: start_fault_def)
    ultimately show ?thesis
      using start_predicted [of ?c a r] cn_safe_pop [OF Cons] safe Cons CnStartInLoop by (simp add: run_queued_def)
  next
    case CnStopInLoop
    then have s: "cn_safe ?c" using cn_safe_pop [OF Cons] safe by simp
    have "\<exists>c'. stopInLoop True ?c = Inr c' \<and> cn_safe c'"
    proof (cases "cn_state c = cConnecting")
      case True
      have "removable ?c" using inv(3) by (simp add: removable_def)
      with remove_retry_ok [of ?c cDisconnected] s True obtain fd c1 where
        c1: "removeAndResetChannel (?c\<lparr>cn_state := cDisconnected\<rparr>) = Inr (fd, c1\<lparr>cn_state := cDisconnected\<rparr>)"
        "detached c1" "mset (cn_created c1) = mset (cn_closed c1) + mset (cn_delivered c1) + {#fd#}"
        by (auto simp: cn_safe_def)
      have "cn_inv (retry fd (c1\<lparr>cn_state := cDisconnected\<rparr>))"
        using c1(2,3) by (intro retry_inv) (simp_all add: cn_simps)
      moreover have "own_channel False (?c\<lparr>cn_state := cDisconnected\<rparr>)" using inv(2) by (simp add: own_channel_def)
      moreover note removeAndResetChannel_kept [OF c1(1)]
      ultimately show ?thesis
        using kept_channel_own [of "?c\<lparr>cn_state := cDisconnected\<rparr>" "retry fd (c1\<lparr>cn_state := cDisconnected\<rparr>)" False]
          c1(1) True inv(3) by (simp add: stopInLoop_def cn_safe_def)
    qed (use s in \<open>simp add: stopInLoop_def\<close>)
    then show ?thesis using Cons CnStopInLoop by (simp add: run_queued_def)
  next
    case CnResetChannel
    have eq: "unqueue CnResetChannel c = ?c" using Cons CnResetChannel by (simp add: unqueue_def)
    have "cn_op_ok CnReset c" using Cons CnResetChannel inv(2) by (auto simp: resets_def own_channel_def)
    from resetChannel_ok [OF inv(1) this] eq obtain c' where
      c': "resetChannel ?c = Inr c'" "cn_inv c'" "cn_channel c' = None" by auto
    moreover have "el_eventHandling (cn_loop c') = el_eventHandling (cn_loop c)"
      using c'(1) by (auto simp: resetChannel_def cn_on_loop_def destroyChannel_def fault_simps chan_at_def deref_Inr_iff
          check_Inr_iff split: option.splits)
    ultimately show ?thesis using Cons CnResetChannel inv(3) by (simp add: run_queued_def cn_safe_def own_channel_def)
  qed
qed (use safe in \<open>simp add: run_queued_def\<close>)

section \<open>Events of the channel\<close>

lemma cn_put_inv:
  assumes "cn_inv c" and "cn_channel c = Some a" and "el_channels (cn_loop c) a = Some ch"
    and "ch' = ch\<lparr>ch_revents := r, ch_eventHandling := e\<rparr>"
  shows "cn_inv (cn_put a ch' c)"
proof -
  have core: "core ch' = core ch" and fd: "ch_fd ch' = ch_fd ch" and add: "ch_addedToLoop ch' = ch_addedToLoop ch"
    using assms(4) by (simp_all add: core_def)
  have "attached (cn_put a ch' c) fd'" if "attached c fd'" for fd'
    using that assms(2,3) fd core
    by (auto simp: attached_def cn_put_def put_chan_def resets_def el_inv_def el_reg_def intro: poller_inv_upd)
  moreover have "detached (cn_put a ch' c)" if "detached c"
    using that assms(2,3) fd add by (simp add: detached_def cn_put_def put_chan_def resets_def el_reg_def)
  moreover have "cn_state (cn_put a ch' c) = cn_state c" "cn_created (cn_put a ch' c) = cn_created c"
    "cn_closed (cn_put a ch' c) = cn_closed c" "cn_delivered (cn_put a ch' c) = cn_delivered c"
    by (simp_all add: cn_put_def)
  ultimately show ?thesis using assms(1) unfolding cn_inv_def by (auto split: if_splits)
qed

lemma cn_flags:
  fixes c b x as
  defines "d \<equiv> c\<lparr>cn_loop := (cn_loop c)\<lparr>el_active := as, el_current := x, el_eventHandling := b\<rparr>\<rparr>"
  shows "cn_inv d = cn_inv c" and "own_channel e d = own_channel e c"
proof -
  have "attached d fd = attached c fd" for fd by (simp add: attached_def d_def resets_def el_inv_def el_reg_def)
  moreover have "detached d = detached c"
    by (simp add: detached_def d_def resets_def el_inv_def el_reg_def cong: option.case_cong)
  ultimately show "cn_inv d = cn_inv c" by (simp add: cn_inv_def) (simp add: d_def)
  show "own_channel e d = own_channel e c" by (simp add: own_channel_def d_def)
qed

text \<open>The state while the channel at \<open>a\<close> is being handled.\<close>

definition being_handled :: "nat \<Rightarrow> connector \<Rightarrow> bool" where
  "being_handled a c \<longleftrightarrow>
     cn_inv c \<and> own_channel True c \<and> cn_channel c = Some a \<and> el_channels (cn_loop c) a \<noteq> None"

lemma being_handled_kept:
  assumes "being_handled a c" and "kept_channel c c'" and "cn_inv c'"
  shows "being_handled a c'"
proof -
  have a: "cn_channel c = Some a" "el_channels (cn_loop c) a \<noteq> None" using assms(1) by (simp_all add: being_handled_def)
  then have "cn_channel c' = Some a" "map_option identity (el_channels (cn_loop c') a) \<noteq> None"
    using assms(2) by (simp_all add: kept_channel_def)
  with assms kept_channel_own [OF assms(2)] show ?thesis by (simp add: being_handled_def)
qed

lemma being_handled_get:
  assumes "being_handled a c"
  shows "el_channels (cn_loop c) a = Some (cn_get a c)" and "\<not> ch_tied (cn_get a c)"
    and "ch_writeCallback (cn_get a c) = Some CnHandleWrite" and "ch_errorCallback (cn_get a c) = Some CnHandleError"
    and "ch_closeCallback (cn_get a c) = None" and "ch_readCallback (cn_get a c) = None"
  using assms by (auto simp: being_handled_def own_channel_def cn_get_def)

lemma error_stage:
  assumes h: "being_handled a c" and st: "cn_state c = cConnecting" and rem: "removable c"
  shows "\<exists>c'. handleError_cn c = Inr c' \<and> being_handled a c' \<and> cn_state c' = cDisconnected"
proof -
  have inv: "cn_inv c" using h by (simp add: being_handled_def)
  have "c\<lparr>cn_state := cConnecting\<rparr> = c" using st by simp
  with remove_retry_ok [OF inv st rem, of cConnecting] obtain fd c1 where
    c1: "removeAndResetChannel c = Inr (fd, c1\<lparr>cn_state := cConnecting\<rparr>)" "detached c1"
    "mset (cn_created c1) = mset (cn_closed c1) + mset (cn_delivered c1) + {#fd#}" by auto
  let ?d = "retry fd (c1\<lparr>cn_state := cConnecting\<rparr>)"
  have d: "handleError_cn c = Inr ?d" using st c1(1) by (simp add: handleError_cn_def)
  moreover have "cn_inv ?d" using c1(2,3) by (intro retry_inv) (simp_all add: cn_simps)
  ultimately show ?thesis
    using being_handled_kept [OF h conjunct1 [OF handleError_kept [OF d]]] by (intro exI [of _ ?d]) simp
qed

lemma write_stage:
  assumes user: "connector_user user" and h: "being_handled a c" and st: "cn_state c \<noteq> cConnected"
    and rem: "cn_state c = cConnecting \<Longrightarrow> removable c"
  shows "\<exists>c'. handleWrite_cn user err self c = Inr c' \<and> being_handled a c'"
proof (cases "cn_state c = cConnecting")
  case True
  have inv: "cn_inv c" using h by (simp add: being_handled_def)
  have "cn_user_law user" using user unfolding cn_user_law_def connector_user_def by blast
  from handleWrite_cn_ok [OF inv this True rem [OF True], of err self] obtain c' where
    c': "handleWrite_cn user err self c = Inr c'" "cn_inv c'" by blast
  from being_handled_kept [OF h handleWrite_kept [OF user c'(1) inv rem] c'(2)] c'(1) show ?thesis by blast
next
  case False
  with st have "cn_state c = cDisconnected" by (cases "cn_state c") auto
  with h show ?thesis by (simp add: handleWrite_cn_def)
qed

lemma reported_ok:
  assumes user: "connector_user user" and safe: "cn_safe c" and rep: "reported c"
  shows "\<exists>c'. cn_ready user active r err self c = Inr c' \<and> cn_safe c'"
proof -
  have inv: "cn_inv c" "own_channel False c" "\<not> el_eventHandling (cn_loop c)" using safe by (simp_all add: cn_safe_def)
  obtain a ch where a: "cn_channel c = Some a" and ch: "el_channels (cn_loop c) a = Some ch"
    and reg: "el_reg (cn_loop c) (ch_fd ch) = Some a" using rep by (auto simp: reported_def split: option.splits)
  have st: "cn_state c = cConnecting"
  proof (rule ccontr)
    assume "cn_state c \<noteq> cConnecting"
    then have "detached c" using inv(1) by (simp add: cn_inv_def)
    with a ch reg show False by (simp add: detached_def)
  qed
  define c1 where
    "c1 = c\<lparr>cn_loop := (cn_loop c)\<lparr>el_active := active, el_current := Some a, el_eventHandling := True\<rparr>\<rparr>"
  define c2 where "c2 = cn_put a (set_revents r (cn_get a c1)) c1"
  define c3 where "c3 = cn_put a ((cn_get a c2)\<lparr>ch_eventHandling := True\<rparr>) c2"
  have c1: "cn_inv c1" "cn_channel c1 = Some a" "el_channels (cn_loop c1) a = Some ch" "cn_state c1 = cConnecting"
    using inv(1) a ch st
    by (simp_all add: c1_def cn_flags)
  let ?ch3 = "ch\<lparr>ch_revents := r, ch_eventHandling := True\<rparr>"
  have c3: "c3 = cn_put a ?ch3 c1"
    by (simp add: c3_def c2_def cn_put_def put_chan_def cn_get_def c1(3) set_revents_def)
  have h: "being_handled a c3"
    using cn_put_inv [OF c1(1-3), where r = r and e = True, OF refl] inv(2) a ch c1(2)
    by (simp add: being_handled_def c3 own_channel_def cn_put_def put_chan_def c1_def)
  have st3: "cn_state c3 = cConnecting" and rem: "removable c3"
    using c1(4) a by (simp_all add: c3 cn_put_def removable_def put_chan_def c1_def)
  have tied: "\<not> ch_tied (cn_get a c2)"
    using inv(2) a ch by (simp add: c2_def cn_get_def cn_put_def put_chan_def c1_def set_revents_def own_channel_def)
  have "\<exists>c4. (if has_bits (ch_revents (cn_get a c3)) (POLLERR OR POLLNVAL)
       then call_opt (run_cn_cb user err self) (ch_errorCallback (cn_get a c3)) c3 else Inr c3) = Inr c4 \<and>
     being_handled a c4 \<and> cn_state c4 \<noteq> cConnected \<and> (cn_state c4 = cConnecting \<longrightarrow> removable c4)"
    using error_stage [OF h st3 rem] h st3 rem being_handled_get(4) [OF h] by (auto simp: call_opt_def run_cn_cb_def)
  then obtain c4 where c4: "(if has_bits (ch_revents (cn_get a c3)) (POLLERR OR POLLNVAL)
       then call_opt (run_cn_cb user err self) (ch_errorCallback (cn_get a c3)) c3 else Inr c3) = Inr c4"
    "being_handled a c4" "cn_state c4 \<noteq> cConnected" "cn_state c4 = cConnecting \<Longrightarrow> removable c4" by blast
  have "\<exists>c5. (if has_bits (ch_revents (cn_get a c4)) POLLOUT
       then call_opt (run_cn_cb user err self) (ch_writeCallback (cn_get a c4)) c4 else Inr c4) = Inr c5 \<and>
     being_handled a c5"
    using write_stage [OF user c4(2-4), of err self] c4(2) being_handled_get(3) [OF c4(2)]
    by (auto simp: call_opt_def run_cn_cb_def)
  then obtain c5 where c5: "(if has_bits (ch_revents (cn_get a c4)) POLLOUT
       then call_opt (run_cn_cb user err self) (ch_writeCallback (cn_get a c4)) c4 else Inr c4) = Inr c5"
    "being_handled a c5" by blast
  define c6 where "c6 = cn_put a ((cn_get a c5)\<lparr>ch_eventHandling := False\<rparr>) c5"
  have "handleEventWithGuard (run_cn_cb user err self) (cn_get a) (cn_put a) c2 = Inr c6"
    using c4(1) c5(1) being_handled_get(5,6) [OF h] being_handled_get(5,6) [OF c4(2)]
    by (simp add: handleEventWithGuard_def c3_def [symmetric] call_opt_def c6_def)
  then have "cn_ready user active r err self c =
      Inr (c6\<lparr>cn_loop := (cn_loop c6)\<lparr>el_active := [], el_current := None, el_eventHandling := False\<rparr>\<rparr>)"
    using a tied by (simp add: cn_ready_def c1_def [symmetric] c2_def [symmetric] handleEvent_def)
  moreover have "cn_inv c6 \<and> own_channel False c6"
  proof -
    have "cn_inv c5" "cn_channel c5 = Some a" using c5(2) by (simp_all add: being_handled_def)
    from cn_put_inv [OF this being_handled_get(1) [OF c5(2)], where r = "ch_revents (cn_get a c5)" and e = False, OF refl] have "cn_inv c6"
      by (simp add: c6_def)
    moreover have "own_channel False c6"
      using being_handled_get [OF c5(2)] c5(2) by (simp add: own_channel_def c6_def cn_put_def put_chan_def being_handled_def)
    ultimately show ?thesis ..
  qed
  ultimately show ?thesis by (simp add: cn_safe_def cn_flags)
qed

section \<open>Any run of a connector\<close>

lemma event_predicted:
  assumes user: "connector_user user" and safe: "cn_safe c" and ok: "cn_event_ok e c"
  shows "as_predicted (cn_event_step user e c) (predicted e c)"
proof (cases e)
  case (EvStart a r)
  with ok have "new_socket a r (c\<lparr>cn_connect := True\<rparr>)" by (simp add: new_socket_def)
  moreover have "cn_safe (c\<lparr>cn_connect := True\<rparr>)" using safe by (simp add: cn_safe_frame)
  ultimately show ?thesis
    using start_predicted [of "c\<lparr>cn_connect := True\<rparr>" a r] EvStart by (simp add: start_cn_def)
next
  case EvStop
  then show ?thesis
    using cn_safe_frame(4) [where f = CnStopInLoop and c = "c\<lparr>cn_connect := False\<rparr>" and b = True] safe by (simp add: stop_cn_def cn_safe_frame)
next
  case (EvFlag b)
  with safe show ?thesis by (simp add: cn_safe_frame)
next
  case (EvPost b)
  with safe show ?thesis by (simp add: post_cn_def cn_safe_frame)
next
  case (EvRestart a r)
  let ?c = "c\<lparr>cn_state := cDisconnected, cn_retryDelayMs := kInitRetryDelayMs, cn_connect := True\<rparr>"
  have "cn_safe (c\<lparr>cn_state := cDisconnected\<rparr>)" using safe ok EvRestart by (intro cn_safe_disconnect) simp_all
  then have "cn_safe ?c" by (simp add: cn_safe_frame)
  moreover have "new_socket a r ?c" using ok EvRestart by (simp add: new_socket_def)
  ultimately show ?thesis
    using start_predicted [of ?c a r] EvRestart by (simp add: restart_cn_def start_fault_def)
next
  case (EvFunctor a r)
  with queued_predicted [OF safe, of a r] ok show ?thesis by simp
next
  case (EvTimer k a r)
  let ?c = "c\<lparr>cn_timers := take k (cn_timers c) @ drop (Suc k) (cn_timers c)\<rparr>"
  have "new_socket a r ?c" using ok EvTimer by (simp add: new_socket_def)
  moreover have "start_fault r ?c = start_fault r c" by (simp add: start_fault_def)
  ultimately show ?thesis
    using start_predicted [of ?c a r] safe EvTimer by (simp add: retry_timer_def cn_safe_frame)
next
  case (EvReady active r err self)
  with reported_ok [OF user safe, of active r err self] ok show ?thesis by simp
qed

lemma cn_run_safe:
  assumes "connector_user user" and "cn_safe c" and "cn_legal user es c" and "foldRes (cn_event_step user) es c = Inr c'"
  shows "cn_safe c'"
  using assms(2-4)
proof (induction es arbitrary: c)
  case (Cons e es)
  then obtain d where d: "cn_event_step user e c = Inr d" by (auto simp: andThen_Inr_iff)
  with event_predicted [OF assms(1) Cons.prems(1), of e] Cons.prems(2) have "cn_safe d"
    by (cases "predicted e c") auto
  with Cons d show ?case by simp
qed simp

lemma cn_legal_append:
  "foldRes (cn_event_step user) es c = Inr c' \<Longrightarrow> cn_legal user (es @ fs) c \<longleftrightarrow> cn_legal user es c \<and> cn_legal user fs c'"
  by (induction es arbitrary: c) (auto simp: andThen_Inr_iff split: sum.splits)

text \<open>
  C15. Any run of a connector. From its constructor on a loop, through any calls of \<^verbatim>\<open>start\<close> and \<^verbatim>\<open>stop\<close> (of any thread,
  interleaved access by access) and \<^verbatim>\<open>restart\<close> (not during an attempt), queued functors, expired retry timers and
  events of the registered channel, whatever connect(2), \<^verbatim>\<open>SO_ERROR\<close>
  and the self-connect test say, the next step fails exactly where it is predicted: a start that finds the
  connector not disconnected fails the assertion of \<^verbatim>\<open>startInLoop\<close>, and one that finds the channel of the last
  attempt not yet reset, while connect(2) does not fail, the one of \<^verbatim>\<open>connecting\<close>. Every other step succeeds; in
  particular no event fails the assertion of \<^verbatim>\<open>handleWrite\<close> or removes a channel twice. All along, the channel is
  registered exactly while an attempt is in progress, a removed channel is destroyed by exactly one queued
  functor, and no socket is leaked, closed twice or closed after it was handed out.
\<close>

theorem connector_safe:
  assumes "connector_user user" and "el_inv l" and "\<not> el_eventHandling l" and "el_pending l = []"
    and "cn_legal user (es @ [e]) (newConnector l)" and run: "foldRes (cn_event_step user) es (newConnector l) = Inr c"
  shows "cn_safe c \<and>
     (case predicted e c of
        None \<Rightarrow> \<exists>c'. cn_event_step user e c = Inr c' \<and> cn_safe c'
      | Some pos \<Rightarrow> cn_event_step user e c = Inl (Assertion pos))"
proof -
  have "cn_safe (newConnector l)"
    using assms(2-4) by (simp add: newConnector_def cn_safe_def cn_inv_def detached_def resets_def own_channel_def)
  moreover have "cn_legal user es (newConnector l)" "cn_event_ok e c"
    using assms(5) cn_legal_append [OF run] by simp_all
  ultimately show ?thesis
    using cn_run_safe [OF assms(1) _ _ run] event_predicted [OF assms(1), of c e] unfolding as_predicted_def by blast
qed

text \<open>An attempt on a fresh loop; then the socket becomes writable, or \<^verbatim>\<open>start\<close> is called once more.\<close>

definition demo_connector :: connector where
  "demo_connector = newConnector (cn_loop demo_cn)"

definition idle_user :: "int \<Rightarrow> connector \<Rightarrow> connector res" where
  "idle_user fd c = Inr c"

lemma demo_connector_start:
  "\<exists>c. cn_event_step idle_user (EvStart 1 (5, 115)) demo_connector = Inr c \<and> reported c \<and>
     cn_state c = cConnecting \<and> el_channels (cn_loop c) 2 = None \<and> el_reg (cn_loop c) 6 = None \<and>
     new_socket 1 (5, 115) demo_connector"
  by (simp add: demo_connector_def demo_cn_def newConnector_def new_socket_def reported_def start_cn_def startInLoop_def
      connect_def errnos_connecting_def connecting_def cn_on_loop_def enableWriting_def channel_set_def chan_at_def
      put_chan_def channel_update_def el_updateChannel_def with_poller_def newDefaultPoller_def newPollPoller_def
      pp_updateChannel_def el_reg_def newChannel_def setErrorCallback_def setWriteCallback_def set_index_def deref_def
      Let_def ev_enableWriting_def)

theorem connector_safe_witness:
  "\<exists>c c'. cn_event_step idle_user (EvStart 1 (5, 115)) demo_connector = Inr c \<and>
     cn_event_step idle_user (EvReady [1] POLLOUT 0 False) c = Inr c' \<and> cn_safe c'"
proof -
  obtain c where c: "cn_event_step idle_user (EvStart 1 (5, 115)) demo_connector = Inr c" "reported c"
    "new_socket 1 (5, 115) demo_connector" using demo_connector_start by blast
  have user: "connector_user idle_user" by (simp add: connector_user_def idle_user_def)
  have l: "el_inv (cn_loop demo_cn)" "\<not> el_eventHandling (cn_loop demo_cn)" "el_pending (cn_loop demo_cn) = []"
    using fresh_poller_inv [of True] by (simp_all add: demo_cn_def newConnector_def el_inv_def)
  have "cn_legal idle_user ([EvStart 1 (5, 115)] @ [EvReady [1] POLLOUT 0 False]) (newConnector (cn_loop demo_cn))"
    "foldRes (cn_event_step idle_user) [EvStart 1 (5, 115)] (newConnector (cn_loop demo_cn)) = Inr c"
    using c by (simp_all add: demo_connector_def del: cn_event_step.simps split: sum.split)
  from connector_safe [OF user l this] c(1) show ?thesis by auto
qed

end
