(* ===== verification/Kaycc_LoopPool.thy ===== *)
theory Kaycc_LoopPool
  imports Kaycc_Poller Kaycc_Timestamp
begin

text \<open>
  EventLoopThreadPool (net/eventloopthreadpool.h, .cpp): the loops among which a server distributes
  its connections. A loop is represented by a number; \<open>startLoop i\<close> is the loop the \<open>i\<close>-th
  EventLoopThread returns. \<^verbatim>\<open>next_\<close> is an \<^verbatim>\<open>int\<close> that indexes the vector without a check.
\<close>

section \<open>State and operations\<close>

record pool =
  tp_baseLoop :: nat
  tp_name :: string
  tp_started :: bool
  tp_numThreads :: int
  tp_next :: int
  tp_threads :: "string list"    \<comment> \<open>the names of the threads\<close>
  tp_loops :: "nat list"

definition newEventLoopThreadPool :: "nat \<Rightarrow> string \<Rightarrow> pool" where
  "newEventLoopThreadPool baseLoop name =
     \<lparr>tp_baseLoop = baseLoop, tp_name = name, tp_started = False, tp_numThreads = 0, tp_next = 0,
      tp_threads = [], tp_loops = []\<rparr>"

definition setThreadNum :: "int \<Rightarrow> pool \<Rightarrow> pool" where
  "setThreadNum n p = p\<lparr>tp_numThreads := n\<rparr>"

text \<open>The loop over \<open>i\<close>, with \<open>k\<close> iterations to go.\<close>

fun start_threads :: "(nat \<Rightarrow> nat) \<Rightarrow> nat \<Rightarrow> nat \<Rightarrow> pool \<Rightarrow> pool" where
  "start_threads startLoop i 0 p = p"
| "start_threads startLoop i (Suc k) p =
     start_threads startLoop (Suc i) k
       (p\<lparr>tp_threads := tp_threads p @ [tp_name p @ fmt_d (int i)], tp_loops := tp_loops p @ [startLoop i]\<rparr>)"

text \<open>The first component lists the loops on which the init callback is called in this thread.\<close>

definition start_pool :: "(nat \<Rightarrow> nat) \<Rightarrow> bool \<Rightarrow> bool \<Rightarrow> pool \<Rightarrow> (nat list \<times> pool) res" where
  "start_pool startLoop hasCb inLoop p =
     check (\<not> tp_started p) ''eventloopthreadpool.cpp:30'' (
     assertInLoopThread inLoop (
     let p1 = start_threads startLoop 0 (nat (tp_numThreads p)) (p\<lparr>tp_started := True\<rparr>)
     in Inr (if tp_numThreads p1 = 0 \<and> hasCb then [tp_baseLoop p1] else [], p1)))"

definition getNextLoop :: "bool \<Rightarrow> pool \<Rightarrow> (nat \<times> pool) res" where
  "getNextLoop inLoop p =
     assertInLoopThread inLoop (
     check (tp_started p) ''eventloopthreadpool.cpp:55'' (
     if tp_loops p \<noteq> [] then
       if 0 \<le> tp_next p \<and> nat (tp_next p) < length (tp_loops p) then
         let loop = tp_loops p ! nat (tp_next p);
             next1 = tp_next p + 1;
             next2 = (if nat next1 \<ge> length (tp_loops p) then 0 else next1)
         in Inr (loop, p\<lparr>tp_next := next2\<rparr>)
       else Inl (Undefined ''eventloopthreadpool.cpp:60: index'')
     else Inr (tp_baseLoop p, p)))"

definition getLoopForHash :: "bool \<Rightarrow> nat \<Rightarrow> pool \<Rightarrow> nat res" where
  "getLoopForHash inLoop hashCode p =
     assertInLoopThread inLoop (
     Inr (if tp_loops p \<noteq> [] then tp_loops p ! (hashCode mod length (tp_loops p)) else tp_baseLoop p))"

definition getAllLoops :: "bool \<Rightarrow> pool \<Rightarrow> nat list res" where
  "getAllLoops inLoop p =
     assertInLoopThread inLoop (
     check (tp_started p) ''eventloopthreadpool.cpp:86'' (
     Inr (if tp_loops p = [] then [tp_baseLoop p] else tp_loops p)))"

section \<open>Starting\<close>

lemma start_threads_eq:
  "start_threads startLoop i k p =
     p\<lparr>tp_threads := tp_threads p @ map (\<lambda>j. tp_name p @ fmt_d (int j)) [i..<i + k],
       tp_loops := tp_loops p @ map startLoop [i..<i + k]\<rparr>"
proof (induction k arbitrary: i p)
  case 0
  then show ?case by simp
next
  case (Suc k)
  have "[i..<i + Suc k] = i # [Suc i..<Suc i + k]" by (simp add: upt_conv_Cons)
  with Suc show ?case by simp
qed

section \<open>Round robin\<close>

definition pool_ok :: "pool \<Rightarrow> bool" where
  "pool_ok p \<longleftrightarrow>
     tp_started p \<and> 0 \<le> tp_next p \<and> (tp_loops p = [] \<or> nat (tp_next p) < length (tp_loops p))"

text \<open>\<open>n\<close> calls of \<^verbatim>\<open>getNextLoop\<close>.\<close>

fun next_loops :: "nat \<Rightarrow> pool \<Rightarrow> (nat list \<times> pool) res" where
  "next_loops 0 p = Inr ([], p)"
| "next_loops (Suc n) p =
     andThen (next_loops n p) (\<lambda>(ls, p1).
     andThen (getNextLoop True p1) (\<lambda>(l, p2). Inr (ls @ [l], p2)))"

lemma wrap_next:
  assumes "m < n"
  shows "(if nat (int m + 1) \<ge> n then 0 else int m + 1) = int (Suc m mod n)"
proof (cases "Suc m = n")
  case False
  with assms have "Suc m < n" by simp
  then show ?thesis by (simp add: nat_add_distrib)
qed (simp add: nat_add_distrib)

lemma getNextLoop_ok:
  assumes "pool_ok p" and "tp_loops p \<noteq> []"
  shows "getNextLoop True p = Inr (tp_loops p ! nat (tp_next p),
     p\<lparr>tp_next := int (Suc (nat (tp_next p)) mod length (tp_loops p))\<rparr>)"
proof -
  define m where "m = nat (tp_next p)"
  have m: "tp_next p = int m" "m < length (tp_loops p)" using assms by (simp_all add: m_def pool_ok_def)
  show ?thesis
    using assms m wrap_next [OF m(2)] by (auto simp: getNextLoop_def pool_ok_def Let_def split: if_splits)
qed

lemma next_loops_ok:
  assumes ok: "pool_ok p" and ne: "tp_loops p \<noteq> []"
  shows "next_loops n p = Inr (map (\<lambda>k. tp_loops p ! ((nat (tp_next p) + k) mod length (tp_loops p))) [0..<n],
     p\<lparr>tp_next := int ((nat (tp_next p) + n) mod length (tp_loops p))\<rparr>)"
proof (induction n)
  case 0
  with ok ne show ?case by (simp add: pool_ok_def)
next
  case (Suc n)
  let ?m = "(nat (tp_next p) + n) mod length (tp_loops p)"
  have "pool_ok (p\<lparr>tp_next := int ?m\<rparr>)" using ok ne by (simp add: pool_ok_def)
  from getNextLoop_ok [OF this] ne Suc show ?case by (simp add: mod_Suc_eq)
qed

text \<open>
  Round robin: after \<^verbatim>\<open>setThreadNum(n)\<close> and \<^verbatim>\<open>start\<close>, the \<open>k\<close>-th call of \<^verbatim>\<open>getNextLoop\<close> returns the
  loop of thread \<open>k mod n\<close>, for any number of calls (the index never leaves the vector);
  without threads it is always the base loop. \<^verbatim>\<open>getLoopForHash\<close> is the loop of thread \<open>hash mod n\<close>.
\<close>

theorem round_robin:
  assumes "0 \<le> n"
  shows "\<exists>cbs p. start_pool startLoop hasCb True (setThreadNum n (newEventLoopThreadPool base name)) = Inr (cbs, p) \<and>
     (\<exists>p'. next_loops k p =
        Inr (map (\<lambda>i. if n = 0 then base else startLoop (i mod nat n)) [0..<k], p')) \<and>
     getLoopForHash True h p = Inr (if n = 0 then base else startLoop (h mod nat n)) \<and>
     getAllLoops True p = Inr (if n = 0 then [base] else map startLoop [0..<nat n])"
proof -
  define p where "p = \<lparr>tp_baseLoop = base, tp_name = name, tp_started = True, tp_numThreads = n, tp_next = 0,
    tp_threads = map (\<lambda>j. name @ fmt_d (int j)) [0..<nat n], tp_loops = map startLoop [0..<nat n]\<rparr>"
  have start: "\<exists>cbs. start_pool startLoop hasCb True (setThreadNum n (newEventLoopThreadPool base name)) = Inr (cbs, p)"
    by (simp add: start_pool_def setThreadNum_def newEventLoopThreadPool_def start_threads_eq p_def Let_def)
  have calls: "\<exists>p'. next_loops k p = Inr (map (\<lambda>i. if n = 0 then base else startLoop (i mod nat n)) [0..<k], p')"
  proof (cases "n = 0")
    case True
    have "next_loops k p = Inr (map (\<lambda>i. base) [0..<k], p)"
      by (induction k) (simp_all add: getNextLoop_def p_def True)
    with True show ?thesis by auto
  next
    case False
    then have pos: "0 < nat n" using assms by simp
    have "pool_ok p" "tp_loops p \<noteq> []" using pos by (simp_all add: pool_ok_def p_def)
    from next_loops_ok [OF this, of k] False pos show ?thesis by (simp add: p_def)
  qed
  have "getLoopForHash True h p = Inr (if n = 0 then base else startLoop (h mod nat n))"
    "getAllLoops True p = Inr (if n = 0 then [base] else map startLoop [0..<nat n])"
    using assms by (auto simp: getLoopForHash_def getAllLoops_def p_def)
  with start calls show ?thesis by blast
qed

theorem round_robin_witness:
  "\<exists>cbs p p'. start_pool (\<lambda>i. 10 + i) False True (setThreadNum 2 (newEventLoopThreadPool 1 ''io'')) = Inr (cbs, p) \<and>
     next_loops 5 p = Inr ([10, 11, 10, 11, 10], p')"
  using round_robin [of 2 "\<lambda>i. 10 + i" False 1 "''io''" 5 0]
  by (auto simp: upt_conv_Cons)

end
