(* ===== verification/Kaycc_TcpServer.thy ===== *)
theory Kaycc_TcpServer
  imports Kaycc_LoopPool "HOL-Library.List_Lexorder" "HOL-Library.Char_ord" "HOL-Library.Multiset"
begin

text \<open>
  TcpServer (net/tcpserver.h, .cpp): the map of connections and the hand-over of each connection to
  the loop the pool chooses. Loops are numbers as in the pool's theory, connections are addresses;
  \<open>sv_conns\<close> holds what the server reads of a TcpConnection, its name and its loop. What the server
  asks a loop to run, directly or through the queue, is listed in \<open>sv_posted\<close>, in order.
  \<^verbatim>\<open>std::map\<close> is an association list sorted by key, which is also the order of its iteration.
\<close>

section \<open>Ordered maps\<close>

fun map_set :: "'k::linorder \<Rightarrow> 'v \<Rightarrow> ('k \<times> 'v) list \<Rightarrow> ('k \<times> 'v) list" where
  "map_set k v [] = [(k, v)]"
| "map_set k v (e # m) =
     (if k < fst e then (k, v) # e # m else if k = fst e then (k, v) # m else e # map_set k v m)"

text \<open>The second component is the number of erased elements.\<close>

definition map_erase :: "'k \<Rightarrow> ('k \<times> 'v) list \<Rightarrow> ('k \<times> 'v) list \<times> nat" where
  "map_erase k m = (filter (\<lambda>e. fst e \<noteq> k) m, length (filter (\<lambda>e. fst e = k) m))"

definition ordered :: "('k::linorder \<times> 'v) list \<Rightarrow> bool" where
  "ordered m \<longleftrightarrow> sorted_wrt (<) (map fst m)"

lemma set_map_set: "ordered m \<Longrightarrow> set (map_set k v m) = insert (k, v) {e \<in> set m. fst e \<noteq> k}"
  by (induction m) (auto simp: ordered_def)

lemma map_set_fresh: "k \<notin> fst ` set m \<Longrightarrow> mset (map_set k v m) = add_mset (k, v) (mset m)"
  by (induction m) auto

lemma ordered_map_set: "ordered m \<Longrightarrow> ordered (map_set k v m)"
proof (induction m)
  case (Cons e m)
  have om: "ordered m" using Cons.prems by (simp add: ordered_def)
  then have "fst ` set (map_set k v m) = insert k (fst ` set m)"
    by (auto simp: set_map_set)
  with Cons om show ?case by (auto simp: ordered_def)
qed (simp add: ordered_def)

lemma ordered_erase: "ordered m \<Longrightarrow> ordered (fst (map_erase k m))"
  by (induction m) (auto simp: ordered_def map_erase_def)

lemma erase_present: "ordered m \<Longrightarrow> (k, v) \<in> set m \<Longrightarrow> snd (map_erase k m) = 1"
proof (induction m)
  case (Cons e m)
  then have om: "ordered m" and lt: "\<forall>x \<in> set m. fst e < fst x" by (auto simp: ordered_def)
  show ?case
  proof (cases "fst e = k")
    case True
    then have "filter (\<lambda>e. fst e = k) m = []" using lt by (auto simp: filter_empty_conv)
    with True show ?thesis by (simp add: map_erase_def)
  next
    case False
    then have "(k, v) \<in> set m" using Cons.prems by auto
    with Cons.IH om False show ?thesis by (simp add: map_erase_def)
  qed
qed simp

lemma ordered_key: "ordered m \<Longrightarrow> (k, v) \<in> set m \<Longrightarrow> (k, w) \<in> set m \<Longrightarrow> v = w"
  by (induction m) (auto simp: ordered_def)

section \<open>State and operations\<close>

datatype sv_task = TListen | TEstablish nat | TRemove nat | TDestroy nat

record server =
  sv_loop :: nat
  sv_ipPort :: string
  sv_name :: string
  sv_listenning :: bool
  sv_pool :: pool
  sv_started :: int
  sv_nextConnId :: int
  sv_connections :: "(string \<times> nat) list"
  sv_conns :: "nat \<rightharpoonup> string \<times> nat"
  sv_posted :: "(nat \<times> sv_task) list"

definition newTcpServer :: "nat \<Rightarrow> string \<Rightarrow> string \<Rightarrow> server" where
  "newTcpServer loop ipPort name =
     \<lparr>sv_loop = loop, sv_ipPort = ipPort, sv_name = name, sv_listenning = False,
      sv_pool = newEventLoopThreadPool loop name, sv_started = 0, sv_nextConnId = 1,
      sv_connections = [], sv_conns = Map.empty, sv_posted = []\<rparr>"

definition post :: "nat \<Rightarrow> sv_task \<Rightarrow> server \<Rightarrow> server" where
  "post loop t s = s\<lparr>sv_posted := sv_posted s @ [(loop, t)]\<rparr>"

text \<open>\<^verbatim>\<open>conn->getLoop()\<close> through a shared pointer.\<close>

definition conn_at :: "server \<Rightarrow> nat \<Rightarrow> (string \<times> nat \<Rightarrow> 'a res) \<Rightarrow> 'a res" where
  "conn_at s a k = (case sv_conns s a of None \<Rightarrow> Inl (Undefined ''null TcpConnectionPtr'') | Some c \<Rightarrow> k c)"

fun destroy_all :: "(string \<times> nat) list \<Rightarrow> server \<Rightarrow> server res" where
  "destroy_all [] s = Inr s"
| "destroy_all (e # es) s =
     andThen (conn_at s (snd e) (\<lambda>(name, loop). Inr (post loop (TDestroy (snd e)) s))) (destroy_all es)"

definition destroyTcpServer :: "bool \<Rightarrow> server \<Rightarrow> server res" where
  "destroyTcpServer inLoop s =
     assertInLoopThread inLoop (
     andThen (destroy_all (sv_connections s) s) (\<lambda>s1. Inr (s1\<lparr>sv_connections := []\<rparr>)))"

definition setThreadNum_sv :: "int \<Rightarrow> server \<Rightarrow> server res" where
  "setThreadNum_sv n s =
     check (0 \<le> n) ''tcpserver.cpp:54'' (Inr (s\<lparr>sv_pool := setThreadNum n (sv_pool s)\<rparr>))"

definition start_sv :: "(nat \<Rightarrow> nat) \<Rightarrow> bool \<Rightarrow> bool \<Rightarrow> server \<Rightarrow> server res" where
  "start_sv startLoop hasCb inLoop s =
     (let old = sv_started s; s1 = s\<lparr>sv_started := 1\<rparr>
      in if old = 0 then
           andThen (start_pool startLoop hasCb inLoop (sv_pool s1)) (\<lambda>(cbs, p).
           check (\<not> sv_listenning s1) ''tcpserver.cpp:62'' (
           Inr (post (sv_loop s1) TListen (s1\<lparr>sv_pool := p\<rparr>))))
         else Inr s1)"

text \<open>The name: \<^verbatim>\<open>snprintf\<close> into 64 bytes keeps 63 characters.\<close>

definition conn_name :: "server \<Rightarrow> int \<Rightarrow> string" where
  "conn_name s i = sv_name s @ take 63 (CHR ''-'' # sv_ipPort s @ CHR ''#'' # fmt_d i)"

text \<open>\<open>a\<close> is the address of the new TcpConnection; \<^verbatim>\<open>nextConnId_\<close> is an \<^verbatim>\<open>int\<close>.\<close>

definition newConnection :: "nat \<Rightarrow> bool \<Rightarrow> server \<Rightarrow> server res" where
  "newConnection a inLoop s =
     assertInLoopThread inLoop (
     andThen (getNextLoop inLoop (sv_pool s)) (\<lambda>(ioLoop, p).
     let connName = conn_name s (sv_nextConnId s)
     in if sv_nextConnId s + 1 \<ge> 2 ^ 31 then Inl (Undefined ''tcpserver.cpp:84: int overflow'')
        else Inr (post ioLoop (TEstablish a)
          (s\<lparr>sv_pool := p, sv_nextConnId := sv_nextConnId s + 1,
             sv_conns := (sv_conns s)(a \<mapsto> (connName, ioLoop)),
             sv_connections := map_set connName a (sv_connections s)\<rparr>))))"

definition removeConnection :: "nat \<Rightarrow> server \<Rightarrow> server" where
  "removeConnection a s = post (sv_loop s) (TRemove a) s"

definition removeConnectionInLoop :: "nat \<Rightarrow> bool \<Rightarrow> server \<Rightarrow> server res" where
  "removeConnectionInLoop a inLoop s =
     assertInLoopThread inLoop (
     conn_at s a (\<lambda>(name, ioLoop).
     let (m, n) = map_erase name (sv_connections s)
     in check (n = 1) ''tcpserver.cpp:133'' (
        Inr (post ioLoop (TDestroy a) (s\<lparr>sv_connections := m\<rparr>)))))"

section \<open>Names are unique\<close>

lemma digits_inj: "digits m = digits n \<Longrightarrow> m = n"
  by (metis num_of_digits)

lemma conn_name_inj:
  assumes "length (sv_ipPort s) \<le> 51" and "1 \<le> i" and "i < 2 ^ 31" and "1 \<le> j" and "j < 2 ^ 31"
    and "conn_name s i = conn_name s j"
  shows "i = j"
proof -
  have len: "length (fmt_d k) \<le> 10" if "1 \<le> k" "k < 2 ^ 31" for k
  proof -
    have "nat k < 10 ^ 10" using that by simp
    from length_digits [OF this] that show ?thesis by (simp add: fmt_d_def)
  qed
  have "fmt_d i = fmt_d j"
    using assms(1,6) len [OF assms(2,3)] len [OF assms(4,5)] by (simp add: conn_name_def)
  then have "nat i = nat j" using assms(2,4) by (simp add: fmt_d_def digits_inj)
  then show ?thesis using assms(2,4) by simp
qed

section \<open>Every connection is established once and destroyed once\<close>

datatype sv_event = SvNew nat | SvRemove nat

fun sv_step :: "sv_event \<Rightarrow> server \<Rightarrow> server res" where
  "sv_step (SvNew a) s = newConnection a True s"
| "sv_step (SvRemove a) s = removeConnectionInLoop a True s"

text \<open>
  A new connection lives at an unused address and its number fits an \<^verbatim>\<open>int\<close>; the close callback
  comes once for a connection that was accepted, as TcpConnection guarantees.
\<close>

fun sv_ok :: "sv_event \<Rightarrow> server \<Rightarrow> bool" where
  "sv_ok (SvNew a) s \<longleftrightarrow> sv_conns s a = None \<and> sv_nextConnId s + 1 < 2 ^ 31"
| "sv_ok (SvRemove a) s \<longleftrightarrow> a \<in> snd ` set (sv_connections s)"

fun sv_legal :: "sv_event list \<Rightarrow> server \<Rightarrow> bool" where
  "sv_legal [] s \<longleftrightarrow> True"
| "sv_legal (e # es) s \<longleftrightarrow> sv_ok e s \<and> (case sv_step e s of Inl f \<Rightarrow> True | Inr s' \<Rightarrow> sv_legal es s')"

text \<open>What the server asked loops to do with connection \<open>a\<close>.\<close>

definition handed :: "nat \<Rightarrow> server \<Rightarrow> (nat \<times> sv_task) list" where
  "handed a s = filter (\<lambda>(l, t). t = TEstablish a \<or> t = TDestroy a) (sv_posted s)"

definition live :: "server \<Rightarrow> nat set" where
  "live s = snd ` set (sv_connections s)"

definition sv_names_ok :: "server \<Rightarrow> bool" where
  "sv_names_ok s \<longleftrightarrow>
     length (sv_ipPort s) \<le> 51 \<and> 1 \<le> sv_nextConnId s \<and> sv_nextConnId s < 2 ^ 31 \<and>
     (\<forall>a nm l. sv_conns s a = Some (nm, l) \<longrightarrow>
        (\<exists>i. 1 \<le> i \<and> i < sv_nextConnId s \<and> nm = conn_name s i)) \<and>
     (\<forall>a b nm l m. sv_conns s a = Some (nm, l) \<longrightarrow> sv_conns s b = Some (nm, m) \<longrightarrow> a = b)"

definition sv_inv :: "server \<Rightarrow> bool" where
  "sv_inv s \<longleftrightarrow>
     pool_ok (sv_pool s) \<and> sv_names_ok s \<and> ordered (sv_connections s) \<and>
     (\<forall>nm a. (nm, a) \<in> set (sv_connections s) \<longrightarrow> (\<exists>l. sv_conns s a = Some (nm, l))) \<and>
     (\<forall>a nm l. sv_conns s a = Some (nm, l) \<longrightarrow>
        handed a s = (if a \<in> live s then [(l, TEstablish a)] else [(l, TEstablish a), (l, TDestroy a)])) \<and>
     (\<forall>a. sv_conns s a = None \<longrightarrow> handed a s = [])"

lemma sv_invD:
  assumes "sv_inv s"
  shows "pool_ok (sv_pool s)" and "sv_names_ok s" and "ordered (sv_connections s)"
    and "(nm, a) \<in> set (sv_connections s) \<Longrightarrow> \<exists>l. sv_conns s a = Some (nm, l)"
    and "sv_conns s a = Some (nm, l) \<Longrightarrow>
      handed a s = (if a \<in> live s then [(l, TEstablish a)] else [(l, TEstablish a), (l, TDestroy a)])"
    and "sv_conns s a = None \<Longrightarrow> handed a s = []"
  using assms by (auto simp: sv_inv_def)

lemma getNextLoop_pool:
  assumes "pool_ok p"
  shows "\<exists>l p'. getNextLoop True p = Inr (l, p') \<and> pool_ok p'"
proof (cases "tp_loops p = []")
  case True
  with assms show ?thesis by (simp add: getNextLoop_def pool_ok_def)
next
  case False
  with getNextLoop_ok [OF assms] assms show ?thesis by (simp add: pool_ok_def)
qed

lemma conn_name_unused:
  assumes ok: "sv_names_ok s" and num: "sv_nextConnId s + 1 < 2 ^ 31" and b: "sv_conns s b = Some (nm, m)"
  shows "nm \<noteq> conn_name s (sv_nextConnId s)"
proof
  let ?i = "sv_nextConnId s"
  assume nm: "nm = conn_name s ?i"
  have len: "length (sv_ipPort s) \<le> 51" and lo: "1 \<le> ?i" using ok by (simp_all add: sv_names_ok_def)
  obtain i where i: "1 \<le> i" "i < ?i" "nm = conn_name s i" using ok b unfolding sv_names_ok_def by blast
  then have "i = ?i" using conn_name_inj [OF len, of i ?i] nm lo num by simp
  with i(2) show False by simp
qed

lemma names_ok_next:
  assumes ok: "sv_names_ok s" and num: "sv_nextConnId s + 1 < 2 ^ 31"
    and s': "sv_conns s' = (sv_conns s)(a \<mapsto> (conn_name s (sv_nextConnId s), l))"
      "sv_nextConnId s' = sv_nextConnId s + 1" "sv_ipPort s' = sv_ipPort s" "conn_name s' = conn_name s"
  shows "sv_names_ok s'"
  unfolding sv_names_ok_def s'
proof (intro conjI allI impI)
  fix b nm m
  assume b: "((sv_conns s)(a \<mapsto> (conn_name s (sv_nextConnId s), l))) b = Some (nm, m)"
  show "\<exists>i. 1 \<le> i \<and> i < sv_nextConnId s + 1 \<and> nm = conn_name s i"
  proof (cases "b = a")
    case True
    with b ok show ?thesis by (intro exI [of _ "sv_nextConnId s"]) (simp add: sv_names_ok_def)
  next
    case False
    with b ok obtain i where "1 \<le> i" "i < sv_nextConnId s" "nm = conn_name s i"
      unfolding sv_names_ok_def by (metis fun_upd_other)
    then show ?thesis by (intro exI [of _ i]) simp
  qed
next
  fix b d nm m k
  assume "((sv_conns s)(a \<mapsto> (conn_name s (sv_nextConnId s), l))) b = Some (nm, m)"
    "((sv_conns s)(a \<mapsto> (conn_name s (sv_nextConnId s), l))) d = Some (nm, k)"
  with conn_name_unused [OF ok num] ok show "b = d"
    unfolding sv_names_ok_def by (metis (no_types, lifting) fun_upd_apply option.inject prod.inject)
qed (use ok num in \<open>simp_all add: sv_names_ok_def\<close>)

lemma newConnection_ok:
  assumes inv: "sv_inv s" and fresh: "sv_conns s a = None" and num: "sv_nextConnId s + 1 < 2 ^ 31"
  shows "\<exists>s' nm l. newConnection a True s = Inr s' \<and> sv_inv s' \<and> sv_loop s' = sv_loop s \<and>
     sv_conns s' = (sv_conns s)(a \<mapsto> (nm, l)) \<and> live s' = insert a (live s)"
proof -
  note D = sv_invD [OF inv]
  obtain l p where l: "getNextLoop True (sv_pool s) = Inr (l, p)" "pool_ok p"
    using getNextLoop_pool [OF D(1)] by blast
  let ?i = "sv_nextConnId s" and ?nm = "conn_name s (sv_nextConnId s)"
  define s' where "s' = post l (TEstablish a)
    (s\<lparr>sv_pool := p, sv_nextConnId := ?i + 1, sv_conns := (sv_conns s)(a \<mapsto> (?nm, l)),
       sv_connections := map_set ?nm a (sv_connections s)\<rparr>)"
  have "{e \<in> set (sv_connections s). fst e \<noteq> ?nm} = set (sv_connections s)"
    using D(4) conn_name_unused [OF D(2) num] by fastforce
  then have conns: "set (sv_connections s') = insert (?nm, a) (set (sv_connections s))"
    using set_map_set [OF D(3), of ?nm a] by (simp add: s'_def post_def)
  have same: "sv_conns s' = (sv_conns s)(a \<mapsto> (?nm, l))" "sv_nextConnId s' = ?i + 1" "sv_ipPort s' = sv_ipPort s"
    "conn_name s' = conn_name s" "sv_pool s' = p"
    by (simp_all add: s'_def post_def conn_name_def fun_eq_iff)
  have dead: "a \<notin> live s" using D(4) fresh by (fastforce simp: live_def)
  have live': "live s' = insert a (live s)" by (simp add: live_def conns)
  have handed': "handed b s' = handed b s @ (if b = a then [(l, TEstablish a)] else [])" for b
    by (simp add: handed_def s'_def post_def)
  have ord: "ordered (sv_connections s')" using ordered_map_set [OF D(3)] by (simp add: s'_def post_def)
  have "sv_inv s'"
    unfolding sv_inv_def same(5) conns live'
  proof (intro conjI allI impI l(2) names_ok_next [OF D(2) num same(1-4)] ord)
    fix nm b
    assume "(nm, b) \<in> insert (?nm, a) (set (sv_connections s))"
    then show "\<exists>l. sv_conns s' b = Some (nm, l)" using D(4) fresh by (fastforce simp: same)
  next
    fix b nm m
    assume "sv_conns s' b = Some (nm, m)"
    then show "handed b s' = (if b \<in> insert a (live s) then [(m, TEstablish b)]
        else [(m, TEstablish b), (m, TDestroy b)])"
      using D(5) D(6) [OF fresh] dead by (cases "b = a") (simp_all add: handed' same)
  next
    fix b
    assume "sv_conns s' b = None"
    then show "handed b s' = []" using D(6) by (cases "b = a") (simp_all add: handed' same)
  qed
  moreover have "newConnection a True s = Inr s'"
    using l(1) num by (simp add: newConnection_def s'_def Let_def)
  moreover have "sv_loop s' = sv_loop s" by (simp add: s'_def post_def)
  ultimately show ?thesis using same(1) live' by blast
qed

lemma post_destroy_handed:
  "handed b (post l (TDestroy a) s) = handed b s @ (if b = a then [(l, TDestroy a)] else [])"
  by (simp add: handed_def post_def)

lemma removeConnectionInLoop_ok:
  assumes inv: "sv_inv s" and a: "a \<in> live s"
  shows "\<exists>s'. removeConnectionInLoop a True s = Inr s' \<and> sv_inv s' \<and> sv_loop s' = sv_loop s \<and>
     sv_conns s' = sv_conns s \<and> live s' = live s - {a}"
proof -
  note D = sv_invD [OF inv]
  obtain nm where nm: "(nm, a) \<in> set (sv_connections s)" using a by (auto simp: live_def)
  obtain l where l: "sv_conns s a = Some (nm, l)" using D(4) [OF nm] by blast
  let ?m = "fst (map_erase nm (sv_connections s))"
  define s' where "s' = post l (TDestroy a) (s\<lparr>sv_connections := ?m\<rparr>)"
  have same: "sv_conns s' = sv_conns s" "sv_pool s' = sv_pool s" "sv_connections s' = ?m"
    "sv_nextConnId s' = sv_nextConnId s" "sv_ipPort s' = sv_ipPort s" "conn_name s' = conn_name s"
    by (simp_all add: s'_def post_def conn_name_def fun_eq_iff)
  have conns: "set ?m = {e \<in> set (sv_connections s). fst e \<noteq> nm}" by (simp add: map_erase_def)
  have live': "live s' = live s - {a}"
  proof -
    have "fst e = nm \<longleftrightarrow> snd e = a" if "e \<in> set (sv_connections s)" for e
      using ordered_key [OF D(3) nm, of "snd e"] D(4) [of "fst e" "snd e"] l that by (cases e) auto
    then have "set ?m = {e \<in> set (sv_connections s). snd e \<noteq> a}" by (auto simp: conns)
    then show ?thesis by (auto simp: live_def same)
  qed
  have "handed b s' = handed b (post l (TDestroy a) s)" for b by (simp add: s'_def handed_def post_def)
  then have handed': "handed b s' = handed b s @ (if b = a then [(l, TDestroy a)] else [])" for b
    by (simp add: post_destroy_handed)
  have "sv_names_ok s'" using D(2) unfolding sv_names_ok_def same .
  moreover have "ordered (sv_connections s')" using ordered_erase [OF D(3)] by (simp add: same)
  moreover have "\<exists>l. sv_conns s' b = Some (nm', l)" if "(nm', b) \<in> set (sv_connections s')" for nm' b
    using D(4) [of nm' b] that by (simp add: same conns)
  moreover have "handed b s' = (if b \<in> live s' then [(k, TEstablish b)] else [(k, TEstablish b), (k, TDestroy b)])"
    if "sv_conns s' b = Some (nm', k)" for b nm' k
    using D(5) [of b nm' k] that a l by (cases "b = a") (simp_all add: same live' handed')
  moreover have "handed b s' = []" if "sv_conns s' b = None" for b
    using D(6) [of b] that l by (cases "b = a") (simp_all add: same handed')
  ultimately have "sv_inv s'" using D(1) unfolding sv_inv_def same(2) by blast
  moreover have "removeConnectionInLoop a True s = Inr s'"
    using l erase_present [OF D(3) nm]
    by (simp add: removeConnectionInLoop_def conn_at_def s'_def split_beta)
  moreover have "sv_loop s' = sv_loop s" by (simp add: s'_def post_def)
  ultimately show ?thesis using same(1) live' by blast
qed

text \<open>
  What the map of the server should hold: the connections that were accepted and not removed since. And all that
  were ever accepted.
\<close>

fun sv_spec :: "nat set \<Rightarrow> sv_event \<Rightarrow> nat set" where
  "sv_spec A (SvNew a) = insert a A"
| "sv_spec A (SvRemove a) = A - {a}"

definition sv_accepted :: "sv_event list \<Rightarrow> nat set" where
  "sv_accepted evs = {a. SvNew a \<in> set evs}"

lemma sv_accepted_simps [simp]:
  "sv_accepted [] = {}" "sv_accepted (SvNew a # es) = insert a (sv_accepted es)"
  "sv_accepted (SvRemove a # es) = sv_accepted es"
  by (auto simp: sv_accepted_def)

lemma sv_run_ok:
  assumes "sv_inv s" and "sv_legal evs s"
  shows "\<exists>s'. foldRes sv_step evs s = Inr s' \<and> sv_inv s' \<and> live s' = foldl sv_spec (live s) evs \<and>
     dom (sv_conns s') = dom (sv_conns s) \<union> sv_accepted evs"
  using assms
proof (induction evs arbitrary: s)
  case (Cons e es)
  have "\<exists>s1. sv_step e s = Inr s1 \<and> sv_inv s1 \<and> live s1 = sv_spec (live s) e \<and>
    dom (sv_conns s1) \<union> sv_accepted es = dom (sv_conns s) \<union> sv_accepted (e # es)"
  proof (cases e)
    case (SvNew a)
    with Cons.prems newConnection_ok [of s a] show ?thesis by auto
  next
    case (SvRemove a)
    with Cons.prems removeConnectionInLoop_ok [of s a] show ?thesis by (auto simp: live_def)
  qed
  then obtain s1 where "sv_step e s = Inr s1" "sv_inv s1" "live s1 = sv_spec (live s) e"
    "dom (sv_conns s1) \<union> sv_accepted es = dom (sv_conns s) \<union> sv_accepted (e # es)" by blast
  moreover from this Cons.prems(2) Cons.IH [of s1] obtain s' where "foldRes sv_step es s1 = Inr s'" "sv_inv s'"
    "live s' = foldl sv_spec (live s1) es" "dom (sv_conns s') = dom (sv_conns s1) \<union> sv_accepted es" by auto
  ultimately show ?case by simp
qed simp

text \<open>The destructor hands out the destruction of every connection that is still in the map.\<close>

lemma destroy_all_ok:
  assumes "\<forall>(nm, a) \<in> set es. \<exists>l. sv_conns s a = Some (nm, l)" and "distinct (map snd es)"
  shows "\<exists>s'. destroy_all es s = Inr s' \<and> sv_conns s' = sv_conns s \<and>
     (\<forall>a. handed a s' = handed a s @
        (if a \<in> snd ` set es then [(snd (the (sv_conns s a)), TDestroy a)] else []))"
  using assms
proof (induction es arbitrary: s)
  case Nil
  then show ?case by simp
next
  case (Cons e es)
  obtain nm a where e: "e = (nm, a)" by (cases e)
  obtain l where l: "sv_conns s a = Some (nm, l)" using Cons.prems(1) e by auto
  let ?s = "post l (TDestroy a) s"
  have conns: "sv_conns ?s = sv_conns s" by (simp add: post_def)
  obtain s' where s': "destroy_all es ?s = Inr s'" "sv_conns s' = sv_conns s"
    "\<forall>b. handed b s' = handed b ?s @
        (if b \<in> snd ` set es then [(snd (the (sv_conns s b)), TDestroy b)] else [])"
    using Cons.IH [of ?s] Cons.prems conns by auto
  have "a \<notin> snd ` set es" using Cons.prems(2) e by auto
  with s' l e show ?case
    by (intro exI [of _ s']) (auto simp: conn_at_def post_destroy_handed)
qed

lemma distinct_live:
  assumes inv: "sv_inv s"
  shows "distinct (map snd (sv_connections s))"
proof -
  note D = sv_invD [OF inv]
  have "distinct (map fst (sv_connections s))"
    using D(3) by (simp add: ordered_def strict_sorted_iff)
  moreover have "inj_on snd (set (sv_connections s))"
  proof (rule inj_onI)
    fix x y
    assume x: "x \<in> set (sv_connections s)" and y: "y \<in> set (sv_connections s)" and eq: "snd x = snd y"
    obtain l where "sv_conns s (snd x) = Some (fst x, l)" using D(4) [of "fst x" "snd x"] x by auto
    moreover obtain m where "sv_conns s (snd y) = Some (fst y, m)" using D(4) [of "fst y" "snd y"] y by auto
    ultimately show "x = y" using eq by (simp add: prod_eq_iff)
  qed
  ultimately show ?thesis by (simp add: distinct_map)
qed

text \<open>A started server.\<close>

lemma started_inv:
  assumes "0 \<le> n" and "length ipPort \<le> 51"
    and start: "setThreadNum_sv n (newTcpServer loop ipPort name) = Inr s0"
      "start_sv startLoop hasCb True s0 = Inr s1"
  shows "sv_inv s1" and "sv_conns s1 = Map.empty" and "sv_connections s1 = []" and "sv_posted s1 = [(loop, TListen)]"
proof -
  have s0: "s0 = (newTcpServer loop ipPort name)\<lparr>sv_pool := setThreadNum n (newEventLoopThreadPool loop name)\<rparr>"
    using start(1) assms(1) by (simp add: setThreadNum_sv_def newTcpServer_def)
  define p where "p = start_threads startLoop 0 (nat n)
    ((setThreadNum n (newEventLoopThreadPool loop name))\<lparr>tp_started := True\<rparr>)"
  have p: "s1 = post loop TListen (s0\<lparr>sv_started := 1, sv_pool := p\<rparr>)" "pool_ok p"
    using start(2) unfolding s0 p_def
    by (auto simp: start_sv_def newTcpServer_def setThreadNum_def newEventLoopThreadPool_def start_pool_def
        start_threads_eq Let_def pool_ok_def)
  show "sv_inv s1"
    using p(2) assms(2) unfolding p(1) s0
    by (simp add: sv_inv_def sv_names_ok_def post_def newTcpServer_def ordered_def handed_def)
  show "sv_conns s1 = Map.empty" "sv_connections s1 = []" "sv_posted s1 = [(loop, TListen)]"
    by (simp_all add: p(1) s0 post_def newTcpServer_def)
qed

text \<open>
  C14. The map of the server and the hand-over of connections: from a started server, through any sequence of
  accepted connections and close callbacks, no assertion fails (in particular not the one that a
  removed connection was in the map: the names of all connections differ, since the 64-byte buffer
  is just large enough for every address and every \<^verbatim>\<open>int\<close>). The map then holds exactly the connections that were
  accepted and not removed since, each once and under its own name; those were given to their loop to be
  established, the removed ones also to be destroyed. After the destructor the map is empty, and every
  connection ever accepted was given to one loop to be established, and later to the same loop to be
  destroyed, once each.
\<close>

theorem server_hands_over:
  assumes "0 \<le> n" and "length ipPort \<le> 51"
    and start: "setThreadNum_sv n (newTcpServer loop ipPort name) = Inr s0"
      "start_sv startLoop hasCb True s0 = Inr s1"
    and "sv_legal evs s1"
  shows "\<exists>s s'. foldRes sv_step evs s1 = Inr s \<and> dom (sv_conns s) = sv_accepted evs \<and>
     snd ` set (sv_connections s) = foldl sv_spec {} evs \<and> distinct (map snd (sv_connections s)) \<and>
     (\<forall>nm a. (nm, a) \<in> set (sv_connections s) \<longrightarrow> (\<exists>l. sv_conns s a = Some (nm, l))) \<and>
     (\<forall>a nm l. sv_conns s a = Some (nm, l) \<longrightarrow> handed a s =
        (if a \<in> foldl sv_spec {} evs then [(l, TEstablish a)] else [(l, TEstablish a), (l, TDestroy a)])) \<and>
     destroyTcpServer True s = Inr s' \<and> sv_connections s' = [] \<and> sv_conns s' = sv_conns s \<and>
     (\<forall>a nm l. sv_conns s' a = Some (nm, l) \<longrightarrow> handed a s' = [(l, TEstablish a), (l, TDestroy a)])"
proof -
  note S = started_inv [OF assms(1-4)]
  from sv_run_ok [OF S(1) assms(5)] S(2,3) obtain s where s: "foldRes sv_step evs s1 = Inr s" "sv_inv s"
    "live s = foldl sv_spec {} evs" "dom (sv_conns s) = sv_accepted evs" by (auto simp: live_def)
  note D = sv_invD [OF s(2)]
  obtain t where t: "destroy_all (sv_connections s) s = Inr t" "sv_conns t = sv_conns s"
    "\<forall>a. handed a t = handed a s @
        (if a \<in> live s then [(snd (the (sv_conns s a)), TDestroy a)] else [])"
    using destroy_all_ok [OF _ distinct_live [OF s(2)]] D(4) unfolding live_def by fastforce
  have "destroyTcpServer True s = Inr (t\<lparr>sv_connections := []\<rparr>)"
    using t(1) by (simp add: destroyTcpServer_def)
  moreover have "handed a (t\<lparr>sv_connections := []\<rparr>) = [(l, TEstablish a), (l, TDestroy a)]"
    if "sv_conns (t\<lparr>sv_connections := []\<rparr>) a = Some (nm, l)" for a nm l
  proof -
    have c: "sv_conns s a = Some (nm, l)" using that t(2) by simp
    have "handed a (t\<lparr>sv_connections := []\<rparr>) = handed a t" by (simp add: handed_def)
    with t(3) c D(5) [OF c] show ?thesis by simp
  qed
  moreover note distinct_live [OF s(2)] D(4) D(5) [unfolded s(3)] s(1,4) s(3) [unfolded live_def]
  ultimately show ?thesis using t(2)
    by (intro exI [of _ s] exI [of _ "t\<lparr>sv_connections := []\<rparr>"]) simp
qed

definition demo_server :: server where
  "demo_server = post 1 TListen ((newTcpServer 1 ''127.0.0.1:80'' ''srv'')
     \<lparr>sv_started := 1, sv_pool := \<lparr>tp_baseLoop = 1, tp_name = ''srv'', tp_started = True, tp_numThreads = 0,
       tp_next = 0, tp_threads = [], tp_loops = []\<rparr>\<rparr>)"

theorem server_hands_over_witness:
  "\<exists>s s'. foldRes sv_step [SvNew 7, SvNew 8, SvRemove 7] demo_server = Inr s \<and> snd ` set (sv_connections s) = {8} \<and>
     destroyTcpServer True s = Inr s' \<and>
     (\<forall>a nm l. sv_conns s' a = Some (nm, l) \<longrightarrow> handed a s' = [(l, TEstablish a), (l, TDestroy a)])"
proof -
  have "setThreadNum_sv 0 (newTcpServer 1 ''127.0.0.1:80'' ''srv'') = Inr (newTcpServer 1 ''127.0.0.1:80'' ''srv'')"
    by (simp add: setThreadNum_sv_def newTcpServer_def setThreadNum_def newEventLoopThreadPool_def)
  moreover have "start_sv id False True (newTcpServer 1 ''127.0.0.1:80'' ''srv'') = Inr demo_server"
    by (simp add: start_sv_def newTcpServer_def newEventLoopThreadPool_def start_pool_def demo_server_def Let_def post_def)
  moreover have "sv_legal [SvNew 7, SvNew 8, SvRemove 7] demo_server"
    by (simp add: demo_server_def newTcpServer_def post_def newConnection_def getNextLoop_def
        removeConnectionInLoop_def Let_def conn_at_def conn_name_def fmt_d_def digits.simps
        split: sum.split)
  moreover have "0 \<le> (0 :: int)" "length ''127.0.0.1:80'' \<le> 51" by simp_all
  ultimately have "\<exists>s s'. foldRes sv_step [SvNew 7, SvNew 8, SvRemove 7] demo_server = Inr s \<and>
     snd ` set (sv_connections s) = foldl sv_spec {} [SvNew 7, SvNew 8, SvRemove 7] \<and>
     destroyTcpServer True s = Inr s' \<and>
     (\<forall>a nm l. sv_conns s' a = Some (nm, l) \<longrightarrow> handed a s' = [(l, TEstablish a), (l, TDestroy a)])"
    using server_hands_over [of 0 "''127.0.0.1:80''" 1 "''srv''" _ id False demo_server] by blast
  then show ?thesis by (simp add: insert_commute insert_Diff_if)
qed

end
