(* ===== verification/Kaycc_InetAddress.thy ===== *)
theory Kaycc_InetAddress
  imports Kaycc_Endian Kaycc_Timestamp
begin

text \<open>
  InetAddress (net/inetaddress.h, .cpp), the address and error functions of net/socketsops.h, .cpp and
  Socket (net/socket.h, .cpp). The union of \<^verbatim>\<open>sockaddr_in\<close> and \<^verbatim>\<open>sockaddr_in6\<close> is a record of the
  fields it overlays: family and port are shared, \<^verbatim>\<open>sin_addr\<close> is where \<^verbatim>\<open>sin6_flowinfo\<close> is. Addresses
  are kept as their bytes in memory. Of the C library, \<^verbatim>\<open>inet_ntop\<close> and \<^verbatim>\<open>inet_pton\<close> for IPv4 are
  dotted decimal as documented; for IPv6 they are arguments. System calls are arguments.
\<close>

section \<open>Addresses\<close>

definition AF_INET :: "16 word" where
  "AF_INET = 2"

definition AF_INET6 :: "16 word" where
  "AF_INET6 = 10"

record inetAddress =
  sin_family :: "16 word"
  sin_port :: "16 word"
  sin_addr :: "byte list"
  sin6_addr :: "byte list"
  sin6_scope_id :: "byte list"

text \<open>The bytes of an object without initialiser are arbitrary; \<^verbatim>\<open>bzero(&addr_, ...)\<close> clears the first 16 bytes.\<close>

definition bzero6 :: "inetAddress" where
  "bzero6 = \<lparr>sin_family = 0, sin_port = 0, sin_addr = replicate 4 0, sin6_addr = replicate 16 0, sin6_scope_id = replicate 4 0\<rparr>"

definition bzero4 :: "inetAddress \<Rightarrow> inetAddress" where
  "bzero4 a = a\<lparr>sin_family := 0, sin_port := 0, sin_addr := replicate 4 0,
     sin6_addr := replicate 8 0 @ drop 8 (sin6_addr a)\<rparr>"

definition addr_wf :: "inetAddress \<Rightarrow> bool" where
  "addr_wf a \<longleftrightarrow> length (sin_addr a) = 4 \<and> length (sin6_addr a) = 16 \<and> length (sin6_scope_id a) = 4"

definition kInaddrAny :: "32 word" where
  "kInaddrAny = 0"

definition kInaddrLoopback :: "32 word" where
  "kInaddrLoopback = 0x7f000001"

definition in6addr_loopback :: "byte list" where
  "in6addr_loopback = replicate 15 0 @ [1]"

definition newInetAddress :: "endian \<Rightarrow> 16 word \<Rightarrow> bool \<Rightarrow> bool \<Rightarrow> inetAddress \<Rightarrow> inetAddress" where
  "newInetAddress h port loopbackOnly ipv6 junk =
     (if ipv6 then
        bzero6\<lparr>sin_family := AF_INET6,
          sin6_addr := (if loopbackOnly then in6addr_loopback else replicate 16 0),
          sin_port := hostToNetwork16 h port\<rparr>
      else
        let ip = (if loopbackOnly then kInaddrLoopback else kInaddrAny)
        in (bzero4 junk)\<lparr>sin_family := AF_INET, sin_addr := obj_bytes h (hostToNetwork32 h ip),
             sin_port := hostToNetwork16 h port\<rparr>)"

subsection \<open>Text\<close>

fun inet_ntop4 :: "byte list \<Rightarrow> string" where
  "inet_ntop4 [] = []"
| "inet_ntop4 [b] = digits (unat b)"
| "inet_ntop4 (b # bs) = digits (unat b) @ CHR ''.'' # inet_ntop4 bs"

fun dot_fields :: "string \<Rightarrow> string list" where
  "dot_fields [] = [[]]"
| "dot_fields (c # cs) =
     (if c = CHR ''.'' then [] # dot_fields cs
      else case dot_fields cs of [] \<Rightarrow> [[c]] | f # fs \<Rightarrow> (c # f) # fs)"

text \<open>Four decimal numbers of up to three digits, each at most 255.\<close>

definition octet :: "string \<Rightarrow> bool" where
  "octet f \<longleftrightarrow> f \<noteq> [] \<and> length f \<le> 3 \<and> list_all (\<lambda>c. (48::nat) \<le> of_char c \<and> of_char c \<le> (57::nat)) f \<and> num_of f \<le> 255"

definition inet_pton4 :: "string \<Rightarrow> byte list option" where
  "inet_pton4 s =
     (let fs = dot_fields s
      in if length fs = 4 \<and> list_all octet fs then Some (map (\<lambda>f. of_nat (num_of f)) fs) else None)"

type_synonym ntop6 = "byte list \<Rightarrow> string"
type_synonym pton6 = "string \<Rightarrow> byte list option"

text \<open>\<^verbatim>\<open>sockets::toIp\<close> into a buffer of \<open>sz\<close> bytes that holds \<open>buf\<close>.\<close>

definition toIp_buf :: "ntop6 \<Rightarrow> string \<Rightarrow> nat \<Rightarrow> inetAddress \<Rightarrow> string res" where
  "toIp_buf ntop6 buf sz addr =
     (if sin_family addr = AF_INET then
        check (sz \<ge> 16) ''socketsops.cpp:187'' (
        Inr (if length (inet_ntop4 (sin_addr addr)) < sz then inet_ntop4 (sin_addr addr) else buf))
      else if sin_family addr = AF_INET6 then
        check (sz \<ge> 46) ''socketsops.cpp:192'' (
        Inr (if length (ntop6 (sin6_addr addr)) < sz then ntop6 (sin6_addr addr) else buf))
      else Inr buf)"

definition toIpPort_buf :: "endian \<Rightarrow> ntop6 \<Rightarrow> string \<Rightarrow> nat \<Rightarrow> inetAddress \<Rightarrow> string res" where
  "toIpPort_buf h ntop6 buf sz addr =
     andThen (toIp_buf ntop6 buf sz addr) (\<lambda>ip.
     let port = networkToHost16 h (ucast (sin_port addr))
     in check (sz > length ip) ''socketsops.cpp:179'' (
        Inr (ip @ take (sz - length ip - 1) (CHR '':'' # digits (unat port)))))"

definition toIp :: "ntop6 \<Rightarrow> inetAddress \<Rightarrow> string res" where
  "toIp ntop6 a = toIp_buf ntop6 [] 64 a"

definition toIpPort :: "endian \<Rightarrow> ntop6 \<Rightarrow> inetAddress \<Rightarrow> string res" where
  "toIpPort h ntop6 a = toIpPort_buf h ntop6 [] 64 a"

definition toPort :: "endian \<Rightarrow> inetAddress \<Rightarrow> 16 word" where
  "toPort h a = networkToHost16 h (ucast (sin_port a))"

definition ipNetEndian :: "endian \<Rightarrow> inetAddress \<Rightarrow> 32 word res" where
  "ipNetEndian h a = check (sin_family a = AF_INET) ''inetaddress.cpp:124'' (Inr (obj_of_bytes h (sin_addr a)))"

text \<open>A text that is not an address is logged, and the address stays as \<^verbatim>\<open>bzero\<close> left it.\<close>

definition fromIpPort4 :: "endian \<Rightarrow> string \<Rightarrow> 16 word \<Rightarrow> inetAddress \<Rightarrow> inetAddress" where
  "fromIpPort4 h ip port addr =
     (let a = addr\<lparr>sin_family := AF_INET, sin_port := hostToNetwork16 h port\<rparr>
      in case inet_pton4 ip of None \<Rightarrow> a | Some bs \<Rightarrow> a\<lparr>sin_addr := bs\<rparr>)"

definition fromIpPort6 :: "endian \<Rightarrow> pton6 \<Rightarrow> string \<Rightarrow> 16 word \<Rightarrow> inetAddress \<Rightarrow> inetAddress" where
  "fromIpPort6 h pton6 ip port addr =
     (let a = addr\<lparr>sin_family := AF_INET6, sin_port := hostToNetwork16 h port\<rparr>
      in case pton6 ip of None \<Rightarrow> a | Some bs \<Rightarrow> a\<lparr>sin6_addr := bs\<rparr>)"

definition newInetAddress_ip :: "endian \<Rightarrow> pton6 \<Rightarrow> string \<Rightarrow> 16 word \<Rightarrow> bool \<Rightarrow> inetAddress \<Rightarrow> inetAddress" where
  "newInetAddress_ip h pton6 ip port ipv6 junk =
     (if ipv6 then fromIpPort6 h pton6 ip port bzero6 else fromIpPort4 h ip port (bzero4 junk))"

text \<open>\<^verbatim>\<open>gethostbyname_r\<close> gives its return value and, unless the pointer is null, type, length and first address.\<close>

definition resolve :: "int \<times> (16 word \<times> nat \<times> byte list) option \<Rightarrow> inetAddress \<Rightarrow> (bool \<times> inetAddress) res" where
  "resolve r out =
     (case r of (ret, he) \<Rightarrow>
        (case he of
           Some (addrtype, len, bs) \<Rightarrow>
             if ret = 0 then
               check (addrtype = AF_INET \<and> len = 4) ''inetaddress.cpp:169'' (Inr (True, out\<lparr>sin_addr := bs\<rparr>))
             else Inr (False, out)
         | None \<Rightarrow> Inr (False, out)))"

section \<open>Socket operations\<close>

text \<open>\<^verbatim>\<open>getsockname\<close> and \<^verbatim>\<open>getpeername\<close>: None is a failure, which is logged and leaves the zeroes.\<close>

definition getLocalAddr :: "inetAddress option \<Rightarrow> inetAddress" where
  "getLocalAddr getsockname = (case getsockname of None \<Rightarrow> bzero6 | Some a \<Rightarrow> a)"

definition getPeerAddr :: "inetAddress option \<Rightarrow> inetAddress" where
  "getPeerAddr getpeername = (case getpeername of None \<Rightarrow> bzero6 | Some a \<Rightarrow> a)"

definition isSelfConnect :: "inetAddress option \<Rightarrow> inetAddress option \<Rightarrow> bool" where
  "isSelfConnect getsockname getpeername =
     (let localaddr = getLocalAddr getsockname; peeraddr = getPeerAddr getpeername
      in if sin_family localaddr = AF_INET then
           sin_port localaddr = sin_port peeraddr \<and> sin_addr localaddr = sin_addr peeraddr
         else if sin_family localaddr = AF_INET6 then
           sin_port localaddr = sin_port peeraddr \<and> sin6_addr localaddr = sin6_addr peeraddr
         else False)"

definition getSocketError :: "int \<Rightarrow> int \<Rightarrow> int \<Rightarrow> int" where
  "getSocketError getsockopt errno optval = (if getsockopt < 0 then errno else optval)"

datatype accept_log = NoError | Expected | Unexpected | Unknown

text \<open>
  \<^verbatim>\<open>sockets::accept\<close>: the result of \<^verbatim>\<open>accept4\<close>, the class of its error and the value of \<^verbatim>\<open>errno\<close> after the
  call, given the value that logging leaves there. The cases of the switch are EAGAIN, ECONNABORTED,
  EINTR, EPROTO, EPERM, EMFILE; then EBADF, EFAULT, EINVAL, ENFILE, ENOBUFS, ENOMEM, ENOTSOCK, EOPNOTSUPP.
\<close>

definition accept_sock :: "int \<Rightarrow> int \<Rightarrow> int \<Rightarrow> int \<times> accept_log \<times> int" where
  "accept_sock connfd errno after_log =
     (if connfd < 0 then
        let savedErrno = errno
        in if savedErrno \<in> set [11, 103, 4, 71, 1, 24] then (connfd, Expected, savedErrno)
           else if savedErrno \<in> set [9, 14, 22, 23, 105, 12, 88, 95] then (connfd, Unexpected, after_log)
           else (connfd, Unknown, after_log)
      else (connfd, NoError, errno))"

section \<open>Socket\<close>

record socket =
  sk_fd :: int
  sk_open :: bool
  sk_opts :: "(int \<times> int) \<rightharpoonup> int"

definition newSocket :: "int \<Rightarrow> socket" where
  "newSocket sockfd = \<lparr>sk_fd = sockfd, sk_open = True, sk_opts = Map.empty\<rparr>"

definition destroySocket :: "socket \<Rightarrow> socket" where
  "destroySocket s = s\<lparr>sk_open := False\<rparr>"

text \<open>\<^verbatim>\<open>setsockopt\<close>: a negative result changes nothing.\<close>

definition set_opt :: "int \<Rightarrow> int \<Rightarrow> int \<Rightarrow> bool \<Rightarrow> socket \<Rightarrow> socket" where
  "set_opt ret level optname on s =
     (if ret < 0 then s else s\<lparr>sk_opts := (sk_opts s)((level, optname) \<mapsto> (if on then 1 else 0))\<rparr>)"

definition setTcpNoDelay :: "int \<Rightarrow> bool \<Rightarrow> socket \<Rightarrow> socket" where
  "setTcpNoDelay ret on s = set_opt ret 6 1 on s"

definition setReuseAddr :: "int \<Rightarrow> bool \<Rightarrow> socket \<Rightarrow> socket" where
  "setReuseAddr ret on s = set_opt ret 1 2 on s"

definition setReusePort :: "int \<Rightarrow> bool \<Rightarrow> socket \<Rightarrow> socket \<times> bool" where
  "setReusePort ret on s = (set_opt ret 1 15 on s, ret < 0 \<and> on)"

definition setKeepAlive :: "int \<Rightarrow> bool \<Rightarrow> socket \<Rightarrow> socket" where
  "setKeepAlive ret on s = set_opt ret 1 9 on s"

definition accept_Socket :: "int \<Rightarrow> inetAddress \<Rightarrow> inetAddress \<Rightarrow> int \<times> inetAddress" where
  "accept_Socket connfd addr peeraddr = (connfd, if connfd \<ge> 0 then addr else peeraddr)"

text \<open>The fields of \<^verbatim>\<open>tcp_info\<close> that are printed; \<^verbatim>\<open>tcpi_retransmits\<close> has 8 bits.\<close>

record tcp_info =
  tcpi_retransmits :: byte
  tcpi_rto :: "32 word"
  tcpi_ato :: "32 word"
  tcpi_snd_mss :: "32 word"
  tcpi_rcv_mss :: "32 word"
  tcpi_lost :: "32 word"
  tcpi_retrans :: "32 word"
  tcpi_rtt :: "32 word"
  tcpi_rttvar :: "32 word"
  tcpi_snd_ssthresh :: "32 word"
  tcpi_snd_cwnd :: "32 word"
  tcpi_total_retrans :: "32 word"

definition fmt_u :: "'a::len word \<Rightarrow> string" where
  "fmt_u w = digits (unat w)"

definition tcp_info_text :: "tcp_info \<Rightarrow> string" where
  "tcp_info_text i =
     ''unrecovered='' @ fmt_u (tcpi_retransmits i) @ '' rto='' @ fmt_u (tcpi_rto i) @
     '' ato='' @ fmt_u (tcpi_ato i) @ '' snd_mss='' @ fmt_u (tcpi_snd_mss i) @
     '' rcv_mss='' @ fmt_u (tcpi_rcv_mss i) @ '' lost='' @ fmt_u (tcpi_lost i) @
     '' retrans='' @ fmt_u (tcpi_retrans i) @ '' rtt='' @ fmt_u (tcpi_rtt i) @
     '' rttvar='' @ fmt_u (tcpi_rttvar i) @ '' sshthresh='' @ fmt_u (tcpi_snd_ssthresh i) @
     '' cwnd='' @ fmt_u (tcpi_snd_cwnd i) @ '' total_retrans='' @ fmt_u (tcpi_total_retrans i)"

text \<open>Into a buffer of \<open>len\<close> bytes; None is a failing \<^verbatim>\<open>getsockopt\<close>.\<close>

definition getTcpInfoString :: "tcp_info option \<Rightarrow> nat \<Rightarrow> string \<Rightarrow> bool \<times> string" where
  "getTcpInfoString info len buf =
     (case info of None \<Rightarrow> (False, buf) | Some i \<Rightarrow> (True, take (len - 1) (tcp_info_text i)))"

section \<open>Text round trips\<close>

lemma digits_are_digits: "list_all (\<lambda>c. (48::nat) \<le> of_char c \<and> of_char c \<le> (57::nat)) (digits n)"
proof (induction n rule: digits.induct)
  case (1 n)
  show ?case
  proof (cases "n < 10")
    case True
    then show ?thesis using of_char_digit [of n] by (simp add: digits.simps [of n])
  next
    case False
    then show ?thesis using "1.IH" of_char_digit [of "n mod 10"] by (simp add: digits.simps [of n])
  qed
qed

lemma digits_not_Nil [simp]: "digits n \<noteq> []"
  by (simp add: digits.simps)

lemma length_fmt_u: "length (fmt_u (w :: 32 word)) \<le> 10"
proof -
  have "unat w < 2 ^ 32" using unsigned_less [of w] by simp
  then show ?thesis unfolding fmt_u_def by (intro length_digits) auto
qed

lemma octet_digits: "octet (digits (unat (b :: byte)))"
proof -
  have "unat b < 256" using unsigned_less [of b] by simp
  then show ?thesis
    using length_digits [of "unat b" 3] digits_are_digits by (simp add: octet_def num_of_digits)
qed

lemma dot_fields_no_dot: "CHR ''.'' \<notin> set s \<Longrightarrow> dot_fields s = [s]"
  by (induction s) auto

lemma dot_fields_dot: "CHR ''.'' \<notin> set s \<Longrightarrow> dot_fields (s @ CHR ''.'' # t) = s # dot_fields t"
  by (induction s) auto

lemma dot_fields_ntop4: "bs \<noteq> [] \<Longrightarrow> dot_fields (inet_ntop4 bs) = map (\<lambda>b. digits (unat b)) bs"
proof (induction bs rule: inet_ntop4.induct)
  case (2 b)
  then show ?case using digits_not_dot by (auto intro: dot_fields_no_dot)
next
  case (3 b c bs)
  then show ?case using digits_not_dot dot_fields_dot [of "digits (unat b)"] by fastforce
qed simp

lemma pton4_ntop4:
  assumes "length bs = 4"
  shows "inet_pton4 (inet_ntop4 bs) = Some bs"
proof -
  have "bs \<noteq> []" using assms by auto
  then show ?thesis
    using assms
    by (simp add: inet_pton4_def dot_fields_ntop4 list_all_iff octet_digits num_of_digits comp_def map_idI)
qed

lemma split_first: "c \<notin> set x \<Longrightarrow> c \<notin> set y \<Longrightarrow> x @ c # u = y @ c # v \<longleftrightarrow> x = y \<and> u = v"
proof (induction x arbitrary: y)
  case Nil
  then show ?case by (cases y) auto
next
  case (Cons a x)
  then show ?case by (cases y) auto
qed

lemma digits_no_colon: "CHR '':'' \<notin> set (digits n)"
  using digits_are_digits [of n] by (auto simp: list_all_iff)

lemma ntop4_no_colon: "CHR '':'' \<notin> set (inet_ntop4 bs)"
  by (induction bs rule: inet_ntop4.induct) (auto simp: digits_no_colon)

lemma length_ntop4: "length (inet_ntop4 bs) \<le> 4 * length bs - 1"
proof (induction bs rule: inet_ntop4.induct)
  case (2 b)
  then show ?case using octet_digits [of b] by (simp add: octet_def)
next
  case (3 b c bs)
  then show ?case using octet_digits [of b] by (simp add: octet_def)
qed simp

lemma port_text: "length (digits (unat (p :: 16 word))) \<le> 5"
proof -
  have "unat p < 2 ^ 16" using unsigned_less [of p] by simp
  then show ?thesis by (intro length_digits) auto
qed

lemma network_port: "networkToHost16 h (ucast (hostToNetwork16 h p)) = p"
proof -
  have "(ucast (ucast x :: 64 word) :: 16 word) = x" for x :: "16 word"
    by (simp add: bit_eq_iff bit_simps)
  then show ?thesis by (simp add: networkToHost16_def hostToNetwork16_def betoh_htobe [where n = 2])
qed

lemma port_network: "hostToNetwork16 h (networkToHost16 h (ucast (p :: 16 word))) = p"
proof -
  have "(ucast (ucast p :: 64 word) :: 16 word) = p"
    by (simp add: bit_eq_iff bit_simps)
  then show ?thesis
    by (cases h) (simp_all add: networkToHost16_def hostToNetwork16_def bswap_bswap [where n = 2])
qed

lemma toIp_text:
  assumes "sin_family a = AF_INET" and "length (sin_addr a) = 4"
  shows "toIp ntop6 a = Inr (inet_ntop4 (sin_addr a))"
  using assms length_ntop4 [of "sin_addr a"] by (simp add: toIp_def toIp_buf_def)

lemma toIpPort_text:
  assumes "toIp ntop6 a = Inr ip" and "length ip \<le> 57"
  shows "toIpPort h ntop6 a = Inr (ip @ CHR '':'' # digits (unat (toPort h a)))"
  using assms port_text [of "toPort h a"]
  by (simp add: toIpPort_def toIpPort_buf_def toIp_def toPort_def Let_def)

text \<open>
  C33. IPv4 addresses survive printing: the text fits its buffer and the address and port rebuilt from
  \<^verbatim>\<open>toIp()\<close> and \<^verbatim>\<open>toPort()\<close> are the original ones, on hosts of either byte order; \<^verbatim>\<open>toIpPort()\<close> is the
  same text with the port after a colon.
\<close>

theorem address_round_trip:
  assumes "addr_wf a" and "sin_family a = AF_INET"
  shows "\<exists>ip. toIp ntop6 a = Inr ip \<and> length ip < 16 \<and>
    toIpPort h ntop6 a = Inr (ip @ CHR '':'' # digits (unat (toPort h a))) \<and>
    (let b = newInetAddress_ip h pton6 ip (toPort h a) False junk
     in sin_family b = sin_family a \<and> sin_port b = sin_port a \<and> sin_addr b = sin_addr a)"
proof -
  have len: "length (sin_addr a) = 4" using assms(1) by (simp add: addr_wf_def)
  note ip = toIp_text [OF assms(2) len, of ntop6]
  have "length (inet_ntop4 (sin_addr a)) < 16" using length_ntop4 [of "sin_addr a"] len by simp
  with ip toIpPort_text [OF ip, of h] show ?thesis
    using assms(2)
    by (simp add: newInetAddress_ip_def fromIpPort4_def pton4_ntop4 [OF len] toPort_def port_network)
qed

definition loopback4 :: inetAddress where
  "loopback4 = newInetAddress LittleEndian 8080 True False bzero6"

lemma loopback4_fields: "addr_wf loopback4" "sin_family loopback4 = AF_INET" "sin_addr loopback4 = [127, 0, 0, 1]"
  "toPort LittleEndian loopback4 = 8080"
proof -
  show addr: "sin_addr loopback4 = [127, 0, 0, 1]"
    by (simp add: loopback4_def newInetAddress_def hostToNetwork32_def obj_bytes_htobe [where n = 4, simplified]
        kInaddrLoopback_def bytes_be_def upt_rec del: obj_bytes.simps htobe.simps)
  then show "addr_wf loopback4" "sin_family loopback4 = AF_INET"
    by (simp_all add: addr_wf_def loopback4_def newInetAddress_def bzero4_def bzero6_def)
  show "toPort LittleEndian loopback4 = 8080"
    by (simp add: toPort_def loopback4_def newInetAddress_def Let_def network_port)
qed

theorem address_round_trip_witness:
  "\<exists>ip. toIp (\<lambda>_. []) loopback4 = Inr ip \<and> length ip < 16 \<and>
     sin_addr (newInetAddress_ip LittleEndian (\<lambda>_. None) ip 8080 False bzero6) = [127, 0, 0, 1]"
  using address_round_trip [OF loopback4_fields(1,2), of "\<lambda>_. []" LittleEndian "\<lambda>_. None" bzero6]
  by (auto simp: loopback4_fields Let_def)

text \<open>
  IPv6 addresses survive printing if the C library reads back what it prints and keeps to the
  documented \<^verbatim>\<open>INET6_ADDRSTRLEN\<close>: the buffer of 64 bytes holds the text and the port, and the rebuilt
  address and port are the original ones.
\<close>

theorem address6_round_trip:
  assumes "sin_family a = AF_INET6"
    and "length (ntop6 (sin6_addr a)) < 46" and "pton6 (ntop6 (sin6_addr a)) = Some (sin6_addr a)"
  shows "toIp ntop6 a = Inr (ntop6 (sin6_addr a)) \<and>
    toIpPort h ntop6 a = Inr (ntop6 (sin6_addr a) @ CHR '':'' # digits (unat (toPort h a))) \<and>
    (let b = newInetAddress_ip h pton6 (ntop6 (sin6_addr a)) (toPort h a) True junk
     in sin_family b = sin_family a \<and> sin_port b = sin_port a \<and> sin6_addr b = sin6_addr a)"
proof -
  have ip: "toIp ntop6 a = Inr (ntop6 (sin6_addr a))"
    using assms(1,2) by (simp add: toIp_def toIp_buf_def AF_INET_def AF_INET6_def)
  with toIpPort_text [OF ip, of h] show ?thesis
    using assms by (simp add: newInetAddress_ip_def fromIpPort6_def toPort_def port_network)
qed

definition loopback6 :: inetAddress where
  "loopback6 = newInetAddress LittleEndian 8080 True True bzero6"

theorem address6_round_trip_witness:
  "toIp (\<lambda>bs. if bs = in6addr_loopback then ''::1'' else ''::'') loopback6 = Inr ''::1''"
proof -
  have "sin_family loopback6 = AF_INET6" "sin6_addr loopback6 = in6addr_loopback"
    by (simp_all add: loopback6_def newInetAddress_def)
  then show ?thesis
    using address6_round_trip [of loopback6 "\<lambda>bs. if bs = in6addr_loopback then ''::1'' else ''::''"
        "\<lambda>s. if s = ''::1'' then Some in6addr_loopback else Some (replicate 16 0)"]
    by simp
qed

text \<open>
  \<^verbatim>\<open>isSelfConnect\<close> decides what Connector relies on: for a connected socket, whose two ends are of
  one family, it says whether local and remote endpoint print the same address and port.
\<close>

theorem isSelfConnect_same_endpoint:
  assumes "addr_wf l" and "addr_wf p" and "sin_family p = sin_family l" and "sin_family l = AF_INET"
  shows "isSelfConnect (Some l) (Some p) \<longleftrightarrow> toIpPort h ntop6 l = toIpPort h ntop6 p"
proof -
  have printed: "toIp ntop6 l = Inr (inet_ntop4 (sin_addr l))" "toIp ntop6 p = Inr (inet_ntop4 (sin_addr p))"
    using assms by (simp_all add: toIp_text addr_wf_def)
  have len: "length (inet_ntop4 (sin_addr l)) \<le> 57" "length (inet_ntop4 (sin_addr p)) \<le> 57"
    using length_ntop4 [of "sin_addr l"] length_ntop4 [of "sin_addr p"] assms(1,2) by (simp_all add: addr_wf_def)
  have "sin_addr l = sin_addr p \<longleftrightarrow> inet_ntop4 (sin_addr l) = inet_ntop4 (sin_addr p)"
    using pton4_ntop4 [of "sin_addr l"] pton4_ntop4 [of "sin_addr p"] assms(1,2)
    unfolding addr_wf_def by (metis option.inject)
  moreover have "sin_port l = sin_port p \<longleftrightarrow> toPort h l = toPort h p"
    unfolding toPort_def by (metis port_network)
  moreover have "toPort h l = toPort h p \<longleftrightarrow> digits (unat (toPort h l)) = digits (unat (toPort h p))"
    by (metis num_of_digits word_unat_eq_iff)
  ultimately show ?thesis
    using toIpPort_text [OF printed(1) len(1), of h] toIpPort_text [OF printed(2) len(2), of h] assms
      split_first [OF ntop4_no_colon ntop4_no_colon]
    by (auto simp: isSelfConnect_def getLocalAddr_def getPeerAddr_def)
qed

theorem isSelfConnect_same_endpoint_witness: "isSelfConnect (Some loopback4) (Some loopback4)"
  using isSelfConnect_same_endpoint [OF loopback4_fields(1,1) refl loopback4_fields(2), of LittleEndian "\<lambda>_. []"] by simp

text \<open>
  C35. Every address is well formed: whatever the arguments, also for a text that is no address, the
  constructors give an object whose fields have their sizes, of the family that was asked for and with
  the port that was asked for, and \<^verbatim>\<open>resolve\<close> keeps all that.
\<close>

theorem addresses_well_formed:
  assumes "addr_wf junk" and "\<forall>s bs. pton6 s = Some bs \<longrightarrow> length bs = 16"
    and "a = newInetAddress h port loopbackOnly ipv6 junk \<or> a = newInetAddress_ip h pton6 ip port ipv6 junk"
  shows "addr_wf a \<and> sin_family a = (if ipv6 then AF_INET6 else AF_INET) \<and> toPort h a = port \<and>
    (\<forall>ret t bs ok b. resolve (ret, Some (t, length bs, bs)) a = Inr (ok, b) \<longrightarrow>
       addr_wf b \<and> sin_family b = sin_family a \<and> toPort h b = port)"
proof -
  have four: "length bs = 4" if "inet_pton4 s = Some bs" for s bs
    using that by (auto simp: inet_pton4_def Let_def split: if_splits)
  have "addr_wf a \<and> sin_family a = (if ipv6 then AF_INET6 else AF_INET) \<and> toPort h a = port"
    using assms(3)
  proof
    assume a: "a = newInetAddress h port loopbackOnly ipv6 junk"
    then show ?thesis
      using assms(1)
      by (simp add: newInetAddress_def addr_wf_def bzero4_def bzero6_def toPort_def network_port Let_def
          in6addr_loopback_def)
  next
    assume a: "a = newInetAddress_ip h pton6 ip port ipv6 junk"
    then show ?thesis
      using assms(1,2) four
      by (auto simp: newInetAddress_ip_def fromIpPort4_def fromIpPort6_def addr_wf_def bzero4_def bzero6_def toPort_def
          network_port Let_def split: option.splits)
  qed
  then show ?thesis
    by (auto simp: resolve_def addr_wf_def toPort_def fault_simps split: if_splits)
qed

theorem addresses_well_formed_witness:
  "addr_wf loopback6 \<and> sin_family loopback6 = AF_INET6 \<and> toPort LittleEndian loopback6 = 8080"
  using addresses_well_formed [of bzero6 "\<lambda>_. None" loopback6 LittleEndian 8080 True True "[]"]
  by (simp add: loopback6_def addr_wf_def bzero6_def)

text \<open>\<^verbatim>\<open>errno\<close> still says that descriptors have run out when Acceptor looks at it, whatever logging does.\<close>

lemma accept_keeps_EMFILE: "accept_sock (-1) 24 e = (-1, Expected, 24)"
  by (simp add: accept_sock_def)

text \<open>
  The text of \<^verbatim>\<open>getTcpInfoString\<close> is never cut off in the buffer of 1024 bytes that
  TcpConnection gives it.
\<close>

theorem tcp_info_fits:
  "getTcpInfoString (Some i) 1024 buf = (True, tcp_info_text i)"
proof -
  have "length (fmt_u (tcpi_retransmits i)) \<le> 3"
    using octet_digits [of "tcpi_retransmits i"] by (simp add: octet_def fmt_u_def)
  then have "length (tcp_info_text i) \<le> 299"
    using length_fmt_u [of "tcpi_rto i"] length_fmt_u [of "tcpi_ato i"] length_fmt_u [of "tcpi_snd_mss i"]
      length_fmt_u [of "tcpi_rcv_mss i"] length_fmt_u [of "tcpi_lost i"] length_fmt_u [of "tcpi_retrans i"]
      length_fmt_u [of "tcpi_rtt i"] length_fmt_u [of "tcpi_rttvar i"] length_fmt_u [of "tcpi_snd_ssthresh i"]
      length_fmt_u [of "tcpi_snd_cwnd i"] length_fmt_u [of "tcpi_total_retrans i"]
    by (simp add: tcp_info_text_def)
  then show ?thesis by (simp add: getTcpInfoString_def)
qed

end
