(* ===== verification/Kaycc_TcpClient.thy ===== *)
theory Kaycc_TcpClient
  imports Kaycc_Connector Kaycc_InetAddress
begin

text \<open>
  TcpClient (net/tcpclient.h, .cpp): a Connector and at most one connection at a time. The connector is
  the one of Kaycc\_Connector, and the client's operations call its operations. A TcpConnection is an
  address here: \<open>cl_conns\<close> lists the ones that were created, with name and socket, \<open>cl_calls\<close> the calls
  made on them, \<open>cl_posted\<close> those for which \<^verbatim>\<open>connectDestroyed\<close> was queued in the loop.
\<close>

section \<open>State and operations\<close>

datatype cl_call = CEstablished nat | CShutdown nat | CSetCloseCallback nat | CForceClose nat | CRemoveConnectorLater

record client =
  cl_connector :: connector
  cl_name :: string
  cl_retry :: bool
  cl_connect :: bool
  cl_nextConnId :: int
  cl_connection :: "nat option"
  cl_conns :: "(nat \<times> string \<times> int) list"
  cl_calls :: "cl_call list"
  cl_posted :: "nat list"

definition newTcpClient :: "cn_loop \<Rightarrow> string \<Rightarrow> client" where
  "newTcpClient l name =
     \<lparr>cl_connector = newConnector l, cl_name = name, cl_retry = False, cl_connect = True, cl_nextConnId = 1,
      cl_connection = None, cl_conns = [], cl_calls = [], cl_posted = []\<rparr>"

definition enableRetry :: "client \<Rightarrow> client" where
  "enableRetry s = s\<lparr>cl_retry := True\<rparr>"

definition on_connector :: "(connector \<Rightarrow> connector res) \<Rightarrow> client \<Rightarrow> client res" where
  "on_connector f s = andThen (f (cl_connector s)) (\<lambda>c. Inr (s\<lparr>cl_connector := c\<rparr>))"

definition call_conn :: "cl_call \<Rightarrow> client \<Rightarrow> client" where
  "call_conn k s = s\<lparr>cl_calls := cl_calls s @ [k]\<rparr>"

text \<open>\<open>unique\<close> is \<^verbatim>\<open>connection_.unique()\<close>.\<close>

definition destroyTcpClient :: "bool \<Rightarrow> bool \<Rightarrow> client \<Rightarrow> client res" where
  "destroyTcpClient unique inLoop s =
     (case cl_connection s of
        Some a \<Rightarrow>
          let s1 = call_conn (CSetCloseCallback a) s
          in Inr (if unique then call_conn (CForceClose a) s1 else s1)
      | None \<Rightarrow>
          andThen (on_connector (\<lambda>c. Inr (stop_cn inLoop c)) s) (\<lambda>s1.
          Inr (call_conn CRemoveConnectorLater s1)))"

definition connect_cl :: "nat \<Rightarrow> int \<times> int \<Rightarrow> bool \<Rightarrow> client \<Rightarrow> client res" where
  "connect_cl a r inLoop s = on_connector (start_cn a r inLoop) (s\<lparr>cl_connect := True\<rparr>)"

definition disconnect_cl :: "client \<Rightarrow> client" where
  "disconnect_cl s =
     (let s1 = s\<lparr>cl_connect := False\<rparr>
      in case cl_connection s1 of None \<Rightarrow> s1 | Some a \<Rightarrow> call_conn (CShutdown a) s1)"

definition stop_cl :: "bool \<Rightarrow> client \<Rightarrow> client res" where
  "stop_cl inLoop s = on_connector (\<lambda>c. Inr (stop_cn inLoop c)) (s\<lparr>cl_connect := False\<rparr>)"

text \<open>The name of a connection: \<^verbatim>\<open>snprintf\<close> into 32 bytes keeps 31 characters.\<close>

definition conn_name_cl :: "string \<Rightarrow> string \<Rightarrow> int \<Rightarrow> string" where
  "conn_name_cl name ipPort connId = name @ take 31 (CHR '':'' # ipPort @ CHR ''#'' # fmt_d connId)"

text \<open>\<open>a\<close> is the address of the new TcpConnection, \<open>ipPort\<close> the text of the peer's address.\<close>

definition newConnection_cl :: "nat \<Rightarrow> string \<Rightarrow> int \<Rightarrow> bool \<Rightarrow> client \<Rightarrow> client res" where
  "newConnection_cl a ipPort sockfd inLoop s =
     assertInLoopThread inLoop (
     let connName = conn_name_cl (cl_name s) ipPort (cl_nextConnId s)
     in if cl_nextConnId s + 1 \<ge> 2 ^ 31 then Inl (Undefined ''tcpclient.cpp:127: int overflow'')
        else Inr (call_conn (CEstablished a)
          (s\<lparr>cl_nextConnId := cl_nextConnId s + 1, cl_conns := cl_conns s @ [(a, connName, sockfd)],
             cl_connection := Some a\<rparr>)))"

text \<open>\<open>chan\<close> and \<open>r\<close> are for the reconnect: the address of its Channel, its socket and the result of connect(2).\<close>

definition removeConnection_cl :: "nat \<Rightarrow> nat \<Rightarrow> int \<times> int \<Rightarrow> bool \<Rightarrow> client \<Rightarrow> client res" where
  "removeConnection_cl a chan r inLoop s =
     assertInLoopThread inLoop (
     check (cl_connection s = Some a) ''tcpclient.cpp:165'' (
     let s1 = s\<lparr>cl_connection := None, cl_posted := cl_posted s @ [a]\<rparr>
     in if cl_retry s1 \<and> cl_connect s1 then on_connector (restart_cn chan r inLoop) s1 else Inr s1))"

text \<open>
  The write event of the connector's channel: \<^verbatim>\<open>newConnectionCallback_\<close> is the last call of
  \<^verbatim>\<open>Connector::handleWrite\<close> and is bound to \<^verbatim>\<open>TcpClient::newConnection\<close>.
\<close>

definition handleWrite_cl :: "nat \<Rightarrow> string \<Rightarrow> int \<Rightarrow> bool \<Rightarrow> client \<Rightarrow> client res" where
  "handleWrite_cl a ipPort err self s =
     andThen (on_connector (handleWrite_cn (\<lambda>_ c. Inr c) err self) s) (\<lambda>s1.
     case drop (length (cn_delivered (cl_connector s))) (cn_delivered (cl_connector s1)) of
       [] \<Rightarrow> Inr s1
     | sockfd # _ \<Rightarrow> newConnection_cl a ipPort sockfd True s1)"

section \<open>Steps\<close>

datatype cl_op =
    ClConnect nat "int \<times> int"
  | ClDisconnect
  | ClStop
  | ClWritable nat string int bool
  | ClConnector cn_op
  | ClClosed nat nat "int \<times> int"

fun cl_step :: "cl_op \<Rightarrow> client \<Rightarrow> client res" where
  "cl_step (ClConnect a r) s = connect_cl a r True s"
| "cl_step ClDisconnect s = Inr (disconnect_cl s)"
| "cl_step ClStop s = stop_cl True s"
| "cl_step (ClWritable a ipPort err self) s = handleWrite_cl a ipPort err self s"
| "cl_step (ClConnector cop) s = on_connector (cn_step (\<lambda>_ c. Inr c) cop) s"
| "cl_step (ClClosed a chan r) s = removeConnection_cl a chan r True s"

text \<open>
  The connector's steps are legal as in Kaycc\_Connector, \<^verbatim>\<open>connect()\<close> is called on a connector that is
  disconnected, the close callback comes from the current connection and after the channel of the
  finished connect was destroyed, and fewer than \<open>2 ^ 31 - 1\<close> connections were made.
\<close>

fun cl_op_ok :: "cl_op \<Rightarrow> client \<Rightarrow> bool" where
  "cl_op_ok (ClConnect a r) s \<longleftrightarrow> cn_op_ok (CnStart a r) (cl_connector s)"
| "cl_op_ok ClDisconnect s \<longleftrightarrow> True"
| "cl_op_ok ClStop s \<longleftrightarrow> True"
| "cl_op_ok (ClWritable a ipPort err self) s \<longleftrightarrow>
     cn_op_ok (CnWritable err self) (cl_connector s) \<and> cl_nextConnId s < 2 ^ 31 - 1"
| "cl_op_ok (ClConnector cop) s \<longleftrightarrow> (\<nexists>err self. cop = CnWritable err self) \<and> cn_op_ok cop (cl_connector s)"
| "cl_op_ok (ClClosed a chan r) s \<longleftrightarrow>
     cl_connection s = Some a \<and> cn_channel (cl_connector s) = None \<and>
     el_channels (cn_loop (cl_connector s)) chan = None \<and> 0 \<le> fst r \<and> el_reg (cn_loop (cl_connector s)) (fst r) = None"

definition current :: "client \<Rightarrow> nat multiset" where
  "current s = (case cl_connection s of None \<Rightarrow> {#} | Some a \<Rightarrow> {#a#})"

definition cl_inv :: "client \<Rightarrow> bool" where
  "cl_inv s \<longleftrightarrow> cn_inv (cl_connector s) \<and>
     (cl_connection s \<noteq> None \<longrightarrow> cn_state (cl_connector s) = cConnected) \<and>
     map (\<lambda>(a, name, fd). fd) (cl_conns s) = cn_delivered (cl_connector s) \<and>
     mset (map fst (cl_conns s)) = mset (cl_posted s) + current s"

section \<open>What the connector's steps leave alone\<close>

lemma removeAndResetChannel_frame:
  assumes "removeAndResetChannel c = Inr (fd, c1)"
  shows "cn_delivered c1 = cn_delivered c \<and> cn_state c1 = cn_state c \<and> cn_connect c1 = cn_connect c"
  using assms
  by (auto simp: removeAndResetChannel_def cn_on_loop_def chan_at_def deref_def fault_simps split: option.splits)

lemma retry_frame: "cn_delivered (retry fd c) = cn_delivered c"
  by (simp add: retry_def cn_close_def Let_def)

lemma startInLoop_frame:
  assumes "startInLoop a r True c = Inr c'"
  shows "cn_delivered c' = cn_delivered c"
  using assms
  by (cases r) (auto simp: startInLoop_def connect_def connecting_def cn_on_loop_def retry_frame cn_close_def Let_def
      fault_simps split: if_splits)

lemma cn_step_frame:
  assumes "cn_step user cop c = Inr c'" and "\<nexists>err self. cop = CnWritable err self"
  shows "cn_delivered c' = cn_delivered c" and "cn_state c = cConnected \<Longrightarrow> cn_state c' = cConnected"
proof -
  have "cn_delivered c' = cn_delivered c \<and> (cn_state c = cConnected \<longrightarrow> cn_state c' = cConnected)"
  proof (cases cop)
    case (CnStart a r)
    then show ?thesis
      using assms(1) startInLoop_frame [of a r c c'] by (auto simp: startInLoop_def fault_simps)
  next
    case CnErrorEvent
    then show ?thesis
      using assms(1)
      by (auto simp: handleError_cn_def retry_frame fault_simps dest!: removeAndResetChannel_frame split: if_splits)
  next
    case CnStop
    then show ?thesis
      using assms(1)
      by (auto simp: stopInLoop_def unqueue_def retry_frame fault_simps dest!: removeAndResetChannel_frame split: if_splits)
  next
    case CnReset
    then show ?thesis
      using assms(1)
      by (auto simp: resetChannel_def unqueue_def cn_on_loop_def fault_simps split: option.splits)
  qed (use assms(2) in blast)
  then show "cn_delivered c' = cn_delivered c" and "cn_state c = cConnected \<Longrightarrow> cn_state c' = cConnected" by auto
qed

lemma handleWrite_delivers:
  assumes "handleWrite_cn (\<lambda>_ c. Inr c) err self c = Inr c'" and "cn_state c = cConnecting"
  shows "cn_delivered c' = cn_delivered c \<or> (\<exists>fd. cn_delivered c' = cn_delivered c @ [fd] \<and> cn_state c' = cConnected)"
  using assms
  by (auto simp: handleWrite_cn_def retry_frame cn_close_def Let_def fault_simps dest!: removeAndResetChannel_frame
      split: if_splits)

lemma cn_inv_connect: "cn_inv (c\<lparr>cn_connect := b\<rparr>) = cn_inv c"
  by (simp add: cn_inv_def attached_def detached_def resets_def cong: option.case_cong)

lemma stop_cn_frame:
  "attached (stop_cn inLoop c) fd = attached c fd" "detached (stop_cn inLoop c) = detached c"
  "cn_state (stop_cn inLoop c) = cn_state c" "cn_created (stop_cn inLoop c) = cn_created c"
  "cn_closed (stop_cn inLoop c) = cn_closed c" "cn_delivered (stop_cn inLoop c) = cn_delivered c"
  by (simp_all add: stop_cn_def attached_def detached_def resets_def queueInLoop_def wakeup_def Let_def el_inv_def
      el_reg_def cong: option.case_cong)

lemma stop_cn_inv: "cn_inv (stop_cn inLoop c) = cn_inv c"
  by (simp add: cn_inv_def stop_cn_frame)

section \<open>Correctness\<close>

lemma connect_cl_ok:
  assumes inv: "cl_inv s" and ok: "cl_op_ok (ClConnect a r) s"
  shows "\<exists>s'. cl_step (ClConnect a r) s = Inr s' \<and> cl_inv s'"
proof -
  let ?c = "(cl_connector s)\<lparr>cn_connect := True\<rparr>"
  have st: "cn_state (cl_connector s) = cDisconnected" using ok by simp
  have "cn_inv ?c" "cn_op_ok (CnStart a r) ?c"
    using inv ok by (simp_all add: cl_inv_def cn_inv_connect)
  from start_ok [OF this] obtain c' where c': "startInLoop a r True ?c = Inr c'" "cn_inv c'" by auto
  with startInLoop_frame [OF c'(1)] inv st show ?thesis
    by (auto simp: connect_cl_def on_connector_def start_cn_def cl_inv_def current_def)
qed

lemma writable_cl_ok:
  assumes inv: "cl_inv s" and ok: "cl_op_ok (ClWritable a ipPort err self) s"
  shows "\<exists>s'. cl_step (ClWritable a ipPort err self) s = Inr s' \<and> cl_inv s'"
proof -
  have st: "cn_state (cl_connector s) = cConnecting" "cl_connection s = None" "cl_nextConnId s < 2 ^ 31 - 1"
    using inv ok by (auto simp: cl_inv_def)
  have "cn_user_law (\<lambda>_ c. Inr c)" by (simp add: cn_user_law_def)
  with handleWrite_cn_ok [of "cl_connector s" _ err self] inv ok obtain c' where
    c': "handleWrite_cn (\<lambda>_ c. Inr c) err self (cl_connector s) = Inr c'" "cn_inv c'"
    by (auto simp: cl_inv_def)
  from handleWrite_delivers [OF c'(1) st(1)] show ?thesis
  proof
    assume "cn_delivered c' = cn_delivered (cl_connector s)"
    with c' inv st show ?thesis
      by (simp add: handleWrite_cl_def on_connector_def cl_inv_def current_def)
  next
    assume "\<exists>fd. cn_delivered c' = cn_delivered (cl_connector s) @ [fd] \<and> cn_state c' = cConnected"
    with c' inv st show ?thesis
      by (auto simp: handleWrite_cl_def on_connector_def newConnection_cl_def call_conn_def cl_inv_def current_def)
  qed
qed

lemma closed_cl_ok:
  assumes inv: "cl_inv s" and ok: "cl_op_ok (ClClosed a chan r) s"
  shows "\<exists>s'. cl_step (ClClosed a chan r) s = Inr s' \<and> cl_inv s'"
proof -
  let ?c = "(cl_connector s)\<lparr>cn_state := cDisconnected, cn_retryDelayMs := kInitRetryDelayMs, cn_connect := True\<rparr>"
  have a: "cl_connection s = Some a" using ok by simp
  have "cn_state (cl_connector s) = cConnected" using inv a by (simp add: cl_inv_def)
  then have "cn_inv ?c" using inv
    by (simp add: cl_inv_def cn_inv_def attached_def detached_def resets_def cong: option.case_cong)
  moreover have "cn_op_ok (CnStart chan r) ?c" using ok by simp
  ultimately obtain c' where c': "startInLoop chan r True ?c = Inr c'" "cn_inv c'" using start_ok [of ?c chan r] by auto
  with startInLoop_frame [OF c'(1)] inv a show ?thesis
    by (auto simp: removeConnection_cl_def on_connector_def restart_cn_def cl_inv_def current_def Let_def)
qed

lemma connector_cl_ok:
  assumes inv: "cl_inv s" and ok: "cl_op_ok (ClConnector cop) s"
  shows "\<exists>s'. cl_step (ClConnector cop) s = Inr s' \<and> cl_inv s'"
proof -
  have "cn_inv (cl_connector s)" "cn_user_law (\<lambda>_ c. Inr c)" "cn_op_ok cop (cl_connector s)"
    using inv ok by (simp_all add: cl_inv_def cn_user_law_def)
  from cn_step_ok [OF this] obtain c' where
    c': "cn_step (\<lambda>_ c. Inr c) cop (cl_connector s) = Inr c'" "cn_inv c'" by blast
  with cn_step_frame [OF c'(1)] inv ok show ?thesis
    by (auto simp: on_connector_def cl_inv_def current_def)
qed

text \<open>
  C16. The client and its connector fit together: every call, event and queued functor succeeds and
  keeps the invariant. There is a current connection only while the connector is connected, so a new
  one never overwrites it; every socket the connector delivers becomes one connection; and every
  connection but the current one has had \<^verbatim>\<open>connectDestroyed\<close> queued, exactly once.
\<close>

theorem client_safe:
  assumes inv: "cl_inv s" and ok: "cl_op_ok op s"
  shows "\<exists>s'. cl_step op s = Inr s' \<and> cl_inv s'"
proof (cases op)
  case ClDisconnect
  then show ?thesis
    using inv by (auto simp: disconnect_cl_def call_conn_def cl_inv_def current_def Let_def split: option.splits)
next
  case ClStop
  then show ?thesis
    using inv by (simp add: stop_cl_def on_connector_def cl_inv_def current_def stop_cn_inv stop_cn_frame)
qed (use inv ok connect_cl_ok writable_cl_ok connector_cl_ok closed_cl_ok in \<open>blast+\<close>)

definition demo_client :: client where
  "demo_client = (newTcpClient (cn_loop demo_cn) ''c'')\<lparr>cl_connector := demo_cn\<lparr>cn_state := cConnected,
     cn_created := [5], cn_delivered := [5]\<rparr>, cl_connection := Some 9, cl_nextConnId := 2,
     cl_conns := [(9, ''c:1.2.3.4:80#1'', 5)]\<rparr>"

lemma demo_client_inv: "cl_inv demo_client"
  using demo_cn_inv(1)
  by (simp add: demo_client_def newTcpClient_def cl_inv_def current_def cn_inv_def detached_def resets_def
      demo_cn_def newConnector_def)

theorem client_safe_witness: "\<exists>s'. cl_step (ClClosed 9 1 (5, 115)) demo_client = Inr s' \<and> cl_inv s'"
proof (rule client_safe [OF demo_client_inv])
  show "cl_op_ok (ClClosed 9 1 (5, 115)) demo_client"
    using demo_cn_inv(2) by (simp add: demo_client_def)
qed

text \<open>
  A client that lost its connection comes back: with \<^verbatim>\<open>enableRetry()\<close> and no \<^verbatim>\<open>disconnect()\<close> or
  \<^verbatim>\<open>stop()\<close>, the close callback starts a new connect at once, with the back-off reset; without retry
  it only removes the connection.
\<close>

theorem client_reconnects:
  assumes "cl_inv s" and "cl_op_ok (ClClosed a chan (fd, e)) s" and "e \<in> set errnos_connecting"
  shows "\<exists>s'. cl_step (ClClosed a chan (fd, e)) s = Inr s' \<and> cl_connection s' = None \<and>
    cl_posted s' = cl_posted s @ [a] \<and>
    (if cl_retry s \<and> cl_connect s
     then cn_state (cl_connector s') = cConnecting \<and> cn_retryDelayMs (cl_connector s') = kInitRetryDelayMs \<and>
       el_reg (cn_loop (cl_connector s')) fd = Some chan
     else cl_connector s' = cl_connector s)"
proof -
  let ?c = "(cl_connector s)\<lparr>cn_state := cDisconnected, cn_retryDelayMs := kInitRetryDelayMs, cn_connect := True,
    cn_created := cn_created (cl_connector s) @ [fd]\<rparr>"
  have "cn_state (cl_connector s) = cConnected" using assms(1,2) by (auto simp: cl_inv_def)
  then have "el_inv (cn_loop ?c)" "resets ?c = 0"
    using assms(1,2) by (auto simp: cl_inv_def cn_inv_def detached_def resets_def)
  then obtain l where l: "connecting chan fd ?c = Inr (?c\<lparr>cn_state := cConnecting, cn_channel := Some chan, cn_loop := l\<rparr>)"
    "attached (?c\<lparr>cn_state := cConnecting, cn_channel := Some chan, cn_loop := l\<rparr>) fd"
    using connecting_ok [of ?c chan fd] assms(2) by auto
  then show ?thesis
    using assms(2,3)
    by (auto simp: removeConnection_cl_def on_connector_def restart_cn_def startInLoop_def connect_def attached_def
        el_reg_def Let_def)
qed

theorem client_reconnects_witness:
  "\<exists>s'. cl_step (ClClosed 9 1 (5, 115)) (enableRetry demo_client) = Inr s' \<and>
     cn_state (cl_connector s') = cConnecting"
proof -
  have "cl_inv (enableRetry demo_client)"
    using demo_client_inv by (simp add: enableRetry_def cl_inv_def current_def)
  moreover have "cl_op_ok (ClClosed 9 1 (5, 115)) (enableRetry demo_client)"
    using demo_cn_inv(2) by (simp add: demo_client_def enableRetry_def)
  moreover have "115 \<in> set errnos_connecting" by (simp add: errnos_connecting_def)
  moreover have "cl_retry (enableRetry demo_client)" "cl_connect (enableRetry demo_client)"
    by (simp_all add: enableRetry_def demo_client_def newTcpClient_def)
  ultimately show ?thesis using client_reconnects [of "enableRetry demo_client" 9 1 5 115] by fastforce
qed

text \<open>
  Without retry a client cannot be used again: the connector stays in the connected state when its
  connection is gone, and the next \<^verbatim>\<open>connect()\<close> fails the assertion of \<^verbatim>\<open>startInLoop\<close>.
\<close>

theorem connect_again_aborts:
  assumes "cl_inv s" and "cl_op_ok (ClClosed a chan r) s" and "\<not> cl_retry s"
  shows "\<exists>s'. cl_step (ClClosed a chan r) s = Inr s' \<and>
    connect_cl chan2 r2 True s' = Inl (Assertion ''connector.cpp:42'')"
proof -
  have "cn_state (cl_connector s) = cConnected" using assms(1,2) by (auto simp: cl_inv_def)
  then show ?thesis
    using assms(2,3)
    by (auto simp: removeConnection_cl_def connect_cl_def on_connector_def start_cn_def startInLoop_def Let_def)
qed

theorem connect_again_aborts_witness:
  "\<exists>s'. cl_step (ClClosed 9 1 (5, 115)) demo_client = Inr s' \<and>
     connect_cl 2 (7, 115) True s' = Inl (Assertion ''connector.cpp:42'')"
proof (rule connect_again_aborts [OF demo_client_inv])
  show "cl_op_ok (ClClosed 9 1 (5, 115)) demo_client" using demo_cn_inv(2) by (simp add: demo_client_def)
  show "\<not> cl_retry demo_client" by (simp add: demo_client_def newTcpClient_def)
qed

text \<open>
  The names of a client's connections: over IPv4 the first 99999999 of them are distinct. With a peer
  text of 30 characters or more, as IPv6 addresses have, the id no longer fits the 32 bytes of the
  buffer and all connections get the same name.
\<close>

theorem client_names:
  assumes "addr_wf peer" and "sin_family peer = AF_INET" and "toIpPort h ntop6 peer = Inr ipPort"
    and "1 \<le> i" and "i < 10 ^ 8" and "1 \<le> j" and "j < 10 ^ 8" and "30 \<le> length ipPort6"
  shows "(conn_name_cl name ipPort i = conn_name_cl name ipPort j \<longleftrightarrow> i = j) \<and>
    conn_name_cl name ipPort6 i = conn_name_cl name ipPort6 j"
proof -
  have len4: "length (sin_addr peer) = 4" using assms(1) by (simp add: addr_wf_def)
  have "length (inet_ntop4 (sin_addr peer)) \<le> 15" using length_ntop4 [of "sin_addr peer"] len4 by simp
  moreover have "ipPort = inet_ntop4 (sin_addr peer) @ CHR '':'' # digits (unat (toPort h peer))"
    using toIpPort_text [OF toIp_text [OF assms(2) len4], of h] calculation assms(3) by simp
  ultimately have "length ipPort \<le> 21" using port_text [of "toPort h peer"] by simp
  moreover have "length (fmt_d k) \<le> 8" if "1 \<le> k" "k < 10 ^ 8" for k :: int
    using that length_digits [of "nat k" 8] by (simp add: fmt_d_def nat_less_iff)
  ultimately have "length (CHR '':'' # ipPort @ CHR ''#'' # fmt_d k) \<le> 31" if "1 \<le> k" "k < 10 ^ 8" for k :: int
    using that by fastforce
  then have "conn_name_cl name ipPort i = conn_name_cl name ipPort j \<longleftrightarrow> fmt_d i = fmt_d j"
    unfolding conn_name_cl_def using assms(4-7) by (simp only: take_all) simp
  also have "\<dots> \<longleftrightarrow> i = j"
    using assms(4,6) by (auto simp: fmt_d_def) (metis num_of_digits nat_eq_iff2 zero_le_one order_trans)
  finally show ?thesis using assms(8) by (simp add: conn_name_cl_def)
qed

theorem client_names_witness:
  "conn_name_cl ''c'' ''2001:db8:85a3:8d3:1319:8a2e:370:7348:443'' 1 =
   conn_name_cl ''c'' ''2001:db8:85a3:8d3:1319:8a2e:370:7348:443'' 2"
proof -
  have "length (sin_addr loopback4) = 4" by (simp add: loopback4_fields)
  from toIpPort_text [OF toIp_text [OF loopback4_fields(2) this]] length_ntop4 [of "sin_addr loopback4"] this
  obtain ip where "toIpPort LittleEndian (\<lambda>_. []) loopback4 = Inr ip" by fastforce
  from client_names [OF loopback4_fields(1,2) this, of 1 2] show ?thesis by simp
qed

end
