(* ===== verification/Kaycc_LoopThread.thy ===== *)
theory Kaycc_LoopThread
  imports Kaycc_Prelude
begin

text \<open>
  EventLoopThread (net/eventloopthread.h, .cpp): a thread that runs an EventLoop on its stack. The owner
  calls \<^verbatim>\<open>startLoop\<close> and later the destructor; the new thread runs \<^verbatim>\<open>threadFunc\<close>. As in the other
  theories on threads a step is a critical section or one access outside of them, so that the steps of the
  two interleave in every possible way. \<^verbatim>\<open>thread_.start()\<close> succeeds; the init callback belongs to the step
  that publishes the loop. Of the loop only \<^verbatim>\<open>quit_\<close> matters: \<^verbatim>\<open>loop()\<close> clears it on
  entry and returns when it finds it set.
\<close>

section \<open>State and steps\<close>

datatype owner_pc =
    OIdle             \<comment> \<open>constructed\<close>
  | OEntering         \<comment> \<open>thread\_.start() has returned, about to lock\<close>
  | OSleeping         \<comment> \<open>in cond\_.wait()\<close>
  | OWoken
  | OReading          \<comment> \<open>lock released, about to read loop\_ for the return value\<close>
  | OReturned bool    \<comment> \<open>startLoop has returned; True for a loop, False for NULL\<close>
  | OQuitting         \<comment> \<open>in the destructor, loop\_ was not NULL\<close>
  | OJoining
  | OGone

datatype worker_pc = WNone | WInit | WPublished | WLooping | WLeft | WDone

record lthread =
  lt_loop :: bool          \<comment> \<open>loop\_ is not NULL\<close>
  lt_quit :: bool          \<comment> \<open>quit\_ of the loop\<close>
  lt_owner :: owner_pc
  lt_worker :: worker_pc
  lt_selfquit :: bool      \<comment> \<open>somebody else has called quit()\<close>

definition newEventLoopThread :: lthread where
  "newEventLoopThread = \<lparr>lt_loop = False, lt_quit = False, lt_owner = OIdle, lt_worker = WNone, lt_selfquit = False\<rparr>"

text \<open>The loop of \<^verbatim>\<open>startLoop\<close> from a point where the lock was just taken.\<close>

definition wait_loop :: "lthread \<Rightarrow> lthread" where
  "wait_loop s = s\<lparr>lt_owner := if lt_loop s then OReading else OSleeping\<rparr>"

text \<open>The critical section of \<^verbatim>\<open>threadFunc\<close>.\<close>

definition publish_loop :: "lthread \<Rightarrow> lthread" where
  "publish_loop s = s\<lparr>lt_loop := True, lt_worker := WPublished,
     lt_owner := if lt_owner s = OSleeping then OWoken else lt_owner s\<rparr>"

inductive startLoop_step :: "lthread \<Rightarrow> lthread \<Rightarrow> bool" where
  start: "lt_owner s = OIdle \<Longrightarrow> lt_worker s = WNone \<Longrightarrow>
    startLoop_step s (s\<lparr>lt_owner := OEntering, lt_worker := WInit\<rparr>)"
| check: "lt_owner s = OEntering \<or> lt_owner s = OWoken \<Longrightarrow> startLoop_step s (wait_loop s)"
| return: "lt_owner s = OReading \<Longrightarrow> startLoop_step s (s\<lparr>lt_owner := OReturned (lt_loop s)\<rparr>)"

inductive threadFunc_step :: "lthread \<Rightarrow> lthread \<Rightarrow> bool" where
  publish: "lt_worker s = WInit \<Longrightarrow> threadFunc_step s (publish_loop s)"
| enter_loop: "lt_worker s = WPublished \<Longrightarrow> threadFunc_step s (s\<lparr>lt_worker := WLooping, lt_quit := False\<rparr>)"
| leave_loop: "lt_worker s = WLooping \<Longrightarrow> lt_quit s \<Longrightarrow> threadFunc_step s (s\<lparr>lt_worker := WLeft\<rparr>)"
| clear: "lt_worker s = WLeft \<Longrightarrow> threadFunc_step s (s\<lparr>lt_worker := WDone, lt_loop := False\<rparr>)"

text \<open>The destructor: it tests \<^verbatim>\<open>loop_\<close>, asks the loop to quit and joins the thread.\<close>

inductive destroy_step :: "lthread \<Rightarrow> lthread \<Rightarrow> bool" where
  test: "lt_owner s = OReturned b \<Longrightarrow>
    destroy_step s (s\<lparr>lt_owner := if lt_loop s then OQuitting else OGone\<rparr>)"
| quit: "lt_owner s = OQuitting \<Longrightarrow> destroy_step s (s\<lparr>lt_quit := True, lt_owner := OJoining\<rparr>)"
| join: "lt_owner s = OJoining \<Longrightarrow> lt_worker s = WDone \<Longrightarrow> destroy_step s (s\<lparr>lt_owner := OGone\<rparr>)"

text \<open>The steps of the two threads, and all steps: a spurious wakeup, and a \<^verbatim>\<open>quit()\<close> by somebody else.\<close>

definition own_step :: "lthread \<Rightarrow> lthread \<Rightarrow> bool" where
  "own_step s s' \<longleftrightarrow> startLoop_step s s' \<or> threadFunc_step s s' \<or> destroy_step s s'"

inductive lthread_step :: "lthread \<Rightarrow> lthread \<Rightarrow> bool" where
  own: "own_step s s' \<Longrightarrow> lthread_step s s'"
| spurious: "lt_owner s = OSleeping \<Longrightarrow> lthread_step s (s\<lparr>lt_owner := OWoken\<rparr>)"
| selfquit: "lt_worker s = WLooping \<Longrightarrow> lthread_step s (s\<lparr>lt_quit := True, lt_selfquit := True\<rparr>)"

section \<open>Correctness\<close>

definition lthread_inv :: "lthread \<Rightarrow> bool" where
  "lthread_inv s \<longleftrightarrow>
     (lt_loop s \<longleftrightarrow> lt_worker s \<in> {WPublished, WLooping, WLeft}) \<and>
     (lt_worker s = WNone \<longleftrightarrow> lt_owner s = OIdle) \<and>
     (lt_owner s = OSleeping \<longrightarrow> lt_worker s \<in> {WInit, WDone}) \<and>
     (lt_owner s = OSleeping \<and> lt_worker s = WDone \<longrightarrow> lt_selfquit s) \<and>
     (lt_worker s = WInit \<longrightarrow> lt_owner s \<in> {OEntering, OSleeping, OWoken}) \<and>
     (lt_worker s = WLooping \<and> lt_quit s \<longrightarrow> lt_selfquit s \<or> lt_owner s = OJoining) \<and>
     (lt_worker s \<in> {WLeft, WDone} \<longrightarrow> lt_selfquit s \<or> lt_owner s \<in> {OJoining, OGone}) \<and>
     (lt_owner s = OReturned False \<longrightarrow> lt_selfquit s) \<and>
     (lt_owner s = OGone \<longrightarrow> lt_worker s = WDone)"

lemma startLoop_step_inv: "startLoop_step s s' \<Longrightarrow> lthread_inv s \<Longrightarrow> lthread_inv s'"
  by (erule startLoop_step.cases)
    (cases "lt_worker s"; cases "lt_loop s"; auto simp: lthread_inv_def wait_loop_def; fail)+

lemma threadFunc_step_inv: "threadFunc_step s s' \<Longrightarrow> lthread_inv s \<Longrightarrow> lthread_inv s'"
  by (erule threadFunc_step.cases)
    (cases "lt_owner s"; cases "lt_selfquit s"; simp add: lthread_inv_def publish_loop_def; fail)+

lemma destroy_step_inv: "destroy_step s s' \<Longrightarrow> lthread_inv s \<Longrightarrow> lthread_inv s'"
  by (erule destroy_step.cases)
    (cases "lt_worker s"; cases "lt_selfquit s"; simp add: lthread_inv_def; fail)+

lemma lthread_step_inv:
  assumes "lthread_step s s'" and "lthread_inv s"
  shows "lthread_inv s'"
  using assms(1)
proof cases
  case own
  then show ?thesis
    using assms(2) startLoop_step_inv threadFunc_step_inv destroy_step_inv unfolding own_step_def by blast
qed (use assms(2) in \<open>simp_all add: lthread_inv_def\<close>)

interpretation lthread_sys: step_system lthread_step newEventLoopThread lthread_inv
  by unfold_locales (simp add: lthread_inv_def newEventLoopThread_def, rule lthread_step_inv)

text \<open>
  C32. \<^verbatim>\<open>startLoop\<close> hands out the loop: however the two threads interleave it returns a loop and not NULL,
  unless somebody made the new loop quit in the meantime, and it does not get stuck on the way: while it
  has not returned, one of the two threads can go on.
\<close>

theorem startLoop_returns_loop:
  assumes "reaches lthread_step newEventLoopThread s" and "\<not> lt_selfquit s"
  shows "(\<forall>b. lt_owner s = OReturned b \<longrightarrow> b \<and> lt_loop s) \<and>
    (lt_owner s \<in> {OEntering, OSleeping, OWoken, OReading} \<longrightarrow> (\<exists>s'. own_step s s' \<and> s' \<noteq> s))"
proof -
  note inv = lthread_sys.inv_reaches [OF assms(1)]
  have "b \<and> lt_loop s" if "lt_owner s = OReturned b" for b
    using inv assms(2) that by (cases "lt_worker s") (auto simp: lthread_inv_def)
  moreover have "\<exists>s'. own_step s s' \<and> s' \<noteq> s" if "lt_owner s = OEntering \<or> lt_owner s = OWoken"
    using startLoop_step.check [OF that] that
    by (intro exI [of _ "wait_loop s"]) (auto simp: own_step_def wait_loop_def dest: arg_cong [where f = lt_owner])
  moreover have "\<exists>s'. own_step s s' \<and> s' \<noteq> s" if "lt_owner s = OReading"
    using startLoop_step.return [OF that] that
    by (intro exI [of _ "s\<lparr>lt_owner := OReturned (lt_loop s)\<rparr>"])
      (auto simp: own_step_def dest: arg_cong [where f = lt_owner])
  moreover have "\<exists>s'. own_step s s' \<and> s' \<noteq> s" if "lt_owner s = OSleeping"
  proof -
    have w: "lt_worker s = WInit" using inv assms(2) that by (auto simp: lthread_inv_def)
    show ?thesis
      using threadFunc_step.publish [OF w] w
      by (intro exI [of _ "publish_loop s"])
        (auto simp: own_step_def publish_loop_def dest: arg_cong [where f = lt_worker])
  qed
  ultimately show ?thesis by blast
qed

definition published :: lthread where
  "published = \<lparr>lt_loop = True, lt_quit = False, lt_owner = OReturned True, lt_worker = WPublished, lt_selfquit = False\<rparr>"

lemma run_own:
  "reaches lthread_step newEventLoopThread s \<Longrightarrow> startLoop_step s s' \<Longrightarrow> reaches lthread_step newEventLoopThread s'"
  "reaches lthread_step newEventLoopThread s \<Longrightarrow> threadFunc_step s s' \<Longrightarrow> reaches lthread_step newEventLoopThread s'"
  "reaches lthread_step newEventLoopThread s \<Longrightarrow> destroy_step s s' \<Longrightarrow> reaches lthread_step newEventLoopThread s'"
  by (erule reaches_step, simp add: lthread_step.own own_step_def)+

lemma published_reachable: "reaches lthread_step newEventLoopThread published"
proof -
  let ?s1 = "newEventLoopThread\<lparr>lt_owner := OEntering, lt_worker := WInit\<rparr>"
  let ?s3 = "wait_loop (publish_loop ?s1)"
  have "reaches lthread_step newEventLoopThread ?s1"
    by (rule run_own(1) [OF reaches_start], rule startLoop_step.start) (simp_all add: newEventLoopThread_def)
  then have "reaches lthread_step newEventLoopThread (publish_loop ?s1)"
    by (rule run_own(2), intro threadFunc_step.publish) simp
  then have "reaches lthread_step newEventLoopThread ?s3"
    by (rule run_own(1), intro startLoop_step.check) (simp add: publish_loop_def)
  then have "reaches lthread_step newEventLoopThread (?s3\<lparr>lt_owner := OReturned (lt_loop ?s3)\<rparr>)"
    by (rule run_own(1), intro startLoop_step.return) (simp add: wait_loop_def publish_loop_def)
  then show ?thesis by (simp add: published_def wait_loop_def publish_loop_def newEventLoopThread_def)
qed

theorem startLoop_returns_loop_witness:
  "reaches lthread_step newEventLoopThread published \<and> lt_owner published = OReturned True \<and> lt_loop published"
  using startLoop_returns_loop [OF published_reachable] published_reachable by (simp add: published_def)

text \<open>
  Destroying an EventLoopThread right after \<^verbatim>\<open>startLoop\<close> can block for ever: the new thread has
  published its loop but not entered \<^verbatim>\<open>loop()\<close>, which clears the \<^verbatim>\<open>quit_\<close> the destructor has set; the
  destructor then waits in \<^verbatim>\<open>join\<close> for a loop nobody asks to quit, and neither thread can go on.
\<close>

theorem destroy_blocks:
  "\<exists>s. reaches lthread_step newEventLoopThread s \<and> lt_owner s = OJoining \<and> lt_worker s = WLooping \<and> \<not> lt_quit s \<and> (\<forall>s'. \<not> own_step s s')"
proof -
  let ?s1 = "published\<lparr>lt_owner := OQuitting\<rparr>" and ?s2 = "published\<lparr>lt_quit := True, lt_owner := OJoining\<rparr>"
  have "reaches lthread_step newEventLoopThread ?s1"
    by (rule run_own(3) [OF published_reachable]) (use destroy_step.test [of published True] in \<open>simp add: published_def\<close>)
  then have "reaches lthread_step newEventLoopThread ?s2"
    by (rule run_own(3)) (use destroy_step.quit [of ?s1] in simp)
  then have "reaches lthread_step newEventLoopThread (published\<lparr>lt_owner := OJoining, lt_worker := WLooping\<rparr>)"
    by (rule run_own(2)) (use threadFunc_step.enter_loop [of ?s2] in \<open>simp add: published_def\<close>)
  moreover have "\<not> own_step (published\<lparr>lt_owner := OJoining, lt_worker := WLooping\<rparr>) s'" for s'
    by (auto simp: own_step_def published_def startLoop_step.simps threadFunc_step.simps destroy_step.simps)
  ultimately show ?thesis
    by (intro exI [of _ "published\<lparr>lt_owner := OJoining, lt_worker := WLooping\<rparr>"]) (simp add: published_def)
qed

end
