(* ===== verification/Kaycc_ThreadPool.thy ===== *)
theory Kaycc_ThreadPool
  imports Kaycc_Prelude "HOL-Library.Multiset"
begin

text \<open>
  ThreadPool (base/threadpool.h, .cpp) on top of MutexLock and Condition. All shared data is accessed under a MutexLockGuard, so a step is one
  critical section: from taking the lock to releasing it, or to \<^verbatim>\<open>pthread_cond_wait\<close>, which releases
  it. The threads are anonymous, and the state counts how many there are at each point of the code.
  Waking up from a wait without a signal is a step of its own, as pthreads allow it; \<^verbatim>\<open>notify\<close> moves
  one waiter, if there is one, from the waiting to the woken threads. A task that throws ends the
  process, so tasks here return; the thread-init callback runs before the loop of a worker and is left out.
\<close>

section \<open>The pool\<close>

text \<open>
  Workers: at \<^verbatim>\<open>while (running_)\<close>, about to lock in \<^verbatim>\<open>takeTask\<close>, waiting on \<^verbatim>\<open>notEmpty_\<close>, woken
  there, running a task, gone. Producers are in \<^verbatim>\<open>run(task)\<close>, counted with their task: about to lock,
  waiting on \<^verbatim>\<open>notFull_\<close>, woken. The last three fields are history: the tasks put into the queue and
  taken out of it, in order, and those that have run.
\<close>

record 'a tpool =
  tp_queue :: "'a list"
  tp_maxQueueSize :: nat
  tp_running :: bool
  w_top :: nat
  w_entering :: nat
  w_sleeping :: nat
  w_woken :: nat
  w_busy :: "'a multiset"
  w_exited :: nat
  p_entering :: "'a multiset"
  p_sleeping :: "'a multiset"
  p_woken :: "'a multiset"
  tp_put :: "'a list"
  tp_taken :: "'a list"
  tp_done :: "'a multiset"

definition newThreadPool :: "'a tpool" where
  "newThreadPool =
     \<lparr>tp_queue = [], tp_maxQueueSize = 0, tp_running = False,
      w_top = 0, w_entering = 0, w_sleeping = 0, w_woken = 0, w_busy = {#}, w_exited = 0,
      p_entering = {#}, p_sleeping = {#}, p_woken = {#}, tp_put = [], tp_taken = [], tp_done = {#}\<rparr>"

text \<open>The parameter is an \<^verbatim>\<open>int\<close>, the field a \<^verbatim>\<open>size_t\<close>.\<close>

definition setMaxQueueSize :: "int \<Rightarrow> 'a tpool \<Rightarrow> 'a tpool" where
  "setMaxQueueSize maxSize p = p\<lparr>tp_maxQueueSize := nat (maxSize mod 2 ^ 64)\<rparr>"

text \<open>\<^verbatim>\<open>threads_.size()\<close>: threads stay in the vector when they have left \<^verbatim>\<open>runInThread\<close>.\<close>

definition pool_threads :: "'a tpool \<Rightarrow> nat" where
  "pool_threads p = w_top p + w_entering p + w_sleeping p + w_woken p + size (w_busy p) + w_exited p"

text \<open>The result tells whether the init callback, if there is one, is called by the caller.\<close>

definition start_tp :: "nat \<Rightarrow> 'a tpool \<Rightarrow> ('a tpool \<times> bool) res" where
  "start_tp numThreads p =
     check (pool_threads p = 0) ''threadpool.cpp:27'' (
     Inr (p\<lparr>tp_running := True, w_top := numThreads\<rparr>, numThreads = 0))"

text \<open>A pool after construction, \<^verbatim>\<open>setMaxQueueSize\<close> and \<^verbatim>\<open>start(n)\<close>.\<close>

definition started_pool :: "nat \<Rightarrow> nat \<Rightarrow> 'a tpool" where
  "started_pool maxSize n = newThreadPool\<lparr>tp_maxQueueSize := maxSize, tp_running := True, w_top := n\<rparr>"

lemma started_pool_eq:
  "0 \<le> m \<Longrightarrow> m < 2 ^ 31 \<Longrightarrow> start_tp n (setMaxQueueSize m newThreadPool) = Inr (started_pool (nat m) n, n = 0)"
  by (simp add: start_tp_def setMaxQueueSize_def newThreadPool_def pool_threads_def started_pool_def)

definition isFull :: "'a tpool \<Rightarrow> bool" where
  "isFull p \<longleftrightarrow> tp_maxQueueSize p > 0 \<and> length (tp_queue p) \<ge> tp_maxQueueSize p"

text \<open>\<^verbatim>\<open>notEmpty_.notify()\<close> and \<^verbatim>\<open>notEmpty_.notifyAll()\<close>.\<close>

definition notify_worker :: "'a tpool \<Rightarrow> 'a tpool" where
  "notify_worker p =
     (if w_sleeping p = 0 then p else p\<lparr>w_sleeping := w_sleeping p - 1, w_woken := w_woken p + 1\<rparr>)"

definition notify_all_workers :: "'a tpool \<Rightarrow> 'a tpool" where
  "notify_all_workers p = p\<lparr>w_sleeping := 0, w_woken := w_woken p + w_sleeping p\<rparr>"

text \<open>\<^verbatim>\<open>notFull_.notify()\<close>: any one waiting producer is chosen.\<close>

inductive notify_producer :: "'a tpool \<Rightarrow> 'a tpool \<Rightarrow> bool" where
  nobody: "p_sleeping p = {#} \<Longrightarrow> notify_producer p p"
| somebody: "t \<in># p_sleeping p \<Longrightarrow>
    notify_producer p (p\<lparr>p_sleeping := p_sleeping p - {#t#}, p_woken := add_mset t (p_woken p)\<rparr>)"

text \<open>\<^verbatim>\<open>run(task)\<close> with threads, from a point where the lock was just taken.\<close>

definition run_section :: "'a \<Rightarrow> 'a tpool \<Rightarrow> 'a tpool" where
  "run_section t p =
     (if isFull p then p\<lparr>p_sleeping := add_mset t (p_sleeping p)\<rparr>
      else notify_worker (p\<lparr>tp_queue := tp_queue p @ [t], tp_put := tp_put p @ [t]\<rparr>))"

text \<open>\<^verbatim>\<open>takeTask()\<close> and what \<^verbatim>\<open>runInThread\<close> does with its result, from a point where the lock was just taken.\<close>

inductive take_section :: "'a tpool \<Rightarrow> 'a tpool \<Rightarrow> bool" where
  sleep: "tp_queue p = [] \<Longrightarrow> tp_running p \<Longrightarrow> take_section p (p\<lparr>w_sleeping := w_sleeping p + 1\<rparr>)"
| no_task: "tp_queue p = [] \<Longrightarrow> \<not> tp_running p \<Longrightarrow> take_section p (p\<lparr>w_top := w_top p + 1\<rparr>)"
| task: "tp_queue p = t # q \<Longrightarrow> tp_maxQueueSize p = 0 \<Longrightarrow>
    take_section p (p\<lparr>tp_queue := q, tp_taken := tp_taken p @ [t], w_busy := add_mset t (w_busy p)\<rparr>)"
| task_notify: "tp_queue p = t # q \<Longrightarrow> tp_maxQueueSize p > 0 \<Longrightarrow>
    notify_producer (p\<lparr>tp_queue := q, tp_taken := tp_taken p @ [t], w_busy := add_mset t (w_busy p)\<rparr>) p' \<Longrightarrow>
    take_section p p'"

definition stop_section :: "'a tpool \<Rightarrow> 'a tpool" where
  "stop_section p = notify_all_workers (p\<lparr>tp_running := False\<rparr>)"

text \<open>The steps of the workers.\<close>

inductive worker_step :: "'a tpool \<Rightarrow> 'a tpool \<Rightarrow> bool" where
  test_running: "w_top p = Suc n \<Longrightarrow>
    worker_step p (if tp_running p then p\<lparr>w_top := n, w_entering := w_entering p + 1\<rparr>
                   else p\<lparr>w_top := n, w_exited := w_exited p + 1\<rparr>)"
| enter: "w_entering p = Suc n \<Longrightarrow> take_section (p\<lparr>w_entering := n\<rparr>) p' \<Longrightarrow> worker_step p p'"
| reenter: "w_woken p = Suc n \<Longrightarrow> take_section (p\<lparr>w_woken := n\<rparr>) p' \<Longrightarrow> worker_step p p'"
| finish: "t \<in># w_busy p \<Longrightarrow>
    worker_step p (p\<lparr>w_busy := w_busy p - {#t#}, w_top := w_top p + 1, tp_done := add_mset t (tp_done p)\<rparr>)"

text \<open>
  The steps of the threads that are inside the pool, and all steps; \<open>call\<close> is a thread that calls \<^verbatim>\<open>run\<close>
  and finds \<^verbatim>\<open>threads_\<close> not empty. With no threads \<^verbatim>\<open>run\<close> only calls the task.
\<close>

inductive thread_step :: "'a tpool \<Rightarrow> 'a tpool \<Rightarrow> bool" where
  worker: "worker_step p p' \<Longrightarrow> thread_step p p'"
| put: "t \<in># p_entering p \<Longrightarrow> thread_step p (run_section t (p\<lparr>p_entering := p_entering p - {#t#}\<rparr>))"
| put_again: "t \<in># p_woken p \<Longrightarrow> thread_step p (run_section t (p\<lparr>p_woken := p_woken p - {#t#}\<rparr>))"

inductive pool_step :: "'a tpool \<Rightarrow> 'a tpool \<Rightarrow> bool" where
  inside: "thread_step p p' \<Longrightarrow> pool_step p p'"
| call: "pool_threads p > 0 \<Longrightarrow> pool_step p (p\<lparr>p_entering := add_mset t (p_entering p)\<rparr>)"
| worker_spurious: "w_sleeping p = Suc n \<Longrightarrow> pool_step p (p\<lparr>w_sleeping := n, w_woken := w_woken p + 1\<rparr>)"
| producer_spurious: "t \<in># p_sleeping p \<Longrightarrow>
    pool_step p (p\<lparr>p_sleeping := p_sleeping p - {#t#}, p_woken := add_mset t (p_woken p)\<rparr>)"
| stop: "pool_step p (stop_section p)"

text \<open>The destructor; \<^verbatim>\<open>running_\<close> is read without the lock.\<close>

definition destroyThreadPool :: "'a tpool \<Rightarrow> 'a tpool" where
  "destroyThreadPool p = (if tp_running p then stop_section p else p)"

definition queueSize_tp :: "'a tpool \<Rightarrow> nat" where
  "queueSize_tp p = length (tp_queue p)"

section \<open>Invariants\<close>

text \<open>
  The invariant of the whole pool with \<open>n\<close> workers and capacity \<open>m\<close>. The first block says that no
  task is lost, the second counts the workers, the third that no wakeup is lost: while a worker sleeps
  every queued task has a woken worker, while a producer sleeps every free slot has a woken producer.
  A worker or a producer that was just taken off its counter to run a section is \<open>k\<close> respectively \<open>j\<close>.
\<close>

definition tasks_inv :: "nat \<Rightarrow> 'a tpool \<Rightarrow> bool" where
  "tasks_inv m p \<longleftrightarrow> tp_maxQueueSize p = m \<and> tp_put p = tp_taken p @ tp_queue p \<and>
     (m > 0 \<longrightarrow> length (tp_queue p) \<le> m) \<and> mset (tp_taken p) = w_busy p + tp_done p"

definition workers_inv :: "nat \<Rightarrow> nat \<Rightarrow> 'a tpool \<Rightarrow> bool" where
  "workers_inv n k p \<longleftrightarrow>
     w_top p + w_entering p + w_sleeping p + w_woken p + size (w_busy p) + w_exited p + k = n \<and>
     (tp_running p \<longrightarrow> w_exited p = 0) \<and> (\<not> tp_running p \<longrightarrow> w_sleeping p = 0)"

definition wakeup_inv :: "nat \<Rightarrow> nat \<Rightarrow> 'a tpool \<Rightarrow> bool" where
  "wakeup_inv k j p \<longleftrightarrow>
     (w_sleeping p > 0 \<longrightarrow> length (tp_queue p) \<le> w_woken p + k) \<and>
     (p_sleeping p \<noteq> {#} \<longrightarrow> tp_maxQueueSize p > 0 \<and>
        tp_maxQueueSize p \<le> length (tp_queue p) + size (p_woken p) + j)"

definition pool_inv :: "nat \<Rightarrow> nat \<Rightarrow> 'a tpool \<Rightarrow> bool" where
  "pool_inv m n p \<longleftrightarrow> tasks_inv m p \<and> workers_inv n 0 p \<and> wakeup_inv 0 0 p"

lemma pool_inv_started: "pool_inv m n (started_pool m n)"
  by (simp add: pool_inv_def tasks_inv_def workers_inv_def wakeup_inv_def started_pool_def newThreadPool_def)

lemma take_section_inv:
  assumes "take_section p p'" and "tasks_inv m p" and "workers_inv n 1 p" and "wakeup_inv 1 0 p"
  shows "pool_inv m n p'"
  using assms
proof (induction rule: take_section.induct)
  case (task_notify p t q p')
  have "size (w_busy p') = size (w_busy p) + 1"
    using task_notify(3) by (auto simp: notify_producer.simps)
  with task_notify(3) task_notify(1,2,4-) show ?case
    by (auto simp: notify_producer.simps pool_inv_def tasks_inv_def workers_inv_def wakeup_inv_def
        size_Diff_singleton)
qed (auto simp: pool_inv_def tasks_inv_def workers_inv_def wakeup_inv_def)

lemma run_section_inv:
  assumes "tasks_inv m p" and "workers_inv n 0 p" and "wakeup_inv 0 1 p"
  shows "pool_inv m n (run_section t p)"
  using assms
  by (auto simp: run_section_def isFull_def notify_worker_def pool_inv_def tasks_inv_def workers_inv_def wakeup_inv_def)

lemma worker_step_inv:
  assumes "worker_step p p'" and "pool_inv m n p"
  shows "pool_inv m n p'"
  using assms
proof (induction rule: worker_step.induct)
  case (test_running p i)
  then show ?case by (auto simp: pool_inv_def tasks_inv_def workers_inv_def wakeup_inv_def)
next
  case (finish t p)
  then show ?case
    by (auto simp: pool_inv_def tasks_inv_def workers_inv_def wakeup_inv_def size_Diff_singleton
        dest!: multi_member_split)
next
  case (enter p i p')
  show ?case
    by (rule take_section_inv [OF enter(2)])
      (use enter in \<open>auto simp: pool_inv_def tasks_inv_def workers_inv_def wakeup_inv_def\<close>)
next
  case (reenter p i p')
  show ?case
    by (rule take_section_inv [OF reenter(2)])
      (use reenter in \<open>auto simp: pool_inv_def tasks_inv_def workers_inv_def wakeup_inv_def\<close>)
qed

lemma thread_step_inv:
  assumes "thread_step p p'" and "pool_inv m n p"
  shows "pool_inv m n p'"
  using assms
proof (induction rule: thread_step.induct)
  case (worker p p')
  then show ?case by (rule worker_step_inv)
next
  case (put t p)
  then show ?case
    by (intro run_section_inv) (auto simp: pool_inv_def tasks_inv_def workers_inv_def wakeup_inv_def)
next
  case (put_again t p)
  then show ?case
    by (intro run_section_inv)
      (auto simp: pool_inv_def tasks_inv_def workers_inv_def wakeup_inv_def dest!: multi_member_split)
qed

lemma pool_step_inv:
  assumes "pool_inv m n p" and "pool_step p p'"
  shows "pool_inv m n p'"
  using assms(2,1)
proof (induction rule: pool_step.induct)
  case (inside p p')
  then show ?case by (rule thread_step_inv)
next
  case (producer_spurious t p)
  then show ?case
    by (auto simp: pool_inv_def tasks_inv_def workers_inv_def wakeup_inv_def)
qed (auto simp: pool_inv_def tasks_inv_def workers_inv_def wakeup_inv_def stop_section_def notify_all_workers_def)

interpretation pool_sys: step_system pool_step "started_pool m n" "pool_inv m n" for m n
  by unfold_locales (rule pool_inv_started, rule pool_step_inv)

lemma notify_producer_total: "\<exists>p'. notify_producer p p'"
proof (cases "p_sleeping p = {#}")
  case True
  then show ?thesis by (intro exI) (rule notify_producer.nobody)
next
  case False
  then obtain t where "t \<in># p_sleeping p" by blast
  then show ?thesis by (intro exI) (rule notify_producer.somebody)
qed

lemma take_section_total: "\<exists>p'. take_section p p'"
proof (cases "tp_queue p")
  case Nil
  show ?thesis
    by (cases "tp_running p")
      (rule exI, erule take_section.sleep [OF Nil], rule exI, erule take_section.no_task [OF Nil])
next
  case (Cons t q)
  show ?thesis
  proof (cases "tp_maxQueueSize p = 0")
    case True
    show ?thesis by (rule exI, rule take_section.task [OF Cons True])
  next
    case False
    then obtain p' where "notify_producer
      (p\<lparr>tp_queue := q, tp_taken := tp_taken p @ [t], w_busy := add_mset t (w_busy p)\<rparr>) p'"
      using notify_producer_total by fastforce
    with False show ?thesis by (intro exI) (rule take_section.task_notify [OF Cons], simp_all)
  qed
qed

lemma thread_stuck:
  assumes "\<nexists>p'. thread_step p p'"
  shows "w_top p = 0 \<and> w_entering p = 0 \<and> w_woken p = 0 \<and> w_busy p = {#} \<and> p_entering p = {#} \<and> p_woken p = {#}"
proof -
  have no_worker: "\<not> worker_step p p'" for p'
    using assms thread_step.worker by blast
  note take = take_section_total
  have "w_top p = 0"
    using no_worker worker_step.test_running [of p] by (cases "w_top p") auto
  moreover have "w_entering p = 0"
    using no_worker worker_step.enter [of p] take [of "p\<lparr>w_entering := w_entering p - 1\<rparr>"]
    by (cases "w_entering p") auto
  moreover have "w_woken p = 0"
    using no_worker worker_step.reenter [of p] take [of "p\<lparr>w_woken := w_woken p - 1\<rparr>"]
    by (cases "w_woken p") auto
  moreover have "w_busy p = {#}"
    using no_worker worker_step.finish [of _ p] by (meson multiset_nonemptyE)
  moreover have "p_entering p = {#}"
    using assms thread_step.put [of _ p] by (meson multiset_nonemptyE)
  moreover have "p_woken p = {#}"
    using assms thread_step.put_again [of _ p] by (meson multiset_nonemptyE)
  ultimately show ?thesis by simp
qed

text \<open>
  C19. The queue of the pool: under every interleaving of workers, producers and \<^verbatim>\<open>stop\<close>, spurious
  wakeups included, tasks leave the queue in the order they entered it, none is lost or taken twice,
  the queue never exceeds its maximal size, and every task that was taken is running or done.
\<close>

theorem pool_queue:
  assumes "reaches pool_step (started_pool maxSize n) p"
  shows "tp_put p = tp_taken p @ tp_queue p \<and> (maxSize > 0 \<longrightarrow> length (tp_queue p) \<le> maxSize) \<and>
     mset (tp_taken p) = w_busy p + tp_done p"
  using pool_sys.inv_reaches [OF assms] by (simp add: pool_inv_def tasks_inv_def)

text \<open>
  C17. No wakeup is lost: when a running pool with threads has no thread left that could go on, it is
  not because somebody waits in vain. The queue is empty, no caller of \<^verbatim>\<open>run\<close> is blocked, every task
  that was handed in has run, and all workers wait for the next one.
\<close>

theorem pool_not_stuck:
  assumes "reaches pool_step (started_pool maxSize n) p" and "n > 0" and "tp_running p"
    and "\<nexists>p'. thread_step p p'"
  shows "tp_queue p = [] \<and> p_sleeping p = {#} \<and> tp_done p = mset (tp_put p) \<and> w_sleeping p = n"
proof -
  note stuck = thread_stuck [OF assms(4)]
  have inv: "tasks_inv maxSize p" "workers_inv n 0 p" "wakeup_inv 0 0 p"
    using pool_sys.inv_reaches [OF assms(1)] by (simp_all add: pool_inv_def)
  have "w_sleeping p = n" using inv(2) stuck assms(3) by (simp add: workers_inv_def)
  moreover have "tp_queue p = []"
    using inv(3) stuck calculation assms(2) by (simp add: wakeup_inv_def)
  moreover have "p_sleeping p = {#}"
    using inv(3) stuck calculation(2) by (auto simp: wakeup_inv_def)
  moreover have "tp_done p = mset (tp_put p)"
    using inv(1) stuck calculation(2) by (simp add: tasks_inv_def)
  ultimately show ?thesis by simp
qed

section \<open>Stopping\<close>

text \<open>Once \<^verbatim>\<open>running_\<close> is false every step of a thread inside the pool decreases this number.\<close>

definition stop_measure :: "'a tpool \<Rightarrow> nat" where
  "stop_measure p = 2 * (3 * (w_entering p + w_woken p) + 2 * size (w_busy p) + w_top p) +
     size (p_entering p) + size (p_woken p)"

lemma take_section_stopped:
  assumes "take_section p p'" and "\<not> tp_running p"
  shows "\<not> tp_running p' \<and> stop_measure p' \<le> stop_measure p + 5"
  using assms
  by (induction rule: take_section.induct) (auto simp: stop_measure_def notify_producer.simps)

lemma worker_step_stopped:
  assumes "worker_step p p'" and "\<not> tp_running p"
  shows "\<not> tp_running p' \<and> stop_measure p' < stop_measure p"
  using assms
proof (induction rule: worker_step.induct)
  case (enter p i p')
  from take_section_stopped [OF enter(2)] enter(1,3) show ?case by (simp add: stop_measure_def)
next
  case (reenter p i p')
  from take_section_stopped [OF reenter(2)] reenter(1,3) show ?case by (simp add: stop_measure_def)
qed (auto simp: stop_measure_def dest!: multi_member_split)

lemma thread_step_stopped:
  assumes "thread_step p p'" and "pool_inv m n p" and "\<not> tp_running p"
  shows "\<not> tp_running p' \<and> stop_measure p' < stop_measure p"
  using assms
proof (induction rule: thread_step.induct)
  case (worker p p')
  then show ?case by (simp add: worker_step_stopped)
qed (auto simp: run_section_def notify_worker_def pool_inv_def workers_inv_def stop_measure_def
    dest!: multi_member_split)

interpretation stopped: ranked_steps thread_step "\<lambda>p. pool_inv m n p \<and> \<not> tp_running p" stop_measure for m n
  by unfold_locales (auto dest: thread_step_inv thread_step_stopped)

text \<open>
  C18. \<^verbatim>\<open>stop\<close> comes to an end: after it, the threads inside the pool can take only boundedly many
  steps, however they are scheduled, and when no step is left all \<open>n\<close> workers have left
  \<^verbatim>\<open>runInThread\<close>, so that every \<^verbatim>\<open>join\<close> returns.
\<close>

theorem stop_terminates:
  assumes "reaches pool_step (started_pool maxSize n) p" and "\<not> tp_running p" and "(thread_step ^^ k) p p'"
  shows "k \<le> stop_measure p \<and> ((\<nexists>p''. thread_step p' p'') \<longrightarrow> w_exited p' = n)"
proof -
  have "pool_inv maxSize n p \<and> \<not> tp_running p" using pool_sys.inv_reaches [OF assms(1)] assms(2) by simp
  note fin = stopped.bounded [OF assms(3) this]
  have "w_exited p' = n" if "\<nexists>p''. thread_step p' p''"
    using fin thread_stuck [OF that] by (auto simp: pool_inv_def workers_inv_def)
  with fin show ?thesis by simp
qed

section \<open>Runs of a small pool\<close>

text \<open>
  A pool with one worker and room for one task. Task 1 runs while task 2 is queued, so the call with
  task 3 blocks; then \<^verbatim>\<open>stop\<close> is called and the worker leaves.
\<close>

definition blocked_pool :: "nat tpool" where
  "blocked_pool = \<lparr>tp_queue = [2], tp_maxQueueSize = 1, tp_running = True, w_top = 0, w_entering = 0,
     w_sleeping = 0, w_woken = 0, w_busy = {#1#}, w_exited = 0, p_entering = {#}, p_sleeping = {#3#},
     p_woken = {#}, tp_put = [1, 2], tp_taken = [1], tp_done = {#}\<rparr>"

definition stopped_pool :: "nat tpool" where
  "stopped_pool = blocked_pool\<lparr>tp_running := False\<rparr>"

definition abandoned_pool :: "nat tpool" where
  "abandoned_pool = stopped_pool\<lparr>w_busy := {#}, w_exited := 1, tp_done := {#1#}\<rparr>"

definition idle_pool :: "nat tpool" where
  "idle_pool = (started_pool 1 1)\<lparr>w_top := 0, w_sleeping := 1\<rparr>"

lemma idle_pool_reachable: "reaches pool_step (started_pool 1 1) idle_pool"
proof -
  have "reaches pool_step (started_pool 1 1) ((started_pool 1 1)\<lparr>w_top := 0, w_entering := 1\<rparr>)" (is "reaches pool_step _ ?p1")
    by (rule reaches_next [OF reaches_start], rule pool_step.inside, rule thread_step.worker, rule worker_step.test_running)
      (simp_all add: started_pool_def newThreadPool_def)
  moreover have "pool_step ?p1 idle_pool"
    by (rule pool_step.inside, rule thread_step.worker, rule worker_step.enter [of _ 0])
      (simp_all add: take_section.simps idle_pool_def started_pool_def newThreadPool_def)
  ultimately show ?thesis by (rule reaches_step)
qed

lemma run_reachable:
  assumes "reaches pool_step s0 p" and "p_entering p = {#}" and "run_section t p = p'" and "pool_threads p > 0"
  shows "reaches pool_step s0 p'"
proof -
  let ?q = "p\<lparr>p_entering := add_mset t (p_entering p)\<rparr>"
  have "reaches pool_step s0 ?q" using assms(1) pool_step.call [OF assms(4)] by (rule reaches_step)
  moreover have "pool_step ?q (run_section t (?q\<lparr>p_entering := p_entering ?q - {#t#}\<rparr>))"
    by (rule pool_step.inside, rule thread_step.put) simp
  moreover have "?q\<lparr>p_entering := p_entering ?q - {#t#}\<rparr> = p"
    using assms(2) by (cases p) simp
  ultimately show ?thesis using assms(3) reaches_step by metis
qed

lemma blocked_pool_reachable: "reaches pool_step (started_pool 1 1) blocked_pool"
proof -
  let ?p1 = "idle_pool\<lparr>w_sleeping := 0, w_woken := 1, tp_queue := [1], tp_put := [1]\<rparr>"
  let ?p2 = "?p1\<lparr>w_woken := 0, tp_queue := [], tp_taken := [1], w_busy := {#1#}\<rparr>"
  have "reaches pool_step (started_pool 1 1) ?p1"
    by (rule run_reachable [OF idle_pool_reachable, where t = 1])
      (simp_all add: pool_threads_def run_section_def isFull_def notify_worker_def idle_pool_def started_pool_def newThreadPool_def)
  moreover have "pool_step ?p1 ?p2"
    by (rule pool_step.inside, rule thread_step.worker, rule worker_step.reenter [of _ 0], simp,
        rule take_section.task_notify)
      (simp_all add: notify_producer.simps idle_pool_def started_pool_def newThreadPool_def)
  ultimately have "reaches pool_step (started_pool 1 1) ?p2" by (rule reaches_step)
  then have "reaches pool_step (started_pool 1 1) (?p2\<lparr>tp_queue := [2], tp_put := [1, 2]\<rparr>)"
    by (rule run_reachable [where t = 2])
      (simp_all add: pool_threads_def run_section_def isFull_def notify_worker_def idle_pool_def started_pool_def newThreadPool_def)
  then show ?thesis
    by (rule run_reachable [where t = 3])
      (simp_all add: pool_threads_def run_section_def isFull_def idle_pool_def started_pool_def newThreadPool_def blocked_pool_def)
qed

lemma stopped_pool_reachable: "reaches pool_step (started_pool 1 1) stopped_pool"
  by (rule reaches_next [OF blocked_pool_reachable pool_step.stop])
    (simp add: stop_section_def notify_all_workers_def stopped_pool_def blocked_pool_def)

lemma stopped_pool_ends: "(thread_step ^^ 2) stopped_pool abandoned_pool"
proof -
  have "thread_step stopped_pool (stopped_pool\<lparr>w_busy := w_busy stopped_pool - {#1#},
      w_top := w_top stopped_pool + 1, tp_done := add_mset 1 (tp_done stopped_pool)\<rparr>)"
    (is "thread_step _ ?p")
    by (rule thread_step.worker, rule worker_step.finish) (simp add: stopped_pool_def blocked_pool_def)
  moreover have "thread_step ?p (if tp_running ?p then ?p\<lparr>w_top := 0, w_entering := w_entering ?p + 1\<rparr>
                   else ?p\<lparr>w_top := 0, w_exited := w_exited ?p + 1\<rparr>)"
    by (rule thread_step.worker, rule worker_step.test_running)
      (simp add: stopped_pool_def blocked_pool_def)
  ultimately show ?thesis
    by (auto simp: numeral_2_eq_2 abandoned_pool_def stopped_pool_def blocked_pool_def)
qed

lemma abandoned_pool_stuck: "\<not> thread_step abandoned_pool p'"
  by (auto simp: thread_step.simps worker_step.simps abandoned_pool_def stopped_pool_def blocked_pool_def)

lemma idle_pool_stuck: "\<not> thread_step idle_pool p'"
  by (auto simp: thread_step.simps worker_step.simps idle_pool_def started_pool_def newThreadPool_def)

theorem pool_queue_witness:
  "reaches pool_step (started_pool 1 1) blocked_pool \<and>
   tp_put blocked_pool = tp_taken blocked_pool @ tp_queue blocked_pool \<and> length (tp_queue blocked_pool) \<le> 1"
  using pool_queue [OF blocked_pool_reachable] blocked_pool_reachable by simp

theorem pool_not_stuck_witness:
  "reaches pool_step (started_pool 1 1) idle_pool \<and> tp_running idle_pool \<and> w_sleeping idle_pool = 1"
  using pool_not_stuck [OF idle_pool_reachable _ _] idle_pool_reachable idle_pool_stuck
  by (simp add: idle_pool_def started_pool_def newThreadPool_def)

theorem stop_terminates_witness:
  "reaches pool_step (started_pool 1 1) stopped_pool \<and> (thread_step ^^ 2) stopped_pool abandoned_pool \<and>
   w_exited abandoned_pool = 1"
  using stop_terminates [OF stopped_pool_reachable _ stopped_pool_ends] stopped_pool_reachable
    stopped_pool_ends abandoned_pool_stuck
  by (simp add: stopped_pool_def)

text \<open>
  \<^verbatim>\<open>stop\<close> leaves behind who is blocked in \<^verbatim>\<open>run\<close> and what is queued: it notifies \<^verbatim>\<open>notEmpty_\<close> only.
  There is a run in which all workers have left and no thread can go on, while a caller still
  waits on \<^verbatim>\<open>notFull_\<close> and a task that was accepted never runs; a spurious wakeup of that caller
  only makes it wait again.
\<close>

theorem stop_abandons_producer:
  "\<exists>p :: nat tpool. reaches pool_step (started_pool 1 1) p \<and> \<not> tp_running p \<and> w_exited p = 1 \<and>
     p_sleeping p = {#3#} \<and> 2 \<in> set (tp_queue p) \<and> (\<forall>p'. \<not> thread_step p p') \<and> run_section 3 (p\<lparr>p_sleeping := {#}\<rparr>) = p"
proof -
  have "reaches pool_step (started_pool 1 1) q" if "(thread_step ^^ k) stopped_pool q" for k q
    using that
  proof (induction k arbitrary: q)
    case 0
    then show ?case using stopped_pool_reachable by simp
  next
    case (Suc k)
    then show ?case using pool_step.inside reaches_step by (metis relpowp_Suc_E)
  qed
  note this [OF stopped_pool_ends]
  moreover have "run_section 3 (abandoned_pool\<lparr>p_sleeping := {#}\<rparr>) = abandoned_pool"
    by (simp add: run_section_def isFull_def abandoned_pool_def stopped_pool_def blocked_pool_def)
  ultimately show ?thesis
    using abandoned_pool_stuck
    by (intro exI [of _ abandoned_pool]) (simp add: abandoned_pool_def stopped_pool_def blocked_pool_def)
qed

end
