(* ===== verification/Kaycc_Mutex.thy ===== *)
theory Kaycc_Mutex
  imports Kaycc_Timestamp
begin

text \<open>
  MutexLock, MutexLockGuard and Condition (base/mutex.h, base/condition.h, .cpp) and CountDownLatch
  (base/count_down_latch.h, .cpp). The pthread mutex is its owner; a thread that waits for it simply
  cannot step. Between the pthread calls the library keeps the thread id of the holder in
  \<^verbatim>\<open>holder_\<close>, without which \<^verbatim>\<open>isLockedByThisThread\<close> could not be answered; the steps are fine enough
  to show every state in which the two can differ.
\<close>

section \<open>MutexLock and Condition\<close>

record mutexLock =
  mx_owner :: "int option"
  mx_holder :: int

definition newMutexLock :: mutexLock where
  "newMutexLock = \<lparr>mx_owner = None, mx_holder = 0\<rparr>"

definition destroyMutexLock :: "mutexLock \<Rightarrow> unit res" where
  "destroyMutexLock m = check (mx_holder m = 0) ''mutex.h:57'' (Inr ())"

definition isLockedByThisThread :: "int \<Rightarrow> mutexLock \<Rightarrow> bool" where
  "isLockedByThisThread tid m \<longleftrightarrow> mx_holder m = tid"

definition assertLockByThisThread :: "int \<Rightarrow> mutexLock \<Rightarrow> unit res" where
  "assertLockByThisThread tid m = check (isLockedByThisThread tid m) ''mutex.h:66'' (Inr ())"

definition assignHolder :: "int \<Rightarrow> mutexLock \<Rightarrow> mutexLock" where
  "assignHolder tid m = m\<lparr>mx_holder := tid\<rparr>"

definition unassignHolder :: "mutexLock \<Rightarrow> mutexLock" where
  "unassignHolder m = m\<lparr>mx_holder := 0\<rparr>"

text \<open>\<^verbatim>\<open>pthread_mutex_lock\<close> returns only when the mutex is free; unlocking needs its owner.\<close>

definition pthread_lock :: "int \<Rightarrow> mutexLock \<Rightarrow> mutexLock option" where
  "pthread_lock tid m = (if mx_owner m = None then Some (m\<lparr>mx_owner := Some tid\<rparr>) else None)"

definition pthread_unlock :: "int \<Rightarrow> mutexLock \<Rightarrow> mutexLock option" where
  "pthread_unlock tid m = (if mx_owner m = Some tid then Some (m\<lparr>mx_owner := None\<rparr>) else None)"

text \<open>Where a thread is: in \<^verbatim>\<open>lock()\<close>, between \<^verbatim>\<open>lock()\<close> and \<^verbatim>\<open>unlock()\<close>, in \<^verbatim>\<open>unlock()\<close>, in \<^verbatim>\<open>Condition::wait()\<close>.\<close>

datatype mpc = Outside | LockTaken | Inside | Unassigned | WaitUnassigned | WaitBlocked | WaitReturned

record msys =
  ms_lock :: mutexLock
  ms_pc :: "int \<Rightarrow> mpc"

definition at_pc :: "int \<Rightarrow> mpc \<Rightarrow> mutexLock \<Rightarrow> msys \<Rightarrow> msys" where
  "at_pc tid pc m s = s\<lparr>ms_lock := m, ms_pc := (ms_pc s)(tid := pc)\<rparr>"

text \<open>
  One step of thread \<open>tid\<close>. In \<^verbatim>\<open>lock()\<close>: \<^verbatim>\<open>pthread_mutex_lock\<close>, then \<^verbatim>\<open>assignHolder\<close>. In \<^verbatim>\<open>unlock()\<close>:
  \<^verbatim>\<open>unassignHolder\<close>, then \<^verbatim>\<open>pthread_mutex_unlock\<close>. In \<^verbatim>\<open>wait()\<close>: the constructor of \<^verbatim>\<open>UnassignGuard\<close>,
  the unlocking and the relocking inside \<^verbatim>\<open>pthread_cond_wait\<close>, the destructor of \<^verbatim>\<open>UnassignGuard\<close>.
\<close>

inductive mutex_step :: "int \<Rightarrow> msys \<Rightarrow> msys \<Rightarrow> bool" where
  take: "ms_pc s tid = Outside \<Longrightarrow> pthread_lock tid (ms_lock s) = Some m \<Longrightarrow>
    mutex_step tid s (at_pc tid LockTaken m s)"
| assign: "ms_pc s tid = LockTaken \<Longrightarrow>
    mutex_step tid s (at_pc tid Inside (assignHolder tid (ms_lock s)) s)"
| unassign: "ms_pc s tid = Inside \<Longrightarrow>
    mutex_step tid s (at_pc tid Unassigned (unassignHolder (ms_lock s)) s)"
| release: "ms_pc s tid = Unassigned \<Longrightarrow> pthread_unlock tid (ms_lock s) = Some m \<Longrightarrow>
    mutex_step tid s (at_pc tid Outside m s)"
| wait: "ms_pc s tid = Inside \<Longrightarrow>
    mutex_step tid s (at_pc tid WaitUnassigned (unassignHolder (ms_lock s)) s)"
| wait_unlock: "ms_pc s tid = WaitUnassigned \<Longrightarrow> pthread_unlock tid (ms_lock s) = Some m \<Longrightarrow>
    mutex_step tid s (at_pc tid WaitBlocked m s)"
| wait_relock: "ms_pc s tid = WaitBlocked \<Longrightarrow> pthread_lock tid (ms_lock s) = Some m \<Longrightarrow>
    mutex_step tid s (at_pc tid WaitReturned m s)"
| wait_assign: "ms_pc s tid = WaitReturned \<Longrightarrow>
    mutex_step tid s (at_pc tid Inside (assignHolder tid (ms_lock s)) s)"

definition mutex_start :: msys where
  "mutex_start = \<lparr>ms_lock = newMutexLock, ms_pc = (\<lambda>_. Outside)\<rparr>"

text \<open>Thread ids are positive.\<close>

definition any_mutex_step :: "msys \<Rightarrow> msys \<Rightarrow> bool" where
  "any_mutex_step s s' \<longleftrightarrow> (\<exists>tid > 0. mutex_step tid s s')"

definition owns :: "mpc \<Rightarrow> bool" where
  "owns pc \<longleftrightarrow> pc \<in> {LockTaken, Inside, Unassigned, WaitUnassigned, WaitReturned}"

definition mutex_inv :: "msys \<Rightarrow> bool" where
  "mutex_inv s \<longleftrightarrow>
     (case mx_owner (ms_lock s) of
        None \<Rightarrow> (\<forall>t. \<not> owns (ms_pc s t)) \<and> mx_holder (ms_lock s) = 0
      | Some t \<Rightarrow> 0 < t \<and> owns (ms_pc s t) \<and> (\<forall>u. u \<noteq> t \<longrightarrow> \<not> owns (ms_pc s u)) \<and>
          mx_holder (ms_lock s) = (if ms_pc s t = Inside then t else 0))"

lemma owns_simps [simp]:
  "owns LockTaken" "owns Inside" "owns Unassigned" "owns WaitUnassigned" "owns WaitReturned"
  "\<not> owns Outside" "\<not> owns WaitBlocked"
  by (simp_all add: owns_def)

lemma mutex_inv_owner:
  assumes "mutex_inv s" and "owns (ms_pc s t)"
  shows "mx_owner (ms_lock s) = Some t \<and> 0 < t \<and> (\<forall>u. u \<noteq> t \<longrightarrow> \<not> owns (ms_pc s u)) \<and>
    mx_holder (ms_lock s) = (if ms_pc s t = Inside then t else 0)"
proof (cases "mx_owner (ms_lock s)")
  case None
  with assms show ?thesis by (simp add: mutex_inv_def)
next
  case (Some a)
  with assms have "a = t" unfolding mutex_inv_def by fastforce
  with Some assms(1) show ?thesis by (simp add: mutex_inv_def)
qed

lemma mutex_step_inv:
  assumes "mutex_step tid s s'" and "0 < tid" and "mutex_inv s"
  shows "mutex_inv s'"
  using assms(1)
proof cases
  case (take m)
  then show ?thesis using assms(2,3)
    by (simp add: mutex_inv_def at_pc_def pthread_lock_def split: if_splits) auto
next
  case (wait_relock m)
  then show ?thesis using assms(2,3)
    by (simp add: mutex_inv_def at_pc_def pthread_lock_def split: if_splits) auto
qed (use mutex_inv_owner [OF assms(3), of tid] in
    \<open>auto simp: mutex_inv_def at_pc_def assignHolder_def unassignHolder_def pthread_unlock_def\<close>)

interpretation mutex_sys: step_system any_mutex_step mutex_start mutex_inv
  by unfold_locales
    (simp add: mutex_inv_def mutex_start_def newMutexLock_def, auto simp: any_mutex_step_def dest: mutex_step_inv)

text \<open>
  C29. The holder is right wherever it is asked for: under every interleaving, a thread whose
  \<^verbatim>\<open>lock()\<close> or \<^verbatim>\<open>wait()\<close> has returned and that has not begun to unlock or wait passes
  \<^verbatim>\<open>assertLockByThisThread\<close>, and a thread that passes it is such a thread, owns the pthread mutex and is
  the only one that does; and when all threads are outside, destroying the lock passes its assertion.
\<close>

theorem mutex_holder:
  assumes "reaches any_mutex_step mutex_start s" and "0 < t"
  shows "(assertLockByThisThread t (ms_lock s) = Inr () \<longleftrightarrow> ms_pc s t = Inside) \<and>
    (ms_pc s t = Inside \<longrightarrow> mx_owner (ms_lock s) = Some t \<and> (\<forall>u. u \<noteq> t \<longrightarrow> \<not> owns (ms_pc s u))) \<and>
    ((\<forall>u. ms_pc s u = Outside) \<longrightarrow> destroyMutexLock (ms_lock s) = Inr ())"
proof -
  note inv = mutex_sys.inv_reaches [OF assms(1)]
  have "ms_pc s t = Inside" if "mx_holder (ms_lock s) = t"
    using inv assms(2) that by (simp add: mutex_inv_def split: option.splits if_splits)
  moreover have "mx_holder (ms_lock s) = t" if "ms_pc s t = Inside"
    using mutex_inv_owner [OF inv, of t] that by simp
  ultimately have holder: "mx_holder (ms_lock s) = t \<longleftrightarrow> ms_pc s t = Inside" by blast
  have "mx_holder (ms_lock s) = 0" if "\<forall>u. ms_pc s u = Outside"
    using inv that by (auto simp: mutex_inv_def split: option.splits)
  moreover have "mx_owner (ms_lock s) = Some t \<and> (\<forall>u. u \<noteq> t \<longrightarrow> \<not> owns (ms_pc s u))" if "ms_pc s t = Inside"
    using mutex_inv_owner [OF inv, of t] that by simp
  ultimately show ?thesis
    using holder
    unfolding assertLockByThisThread_def isLockedByThisThread_def destroyMutexLock_def check_Inr_iff by blast
qed

lemma mutex_run_one:
  "reaches any_mutex_step mutex_start (at_pc 7 Inside \<lparr>mx_owner = Some 7, mx_holder = 7\<rparr> mutex_start)"
proof -
  let ?s = "at_pc 7 LockTaken \<lparr>mx_owner = Some 7, mx_holder = 0\<rparr> mutex_start"
  have "mutex_step 7 mutex_start ?s"
    by (rule mutex_step.take) (simp_all add: mutex_start_def newMutexLock_def pthread_lock_def)
  then have "any_mutex_step mutex_start ?s" by (auto simp: any_mutex_step_def intro: exI [of _ 7])
  with reaches_start have "reaches any_mutex_step mutex_start ?s" by (rule reaches_step)
  moreover have "mutex_step 7 ?s (at_pc 7 Inside (assignHolder 7 (ms_lock ?s)) ?s)"
    by (rule mutex_step.assign) (simp add: at_pc_def)
  then have "any_mutex_step ?s (at_pc 7 Inside (assignHolder 7 (ms_lock ?s)) ?s)"
    by (auto simp: any_mutex_step_def intro: exI [of _ 7])
  ultimately show ?thesis by (rule reaches_next) (simp add: at_pc_def assignHolder_def)
qed

theorem mutex_holder_witness:
  "assertLockByThisThread 7 (ms_lock (at_pc 7 Inside \<lparr>mx_owner = Some 7, mx_holder = 7\<rparr> mutex_start)) = Inr ()"
  using mutex_holder [OF mutex_run_one, of 7] by (simp add: at_pc_def)

section \<open>Timed waiting\<close>

text \<open>
  The deadline of \<^verbatim>\<open>Condition::waitForSeconds\<close>: \<^verbatim>\<open>clock_gettime\<close> gave the first argument, \<^verbatim>\<open>seconds\<close> is a
  \<^verbatim>\<open>double\<close>. Converting a product beyond \<^verbatim>\<open>int64_t\<close> and an overflowing sum are undefined.
\<close>

definition kNanoSecondsPerSecond :: int where
  "kNanoSecondsPerSecond = 1000000000"

definition wait_nanoseconds :: "rat \<Rightarrow> int res" where
  "wait_nanoseconds seconds = i64 (double_to_int (to_double (seconds * of_int kNanoSecondsPerSecond)))"

definition wait_deadline :: "int \<times> int \<Rightarrow> rat \<Rightarrow> (int \<times> int) res" where
  "wait_deadline now seconds =
     (case now of (tv_sec, tv_nsec) \<Rightarrow>
        andThen (wait_nanoseconds seconds) (\<lambda>nanoseconds.
        andThen (i64 (tv_nsec + nanoseconds)) (\<lambda>total.
        andThen (i64 (tv_sec + total sdiv kNanoSecondsPerSecond)) (\<lambda>sec.
        Inr (sec, total smod kNanoSecondsPerSecond)))))"

text \<open>\<^verbatim>\<open>sleepUsec\<close> of base/thread.cpp: the interval given to \<^verbatim>\<open>nanosleep\<close>.\<close>

definition sleepUsec :: "int \<Rightarrow> int \<times> int" where
  "sleepUsec usec = (usec sdiv kMicroSecondsPerSecond, usec smod kMicroSecondsPerSecond * 1000)"

lemma sdiv_smod_nonneg:
  fixes a b :: int
  assumes "0 \<le> a" and "0 < b"
  shows "a sdiv b = a div b" and "a smod b = a mod b"
  using assms by (simp_all add: signed_divide_int_def signed_modulo_int_def sgn_if)

text \<open>
  The deadline of a timed wait is the current time plus the wait, to the nanosecond, and it is a
  \<^verbatim>\<open>timespec\<close> that \<^verbatim>\<open>pthread_cond_timedwait\<close> accepts, for every wait that is not negative and up to
  some 146 years, from any time of day this century.
\<close>

theorem wait_deadline_exact:
  assumes "wait_nanoseconds seconds = Inr ns" and "0 \<le> ns" and "ns < 2 ^ 62"
    and "0 \<le> nsec" and "nsec < kNanoSecondsPerSecond" and "0 \<le> sec" and "sec < 2 ^ 32"
  shows "\<exists>sec' nsec'. wait_deadline (sec, nsec) seconds = Inr (sec', nsec') \<and>
    sec' * kNanoSecondsPerSecond + nsec' = sec * kNanoSecondsPerSecond + nsec + ns \<and>
    0 \<le> nsec' \<and> nsec' < kNanoSecondsPerSecond"
proof -
  have pos: "0 < kNanoSecondsPerSecond" by (simp add: kNanoSecondsPerSecond_def)
  have total: "0 \<le> nsec + ns" "int64 (nsec + ns)"
    using assms by (auto simp: int64_def kNanoSecondsPerSecond_def)
  have "(nsec + ns) div kNanoSecondsPerSecond \<le> nsec + ns"
    using total(1) by (simp add: kNanoSecondsPerSecond_def)
  then have "int64 (sec + (nsec + ns) div kNanoSecondsPerSecond)"
    using assms total(1) pos pos_imp_zdiv_nonneg_iff [OF pos, of "nsec + ns"]
    by (auto simp: int64_def kNanoSecondsPerSecond_def)
  with total assms(1) pos have "wait_deadline (sec, nsec) seconds =
      Inr (sec + (nsec + ns) div kNanoSecondsPerSecond, (nsec + ns) mod kNanoSecondsPerSecond)"
    by (simp add: wait_deadline_def sdiv_smod_nonneg)
  moreover have "(sec + (nsec + ns) div kNanoSecondsPerSecond) * kNanoSecondsPerSecond +
      (nsec + ns) mod kNanoSecondsPerSecond = sec * kNanoSecondsPerSecond + nsec + ns"
    using div_mult_mod_eq [of "nsec + ns" kNanoSecondsPerSecond] by (simp add: distrib_right)
  ultimately show ?thesis using pos by simp
qed

theorem wait_deadline_exact_witness:
  "\<exists>sec' nsec'. wait_deadline (1500000000, 999999999) 5 = Inr (sec', nsec') \<and>
     sec' * kNanoSecondsPerSecond + nsec' = 1500000005999999999"
proof -
  have "to_double (of_int 5000000000) = of_int 5000000000" by (rule to_double_int) simp_all
  then have "wait_nanoseconds 5 = Inr 5000000000"
    by (simp add: wait_nanoseconds_def kNanoSecondsPerSecond_def double_to_int_def int64_def i64_def)
  from wait_deadline_exact [OF this, of 999999999 1500000000] show ?thesis
    by (auto simp: kNanoSecondsPerSecond_def)
qed

section \<open>CountDownLatch\<close>

text \<open>
  As in the thread pool, a step is a critical section and the waiting threads are counted: about to lock
  in \<^verbatim>\<open>wait()\<close>, blocked on \<^verbatim>\<open>condition_\<close>, woken, returned.
\<close>

record latch =
  la_count :: int
  la_entering :: nat
  la_sleeping :: nat
  la_woken :: nat
  la_passed :: nat

definition newCountDownLatch :: "int \<Rightarrow> latch" where
  "newCountDownLatch count =
     \<lparr>la_count = count, la_entering = 0, la_sleeping = 0, la_woken = 0, la_passed = 0\<rparr>"

text \<open>The loop of \<^verbatim>\<open>wait()\<close> from a point where the lock was just taken.\<close>

definition wait_section :: "latch \<Rightarrow> latch" where
  "wait_section l = (if la_count l > 0 then l\<lparr>la_sleeping := la_sleeping l + 1\<rparr>
                     else l\<lparr>la_passed := la_passed l + 1\<rparr>)"

definition countDown :: "latch \<Rightarrow> latch res" where
  "countDown l =
     (if la_count l = - (2 ^ 31) then Inl (Undefined ''count_down_latch.cpp:20: int overflow'')
      else let l1 = l\<lparr>la_count := la_count l - 1\<rparr>
           in Inr (if la_count l1 = 0 then l1\<lparr>la_sleeping := 0, la_woken := la_woken l1 + la_sleeping l1\<rparr> else l1))"

definition getCount :: "latch \<Rightarrow> int" where
  "getCount l = la_count l"

inductive wait_step :: "latch \<Rightarrow> latch \<Rightarrow> bool" where
  enter: "la_entering l = Suc n \<Longrightarrow> wait_step l (wait_section (l\<lparr>la_entering := n\<rparr>))"
| reenter: "la_woken l = Suc n \<Longrightarrow> wait_step l (wait_section (l\<lparr>la_woken := n\<rparr>))"

inductive latch_step :: "latch \<Rightarrow> latch \<Rightarrow> bool" where
  call: "latch_step l (l\<lparr>la_entering := la_entering l + 1\<rparr>)"
| waiter: "wait_step l l' \<Longrightarrow> latch_step l l'"
| spurious: "la_sleeping l = Suc n \<Longrightarrow> latch_step l (l\<lparr>la_sleeping := n, la_woken := la_woken l + 1\<rparr>)"
| down: "countDown l = Inr l' \<Longrightarrow> latch_step l l'"

definition latch_inv :: "latch \<Rightarrow> bool" where
  "latch_inv l \<longleftrightarrow> (la_count l > 0 \<longrightarrow> la_passed l = 0) \<and> (la_count l \<le> 0 \<longrightarrow> la_sleeping l = 0)"

lemma wait_step_inv:
  assumes "wait_step l l'" and "latch_inv l"
  shows "latch_inv l' \<and> la_count l' = la_count l"
  using assms by (induction rule: wait_step.induct) (auto simp: latch_inv_def wait_section_def)

lemma countDown_inv: "countDown l = Inr l' \<Longrightarrow> latch_inv l \<Longrightarrow> latch_inv l'"
  by (auto simp: countDown_def latch_inv_def Let_def split: if_splits)

lemma latch_step_inv:
  assumes "latch_step l l'" and "latch_inv l"
  shows "latch_inv l'"
  using assms
proof (induction rule: latch_step.induct)
  case (down l l')
  then show ?case by (rule countDown_inv)
qed (auto simp: wait_step_inv, auto simp: latch_inv_def)

interpretation latch_sys: step_system latch_step "newCountDownLatch n" latch_inv for n
  by unfold_locales (simp add: latch_inv_def newCountDownLatch_def, rule latch_step_inv)

lemma wait_stuck:
  assumes "\<nexists>l'. wait_step l l'"
  shows "la_entering l = 0 \<and> la_woken l = 0"
  using assms wait_step.enter [of l] wait_step.reenter [of l]
  by (metis not0_implies_Suc)

text \<open>
  C30. The latch is a barrier: nobody returns from \<^verbatim>\<open>wait()\<close> before the count is down to zero, and once
  it is nobody is left behind: when no waiter can go on, none is blocked or still on its way.
\<close>

theorem latch_barrier:
  assumes "reaches latch_step (newCountDownLatch n) l"
  shows "(la_passed l > 0 \<longrightarrow> getCount l \<le> 0) \<and>
    (getCount l \<le> 0 \<and> (\<nexists>l'. wait_step l l') \<longrightarrow> la_entering l = 0 \<and> la_sleeping l = 0 \<and> la_woken l = 0)"
proof -
  have "latch_inv l" using assms by (rule latch_sys.inv_reaches)
  with wait_stuck [of l] show ?thesis by (auto simp: latch_inv_def getCount_def)
qed

lemma latch_opened: "reaches latch_step (newCountDownLatch 1) ((newCountDownLatch 0)\<lparr>la_passed := 1\<rparr>)"
proof -
  let ?l1 = "(newCountDownLatch 1)\<lparr>la_entering := 1\<rparr>" and ?l2 = "(newCountDownLatch 0)\<lparr>la_entering := 1\<rparr>"
  have "latch_step (newCountDownLatch 1) ?l1"
    using latch_step.call [of "newCountDownLatch 1"] by (simp add: newCountDownLatch_def)
  moreover have "latch_step ?l1 ?l2"
    by (rule latch_step.down) (simp add: countDown_def newCountDownLatch_def)
  moreover have "latch_step ?l2 ((newCountDownLatch 0)\<lparr>la_passed := 1\<rparr>)"
    using latch_step.waiter [OF wait_step.enter [of ?l2 0]] by (simp add: newCountDownLatch_def wait_section_def)
  ultimately show ?thesis using reaches.intros by meson
qed

theorem latch_barrier_witness:
  "la_passed ((newCountDownLatch 0)\<lparr>la_passed := 1\<rparr>) > 0 \<and> getCount ((newCountDownLatch 0)\<lparr>la_passed := 1\<rparr>) \<le> 0"
  using latch_barrier [OF latch_opened] by simp

end
