(* ===== verification/Kaycc_Thread.thy ===== *)
theory Kaycc_Thread
  imports Kaycc_Mutex
begin

text \<open>
  Thread and the thread-local data of base/current\_thread.h (base/thread.h, .cpp): creation and default
  names, \<^verbatim>\<open>start()\<close> with its handshake over a CountDownLatch, \<^verbatim>\<open>join()\<close>, the destructor, the start
  routine of the new thread and the cached thread id.
\<close>

section \<open>Thread-local data\<close>

record thread_local =
  t_cachedTid :: int
  t_tidString :: string
  t_tidStringLength :: nat
  t_threadName :: string

text \<open>\<^verbatim>\<open>%5d\<close> of a thread id, which is positive.\<close>

definition fmt_5d :: "int \<Rightarrow> string" where
  "fmt_5d x = replicate (5 - length (fmt_d x)) (CHR '' '') @ fmt_d x"

definition cacheTid :: "int \<Rightarrow> thread_local \<Rightarrow> thread_local" where
  "cacheTid gettid loc =
     (if t_cachedTid loc = 0 then
        loc\<lparr>t_cachedTid := gettid, t_tidString := take 31 (fmt_5d gettid), t_tidStringLength := length (fmt_5d gettid)\<rparr>
      else loc)"

definition tid :: "int \<Rightarrow> thread_local \<Rightarrow> int \<times> thread_local" where
  "tid gettid loc =
     (let loc' = (if t_cachedTid loc = 0 then cacheTid gettid loc else loc) in (t_cachedTid loc', loc'))"

definition isMainThread :: "int \<Rightarrow> int \<Rightarrow> thread_local \<Rightarrow> bool" where
  "isMainThread getpid gettid loc \<longleftrightarrow> fst (tid gettid loc) = getpid"

definition afterFork :: "int \<Rightarrow> thread_local \<Rightarrow> thread_local" where
  "afterFork gettid loc = snd (tid gettid (loc\<lparr>t_cachedTid := 0, t_threadName := ''main''\<rparr>))"

text \<open>The constructor of \<^verbatim>\<open>ThreadNameInitializer\<close>, run in the main thread before \<^verbatim>\<open>main\<close>.\<close>

definition threadNameInitializer :: "int \<Rightarrow> thread_local \<Rightarrow> thread_local" where
  "threadNameInitializer gettid loc = snd (tid gettid (loc\<lparr>t_threadName := ''main''\<rparr>))"

text \<open>In the main thread of a process, and of a child after \<^verbatim>\<open>fork\<close>, the cached id is the id the kernel gives.\<close>

lemma main_thread_id:
  assumes "0 < pid" and "t_cachedTid loc = 0"
  shows "isMainThread pid pid (threadNameInitializer pid loc)"
    and "0 < child \<Longrightarrow> isMainThread child child (afterFork child (threadNameInitializer pid loc))"
  using assms by (simp_all add: isMainThread_def threadNameInitializer_def afterFork_def tid_def cacheTid_def Let_def)

section \<open>Thread\<close>

text \<open>\<^verbatim>\<open>th_detached\<close> records the call of \<^verbatim>\<open>pthread_detach\<close>, \<^verbatim>\<open>numCreated_\<close> is a static 32-bit counter.\<close>

record thread =
  th_started :: bool
  th_joined :: bool
  th_tid :: int
  th_name :: string
  th_detached :: bool

definition setDefaultName :: "32 word \<Rightarrow> thread \<Rightarrow> thread \<times> 32 word" where
  "setDefaultName numCreated th =
     (let num = numCreated + 1
      in (if th_name th = [] then th\<lparr>th_name := take 31 (''Thread'' @ fmt_d (sint num))\<rparr> else th, num))"

definition newThread :: "string \<Rightarrow> 32 word \<Rightarrow> thread \<times> 32 word" where
  "newThread n numCreated =
     setDefaultName numCreated \<lparr>th_started = False, th_joined = False, th_tid = 0, th_name = n, th_detached = False\<rparr>"

text \<open>
  \<^verbatim>\<open>ThreadData::runInThread\<close> after the handshake: how the thread function ends decides the final name of
  the thread and whether the process survives.
\<close>

datatype outcome = Returns | ThrowsStd | ThrowsOther

definition runInThread_name :: "string \<Rightarrow> string" where
  "runInThread_name name = (if name = [] then ''kayccThread'' else name)"

definition runInThread_end :: "outcome \<Rightarrow> thread_local \<Rightarrow> thread_local res" where
  "runInThread_end out loc =
     (case out of
        Returns \<Rightarrow> Inr (loc\<lparr>t_threadName := ''finished''\<rparr>)
      | ThrowsStd \<Rightarrow> Inl (Aborted ''thread.cpp:86'')
      | ThrowsOther \<Rightarrow> Inl (Throws ''thread.cpp:90''))"

subsection \<open>The handshake of start()\<close>

text \<open>
  After a successful \<^verbatim>\<open>pthread_create\<close> the caller is in \<^verbatim>\<open>latch_.wait()\<close> and the new thread at the
  beginning of \<^verbatim>\<open>runInThread\<close>. The new thread stores its id, then counts the latch down, then goes on
  to its function.
\<close>

datatype child_pc = Born | TidStored | PastLatch

record starting =
  st_thread :: thread
  st_latch :: latch
  st_child :: child_pc
  st_local :: thread_local

definition fresh_local :: thread_local where
  "fresh_local = \<lparr>t_cachedTid = 0, t_tidString = [], t_tidStringLength = 0, t_threadName = ''unknown''\<rparr>"

definition created :: "thread \<Rightarrow> starting" where
  "created th = \<lparr>st_thread = th\<lparr>th_started := True\<rparr>, st_latch = (newCountDownLatch 1)\<lparr>la_entering := 1\<rparr>,
     st_child = Born, st_local = fresh_local\<rparr>"

text \<open>
  A step of one of the two threads; \<open>gettid\<close> is what the system call returns in the new thread. A caller that
  sleeps in \<^verbatim>\<open>latch_.wait()\<close> has no step of its own.
\<close>

inductive start_step :: "int \<Rightarrow> starting \<Rightarrow> starting \<Rightarrow> bool" where
  parent: "wait_step (st_latch s) l \<Longrightarrow> start_step gettid s (s\<lparr>st_latch := l\<rparr>)"
| store_tid: "st_child s = Born \<Longrightarrow> tid gettid (st_local s) = (t, loc) \<Longrightarrow>
    start_step gettid s (s\<lparr>st_thread := (st_thread s)\<lparr>th_tid := t\<rparr>, st_local := loc, st_child := TidStored\<rparr>)"
| count_down: "st_child s = TidStored \<Longrightarrow> countDown (st_latch s) = Inr l \<Longrightarrow>
    start_step gettid s (s\<lparr>st_latch := l, st_child := PastLatch,
      st_local := (st_local s)\<lparr>t_threadName := runInThread_name (th_name (st_thread s))\<rparr>\<rparr>)"

text \<open>All that can happen: those steps, and a wakeup of the caller without a signal.\<close>

inductive start_any :: "int \<Rightarrow> starting \<Rightarrow> starting \<Rightarrow> bool" where
  own: "start_step gettid s s' \<Longrightarrow> start_any gettid s s'"
| spurious: "la_sleeping (st_latch s) = Suc n \<Longrightarrow>
    start_any gettid s (s\<lparr>st_latch := (st_latch s)\<lparr>la_sleeping := n, la_woken := la_woken (st_latch s) + 1\<rparr>\<rparr>)"

text \<open>What follows \<^verbatim>\<open>latch_.wait()\<close> in \<^verbatim>\<open>start()\<close>, for the state in which it returned.\<close>

definition after_wait :: "starting \<Rightarrow> thread res" where
  "after_wait s = check (th_tid (st_thread s) > 0) ''thread.cpp:179'' (Inr (st_thread s))"

text \<open>
  \<^verbatim>\<open>start()\<close> as a whole: \<open>create\<close> is the result of \<^verbatim>\<open>pthread_create\<close>, \<open>run\<close> the state in which
  \<^verbatim>\<open>latch_.wait()\<close> returns.
\<close>

definition start_th :: "int \<Rightarrow> (thread \<Rightarrow> starting) \<Rightarrow> thread \<Rightarrow> thread res" where
  "start_th create run th =
     check (\<not> th_started th) ''thread.cpp:169'' (
     if create \<noteq> 0 then Inr (th\<lparr>th_started := False\<rparr>) else after_wait (run th))"

definition join :: "int \<Rightarrow> thread \<Rightarrow> (int \<times> thread) res" where
  "join pthread_join th =
     check (th_started th) ''thread.cpp:184'' (
     check (\<not> th_joined th) ''thread.cpp:185'' (
     Inr (pthread_join, th\<lparr>th_joined := True\<rparr>)))"

definition destroyThread :: "thread \<Rightarrow> thread" where
  "destroyThread th = (if th_started th \<and> \<not> th_joined th then th\<lparr>th_detached := True\<rparr> else th)"

subsection \<open>Correctness\<close>

definition start_inv :: "int \<Rightarrow> thread \<Rightarrow> starting \<Rightarrow> bool" where
  "start_inv g th s \<longleftrightarrow> latch_inv (st_latch s) \<and>
     la_entering (st_latch s) + la_sleeping (st_latch s) + la_woken (st_latch s) + la_passed (st_latch s) = 1 \<and>
     la_count (st_latch s) = (if st_child s = PastLatch then 0 else 1) \<and>
     st_thread s = th\<lparr>th_started := True, th_tid := if st_child s = Born then th_tid th else g\<rparr> \<and>
     (st_child s = Born \<longrightarrow> t_cachedTid (st_local s) = 0)"

lemma wait_step_total:
  assumes "wait_step l l'"
  shows "la_entering l' + la_sleeping l' + la_woken l' + la_passed l' =
    la_entering l + la_sleeping l + la_woken l + la_passed l"
  using assms by (induction rule: wait_step.induct) (auto simp: wait_section_def)

lemma start_step_inv:
  assumes "start_step g s s'" and "start_inv g th s"
  shows "start_inv g th s'"
  using assms
proof (induction rule: start_step.induct)
  case (parent s l g)
  with wait_step_inv [of "st_latch s" l] wait_step_total [of "st_latch s" l] show ?case
    by (simp add: start_inv_def)
next
  case (store_tid s g t loc)
  then show ?case by (auto simp: start_inv_def tid_def cacheTid_def Let_def)
next
  case (count_down s l g)
  with countDown_inv [of "st_latch s" l] show ?case
    by (auto simp: start_inv_def countDown_def)
qed

lemma start_any_inv:
  assumes "start_any g s s'" and "start_inv g th s"
  shows "start_inv g th s'"
  using assms
proof (induction rule: start_any.induct)
  case (own g s s')
  then show ?case by (rule start_step_inv)
next
  case (spurious s n g)
  then show ?case by (auto simp: start_inv_def latch_inv_def)
qed

interpretation start_sys: step_system "start_any g" "created th" "start_inv g th" for g th
  by unfold_locales
    (simp add: start_inv_def created_def latch_inv_def newCountDownLatch_def fresh_local_def, rule start_any_inv)

text \<open>
  C31. The handshake of \<^verbatim>\<open>start()\<close>: whenever \<^verbatim>\<open>latch_.wait()\<close> has returned, the new thread has already
  stored its id, so that the assertion on \<^verbatim>\<open>tid_\<close> holds and the caller sees the id. And the caller is not
  left asleep: whoever is faster, and whatever spurious wakeups came before, when neither thread has a step of its
  own any more the caller has returned from the wait. A sleeping caller has none, so this rests on the signal.
\<close>

theorem start_handshake:
  assumes "reaches (start_any g) (created th) s" and "0 < g"
  shows "(la_passed (st_latch s) > 0 \<longrightarrow> after_wait s = Inr (th\<lparr>th_started := True, th_tid := g\<rparr>)) \<and>
    ((\<nexists>s'. start_step g s s') \<longrightarrow> la_passed (st_latch s) = 1)"
proof -
  note inv = start_sys.inv_reaches [OF assms(1)]
  have "after_wait s = Inr (th\<lparr>th_started := True, th_tid := g\<rparr>)" if "la_passed (st_latch s) > 0"
    using inv that assms(2) by (auto simp: start_inv_def latch_inv_def after_wait_def split: if_splits)
  moreover have "la_passed (st_latch s) = 1" if stuck: "\<nexists>s'. start_step g s s'"
  proof -
    have "\<nexists>l. wait_step (st_latch s) l" using stuck start_step.parent by blast
    note quiet = wait_stuck [OF this]
    have "st_child s \<noteq> Born"
      using stuck start_step.store_tid [of s g] by (meson surj_pair)
    moreover have "st_child s \<noteq> TidStored"
    proof
      assume c: "st_child s = TidStored"
      then have "la_count (st_latch s) = 1" using inv by (simp add: start_inv_def)
      then obtain l where "countDown (st_latch s) = Inr l" by (simp add: countDown_def Let_def)
      from start_step.count_down [OF c this] stuck show False by blast
    qed
    ultimately have "st_child s = PastLatch" by (cases "st_child s") auto
    with inv quiet show ?thesis by (auto simp: start_inv_def latch_inv_def)
  qed
  ultimately show ?thesis by blast
qed

lemma started_run:
  "\<exists>s. reaches (start_any 42) (created (fst (newThread [] 0))) s \<and> la_passed (st_latch s) = 1"
proof -
  define th where "th = fst (newThread [] 0)"
  define s1 where "s1 = (created th)\<lparr>st_thread := (st_thread (created th))\<lparr>th_tid := 42\<rparr>,
    st_local := snd (tid 42 fresh_local), st_child := TidStored\<rparr>"
  define l2 where "l2 = (newCountDownLatch 0)\<lparr>la_entering := 1\<rparr>"
  define s2 where "s2 = s1\<lparr>st_latch := l2, st_child := PastLatch,
    st_local := (st_local s1)\<lparr>t_threadName := runInThread_name (th_name (st_thread s1))\<rparr>\<rparr>"
  have "start_step 42 (created th) s1"
    unfolding s1_def by (rule start_step.store_tid) (simp_all add: created_def tid_def cacheTid_def fresh_local_def)
  moreover have "start_step 42 s1 s2"
    unfolding s2_def by (rule start_step.count_down)
      (simp_all add: s1_def l2_def created_def countDown_def newCountDownLatch_def)
  moreover have "start_step 42 s2 (s2\<lparr>st_latch := wait_section (l2\<lparr>la_entering := 0\<rparr>)\<rparr>)"
    by (rule start_step.parent, simp add: s2_def, rule wait_step.enter) (simp add: l2_def)
  ultimately have "reaches (start_any 42) (created th) (s2\<lparr>st_latch := wait_section (l2\<lparr>la_entering := 0\<rparr>)\<rparr>)"
    by (meson reaches.intros start_any.own)
  then show ?thesis
    by (intro exI [of _ "s2\<lparr>st_latch := wait_section (l2\<lparr>la_entering := 0\<rparr>)\<rparr>"])
      (simp add: th_def l2_def wait_section_def newCountDownLatch_def)
qed

theorem start_handshake_witness:
  "\<exists>s. reaches (start_any 42) (created (fst (newThread [] 0))) s \<and>
     after_wait s = Inr ((fst (newThread [] 0))\<lparr>th_started := True, th_tid := 42\<rparr>)"
  using started_run start_handshake [of 42 "fst (newThread [] 0)"] by fastforce

text \<open>
  The thread object is released once: after a successful \<^verbatim>\<open>start()\<close> exactly one of \<^verbatim>\<open>join()\<close> and the
  detaching in the destructor happens, a second \<^verbatim>\<open>start()\<close> or \<^verbatim>\<open>join()\<close> and a \<^verbatim>\<open>join()\<close> of a thread that
  could not be created fail their assertions.
\<close>

theorem thread_released_once:
  assumes "start_th 0 run (fst (newThread n num)) = Inr th" and "reaches (start_any g) (created (fst (newThread n num))) (run (fst (newThread n num)))"
  shows "th_started th \<and> th_detached (destroyThread th) \<and> start_th c run th = Inl (Assertion ''thread.cpp:169'') \<and>
    (\<exists>th'. join r th = Inr (r, th') \<and> \<not> th_detached (destroyThread th') \<and> join r' th' = Inl (Assertion ''thread.cpp:185''))"
proof -
  have "th = st_thread (run (fst (newThread n num)))"
    using assms(1) by (simp add: start_th_def after_wait_def fault_simps)
  with start_sys.inv_reaches [OF assms(2)] obtain t where th: "th = (fst (newThread n num))\<lparr>th_started := True, th_tid := t\<rparr>"
    by (auto simp: start_inv_def)
  then show ?thesis
    by (simp add: newThread_def setDefaultName_def destroyThread_def join_def start_th_def Let_def)
qed

theorem thread_released_once_witness:
  "\<exists>run th. start_th 0 run (fst (newThread [] 0)) = Inr th \<and> th_started th \<and> th_detached (destroyThread th)"
proof -
  obtain s where s: "reaches (start_any 42) (created (fst (newThread [] 0))) s" "la_passed (st_latch s) = 1"
    using started_run by blast
  have "th_tid (st_thread s) = 42"
    using start_sys.inv_reaches [OF s(1)] s(2) by (auto simp: start_inv_def latch_inv_def split: if_splits)
  then have "start_th 0 (\<lambda>_. s) (fst (newThread [] 0)) = Inr (st_thread s)"
    by (simp add: start_th_def after_wait_def newThread_def setDefaultName_def Let_def)
  with thread_released_once [OF this] s(1) show ?thesis by blast
qed

end
