(* ===== verification/Kaycc_Sockets.thy ===== *)
theory Kaycc_Sockets
  imports Kaycc_InetAddress Kaycc_Acceptor
begin

text \<open>
  The functions of net/socketsops.h, .cpp and net/socket.cpp that open, prepare and close descriptors, over a
  table of descriptors as the manual pages describe it: \<^verbatim>\<open>socket\<close>, \<^verbatim>\<open>accept\<close> and \<^verbatim>\<open>open\<close> take the lowest free
  descriptor below the limit of the process and fail with EMFILE if there is none; \<^verbatim>\<open>fcntl(F_SETFL)\<close> changes
  O_APPEND, O_ASYNC, O_DIRECT, O_NOATIME and O_NONBLOCK and nothing else. Failures the table does not explain
  (EADDRINUSE, ...) are arguments. \<open>kn_pending\<close> counts the connections the kernel has completed for the
  listening socket, \<open>kn_logged\<close> the lines logged.
\<close>

section \<open>Descriptors\<close>

record kfile =
  kf_status :: "32 word"              \<comment> \<open>file status flags\<close>
  kf_cloexec :: bool
  kf_local :: "inetAddress option"
  kf_backlog :: "int option"
  kf_writable :: bool

record kernel =
  kn_files :: "int \<rightharpoonup> kfile"
  kn_limit :: nat
  kn_pending :: nat
  kn_errno :: int
  kn_logged :: nat

definition O_NONBLOCK :: "32 word" where "O_NONBLOCK = 2048"
definition FD_CLOEXEC :: "32 word" where "FD_CLOEXEC = 1"

text \<open>O_APPEND, O_NONBLOCK, O_ASYNC, O_DIRECT, O_NOATIME on Linux.\<close>

definition setfl_mask :: "32 word" where
  "setfl_mask = 1024 OR 2048 OR 8192 OR 16384 OR 262144"

definition SOMAXCONN :: int where "SOMAXCONN = 128"
definition EBADF :: int where "EBADF = 9"
definition EAGAIN :: int where "EAGAIN = 11"

definition free_fd :: "kernel \<Rightarrow> nat option" where
  "free_fd k = find (\<lambda>fd. kn_files k (int fd) = None) [0..<kn_limit k]"

definition sys_open :: "kfile \<Rightarrow> kernel \<Rightarrow> int \<times> kernel" where
  "sys_open f k =
     (case free_fd k of
        None \<Rightarrow> (-1, k\<lparr>kn_errno := EMFILE\<rparr>)
      | Some fd \<Rightarrow> (int fd, k\<lparr>kn_files := (kn_files k)(int fd \<mapsto> f)\<rparr>))"

definition sys_close :: "int \<Rightarrow> kernel \<Rightarrow> int \<times> kernel" where
  "sys_close fd k =
     (if kn_files k fd = None then (-1, k\<lparr>kn_errno := EBADF\<rparr>)
      else (0, k\<lparr>kn_files := (kn_files k)(fd := None)\<rparr>))"

definition new_sock :: "bool \<Rightarrow> bool \<Rightarrow> kfile" where
  "new_sock nonblock cloexec =
     \<lparr>kf_status = 2 OR (if nonblock then O_NONBLOCK else 0), kf_cloexec = cloexec, kf_local = None,
      kf_backlog = None, kf_writable = True\<rparr>"

text \<open>\<^verbatim>\<open>accept4\<close> with the flags as two booleans; \<^verbatim>\<open>accept\<close> is \<^verbatim>\<open>accept4\<close> without flags.\<close>

definition sys_accept4 :: "bool \<Rightarrow> bool \<Rightarrow> int \<Rightarrow> kernel \<Rightarrow> int \<times> kernel" where
  "sys_accept4 nonblock cloexec fd k =
     (if kn_files k fd = None then (-1, k\<lparr>kn_errno := EBADF\<rparr>)
      else if free_fd k \<noteq> None \<and> kn_pending k = 0 then (-1, k\<lparr>kn_errno := EAGAIN\<rparr>)
      else let (r, k1) = sys_open (new_sock nonblock cloexec) k
           in if r < 0 then (r, k1) else (r, k1\<lparr>kn_pending := kn_pending k1 - 1\<rparr>))"

definition F_GETFL :: "int \<Rightarrow> kernel \<Rightarrow> 32 word \<times> kernel" where
  "F_GETFL fd k =
     (case kn_files k fd of None \<Rightarrow> (-1, k\<lparr>kn_errno := EBADF\<rparr>) | Some f \<Rightarrow> (kf_status f, k))"

definition F_SETFL :: "int \<Rightarrow> 32 word \<Rightarrow> kernel \<Rightarrow> int \<times> kernel" where
  "F_SETFL fd flags k =
     (case kn_files k fd of
        None \<Rightarrow> (-1, k\<lparr>kn_errno := EBADF\<rparr>)
      | Some f \<Rightarrow> (0, k\<lparr>kn_files := (kn_files k)(fd \<mapsto>
          f\<lparr>kf_status := (kf_status f AND NOT setfl_mask) OR (flags AND setfl_mask)\<rparr>)\<rparr>))"

definition log_line :: "kernel \<Rightarrow> kernel" where
  "log_line k = k\<lparr>kn_logged := kn_logged k + 1\<rparr>"

section \<open>Operations\<close>

definition setNonBlockAndCloseOnExec :: "int \<Rightarrow> kernel \<Rightarrow> kernel" where
  "setNonBlockAndCloseOnExec sockfd k =
     (let (flags, k) = F_GETFL sockfd k;
          flags = flags OR O_NONBLOCK;
          (ret, k) = F_SETFL sockfd flags k;
          (flags, k) = F_GETFL sockfd k;
          flags = flags OR FD_CLOEXEC;
          (ret, k) = F_SETFL sockfd flags k
      in k)"

text \<open>\<open>valgrind\<close>: the value of the macro VALGRIND.\<close>

definition createNonblockingOrDie :: "bool \<Rightarrow> kernel \<Rightarrow> int \<times> kernel" where
  "createNonblockingOrDie valgrind k =
     (if valgrind then
        let (sockfd, k) = sys_open (new_sock False False) k;
            k = (if sockfd < 0 then log_line k else k)
        in (sockfd, setNonBlockAndCloseOnExec sockfd k)
      else
        let (sockfd, k) = sys_open (new_sock True True) k
        in (sockfd, if sockfd < 0 then log_line k else k))"

text \<open>\<open>ret\<close> is the result of \<^verbatim>\<open>bind\<close>, \<^verbatim>\<open>listen\<close> or \<^verbatim>\<open>shutdown\<close>; a negative one changes nothing.\<close>

definition upd_file :: "int \<Rightarrow> (kfile \<Rightarrow> kfile) \<Rightarrow> kernel \<Rightarrow> kernel" where
  "upd_file fd u k = k\<lparr>kn_files := (kn_files k)(fd := map_option u (kn_files k fd))\<rparr>"

definition bindOrDie :: "int \<Rightarrow> int \<Rightarrow> inetAddress \<Rightarrow> kernel \<Rightarrow> kernel" where
  "bindOrDie ret sockfd addr k =
     (if ret < 0 then log_line k else upd_file sockfd (\<lambda>f. f\<lparr>kf_local := Some addr\<rparr>) k)"

definition listenOrDie :: "int \<Rightarrow> int \<Rightarrow> kernel \<Rightarrow> kernel" where
  "listenOrDie ret sockfd k =
     (if ret < 0 then log_line k else upd_file sockfd (\<lambda>f. f\<lparr>kf_backlog := Some SOMAXCONN\<rparr>) k)"

definition shutdownWrite :: "int \<Rightarrow> int \<Rightarrow> kernel \<Rightarrow> kernel" where
  "shutdownWrite ret sockfd k =
     (if ret < 0 then log_line k else upd_file sockfd (\<lambda>f. f\<lparr>kf_writable := False\<rparr>) k)"

definition close_fd :: "int \<Rightarrow> kernel \<Rightarrow> kernel" where
  "close_fd sockfd k = (let (ret, k) = sys_close sockfd k in if ret < 0 then log_line k else k)"

text \<open>\<open>no_accept4\<close>: VALGRIND or NO_ACCEPT4 is set. The errors are classified by \<open>accept_sock\<close>, which logs one or two lines.\<close>

definition accept_fd :: "bool \<Rightarrow> int \<Rightarrow> kernel \<Rightarrow> int \<times> kernel" where
  "accept_fd no_accept4 sockfd k =
     (let (connfd, k) =
            (if no_accept4 then
               let (connfd, k) = sys_accept4 False False sockfd k in (connfd, setNonBlockAndCloseOnExec connfd k)
             else sys_accept4 True True sockfd k);
          (connfd, how, errno) = accept_sock connfd (kn_errno k) (kn_errno k)
      in (connfd, k\<lparr>kn_errno := errno,
            kn_logged := kn_logged k + (case how of NoError \<Rightarrow> 0 | Expected \<Rightarrow> 1 | _ \<Rightarrow> 2)\<rparr>))"

definition bindAddress :: "int \<Rightarrow> socket \<Rightarrow> inetAddress \<Rightarrow> kernel \<Rightarrow> kernel" where
  "bindAddress ret s addr k = bindOrDie ret (sk_fd s) addr k"

definition listen_Socket :: "int \<Rightarrow> socket \<Rightarrow> kernel \<Rightarrow> kernel" where
  "listen_Socket ret s k = listenOrDie ret (sk_fd s) k"

definition shutdownWrite_Socket :: "int \<Rightarrow> socket \<Rightarrow> kernel \<Rightarrow> kernel" where
  "shutdownWrite_Socket ret s k = shutdownWrite ret (sk_fd s) k"

text \<open>\<^verbatim>\<open>TcpConnection::getTcpInfoString\<close>, with its buffer of 1024 bytes.\<close>

definition getTcpInfoString_conn :: "tcp_info option \<Rightarrow> string" where
  "getTcpInfoString_conn info = snd (getTcpInfoString info 1024 [])"

text \<open>
  The descriptors of the constructor of Acceptor; \<open>ret\<close> is the result of \<^verbatim>\<open>bind\<close>. The socket options are not
  part of the table.
\<close>

definition devnull :: kfile where
  "devnull = \<lparr>kf_status = 0, kf_cloexec = True, kf_local = None, kf_backlog = None, kf_writable = False\<rparr>"

definition acceptor_fds :: "bool \<Rightarrow> int \<Rightarrow> inetAddress \<Rightarrow> kernel \<Rightarrow> (int \<times> int \<times> kernel) res" where
  "acceptor_fds valgrind ret listenAddr k =
     (let (sockfd, k) = createNonblockingOrDie valgrind k;
          (idleFd, k) = sys_open devnull k
      in check (0 \<le> idleFd) ''acceptor.cpp:27'' (
         Inr (sockfd, idleFd, bindAddress ret (newSocket sockfd) listenAddr k)))"

text \<open>
  What \<^verbatim>\<open>Acceptor::handleRead\<close> does to the table, with the results of its calls: those of the two \<^verbatim>\<open>accept\<close> and
  of opening /dev/null again, which are the arguments of \<open>handleRead_ac\<close>.
\<close>

definition handleRead_fds ::
    "bool \<Rightarrow> ('f, 'cb) acceptor \<Rightarrow> kernel \<Rightarrow> (int \<times> int) \<times> int \<times> int \<times> kernel" where
  "handleRead_fds no_accept4 a k =
     (let (connfd, k) = accept_fd no_accept4 (ac_fd a) k
      in if connfd > 0 then
           ((connfd, kn_errno k), 0, 0, if ac_hasCallback a then k else close_fd connfd k)
         else
           let k = log_line k
           in if kn_errno k = EMFILE then
                let errno = kn_errno k;
                    (ret, k) = sys_close (ac_idleFd a) k;
                    (again, k) = sys_accept4 False False (ac_fd a) k;
                    (ret, k) = sys_close again k;
                    (reopened, k) = sys_open devnull k
                in ((connfd, errno), again, reopened, k)
              else ((connfd, kn_errno k), 0, 0, k))"

section \<open>Properties\<close>

lemma free_fd_SomeD:
  assumes "free_fd k = Some fd"
  shows "fd < kn_limit k" and "kn_files k (int fd) = None"
  using assms by (auto simp: free_fd_def find_Some_iff)

lemma free_fd_None: "free_fd k = None \<longleftrightarrow> (\<forall>fd < kn_limit k. kn_files k (int fd) \<noteq> None)"
  by (auto simp: free_fd_def find_None_iff)

lemma mask_bits:
  "setfl_mask AND O_NONBLOCK = O_NONBLOCK" "O_NONBLOCK AND setfl_mask = O_NONBLOCK" "FD_CLOEXEC AND setfl_mask = 0"
  "O_NONBLOCK \<noteq> 0"
  by (simp_all add: setfl_mask_def O_NONBLOCK_def FD_CLOEXEC_def)

lemma setNonBlock_file:
  assumes "kn_files k fd = Some f"
  shows "\<exists>st. setNonBlockAndCloseOnExec fd k = k\<lparr>kn_files := (kn_files k)(fd \<mapsto> f\<lparr>kf_status := st\<rparr>)\<rparr> \<and>
     st AND O_NONBLOCK = O_NONBLOCK"
proof -
  have or_and: "(a OR b) AND O_NONBLOCK = (a AND O_NONBLOCK) OR (b AND O_NONBLOCK)" for a b :: "32 word"
    by (simp add: bit.conj_disj_distrib2)
  have and_mask: "(x AND setfl_mask) AND O_NONBLOCK = x AND O_NONBLOCK" for x :: "32 word"
    by (simp add: and.assoc mask_bits)
  have nb: "((a AND NOT setfl_mask) OR ((b OR O_NONBLOCK) AND setfl_mask)) AND O_NONBLOCK = O_NONBLOCK" for a b :: "32 word"
    unfolding or_and and_mask by (simp add: and.assoc or_and) (simp add: setfl_mask_def O_NONBLOCK_def)
  define s1 where "s1 = (kf_status f AND NOT setfl_mask) OR ((kf_status f OR O_NONBLOCK) AND setfl_mask)"
  define s2 where "s2 = (s1 AND NOT setfl_mask) OR ((s1 OR FD_CLOEXEC) AND setfl_mask)"
  have n1: "s1 AND O_NONBLOCK = O_NONBLOCK" unfolding s1_def by (rule nb)
  have "s2 AND O_NONBLOCK = O_NONBLOCK"
    using n1 unfolding s2_def or_and and_mask by (simp add: and.assoc or_and) (simp add: setfl_mask_def O_NONBLOCK_def)
  moreover have "setNonBlockAndCloseOnExec fd k = k\<lparr>kn_files := (kn_files k)(fd \<mapsto> f\<lparr>kf_status := s2\<rparr>)\<rparr>"
    using assms by (simp add: setNonBlockAndCloseOnExec_def F_GETFL_def F_SETFL_def Let_def s1_def s2_def)
  ultimately show ?thesis by blast
qed

lemma setNonBlock_bad:
  assumes "kn_files k fd = None"
  shows "setNonBlockAndCloseOnExec fd k = k\<lparr>kn_errno := EBADF\<rparr>"
  using assms by (simp add: setNonBlockAndCloseOnExec_def F_GETFL_def F_SETFL_def Let_def)

lemma sys_open_cases:
  assumes "sys_open f k = (fd, k')"
  obtains (full) "free_fd k = None" and "fd = -1" and "k' = k\<lparr>kn_errno := EMFILE\<rparr>"
  | (got) n where "free_fd k = Some n" and "fd = int n" and "k' = k\<lparr>kn_files := (kn_files k)(int n \<mapsto> f)\<rparr>"
  using assms by (auto simp: sys_open_def split: option.splits)

text \<open>A new socket, from \<^verbatim>\<open>socket\<close> or \<^verbatim>\<open>accept\<close>, before and after the call that sets its flags.\<close>

lemma opened_flags:
  assumes "sys_open (new_sock (\<not> v) (\<not> v)) k = (fd, k1)" and "0 \<le> fd" and "kn_files k2 = kn_files k1"
    and "k' = (if v then setNonBlockAndCloseOnExec fd k2 else k2)"
  shows "\<exists>f. kn_files k' fd = Some f \<and> kf_status f AND O_NONBLOCK = O_NONBLOCK \<and> kf_cloexec f = (\<not> v)"
  using assms(1)
proof (cases rule: sys_open_cases)
  case full
  with assms(2) show ?thesis by simp
next
  case (got n)
  then have at: "kn_files k2 fd = Some (new_sock (\<not> v) (\<not> v))" using assms(3) by simp
  show ?thesis
  proof (cases v)
    case True
    from setNonBlock_file [OF at] obtain st where
      st: "setNonBlockAndCloseOnExec fd k2 = k2\<lparr>kn_files := (kn_files k2)(fd \<mapsto> (new_sock (\<not> v) (\<not> v))\<lparr>kf_status := st\<rparr>)\<rparr>"
        "st AND O_NONBLOCK = O_NONBLOCK" by blast
    then show ?thesis using assms(4) True by (simp add: new_sock_def)
  next
    case False
    then show ?thesis using at assms(4) by (simp add: new_sock_def O_NONBLOCK_def)
  qed
qed

text \<open>
  C34. Every socket the library opens or accepts is non-blocking. It is closed on exec if \<^verbatim>\<open>socket\<close> and \<^verbatim>\<open>accept4\<close>
  take the flags; in a build with VALGRIND or NO_ACCEPT4 it never is, since \<^verbatim>\<open>setNonBlockAndCloseOnExec\<close> passes
  FD_CLOEXEC to F_SETFL, which ignores it, instead of to F_SETFD.
\<close>

theorem socket_flags:
  assumes "createNonblockingOrDie v k = (fd, k') \<or> accept_fd v lfd k = (fd, k')" and "0 \<le> fd"
  shows "\<exists>f. kn_files k' fd = Some f \<and> kf_status f AND O_NONBLOCK = O_NONBLOCK \<and> kf_cloexec f = (\<not> v)"
proof -
  obtain k0 k1 k2 k3 where o: "sys_open (new_sock (\<not> v) (\<not> v)) k0 = (fd, k1)" "kn_files k2 = kn_files k1"
    "k3 = (if v then setNonBlockAndCloseOnExec fd k2 else k2)" "kn_files k' = kn_files k3"
  proof (cases "createNonblockingOrDie v k = (fd, k')")
    case True
    show thesis
      by (rule that [of k "snd (sys_open (new_sock (\<not> v) (\<not> v)) k)" "snd (sys_open (new_sock (\<not> v) (\<not> v)) k)" k'])
        (use True assms(2) in \<open>auto simp: createNonblockingOrDie_def Let_def split: prod.splits if_splits\<close>)
  next
    case False
    then have acc: "accept_fd v lfd k = (fd, k')" using assms(1) by blast
    define r where "r = sys_accept4 (\<not> v) (\<not> v) lfd k"
    have r: "fst r = fd" "kn_files k' = kn_files (if v then setNonBlockAndCloseOnExec fd (snd r) else snd r)"
      using acc by (auto simp: accept_fd_def accept_sock_def Let_def r_def split: prod.splits if_splits)
    then have "fst (sys_open (new_sock (\<not> v) (\<not> v)) k) = fd"
      "kn_files (snd r) = kn_files (snd (sys_open (new_sock (\<not> v) (\<not> v)) k))"
      using assms(2) by (auto simp: r_def sys_accept4_def Let_def split: prod.splits if_splits)
    then show thesis
      by (intro that [of k "snd (sys_open (new_sock (\<not> v) (\<not> v)) k)" "snd r"
          "if v then setNonBlockAndCloseOnExec fd (snd r) else snd r"]) (use r in \<open>auto simp: prod_eq_iff\<close>)
  qed
  from opened_flags [OF o(1) assms(2) o(2,3)] o(4) show ?thesis by simp
qed

definition demo_kernel :: kernel where
  "demo_kernel = \<lparr>kn_files = [0 \<mapsto> devnull, 1 \<mapsto> devnull, 2 \<mapsto> devnull], kn_limit = 8, kn_pending = 0, kn_errno = 0, kn_logged = 0\<rparr>"

theorem socket_flags_witness:
  "\<exists>k' f. createNonblockingOrDie True demo_kernel = (3, k') \<and> kn_files k' 3 = Some f \<and>
     kf_status f AND O_NONBLOCK = O_NONBLOCK \<and> \<not> kf_cloexec f"
proof -
  define k' where "k' = snd (createNonblockingOrDie True demo_kernel)"
  have "fst (createNonblockingOrDie True demo_kernel) = 3"
    by (simp add: createNonblockingOrDie_def sys_open_def free_fd_def demo_kernel_def upt_rec Let_def)
  then have r: "createNonblockingOrDie True demo_kernel = (3, k')" by (simp add: k'_def prod_eq_iff)
  from socket_flags [of True demo_kernel 3 k' 0] r show ?thesis by auto
qed

section \<open>Running out of descriptors\<close>

lemma accept_full:
  assumes "free_fd k = None" and "kn_files k fd \<noteq> None"
  shows "sys_accept4 nonblock cloexec fd k = (-1, k\<lparr>kn_errno := EMFILE\<rparr>)"
  using assms by (auto simp: sys_accept4_def sys_open_def)

text \<open>A full table in which one descriptor is given back has room for exactly one more, at the same place.\<close>

lemma free_after_close:
  assumes full: "free_fd k = None" and fd: "0 \<le> fd" "fd < int (kn_limit k)"
    and other: "kn_files k' = (kn_files k)(fd := None)" "kn_limit k' = kn_limit k"
  shows "free_fd k' = Some (nat fd)"
proof (cases "free_fd k'")
  case None
  with fd other show ?thesis unfolding free_fd_None by (metis fun_upd_same int_nat_eq nat_less_iff)
next
  case (Some n)
  note S = free_fd_SomeD [OF this]
  have "int n = fd" using S full other unfolding free_fd_None by (metis fun_upd_other)
  with Some show ?thesis by auto
qed

text \<open>
  C23. The spare descriptor works. When the process has no descriptor left and a connection is waiting,
  \<^verbatim>\<open>Acceptor::handleRead\<close> gives up the spare one, takes the waiting connection in its place, closes it and opens the
  spare descriptor again: one connection less is waiting, so the listening socket does not stay readable for
  ever; all other descriptors are as before, the spare one is open again, and the callback is not called.
\<close>

theorem acceptor_refuses:
  assumes full: "free_fd k = None" and idle: "0 \<le> ac_idleFd a" "ac_idleFd a < int (kn_limit k)"
    and lfd: "kn_files k (ac_fd a) \<noteq> None" "ac_fd a \<noteq> ac_idleFd a" and waiting: "kn_pending k = Suc n"
  shows "\<exists>accepted again reopened k'. handleRead_fds False a k = (accepted, again, reopened, k') \<and>
     kn_pending k' = n \<and> kn_files k' = (kn_files k)(ac_idleFd a \<mapsto> devnull) \<and>
     (\<exists>a'. handleRead_ac newConnection accepted again reopened True a = Inr a' \<and>
        ac_idleFd a' = ac_idleFd a \<and> ac_loop a' = ac_loop a)"
proof -
  let ?i = "ac_idleFd a"
  define k1 where "k1 = log_line (k\<lparr>kn_errno := EMFILE, kn_logged := kn_logged k + 1\<rparr>)"
  have acc: "accept_fd False (ac_fd a) k = (-1, k\<lparr>kn_errno := EMFILE, kn_logged := kn_logged k + 1\<rparr>)"
    using accept_full [OF full lfd(1)] by (simp add: accept_fd_def accept_sock_def EMFILE_def)
  have there: "kn_files k ?i \<noteq> None" using full idle unfolding free_fd_None by (metis int_nat_eq nat_less_iff)
  define k2 where "k2 = k1\<lparr>kn_files := (kn_files k)(?i := None)\<rparr>"
  have c1: "sys_close ?i k1 = (0, k2)" using there by (simp add: sys_close_def k1_def k2_def log_line_def)
  have f2: "free_fd k2 = Some (nat ?i)"
    by (rule free_after_close [OF full idle]) (simp_all add: k2_def k1_def log_line_def)
  define k3 where "k3 = k2\<lparr>kn_files := (kn_files k2)(?i \<mapsto> new_sock False False), kn_pending := n\<rparr>"
  have a2: "sys_accept4 False False (ac_fd a) k2 = (?i, k3)"
    using lfd f2 idle(1) waiting by (auto simp add: sys_accept4_def sys_open_def k3_def k2_def k1_def log_line_def)
  define k4 where "k4 = k3\<lparr>kn_files := (kn_files k3)(?i := None)\<rparr>"
  have c3: "sys_close ?i k3 = (0, k4)" by (simp add: sys_close_def k4_def k3_def)
  have f4: "free_fd k4 = Some (nat ?i)"
    by (rule free_after_close [OF full idle]) (simp_all add: k4_def k3_def k2_def k1_def log_line_def)
  define k5 where "k5 = k4\<lparr>kn_files := (kn_files k4)(?i \<mapsto> devnull)\<rparr>"
  have o5: "sys_open devnull k4 = (?i, k5)" using f4 idle(1) by (simp add: sys_open_def k5_def)
  have "kn_errno k1 = EMFILE" by (simp add: k1_def log_line_def)
  then have "handleRead_fds False a k = ((-1, EMFILE), ?i, ?i, k5)"
    unfolding handleRead_fds_def acc Let_def prod.case k1_def [symmetric] by (simp add: c1 a2 c3 o5)
  moreover have "kn_pending k5 = n" "kn_files k5 = (kn_files k)(?i \<mapsto> devnull)"
    by (simp_all add: k5_def k4_def k3_def k2_def)
  moreover have "\<exists>a'. handleRead_ac newConnection (-1, EMFILE) ?i ?i True a = Inr a' \<and> ac_idleFd a' = ?i \<and> ac_loop a' = ac_loop a"
    by (simp add: handleRead_ac_def ac_close_def Let_def)
  ultimately show ?thesis by blast
qed

theorem acceptor_refuses_witness:
  "\<exists>a k accepted again reopened k'.
     handleRead_fds False (a :: (unit, nat) acceptor) k = (accepted, again, reopened, k') \<and> kn_pending k = 1 \<and> kn_pending k' = 0"
proof -
  define k where "k = demo_kernel\<lparr>kn_limit := 3, kn_pending := 1\<rparr>"
  define a :: "(unit, nat) acceptor" where
    "a = \<lparr>ac_loop = demo_ac_loop True, ac_chan = 1, ac_fd = 1, ac_listenning = True, ac_hasCallback = True,
          ac_idleFd = 2, ac_closed = []\<rparr>"
  have "free_fd k = None" by (simp add: free_fd_def k_def demo_kernel_def upt_rec)
  with acceptor_refuses [of k a 0 "\<lambda>_ a. Inr a"] show ?thesis
    by (fastforce simp: a_def k_def demo_kernel_def)
qed

text \<open>
  Without \<^verbatim>\<open>accept4\<close> the same situation is not handled: \<^verbatim>\<open>setNonBlockAndCloseOnExec\<close> is called on the result -1 and
  its \<^verbatim>\<open>fcntl\<close> replaces EMFILE by EBADF, so the waiting connection stays and the socket stays readable.
\<close>

theorem emfile_lost:
  assumes full: "free_fd k = None" and lfd: "kn_files k (ac_fd a) \<noteq> None" and neg: "kn_files k (-1) = None"
  shows "\<exists>accepted again reopened k'. handleRead_fds True a k = (accepted, again, reopened, k') \<and>
     accepted = (-1, EBADF) \<and> kn_pending k' = kn_pending k \<and> kn_files k' = kn_files k"
proof -
  have "accept_fd True (ac_fd a) k = (-1, k\<lparr>kn_errno := EBADF, kn_logged := kn_logged k + 2\<rparr>)"
    using accept_full [OF full lfd] setNonBlock_bad [of "k\<lparr>kn_errno := EMFILE\<rparr>" "-1"] neg
    by (simp add: accept_fd_def accept_sock_def EBADF_def)
  then show ?thesis by (simp add: handleRead_fds_def log_line_def EMFILE_def EBADF_def)
qed

text \<open>
  \<^verbatim>\<open>Acceptor::handleRead\<close> takes descriptor 0 for a failure, while \<^verbatim>\<open>sockets::accept\<close> and \<^verbatim>\<open>Socket::accept\<close> take only
  negative ones. In a process that has closed its standard input the next connection gets descriptor 0: nobody
  is told, and the descriptor stays open for ever.
\<close>

theorem descriptor_zero_leaks:
  assumes "kn_files k 0 = None" and "0 < kn_limit k" and lfd: "kn_files k (ac_fd a) \<noteq> None"
    and "kn_pending k = Suc n" and "kn_errno k \<noteq> EMFILE"
  shows "\<exists>k'. handleRead_fds False a k = ((0, kn_errno k), 0, 0, k') \<and> kn_pending k' = n \<and>
     kn_files k' = (kn_files k)(0 \<mapsto> new_sock True True) \<and>
     handleRead_ac newConnection (0, kn_errno k) 0 0 True a = Inr a"
proof -
  have "[0..<kn_limit k] = 0 # [1..<kn_limit k]" using assms(2) by (simp add: upt_conv_Cons)
  then have free: "free_fd k = Some 0" using assms(1) by (simp add: free_fd_def)
  define k1 where "k1 = k\<lparr>kn_files := (kn_files k)(0 \<mapsto> new_sock True True), kn_pending := n\<rparr>"
  have "sys_accept4 True True (ac_fd a) k = (0, k1)"
    using lfd free assms(4) by (auto simp: sys_accept4_def sys_open_def k1_def)
  then have "accept_fd False (ac_fd a) k = (0, k1)" by (simp add: accept_fd_def accept_sock_def)
  moreover have "kn_errno k1 = kn_errno k" by (simp add: k1_def)
  ultimately have "handleRead_fds False a k = ((0, kn_errno k), 0, 0, log_line k1)"
    using assms(5) by (simp add: handleRead_fds_def log_line_def Let_def)
  moreover have "handleRead_ac newConnection (0, kn_errno k) 0 0 True a = Inr a"
    using assms(5) by (simp add: handleRead_ac_def)
  ultimately show ?thesis by (simp add: k1_def log_line_def)
qed

end
