(* ===== verification/Kaycc_Text.thy ===== *)
theory Kaycc_Text
  imports Kaycc_InetAddress Kaycc_EventLoop
begin

text \<open>
  What is printed about channels: \<^verbatim>\<open>Channel::eventsToString\<close>, \<^verbatim>\<open>EPollPoller::operationToString\<close> with the line
  \<^verbatim>\<open>EPollPoller::update\<close> logs, and \<^verbatim>\<open>EventLoop::printActiveChannels\<close>. The text shows the descriptor and every
  event, so it can be read back.
\<close>

definition eventsToString :: "int \<Rightarrow> 32 word \<Rightarrow> string" where
  "eventsToString fd ev =
     fmt_d fd @ '': '' @
     (if has_bits ev POLLIN then ''IN '' else []) @
     (if has_bits ev POLLPRI then ''PRI '' else []) @
     (if has_bits ev POLLOUT then ''OUT '' else []) @
     (if has_bits ev POLLHUP then ''HUP '' else []) @
     (if has_bits ev POLLRDHUP then ''RDHUP '' else []) @
     (if has_bits ev POLLERR then ''ERR '' else []) @
     (if has_bits ev POLLNVAL then ''NVAL '' else [])"

definition reventsToString_ch :: "'cb channel \<Rightarrow> string" where
  "reventsToString_ch ch = eventsToString (ch_fd ch) (ch_revents ch)"

definition eventsToString_ch :: "'cb channel \<Rightarrow> string" where
  "eventsToString_ch ch = eventsToString (ch_fd ch) (ch_events ch)"

text \<open>The three operations are a datatype, so the default case of the switch cannot be reached.\<close>

definition operationToString :: "ctl_op \<Rightarrow> string" where
  "operationToString oper =
     (case oper of EPOLL_CTL_ADD \<Rightarrow> ''ADD'' | EPOLL_CTL_DEL \<Rightarrow> ''DEL'' | EPOLL_CTL_MOD \<Rightarrow> ''MOD'')"

definition update_text :: "ctl_op \<Rightarrow> 'cb channel \<Rightarrow> string" where
  "update_text oper ch =
     ''epoll_ctl op = '' @ operationToString oper @ '' fd = '' @ fmt_d (ch_fd ch) @
     '' event = { '' @ eventsToString_ch ch @ '' }''"

fun printActiveChannels :: "nat list \<Rightarrow> ('f, 'cb) loop \<Rightarrow> string list res" where
  "printActiveChannels [] l = Inr []"
| "printActiveChannels (c # cs) l =
     chan_at l c (\<lambda>ch.
     andThen (printActiveChannels cs l) (\<lambda>lines.
     Inr ((''{'' @ reventsToString_ch ch @ ''}'') # lines)))"

section \<open>Reading the text back\<close>

text \<open>The words of a text whose words all end with a blank.\<close>

fun blank_words :: "string \<Rightarrow> string list" where
  "blank_words [] = []"
| "blank_words (c # cs) =
     (if c = CHR '' '' then [] # blank_words cs
      else case blank_words cs of [] \<Rightarrow> [[c]] | w # ws \<Rightarrow> (c # w) # ws)"

lemma blank_words_word: "CHR '' '' \<notin> set w \<Longrightarrow> blank_words (w @ CHR '' '' # s) = w # blank_words s"
  by (induction w) auto

definition event_bits :: "(string \<times> nat) list" where
  "event_bits = [(''IN'', 0), (''PRI'', 1), (''OUT'', 2), (''HUP'', 4), (''RDHUP'', 13), (''ERR'', 3), (''NVAL'', 5)]"

definition event_names :: "32 word \<Rightarrow> string list" where
  "event_names ev = map fst (filter (\<lambda>(n, i). bit ev i) event_bits)"

lemma has_bits_bit:
  "has_bits ev POLLIN = bit ev 0" "has_bits ev POLLPRI = bit ev 1" "has_bits ev POLLOUT = bit ev 2"
  "has_bits ev POLLHUP = bit ev 4" "has_bits ev POLLRDHUP = bit ev 13" "has_bits ev POLLERR = bit ev 3"
  "has_bits ev POLLNVAL = bit ev 5"
  using and_exp_eq_0_iff_not_bit [of ev 0] and_exp_eq_0_iff_not_bit [of ev 1] and_exp_eq_0_iff_not_bit [of ev 2]
    and_exp_eq_0_iff_not_bit [of ev 3] and_exp_eq_0_iff_not_bit [of ev 4] and_exp_eq_0_iff_not_bit [of ev 5]
    and_exp_eq_0_iff_not_bit [of ev 13]
  by (auto simp: has_bits_def poll_masks)

lemma fmt_d_chars: "c \<in> set (fmt_d x) \<Longrightarrow> c \<noteq> CHR '' ''"
  using digits_are_digits [of "nat x"] digits_are_digits [of "nat (- x)"]
  by (auto simp: fmt_d_def list_all_iff split: if_splits)

lemma fmt_d_inj: "fmt_d x = fmt_d y \<Longrightarrow> x = y"
proof -
  have minus: "CHR ''-'' \<notin> set (digits n)" for n using digits_are_digits [of n] by (auto simp: list_all_iff)
  assume eq: "fmt_d x = fmt_d y"
  then have "x < 0 \<longleftrightarrow> y < 0" using minus unfolding fmt_d_def by (metis list.set_intros(1))
  with eq have "(if x < 0 then digits (nat (- x)) = digits (nat (- y)) else digits (nat x) = digits (nat y))"
    by (auto simp: fmt_d_def)
  then show "x = y" using \<open>x < 0 \<longleftrightarrow> y < 0\<close> num_of_digits by (metis (no_types, opaque_lifting) int_nat_eq linorder_not_less minus_minus nat_0_le neg_0_less_iff_less order_less_imp_le)
qed

lemma events_text_words:
  "blank_words (eventsToString fd ev) = (fmt_d fd @ '':'') # event_names ev"
proof -
  have flag: "blank_words ((if b then w @ '' '' else []) @ s) = (if b then [w] else []) @ blank_words s"
    if "CHR '' '' \<notin> set w" for b w s
    using blank_words_word [OF that, of s] by simp
  have "blank_words ((fmt_d fd @ '':'') @ CHR '' '' # s) = (fmt_d fd @ '':'') # blank_words s" for s
    by (rule blank_words_word) (use fmt_d_chars in auto)
  then show ?thesis
    using flag [of "''IN''"] flag [of "''PRI''"] flag [of "''OUT''"] flag [of "''HUP''"] flag [of "''RDHUP''"]
      flag [of "''ERR''"] flag [of "''NVAL''" _ "[]"]
    by (simp add: eventsToString_def event_names_def event_bits_def has_bits_bit)
qed

lemma event_names_bits:
  "event_names ev = event_names ev' \<longleftrightarrow> (\<forall>i \<in> {0, 1, 2, 3, 4, 5, 13}. bit ev i = bit ev' i)"
proof
  assume eq: "event_names ev = event_names ev'"
  have mem: "(''IN'' \<in> set (event_names e)) = bit e 0" "(''PRI'' \<in> set (event_names e)) = bit e 1"
    "(''OUT'' \<in> set (event_names e)) = bit e 2" "(''ERR'' \<in> set (event_names e)) = bit e 3"
    "(''HUP'' \<in> set (event_names e)) = bit e 4" "(''NVAL'' \<in> set (event_names e)) = bit e 5"
    "(''RDHUP'' \<in> set (event_names e)) = bit e 13" for e
    by (auto simp: event_names_def event_bits_def)
  show "\<forall>i \<in> {0, 1, 2, 3, 4, 5, 13}. bit ev i = bit ev' i"
    using mem [of ev] mem [of ev'] unfolding eq by simp
qed (simp add: event_names_def event_bits_def)

definition all_events :: "32 word" where
  "all_events = POLLIN OR POLLPRI OR POLLOUT OR POLLERR OR POLLHUP OR POLLNVAL OR POLLRDHUP"

lemma all_events_bits: "bit all_events i \<longleftrightarrow> i \<in> {0, 1, 2, 3, 4, 5, 13}"
proof -
  have eq: "all_events = 2 ^ 0 OR 2 ^ 1 OR 2 ^ 2 OR 2 ^ 3 OR 2 ^ 4 OR 2 ^ 5 OR 2 ^ 13" by (simp add: all_events_def poll_masks)
  have pow: "bit (2 ^ n :: 32 word) i \<longleftrightarrow> n < 32 \<and> i = n" for n by (auto simp: bit_exp_iff)
  show ?thesis unfolding eq bit_or_iff pow by simp
qed

lemma and_eq_bits: "a AND m = b AND m \<longleftrightarrow> (\<forall>i. bit m i \<longrightarrow> bit a i = bit b i)" for a b m :: "32 word"
proof
  assume "a AND m = b AND m"
  then show "\<forall>i. bit m i \<longrightarrow> bit a i = bit b i" by (metis bit_and_iff)
next
  assume "\<forall>i. bit m i \<longrightarrow> bit a i = bit b i"
  then show "a AND m = b AND m" by (intro bit_eqI) (auto simp: bit_and_iff)
qed

text \<open>
  The text of a set of events is faithful: two texts are equal exactly if they are about the same
  descriptor and the same events, so the log of a poller or of the active channels can be read back.
\<close>

theorem events_text_faithful:
  "eventsToString fd ev = eventsToString fd' ev' \<longleftrightarrow> fd = fd' \<and> ev AND all_events = ev' AND all_events"
proof -
  have "ev AND all_events = ev' AND all_events \<longleftrightarrow> event_names ev = event_names ev'"
    unfolding event_names_bits and_eq_bits all_events_bits by blast
  moreover have "eventsToString fd ev = eventsToString fd ev'" if "event_names ev = event_names ev'"
    using that unfolding event_names_bits by (simp add: eventsToString_def has_bits_bit)
  moreover have "fd = fd' \<and> event_names ev = event_names ev'" if "eventsToString fd ev = eventsToString fd' ev'"
    using that events_text_words [of fd ev] events_text_words [of fd' ev'] fmt_d_inj by simp
  ultimately show ?thesis by blast
qed

text \<open>The active channels are printed in their order, one line each, if they are all alive.\<close>

lemma printActiveChannels_ok:
  assumes "\<forall>c \<in> set cs. el_channels l c \<noteq> None"
  shows "printActiveChannels cs l =
     Inr (map (\<lambda>c. ''{'' @ reventsToString_ch (the (el_channels l c)) @ ''}'') cs)"
  using assms by (induction cs) (auto simp: chan_at_def)

end
