(* ===== verification/Kaycc_Glue.thy ===== *)
theory Kaycc_Glue
  imports Kaycc_Prelude
begin

text \<open>
  WeakCallback (base/weakcallback.h) and Singleton (base/singleton.h). A weak callback runs its function only
  while the object is alive. Singleton is shared by all threads: \<^verbatim>\<open>pthread_once\<close> lets one thread run \<^verbatim>\<open>init\<close> while the
  others wait, and \<^verbatim>\<open>atexit\<close> runs \<^verbatim>\<open>destory\<close> when the process exits, with the other threads gone.
\<close>

section \<open>WeakCallback\<close>

text \<open>\<open>alive\<close>: the weak pointer can be locked; the object stays alive during the call.\<close>

definition weakCallback :: "('s \<Rightarrow> bool) \<Rightarrow> ('s \<Rightarrow> 's res) \<Rightarrow> 's \<Rightarrow> 's res" where
  "weakCallback alive f s = (if alive s then f s else Inr s)"

section \<open>Singleton\<close>

text \<open>\<open>OnceBusy t\<close>: thread \<open>t\<close> is inside the routine given to \<^verbatim>\<open>pthread_once\<close>.\<close>

datatype once = OnceInit | OnceBusy nat | OnceDone

text \<open>Where a thread is in \<^verbatim>\<open>instance()\<close>.\<close>

datatype sg_pc = SgOut | SgOnce | SgInit | SgInited | SgDeref

text \<open>
  \<open>sg_made\<close> and \<open>sg_deleted\<close> are the objects constructed and deleted, \<open>sg_returned\<close> what calls of \<^verbatim>\<open>instance()\<close>
  returned; nothing reads them.
\<close>

record singleton =
  sg_ponce :: once
  sg_value :: "nat option"
  sg_atexit :: nat
  sg_at :: "nat \<Rightarrow> sg_pc"
  sg_made :: "nat list"
  sg_deleted :: "nat option list"
  sg_returned :: "nat list"

definition newSingleton :: singleton where
  "newSingleton = \<lparr>sg_ponce = OnceInit, sg_value = None, sg_atexit = 0, sg_at = (\<lambda>_. SgOut), sg_made = [],
     sg_deleted = [], sg_returned = []\<rparr>"

text \<open>\<open>no_destroy\<close> is the value of the trait; \<open>a\<close> is the address \<^verbatim>\<open>new T()\<close> gives.\<close>

definition init_sg :: "bool \<Rightarrow> nat \<Rightarrow> singleton \<Rightarrow> singleton" where
  "init_sg no_destroy a s =
     (let s1 = s\<lparr>sg_value := Some a, sg_made := sg_made s @ [a]\<rparr>
      in if \<not> no_destroy then s1\<lparr>sg_atexit := sg_atexit s1 + 1\<rparr> else s1)"

definition destory_sg :: "singleton \<Rightarrow> singleton" where
  "destory_sg s = s\<lparr>sg_deleted := sg_deleted s @ [sg_value s], sg_value := None\<rparr>"

inductive sg_step :: "bool \<Rightarrow> singleton \<Rightarrow> singleton \<Rightarrow> bool" for no_destroy :: bool where
  Call: "sg_at s t = SgOut \<Longrightarrow> sg_step no_destroy s (s\<lparr>sg_at := (sg_at s)(t := SgOnce)\<rparr>)"
| Enter: "sg_at s t = SgOnce \<Longrightarrow> sg_ponce s = OnceInit \<Longrightarrow>
    sg_step no_destroy s (s\<lparr>sg_ponce := OnceBusy t, sg_at := (sg_at s)(t := SgInit)\<rparr>)"
| Run: "sg_at s t = SgInit \<Longrightarrow>
    sg_step no_destroy s ((init_sg no_destroy a s)\<lparr>sg_at := (sg_at s)(t := SgInited)\<rparr>)"
| Leave: "sg_at s t = SgInited \<Longrightarrow>
    sg_step no_destroy s (s\<lparr>sg_ponce := OnceDone, sg_at := (sg_at s)(t := SgDeref)\<rparr>)"
| Pass: "sg_at s t = SgOnce \<Longrightarrow> sg_ponce s = OnceDone \<Longrightarrow>
    sg_step no_destroy s (s\<lparr>sg_at := (sg_at s)(t := SgDeref)\<rparr>)"
| Return: "sg_at s t = SgDeref \<Longrightarrow> sg_value s = Some a \<Longrightarrow>
    sg_step no_destroy s (s\<lparr>sg_at := (sg_at s)(t := SgOut), sg_returned := sg_returned s @ [a]\<rparr>)"

inductive sg_reachable :: "bool \<Rightarrow> singleton \<Rightarrow> bool" for no_destroy :: bool where
  start: "sg_reachable no_destroy newSingleton"
| step: "sg_reachable no_destroy s \<Longrightarrow> sg_step no_destroy s s' \<Longrightarrow> sg_reachable no_destroy s'"

text \<open>At exit the registered functions run, once per registration.\<close>

definition exit_sg :: "singleton \<Rightarrow> singleton" where
  "exit_sg s = (destory_sg ^^ sg_atexit s) s"

text \<open>The phase of \<^verbatim>\<open>ponce_\<close> and the places of all threads determine each other.\<close>

definition sg_inv :: "bool \<Rightarrow> singleton \<Rightarrow> bool" where
  "sg_inv no_destroy s \<longleftrightarrow>
     sg_deleted s = [] \<and>
     (case sg_ponce s of
        OnceInit \<Rightarrow> (\<forall>t. sg_at s t \<in> {SgOut, SgOnce}) \<and> sg_made s = [] \<and> sg_atexit s = 0 \<and> sg_returned s = []
      | OnceBusy u \<Rightarrow> (\<forall>t. t \<noteq> u \<longrightarrow> sg_at s t \<in> {SgOut, SgOnce}) \<and> sg_returned s = [] \<and>
          (sg_at s u = SgInit \<and> sg_made s = [] \<and> sg_atexit s = 0 \<or>
           sg_at s u = SgInited \<and> (\<exists>a. sg_made s = [a] \<and> sg_value s = Some a) \<and> sg_atexit s = (if no_destroy then 0 else 1))
      | OnceDone \<Rightarrow> (\<forall>t. sg_at s t \<in> {SgOut, SgOnce, SgDeref}) \<and> sg_atexit s = (if no_destroy then 0 else 1) \<and>
          (\<exists>a. sg_made s = [a] \<and> sg_value s = Some a \<and> set (sg_returned s) \<subseteq> {a}))"

lemma sg_busy:
  assumes "sg_inv no_destroy s" and "sg_at s t \<in> {SgInit, SgInited}"
  shows "sg_ponce s = OnceBusy t"
proof (cases "sg_ponce s")
  case (OnceBusy u)
  have "t = u"
  proof (rule ccontr)
    assume "t \<noteq> u"
    then have "sg_at s t \<in> {SgOut, SgOnce}" using assms(1) OnceBusy by (simp add: sg_inv_def)
    with assms(2) show False by auto
  qed
  with OnceBusy show ?thesis by simp
next
  case OnceInit
  then have "sg_at s t \<in> {SgOut, SgOnce}" using assms(1) by (simp add: sg_inv_def)
  with assms(2) show ?thesis by auto
next
  case OnceDone
  then have "sg_at s t \<in> {SgOut, SgOnce, SgDeref}" using assms(1) by (simp add: sg_inv_def)
  with assms(2) show ?thesis by auto
qed

lemma sg_past:
  assumes "sg_inv no_destroy s" and "sg_at s t = SgDeref"
  shows "sg_ponce s = OnceDone"
proof (cases "sg_ponce s")
  case OnceInit
  then have "sg_at s t \<in> {SgOut, SgOnce}" using assms(1) by (simp add: sg_inv_def)
  with assms(2) show ?thesis by auto
next
  case (OnceBusy u)
  then have "sg_at s t \<in> {SgOut, SgOnce, SgInit, SgInited}"
    using assms(1) by (cases "t = u") (auto simp: sg_inv_def)
  with assms(2) show ?thesis by auto
qed

lemma sg_step_inv: "sg_step no_destroy s s' \<Longrightarrow> sg_inv no_destroy s \<Longrightarrow> sg_inv no_destroy s'"
proof (induction rule: sg_step.induct)
  case (Run s t a)
  with sg_busy [of no_destroy s t] show ?case by (auto simp: sg_inv_def init_sg_def Let_def)
next
  case (Leave s t)
  with sg_busy [of no_destroy s t] show ?case by (auto simp: sg_inv_def)
next
  case (Return s t a)
  with sg_past [of no_destroy s t] show ?case by (auto simp: sg_inv_def)
qed (auto simp: sg_inv_def split: once.splits)

lemma sg_reachable_inv: "sg_reachable no_destroy s \<Longrightarrow> sg_inv no_destroy s"
proof (induction rule: sg_reachable.induct)
  case start
  show ?case by (simp add: sg_inv_def newSingleton_def)
next
  case (step s s')
  then show ?case by (blast intro: sg_step_inv)
qed

text \<open>
  One object. However the calls of \<^verbatim>\<open>instance()\<close> of any number of threads interleave, at most one object
  is constructed, every call returns that object, and a call that has begun is never stuck: the thread itself, or
  the one it waits for inside \<^verbatim>\<open>pthread_once\<close>, can go on. At exit the object is deleted once, unless its class
  has the member \<^verbatim>\<open>no_destroy\<close>.
\<close>

theorem singleton_once:
  assumes reach: "sg_reachable no_destroy s"
  shows "length (sg_made s) \<le> 1 \<and> set (sg_returned s) \<subseteq> set (sg_made s) \<and>
     (sg_at s t \<noteq> SgOut \<longrightarrow> (\<exists>s' u. sg_step no_destroy s s' \<and> sg_at s' u \<noteq> sg_at s u \<and> sg_at s u \<noteq> SgOut)) \<and>
     ((\<forall>u. sg_at s u = SgOut) \<longrightarrow> sg_deleted (exit_sg s) = (if no_destroy then [] else map Some (sg_made s)))"
proof (intro conjI impI)
  have inv: "sg_inv no_destroy s" using reach by (rule sg_reachable_inv)
  show "length (sg_made s) \<le> 1" "set (sg_returned s) \<subseteq> set (sg_made s)"
    using inv by (auto simp: sg_inv_def split: once.splits)
  show "\<exists>s' u. sg_step no_destroy s s' \<and> sg_at s' u \<noteq> sg_at s u \<and> sg_at s u \<noteq> SgOut" if t: "sg_at s t \<noteq> SgOut"
  proof (cases "sg_ponce s")
    case OnceInit
    then have "sg_at s t = SgOnce" using inv t by (auto simp: sg_inv_def)
    then show ?thesis using sg_step.Enter [of s t no_destroy] OnceInit by force
  next
    case (OnceBusy u)
    then have "sg_at s u = SgInit \<or> sg_at s u = SgInited" using inv by (auto simp: sg_inv_def)
    then show ?thesis using sg_step.Run [of s u no_destroy] sg_step.Leave [of s u no_destroy] by force
  next
    case OnceDone
    then obtain a where "sg_value s = Some a" "sg_at s t \<in> {SgOnce, SgDeref}" using inv t by (auto simp: sg_inv_def)
    then show ?thesis using sg_step.Pass [of s t no_destroy] sg_step.Return [of s t a no_destroy] OnceDone by force
  qed
  show "sg_deleted (exit_sg s) = (if no_destroy then [] else map Some (sg_made s))" if out: "\<forall>u. sg_at s u = SgOut"
  proof (cases "sg_ponce s")
    case (OnceBusy u)
    then show ?thesis using inv out by (auto simp: sg_inv_def)
  qed (use inv in \<open>auto simp: sg_inv_def exit_sg_def destory_sg_def\<close>)
qed

theorem singleton_once_witness:
  "\<exists>s. sg_reachable False s \<and> sg_at s 1 = SgInited \<and> length (sg_made s) = 1 \<and>
     (\<exists>s' u. sg_step False s s' \<and> sg_at s' u \<noteq> sg_at s u)"
proof -
  define s1 where "s1 = newSingleton\<lparr>sg_at := (sg_at newSingleton)(1 := SgOnce)\<rparr>"
  define s2 where "s2 = s1\<lparr>sg_ponce := OnceBusy 1, sg_at := (sg_at s1)(1 := SgInit)\<rparr>"
  define s3 where "s3 = (init_sg False 7 s2)\<lparr>sg_at := (sg_at s2)(1 := SgInited)\<rparr>"
  have "sg_step False newSingleton s1" unfolding s1_def by (rule sg_step.Call) (simp add: newSingleton_def)
  moreover have "sg_step False s1 s2" unfolding s2_def by (rule sg_step.Enter) (simp_all add: s1_def newSingleton_def)
  moreover have "sg_step False s2 s3" unfolding s3_def by (rule sg_step.Run) (simp add: s2_def)
  ultimately have r: "sg_reachable False s3" by (meson sg_reachable.intros)
  have at: "sg_at s3 1 = SgInited" "length (sg_made s3) = 1"
    by (simp_all add: s3_def s2_def s1_def init_sg_def newSingleton_def Let_def)
  with singleton_once [OF r, of 1] r show ?thesis by auto
qed

end
