(* ===== verification/Kaycc_Echo.thy ===== *)
theory Kaycc_Echo
  imports Kaycc_Locality
begin

text \<open>
  The example programs of the library, an echo server and an echo client (net/tests/echoserver_unittest.cpp
  and echoclient_unittest.cpp), as users of a TcpConnection. Their callbacks send, shut down and quit through
  the public operations of the connection; the kernel's answer to a write is a function \<open>kern\<close> of the
  connection and the data. Both keep the contract \<open>conn_user\<close>, and the server answers exactly with what it
  received.
\<close>

section \<open>Callbacks\<close>

definition bytes_of :: "string \<Rightarrow> byte list" where
  "bytes_of s = map of_char s"

definition line :: "string \<Rightarrow> byte list" where
  "line s = bytes_of s @ [10]"

type_synonym kern = "conn \<Rightarrow> byte list \<Rightarrow> written"

text \<open>\<^verbatim>\<open>conn->send(data)\<close> in the thread of the connection.\<close>

definition say :: "kern \<Rightarrow> byte list \<Rightarrow> conn \<Rightarrow> conn res" where
  "say kern data c = send True (kern c data) data c"

text \<open>\<open>own\<close>: the connection lives in the loop of the server (\<^verbatim>\<open>loop_\<close>), so that \<^verbatim>\<open>quit\<close> is seen here.\<close>

definition quit_if :: "bool \<Rightarrow> conn \<Rightarrow> conn" where
  "quit_if own c = (if own then c\<lparr>tc_loop := quit True (tc_loop c)\<rparr> else c)"

definition onConnection_es :: "kern \<Rightarrow> conn \<Rightarrow> conn res" where
  "onConnection_es kern c = say kern (line ''hello'') c"

definition onMessage_es :: "bool \<Rightarrow> kern \<Rightarrow> conn \<Rightarrow> conn res" where
  "onMessage_es own kern c =
     andThen (retrieveAllAsString (tc_input c)) (\<lambda>(msg, b).
     let c1 = c\<lparr>tc_input := b\<rparr>
     in andThen (if msg = line ''exit'' then andThen (say kern (line ''bye'') c1) (shutdown True) else Inr c1) (\<lambda>c2.
     let c3 = (if msg = line ''quit'' then quit_if own c2 else c2)
     in say kern msg c3))"

definition echo_server :: "bool \<Rightarrow> kern \<Rightarrow> user" where
  "echo_server own kern u c =
     (case u of
        UConnection \<Rightarrow> onConnection_es kern c
      | UMessage \<Rightarrow> onMessage_es own kern c
      | _ \<Rightarrow> Inr c)"

text \<open>
  The clients of the client program share the variable \<^verbatim>\<open>current\<close>: \<^verbatim>\<open>main\<close> connects the first of \<open>n\<close> clients, and the
  callback of each new connection the next. The result names the client that is told to connect.
\<close>

definition first_client :: "nat \<Rightarrow> (int \<times> nat) res" where
  "first_client n = (if n = 0 then Inl (Undefined ''echoclient_unittest.cpp:110: index out of range'') else Inr (0, 0))"

definition next_client :: "nat \<Rightarrow> bool \<Rightarrow> int \<Rightarrow> int \<times> nat option" where
  "next_client n up current =
     (if up then
        let current = current + 1
        in (current, if nat current < n then Some (nat current) else None)
      else (current, None))"

text \<open>The connections come up and go down; \<open>True\<close> is a connection that came up.\<close>

fun client_chain :: "nat \<Rightarrow> bool list \<Rightarrow> int \<Rightarrow> nat list" where
  "client_chain n [] current = []"
| "client_chain n (up # ups) current =
     (let (current, next) = next_client n up current
      in case_option [] (\<lambda>i. [i]) next @ client_chain n ups current)"

text \<open>
  The connection's part of the callback. The client answers a line \<^verbatim>\<open>quit\<close> or \<^verbatim>\<open>shutdown\<close> without repeating it.
\<close>

definition onConnection_ec :: "kern \<Rightarrow> conn \<Rightarrow> conn res" where
  "onConnection_ec kern c = say kern (line ''world'') c"

definition onMessage_ec :: "bool \<Rightarrow> kern \<Rightarrow> conn \<Rightarrow> conn res" where
  "onMessage_ec own kern c =
     andThen (retrieveAllAsString (tc_input c)) (\<lambda>(msg, b).
     let c1 = c\<lparr>tc_input := b\<rparr>
     in if msg = line ''quit'' then andThen (say kern (line ''bye'') c1) (shutdown True)
        else if msg = line ''shutdown'' then Inr (quit_if own c1)
        else say kern msg c1)"

definition echo_client :: "bool \<Rightarrow> kern \<Rightarrow> user" where
  "echo_client own kern u c =
     (case u of
        UConnection \<Rightarrow> onConnection_ec kern c
      | UMessage \<Rightarrow> onMessage_ec own kern c
      | _ \<Rightarrow> Inr c)"

text \<open>Every client is told to connect once, in order, as connections come up.\<close>

lemma client_chain_order:
  "client_chain n ups (int k) = filter (\<lambda>i. i < n) [Suc k..<Suc (k + length (filter id ups))]"
proof (induction ups arbitrary: k)
  case (Cons up ups)
  then show ?case using Cons.IH [of "Suc k"] by (auto simp: next_client_def Let_def upt_conv_Cons add.commute)
qed simp

section \<open>They keep the contract\<close>

text \<open>The kernel takes at most what it is given.\<close>

definition kern_law :: "kern \<Rightarrow> bool" where
  "kern_law kern \<longleftrightarrow> (\<forall>c data. write_ok (kern c data) (length data))"

lemma length_line [simp]: "length (line s) = Suc (length s)"
  by (simp add: line_def bytes_of_def)

lemma on_loop_same: "on_loop f c = Inr c' \<Longrightarrow> tc_input c' = tc_input c \<and> tc_state c' = tc_state c"
  by (auto simp: on_loop_def andThen_Inr_iff)

lemma send_try_same:
  "send_try b w data ch c = (n, r, e, c1) \<Longrightarrow> tc_input c1 = tc_input c \<and> tc_state c1 = tc_state c"
  by (auto simp: send_try_def Let_def conn_queue_def split: if_splits sum.splits)

lemma send_rest_same:
  "send_rest b data ch (n, r, e, c1) = Inr c' \<Longrightarrow> tc_input c' = tc_input c1 \<and> tc_state c' = tc_state c1"
  by (auto simp: send_rest_def Let_def conn_queue_def check_Inr_iff andThen_Inr_iff
      dest!: on_loop_same split: if_splits)

lemma sendInLoop_same: "sendInLoop b w data c = Inr c' \<Longrightarrow> tc_input c' = tc_input c \<and> tc_state c' = tc_state c"
  by (auto simp: sendInLoop_split conn_inr split: if_splits)
    (metis prod_cases4 send_rest_same send_try_same)+

lemma say_ok:
  assumes "kern_law kern" and "conn_inv c" and "tc_state c = kConnected \<Longrightarrow> fits (tc_output c) (length data)"
  shows "\<exists>c'. say kern data c = Inr c' \<and> conn_inv c' \<and> tc_input c' = tc_input c \<and> tc_state c' = tc_state c \<and>
     tc_accepted c' = tc_accepted c @
       (if tc_state c = kConnected \<and> \<not> (contents (tc_output c) = [] \<and> refused (kern c data)) then data else [])"
proof (cases "tc_state c = kConnected")
  case True
  have "write_ok (kern c data) (length data)" using assms(1) by (simp add: kern_law_def)
  from sendInLoop_ok [OF assms(2) this assms(3) [OF True]] obtain c' where
    "sendInLoop True (kern c data) data c = Inr c'" "conn_inv c'"
    "tc_accepted c' = tc_accepted c @
       (if tc_state c = kDisconnected \<or> contents (tc_output c) = [] \<and> refused (kern c data) then [] else data)" by blast
  with True sendInLoop_same show ?thesis by (auto simp: say_def send_def)
qed (use assms(2) in \<open>simp add: say_def send_def\<close>)

lemma say_tame: "say kern data c = Inr c' \<Longrightarrow> tame c c'"
  by (auto simp: say_def dest: send_tame)

lemma shutdown_ok:
  assumes "conn_inv c"
  shows "\<exists>c'. shutdown True c = Inr c' \<and> conn_inv c' \<and> tc_input c' = tc_input c \<and> tc_accepted c' = tc_accepted c \<and>
     tc_state c' = (if tc_state c = kConnected then kDisconnecting else tc_state c)"
proof (cases "tc_state c = kConnected")
  case True
  then have "conn_inv (c\<lparr>tc_state := kDisconnecting\<rparr>)" using assms by (intro conn_inv_state) simp_all
  from shutdownInLoop_ok [OF this] True show ?thesis by (auto simp: shutdown_def)
qed (use assms in \<open>simp add: shutdown_def\<close>)

lemma quit_frame:
  "conn_inv (quit_if own c) = conn_inv c" "tame c (quit_if own c)"
  "tc_input (quit_if own c) = tc_input c" "tc_output (quit_if own c) = tc_output c"
  "tc_state (quit_if own c) = tc_state c" "tc_accepted (quit_if own c) = tc_accepted c"
  by (auto simp: quit_if_def quit_def Let_def conn_inv_def chan_inv_def el_inv_def el_reg_def confined_def
      confined_to_def others_kept_def calm_def)

text \<open>Reading the whole input buffer.\<close>

lemma take_input:
  assumes "conn_inv c"
  shows "\<exists>b. retrieveAllAsString (tc_input c) = Inr (contents (tc_input c), b) \<and> contents b = [] \<and>
     conn_inv (c\<lparr>tc_input := b\<rparr>)"
  using retrieveAsString_ok [of "tc_input c" "readableBytes (tc_input c)"] conn_invD(2) [OF assms] assms
    readableBytes_contents [of "tc_input c"]
  by (auto simp: retrieveAllAsString_def conn_simps)

text \<open>Saying good-bye.\<close>

lemma bye_ok:
  assumes "kern_law kern" and "conn_inv c" and "tc_state c = kConnected \<Longrightarrow> fits (tc_output c) 4"
  shows "\<exists>c'. andThen (say kern (line ''bye'') c) (shutdown True) = Inr c' \<and> conn_inv c' \<and>
     tc_input c' = tc_input c \<and> tc_state c' = (if tc_state c = kConnected then kDisconnecting else tc_state c) \<and>
     tc_accepted c' = tc_accepted c @
       (if tc_state c = kConnected \<and> \<not> (contents (tc_output c) = [] \<and> refused (kern c (line ''bye'')))
        then line ''bye'' else [])"
proof -
  have "tc_state c = kConnected \<Longrightarrow> fits (tc_output c) (length (line ''bye''))"
    using assms(3) by (simp add: eval_nat_numeral)
  from say_ok [OF assms(1,2) this] obtain c1 where
    c1: "say kern (line ''bye'') c = Inr c1" "conn_inv c1" "tc_input c1 = tc_input c" "tc_state c1 = tc_state c"
    "tc_accepted c1 = tc_accepted c @
       (if tc_state c = kConnected \<and> \<not> (contents (tc_output c) = [] \<and> refused (kern c (line ''bye'')))
        then line ''bye'' else [])" by auto
  from shutdown_ok [OF c1(2)] obtain c' where
    "shutdown True c1 = Inr c'" "conn_inv c'" "tc_input c' = tc_input c1" "tc_accepted c' = tc_accepted c1"
    "tc_state c' = (if tc_state c1 = kConnected then kDisconnecting else tc_state c1)" by blast
  with c1 show ?thesis by (intro exI [of _ c']) simp
qed

definition reachable_peer :: "kern \<Rightarrow> bool" where
  "reachable_peer kern \<longleftrightarrow> (\<forall>c data. \<not> refused (kern c data))"

lemma exit_not_quit: "line ''exit'' \<noteq> line ''quit''"
  by (simp add: line_def bytes_of_def)

lemma onMessage_es_ok:
  assumes law: "kern_law kern" and inv: "conn_inv c"
    and fits: "tc_state c = kConnected \<Longrightarrow> fits (tc_output c) (length (contents (tc_input c)) + 4)"
  shows "\<exists>c'. onMessage_es own kern c = Inr c' \<and> conn_inv c' \<and> contents (tc_input c') = [] \<and>
     tc_state c' = (if tc_state c = kConnected \<and> contents (tc_input c) = line ''exit'' then kDisconnecting
                    else tc_state c) \<and>
     (reachable_peer kern \<longrightarrow> tc_accepted c' = tc_accepted c @
        (if tc_state c \<noteq> kConnected then []
         else if contents (tc_input c) = line ''exit'' then line ''bye'' else contents (tc_input c)))"
proof -
  let ?msg = "contents (tc_input c)"
  from take_input [OF inv] obtain b where
    b: "retrieveAllAsString (tc_input c) = Inr (?msg, b)" "contents b = []" "conn_inv (c\<lparr>tc_input := b\<rparr>)" by blast
  let ?c1 = "c\<lparr>tc_input := b\<rparr>"
  show ?thesis
  proof (cases "?msg = line ''exit''")
    case True
    have "tc_state ?c1 = kConnected \<Longrightarrow> fits (tc_output ?c1) 4" using fits by (auto intro: fits_mono)
    from bye_ok [OF law b(3) this] obtain c2 where
      c2: "andThen (say kern (line ''bye'') ?c1) (shutdown True) = Inr c2" "conn_inv c2" "tc_input c2 = b"
      "tc_state c2 = (if tc_state c = kConnected then kDisconnecting else tc_state c)"
      "tc_accepted c2 = tc_accepted c @ (if tc_state c = kConnected \<and>
         \<not> (contents (tc_output c) = [] \<and> refused (kern ?c1 (line ''bye''))) then line ''bye'' else [])" by auto
    have "say kern ?msg c2 = Inr c2" using c2(4) by (auto simp: say_def send_def split: if_splits)
    then have "onMessage_es own kern c = Inr c2"
      using b(1) c2(1) True exit_not_quit by (simp add: onMessage_es_def)
    with c2 True b(2) show ?thesis by (auto simp: reachable_peer_def)
  next
    case False
    define c3 where "c3 = (if ?msg = line ''quit'' then quit_if own ?c1 else ?c1)"
    have c3: "conn_inv c3" "tc_state c3 = tc_state c" "tc_output c3 = tc_output c" "tc_input c3 = b"
      "tc_accepted c3 = tc_accepted c" using b(3) by (simp_all add: c3_def quit_frame)
    have "tc_state c3 = kConnected \<Longrightarrow> fits (tc_output c3) (length ?msg)"
      using fits by (auto simp: c3 intro: fits_mono)
    from say_ok [OF law c3(1) this] obtain c' where
      c': "say kern ?msg c3 = Inr c'" "conn_inv c'" "tc_input c' = b" "tc_state c' = tc_state c"
      "tc_accepted c' = tc_accepted c @ (if tc_state c = kConnected \<and>
         \<not> (contents (tc_output c) = [] \<and> refused (kern c3 ?msg)) then ?msg else [])" by (auto simp: c3)
    have "onMessage_es own kern c = Inr c'"
      using b(1) c'(1) False by (simp add: onMessage_es_def c3_def)
    with c' b(2) False show ?thesis by (auto simp: reachable_peer_def)
  qed
qed

lemma onMessage_ec_ok:
  assumes law: "kern_law kern" and inv: "conn_inv c"
    and fits: "tc_state c = kConnected \<Longrightarrow> fits (tc_output c) (length (contents (tc_input c)) + 4)"
  shows "\<exists>c'. onMessage_ec own kern c = Inr c' \<and> conn_inv c'"
proof -
  let ?msg = "contents (tc_input c)"
  from take_input [OF inv] obtain b where
    b: "retrieveAllAsString (tc_input c) = Inr (?msg, b)" "conn_inv (c\<lparr>tc_input := b\<rparr>)" by blast
  let ?c1 = "c\<lparr>tc_input := b\<rparr>"
  have f: "tc_state ?c1 = kConnected \<Longrightarrow> fits (tc_output ?c1) n" if "n \<le> length ?msg + 4" for n
    using fits that by (auto intro: fits_mono)
  consider "?msg = line ''quit''" | "?msg = line ''shutdown''" "?msg \<noteq> line ''quit''"
    | "?msg \<noteq> line ''quit''" "?msg \<noteq> line ''shutdown''" by blast
  then show ?thesis
  proof cases
    case 1
    with b(1) bye_ok [OF law b(2) f] show ?thesis by (auto simp: onMessage_ec_def)
  next
    case 2
    with b quit_frame(1) [of own ?c1] show ?thesis by (simp add: onMessage_ec_def)
  next
    case 3
    with b(1) say_ok [OF law b(2) f, of ?msg] show ?thesis by (auto simp: onMessage_ec_def)
  qed
qed

lemma onMessage_tame:
  "onMessage_es own kern c = Inr c' \<Longrightarrow> tame c c'" "onMessage_ec own kern c = Inr c' \<Longrightarrow> tame c c'"
proof -
  have bye: "tame d d'" if "andThen (say kern data d) (shutdown True) = Inr d'" for d d' data
    using that by (auto simp: andThen_Inr_iff dest!: say_tame shutdown_tame intro: confined_trans calm_trans)
  have q: "tame d (if p then quit_if own d else d)" for d p by (simp add: quit_frame)
  show "tame c c'" if ok: "onMessage_es own kern c = Inr c'"
  proof -
    from ok obtain msg b c2 where
      "(if msg = line ''exit'' then andThen (say kern (line ''bye'') (c\<lparr>tc_input := b\<rparr>)) (shutdown True)
        else Inr (c\<lparr>tc_input := b\<rparr>)) = Inr c2"
      and c': "say kern msg (if msg = line ''quit'' then quit_if own c2 else c2) = Inr c'"
      by (auto simp: onMessage_es_def andThen_Inr_iff Let_def)
    then have "tame c c2" using bye [of "line ''bye''" "c\<lparr>tc_input := b\<rparr>" c2] by (auto split: if_splits)
    with q say_tame [OF c'] show ?thesis by (blast intro: confined_trans calm_trans)
  qed
  show "tame c c'" if ok: "onMessage_ec own kern c = Inr c'"
    using ok bye [of "line ''bye''"] quit_frame(2) [of "c\<lparr>tc_input := b\<rparr>" own for b] say_tame
    by (fastforce simp: onMessage_ec_def andThen_Inr_iff Let_def split: if_splits)
qed

lemma roomy_fits: "roomy c \<Longrightarrow> n \<le> 2 ^ 18 \<Longrightarrow> fits (tc_output c) (length (contents (tc_input c)) + n)"
  by (simp add: roomy_def fits_def buffer_consts)

lemma closed_say: "closed_conn c \<Longrightarrow> say kern data c = Inr c"
  by (simp add: say_def send_def closed_conn_def)

lemma closed_shutdown: "closed_conn c \<Longrightarrow> shutdown b c = Inr c"
  by (simp add: shutdown_def closed_conn_def)

lemma closed_upd:
  "closed_conn (quit_if own c) = closed_conn c" "closed_conn c \<Longrightarrow> buffer_wf b \<Longrightarrow> closed_conn (c\<lparr>tc_input := b\<rparr>)"
  unfolding closed_conn_def quit_frame by (simp_all add: quit_if_def quit_def Let_def conn_simps)

lemma closed_messages:
  assumes "closed_conn c"
  shows "\<exists>c'. onMessage_es own kern c = Inr c' \<and> closed_conn c'"
    and "\<exists>c'. onMessage_ec own kern c = Inr c' \<and> closed_conn c'"
proof -
  have inv: "conn_inv c" using assms by (simp add: closed_conn_def)
  from take_input [OF inv] obtain b where
    b: "retrieveAllAsString (tc_input c) = Inr (contents (tc_input c), b)" "conn_inv (c\<lparr>tc_input := b\<rparr>)" by blast
  have cl: "closed_conn (c\<lparr>tc_input := b\<rparr>)"
    using conn_invD(2) [OF b(2)] assms by (simp add: closed_upd)
  then have clq: "closed_conn (quit_if own (c\<lparr>tc_input := b\<rparr>))" by (simp only: closed_upd(1))
  show "\<exists>c'. onMessage_es own kern c = Inr c' \<and> closed_conn c'"
    using b(1) cl clq by (auto simp: onMessage_es_def closed_say closed_shutdown Let_def)
  show "\<exists>c'. onMessage_ec own kern c = Inr c' \<and> closed_conn c'"
    using b(1) cl clq by (auto simp: onMessage_ec_def closed_say closed_shutdown Let_def)
qed

lemma onConnection_ok:
  assumes "kern_law kern" and "conn_inv c" and "roomy c" and "length s \<le> 5"
  shows "\<exists>c'. say kern (line s) c = Inr c' \<and> conn_inv c'"
proof -
  have "fits (tc_output c) (length (line s))"
    by (rule fits_mono [OF roomy_fits [OF assms(3), of 6]]) (use assms(4) in simp_all)
  with say_ok [OF assms(1,2)] show ?thesis by blast
qed

lemma echo_server_user:
  assumes "kern_law kern"
  shows "conn_user (echo_server own kern)"
proof
  show "user_law (echo_server own kern)"
    unfolding user_law_def
  proof (intro allI impI)
    fix u c
    assume c: "conn_inv c \<and> (u = UClose \<or> roomy c)"
    then show "\<exists>c'. echo_server own kern u c = Inr c' \<and> conn_inv c'"
      using onConnection_ok [OF assms, of c "''hello''"] onMessage_es_ok [OF assms, of c own] roomy_fits [of c 4]
      by (cases u) (auto simp: echo_server_def onConnection_es_def)
  qed
  show "closed_law (echo_server own kern)"
    using closed_messages(1) by (auto simp: closed_law_def echo_server_def onConnection_es_def closed_say split: ucall.split)
  show "tame c c'" if "echo_server own kern u c = Inr c'" for u c c'
    using that onMessage_tame(1) say_tame by (auto simp: echo_server_def onConnection_es_def split: ucall.splits)
qed

lemma echo_client_user:
  assumes "kern_law kern"
  shows "conn_user (echo_client own kern)"
proof
  show "user_law (echo_client own kern)"
    unfolding user_law_def
  proof (intro allI impI)
    fix u c
    assume c: "conn_inv c \<and> (u = UClose \<or> roomy c)"
    then show "\<exists>c'. echo_client own kern u c = Inr c' \<and> conn_inv c'"
      using onConnection_ok [OF assms, of c "''world''"] onMessage_ec_ok [OF assms, of c own] roomy_fits [of c 4]
      by (cases u) (auto simp: echo_client_def onConnection_ec_def)
  qed
  show "closed_law (echo_client own kern)"
    using closed_messages(2) by (auto simp: closed_law_def echo_client_def onConnection_ec_def closed_say split: ucall.split)
  show "tame c c'" if "echo_client own kern u c = Inr c'" for u c c'
    using that onMessage_tame(2) say_tame by (auto simp: echo_client_def onConnection_ec_def split: ucall.splits)
qed

text \<open>A kernel that takes every byte at once.\<close>

definition greedy :: kern where
  "greedy c data = Inr (length data)"

lemma greedy_law: "kern_law greedy" "reachable_peer greedy"
  by (simp_all add: kern_law_def reachable_peer_def greedy_def write_ok_def refused_def)

interpretation echo: conn_user "echo_server own greedy" for own
  by (rule echo_server_user [OF greedy_law(1)])

interpretation echoc: conn_user "echo_client own greedy" for own
  by (rule echo_client_user [OF greedy_law(1)])

section \<open>The server echoes\<close>

text \<open>What happens to a connection of the server while the peer does not close it.\<close>

datatype echo_event = Received "byte list" | CanWrite written

fun echo_step :: "bool \<Rightarrow> kern \<Rightarrow> echo_event \<Rightarrow> conn \<Rightarrow> conn res" where
  "echo_step own kern (Received bs) c = handleRead_conn (echo_server own kern) (\<lambda>cap. Inr (take cap bs)) True c"
| "echo_step own kern (CanWrite w) c = handleWrite w True c"

text \<open>
  A chunk is not empty and fits what \<^verbatim>\<open>readFd\<close> can take at once; the buffers stay below their bound.
\<close>

fun echo_ok :: "echo_event \<Rightarrow> conn \<Rightarrow> bool" where
  "echo_ok (Received bs) c \<longleftrightarrow>
     bs \<noteq> [] \<and> length bs \<le> readFd_capacity (tc_input c) \<and> read_room (\<lambda>cap. Inr (take cap bs)) c"
| "echo_ok (CanWrite w) c \<longleftrightarrow> write_ok w (length (contents (tc_output c)))"

fun echo_legal :: "bool \<Rightarrow> kern \<Rightarrow> echo_event list \<Rightarrow> conn \<Rightarrow> bool" where
  "echo_legal own kern [] c \<longleftrightarrow> True"
| "echo_legal own kern (e # es) c \<longleftrightarrow>
     echo_ok e c \<and> (case echo_step own kern e c of Inl f \<Rightarrow> True | Inr c' \<Rightarrow> echo_legal own kern es c')"

text \<open>
  The specification: the chunks come back as they are, until a chunk is the line \<^verbatim>\<open>exit\<close>; it is answered
  with a good-bye, and nothing is sent after that.
\<close>

fun echo_spec :: "bool \<times> byte list \<Rightarrow> echo_event \<Rightarrow> bool \<times> byte list" where
  "echo_spec (opened, out) (Received bs) =
     (if \<not> opened then (False, out)
      else if bs = line ''exit'' then (False, out @ line ''bye'') else (True, out @ bs))"
| "echo_spec (opened, out) (CanWrite w) = (opened, out)"

definition echo_inv :: "bool \<times> byte list \<Rightarrow> conn \<Rightarrow> bool" where
  "echo_inv sp c \<longleftrightarrow>
     conn_inv c \<and> contents (tc_input c) = [] \<and> tc_accepted c = snd sp \<and>
     tc_state c = (if fst sp then kConnected else kDisconnecting)"

lemma handleWrite_same:
  assumes "handleWrite w b c = Inr c'"
  shows "tc_input c' = tc_input c"
proof (cases "c' = c")
  case False
  have tail: "tc_input c' = tc_input c3" if
    "(let c4 = (if tc_hasWriteComplete c3 then conn_queue b FWriteComplete c3 else c3)
      in if tc_state c4 = kDisconnecting then shutdownInLoop b c4 else Inr c4) = Inr c'" for c3
    using that by (auto simp: shutdownInLoop_def conn_queue_def conn_inr Let_def split: if_splits)
  from assms False show ?thesis
    by (rule handleWrite_shape) (auto dest!: tail on_loop_same)
qed simp

lemma echo_step_ok:
  assumes law: "kern_law kern" "reachable_peer kern" and inv: "echo_inv sp c" and ok: "echo_ok e c"
  shows "\<exists>c'. echo_step own kern e c = Inr c' \<and> echo_inv (echo_spec sp e) c'"
proof (cases e)
  case (CanWrite w)
  obtain op out where sp: "sp = (op, out)" by (cases sp)
  from handleWrite_ok [of c w] inv ok CanWrite obtain c' where
    "handleWrite w True c = Inr c'" "conn_inv c'" "tc_accepted c' = tc_accepted c" "tc_state c' = tc_state c"
    by (auto simp: echo_inv_def)
  with inv CanWrite sp handleWrite_same show ?thesis by (auto simp: echo_inv_def)
next
  case (Received bs)
  obtain op out where sp: "sp = (op, out)" by (cases sp)
  let ?rv = "\<lambda>cap. Inr (take cap bs)"
  have D: "conn_inv c" "contents (tc_input c) = []" "tc_state c = (if op then kConnected else kDisconnecting)"
    "tc_accepted c = out" using inv by (simp_all add: echo_inv_def sp)
  have rv: "?rv (readFd_capacity (tc_input c)) = Inr bs" using ok Received by simp
  have room: "length (contents (tc_output c)) + 2 * length bs + 2 ^ 20 \<le> max_buf"
  proof -
    have "read_room ?rv c" using ok Received by simp
    then show ?thesis using D(2) by (simp only: read_room_def rv) simp
  qed
  have "readv_law ?rv" by (simp add: readv_law_def)
  from readFd_ok [OF conn_invD(2) [OF D(1)] this _ rv, of 0] room obtain b where
    b: "readFd ?rv (tc_input c) 0 = Inr (b, int (length bs), 0)" "buffer_wf b" "contents b = bs"
    using D(2) by (auto simp: extrabuf_size_def buffer_consts)
  let ?c = "c\<lparr>tc_input := b\<rparr>"
  have "roomy ?c" using room b(3) by (simp add: roomy_def)
  from roomy_fits [OF this, of 4] have f: "fits (tc_output ?c) (length (contents (tc_input ?c)) + 4)" by simp
  have "conn_inv ?c" using D(1) b(2) by (simp add: conn_simps)
  from onMessage_es_ok [OF law(1) this f, of own] obtain c' where
    c': "onMessage_es own kern ?c = Inr c'" "conn_inv c'" "contents (tc_input c') = []"
    "tc_state c' = (if op \<and> bs = line ''exit'' then kDisconnecting else tc_state c)"
    "tc_accepted c' = out @ (if \<not> op then [] else if bs = line ''exit'' then line ''bye'' else bs)"
    using law(2) D b(3) by auto
  have "echo_step own kern e c = Inr c'"
    using b(1) c'(1) ok Received by (simp add: handleRead_conn_def echo_server_def)
  with c' D sp Received show ?thesis by (auto simp: echo_inv_def)
qed

lemma echo_run_ok:
  assumes "kern_law kern" and "reachable_peer kern" and "echo_inv sp c" and "echo_legal own kern evs c"
  shows "\<exists>c'. foldRes (echo_step own kern) evs c = Inr c' \<and> echo_inv (foldl echo_spec sp evs) c'"
  using assms(3,4)
proof (induction evs arbitrary: c sp)
  case (Cons e es)
  then have "echo_ok e c" by simp
  from echo_step_ok [OF assms(1,2) Cons.prems(1) this, of own] obtain c1 where
    "echo_step own kern e c = Inr c1" "echo_inv (echo_spec sp e) c1" by blast
  with Cons show ?case by simp
qed simp

lemma echo_established:
  assumes law: "kern_law kern" "reachable_peer kern"
    and loop: "el_inv l" "el_channels l a = None" "0 \<le> fd" "el_reg l fd = None"
  shows "\<exists>c. connectEstablished (echo_server own kern) self True (newTcpConnection l a fd) = Inr c \<and>
     echo_inv (True, line ''hello'') c"
proof -
  from establish_ok [OF loop, of "echo_server own kern" self] obtain c0 where
    c0: "connectEstablished (echo_server own kern) self True (newTcpConnection l a fd) =
      echo_server own kern UConnection c0" "conn_inv c0" "tc_state c0 = kConnected" "tc_accepted c0 = []"
    "tc_input c0 = emptyBuffer" "tc_output c0 = emptyBuffer"
    by blast
  have f: "fits (tc_output c0) (length (line ''hello''))"
    by (simp add: c0 fits_def contents_emptyBuffer buffer_consts)
  from say_ok [OF law(1) c0(2), of "line ''hello''"] f law(2) c0 show ?thesis
    by (auto simp: echo_inv_def echo_server_def onConnection_es_def reachable_peer_def contents_emptyBuffer)
qed

text \<open>
  C3. The echo server echoes: on a connection that was established on any loop, through any sequence of
  received chunks and writable events, with the kernel taking any part of every write, the bytes handed to
  the kernel followed by those still buffered are the greeting, then the received chunks in order and
  unchanged, up to a chunk that is the line \<^verbatim>\<open>exit\<close>, which is answered with \<^verbatim>\<open>bye\<close>; after it nothing is
  sent and the connection is shutting down. Nothing is left unread.
\<close>

theorem echo_server_echoes:
  assumes law: "kern_law kern" "reachable_peer kern"
    and loop: "el_inv l" "el_channels l a = None" "0 \<le> fd" "el_reg l fd = None"
    and c: "connectEstablished (echo_server own kern) self True (newTcpConnection l a fd) = Inr c"
    and legal: "echo_legal own kern evs c"
  shows "\<exists>c'. foldRes (echo_step own kern) evs c = Inr c' \<and>
     tc_wire c' @ contents (tc_output c') = snd (foldl echo_spec (True, line ''hello'') evs) \<and>
     (connected c' \<longleftrightarrow> fst (foldl echo_spec (True, line ''hello'') evs)) \<and> contents (tc_input c') = []"
proof -
  from echo_established [OF law loop, of own self] c have "echo_inv (True, line ''hello'') c" by simp
  from echo_run_ok [OF law this legal] obtain c' where
    c': "foldRes (echo_step own kern) evs c = Inr c'" "echo_inv (foldl echo_spec (True, line ''hello'') evs) c'" by blast
  then show ?thesis
    using conn_invD(5) [of c'] by (auto simp: echo_inv_def connected_def)
qed

text \<open>Chunks of up to 64 KiB satisfy the side conditions as long as the answers stay below \<open>2 ^ 60\<close> bytes.\<close>

lemma small_chunks_legal:
  assumes "kern_law kern" and "reachable_peer kern" and "echo_inv sp c"
    and "\<forall>e \<in> set evs. \<exists>bs. e = Received bs \<and> bs \<noteq> [] \<and> length bs \<le> extrabuf_size"
    and "length (snd sp) + length evs * 2 ^ 17 \<le> 2 ^ 60"
  shows "echo_legal own kern evs c"
  using assms(3-5)
proof (induction evs arbitrary: c sp)
  case (Cons e es)
  then obtain bs where e: "e = Received bs" "bs \<noteq> []" "length bs \<le> extrabuf_size" by auto
  have inv: "conn_inv c" "contents (tc_input c) = []" "tc_accepted c = snd sp"
    using Cons.prems(1) by (simp_all add: echo_inv_def)
  have out: "length (contents (tc_output c)) \<le> length (snd sp)"
    using arg_cong [OF conn_invD(5) [OF inv(1)], of length] inv(3) by simp
  have cap: "length bs \<le> readFd_capacity (tc_input c)"
    using e(3) by (simp add: readFd_capacity_def Let_def)
  then have rv: "take (readFd_capacity (tc_input c)) bs = bs" by simp
  have "read_room (\<lambda>cap. Inr (take cap bs)) c"
    using out e(3) inv(2) Cons.prems(3) unfolding read_room_def rv by (simp add: extrabuf_size_def buffer_consts)
  with e cap have ok: "echo_ok e c" by simp
  from echo_step_ok [OF assms(1,2) Cons.prems(1) ok, of own] obtain c1 where
    c1: "echo_step own kern e c = Inr c1" "echo_inv (echo_spec sp e) c1" by blast
  have "length (snd (echo_spec sp e)) \<le> length (snd sp) + 2 ^ 17"
    using e by (cases sp) (simp add: extrabuf_size_def)
  then have "echo_legal own kern es c1"
    using c1(2) Cons.prems(2,3) by (intro Cons.IH) auto
  with ok c1(1) show ?case by simp
qed simp

theorem echo_server_echoes_witness:
  "\<exists>c c'. connectEstablished (echo_server True greedy) 1 True (newTcpConnection demo_loop0 5 9) = Inr c \<and>
     foldRes (echo_step True greedy) [Received (bytes_of ''abc''), Received (line ''exit''), Received (bytes_of ''x'')] c
       = Inr c' \<and>
     tc_wire c' @ contents (tc_output c') = line ''hello'' @ bytes_of ''abc'' @ line ''bye'' \<and> \<not> connected c'"
proof -
  let ?evs = "[Received (bytes_of ''abc''), Received (line ''exit''), Received (bytes_of ''x'')]"
  have loop: "el_inv demo_loop0" "el_channels demo_loop0 5 = None" "(0 :: int) \<le> 9" "el_reg demo_loop0 9 = None"
    by (rule demo_loop0_inv) (simp_all add: demo_loop0_def el_reg_def newEPollPoller_def)
  from echo_established [OF greedy_law loop, of True 1] obtain c where
    c: "connectEstablished (echo_server True greedy) 1 True (newTcpConnection demo_loop0 5 9) = Inr c"
    "echo_inv (True, line ''hello'') c" by blast
  have "echo_legal True greedy ?evs c"
    by (rule small_chunks_legal [OF greedy_law c(2)]) (simp_all add: bytes_of_def line_def extrabuf_size_def)
  from echo_server_echoes [OF greedy_law loop c(1) this] c(1) show ?thesis
    by (auto simp: bytes_of_def line_def)
qed

end
