(* ===== verification/Kaycc_Programs.thy ===== *)
theory Kaycc_Programs
  imports Kaycc_Echo Kaycc_LoopTimers Kaycc_Thread Kaycc_ThreadPool Kaycc_TcpServer Kaycc_Text "HOL-Library.Sublist"
begin

text \<open>
  The programs that come with the library (base/test, net/tests), on the models of what they use: the
  command lines of the echo programs up to the start of their loop, the thread test, the loop test, the test of
  the thread pool and the test of the atomic counter. A failing \<^verbatim>\<open>assert\<close> of a program is a fault like one of the library.
\<close>

section \<open>The command lines of the echo programs\<close>

text \<open>\<^verbatim>\<open>atoi\<close>: blanks, a sign, digits. A value outside \<^verbatim>\<open>int\<close> is undefined.\<close>

definition is_digit :: "char \<Rightarrow> bool" where
  "is_digit c \<longleftrightarrow> 48 \<le> (of_char c :: nat) \<and> (of_char c :: nat) \<le> 57"

definition is_space :: "char \<Rightarrow> bool" where
  "is_space c \<longleftrightarrow> (of_char c :: nat) = 32 \<or> 9 \<le> (of_char c :: nat) \<and> (of_char c :: nat) \<le> 13"

definition atoi :: "string \<Rightarrow> int res" where
  "atoi s =
     (let s1 = dropWhile is_space s;
          neg = (s1 \<noteq> [] \<and> hd s1 = CHR ''-'');
          s2 = (if s1 \<noteq> [] \<and> (hd s1 = CHR ''-'' \<or> hd s1 = CHR ''+'') then tl s1 else s1);
          v = int (num_of (takeWhile is_digit s2));
          i = (if neg then - v else v)
      in if - (2 ^ 31) \<le> i \<and> i < 2 ^ 31 then Inr i else Inl (Undefined ''atoi''))"

text \<open>
  The server: \<open>args\<close> are the arguments after the program name. The first one is the number of threads, the presence
  of a second one selects IPv6; \<open>listen_text\<close> is the text of the address that results.
\<close>

definition main_es :: "(bool \<Rightarrow> string) \<Rightarrow> (nat \<Rightarrow> nat) \<Rightarrow> nat \<Rightarrow> string list \<Rightarrow> server res" where
  "main_es listen_text startLoop loop args =
     andThen (case args of [] \<Rightarrow> Inr 0 | a # _ \<Rightarrow> atoi a) (\<lambda>numThreads.
     let ipv6 = (length args > 1)
     in andThen (setThreadNum_sv numThreads (newTcpServer loop (listen_text ipv6) ''EchoServer''))
          (start_sv startLoop False True))"

text \<open>
  The client: the names of the clients it creates and the one it connects first, or nothing if it only prints
  its usage. \<^verbatim>\<open>reserve\<close> converts \<open>n\<close> to \<^verbatim>\<open>size_t\<close>, so that a negative number exceeds the maximal size.
\<close>

definition main_ec :: "string list \<Rightarrow> (string list \<times> nat) option res" where
  "main_ec args =
     (case args of
        [] \<Rightarrow> Inr None
      | host # rest \<Rightarrow>
          andThen (case rest of [] \<Rightarrow> Inr 1 | a # _ \<Rightarrow> atoi a) (\<lambda>n.
          if n < 0 then Inl (Throws ''std::length_error'')
          else
            let names = map (\<lambda>i. ''EchoClient'' @ fmt_d (int i + 1)) [0..<nat n]
            in andThen (first_client (nat n)) (\<lambda>(current, first). Inr (Some (names, first)))))"

subsection \<open>What they start\<close>

lemma digits_are: "list_all is_digit (digits n) \<and> digits n \<noteq> []"
proof (induction n rule: digits.induct)
  case (1 n)
  have "is_digit (char_of (48 + m))" if "m < 10" for m :: nat using that by (simp add: is_digit_def)
  with 1 show ?case by (simp add: digits.simps [of n])
qed

lemma digit_not_sign: "is_digit c \<Longrightarrow> \<not> is_space c \<and> c \<noteq> CHR ''-'' \<and> c \<noteq> CHR ''+''"
  by (auto simp: is_digit_def is_space_def)

text \<open>\<^verbatim>\<open>atoi\<close> reads back what \<^verbatim>\<open>%d\<close> prints.\<close>

lemma atoi_fmt_d:
  assumes "- (2 ^ 31) \<le> n" and "n < 2 ^ 31"
  shows "atoi (fmt_d n) = Inr n"
proof -
  have D: "num_of (takeWhile is_digit (digits m)) = m" "digits m \<noteq> []" "is_digit (hd (digits m))" for m
  proof -
    from digits_are [of m] have "takeWhile is_digit (digits m) = digits m" "digits m \<noteq> []" by (simp_all add: list_all_iff)
    then show "digits m \<noteq> []" "num_of (takeWhile is_digit (digits m)) = m" by (simp, simp only: num_of_digits)
    show "is_digit (hd (digits m))" using digits_are [of m] by (cases "digits m") simp_all
  qed
  have minus: "\<not> is_space (CHR ''-'')" by (simp add: is_space_def)
  have "dropWhile is_space (digits m) = digits m" for m
    using digit_not_sign [OF D(3), of m] D(2) [of m] by (cases "digits m") auto
  with D digit_not_sign [OF D(3), of "nat n"] minus assms show ?thesis
    by (auto simp: atoi_def fmt_d_def Let_def)
qed

text \<open>The server starts as many loops as it is told, and none without an argument; a negative number is an assertion.\<close>

lemma main_es_starts:
  assumes "0 \<le> n" and "n < 2 ^ 31"
  shows "\<exists>s. main_es txt startLoop loop (fmt_d n # rest) = Inr s \<and>
     tp_loops (sv_pool s) = map startLoop [0..<nat n] \<and> sv_posted s = [(loop, TListen)]"
  using assms by (simp add: main_es_def atoi_fmt_d setThreadNum_sv_def newTcpServer_def start_sv_def start_pool_def
      setThreadNum_def newEventLoopThreadPool_def start_threads_eq post_def Let_def)

lemma main_es_default:
  "\<exists>s. main_es txt startLoop loop [] = Inr s \<and> tp_loops (sv_pool s) = [] \<and> sv_posted s = [(loop, TListen)]"
  by (simp add: main_es_def setThreadNum_sv_def newTcpServer_def start_sv_def start_pool_def
      setThreadNum_def newEventLoopThreadPool_def post_def Let_def)

lemma main_es_negative: "- (2 ^ 31) \<le> n \<Longrightarrow> n < 0 \<Longrightarrow>
  main_es txt startLoop loop (fmt_d n # rest) = Inl (Assertion ''tcpserver.cpp:54'')"
  by (simp add: main_es_def atoi_fmt_d setThreadNum_sv_def)

text \<open>
  The client creates \<open>n\<close> clients with different names and connects the first one; with \<open>0\<close> it indexes an empty
  vector, with a negative number it ends in an exception.
\<close>

lemma main_ec_clients:
  assumes "0 < n" and "n < 2 ^ 31"
  shows "\<exists>names. main_ec (host # fmt_d n # rest) = Inr (Some (names, 0)) \<and> length names = nat n \<and> distinct names"
proof -
  have "inj (\<lambda>i. ''EchoClient'' @ fmt_d (int i + 1))" by (rule injI) (auto dest!: fmt_d_inj)
  then have "distinct (map (\<lambda>i. ''EchoClient'' @ fmt_d (int i + 1)) [0..<nat n])"
    unfolding distinct_map by (simp only: distinct_upt) (blast intro: inj_on_subset)
  with assms show ?thesis by (simp add: main_ec_def atoi_fmt_d first_client_def Let_def)
qed

lemma main_ec_faults:
  "main_ec (host # fmt_d 0 # rest) = Inl (Undefined ''echoclient_unittest.cpp:110: index out of range'')"
  "- (2 ^ 31) \<le> n \<Longrightarrow> n < 0 \<Longrightarrow> main_ec (host # fmt_d n # rest) = Inl (Throws ''std::length_error'')"
  by (simp_all add: main_ec_def atoi_fmt_d first_client_def)

section \<open>The thread test\<close>

text \<open>
  One thread object from its constructor to its destructor: \<open>create\<close> is the result of \<^verbatim>\<open>pthread_create\<close> and \<open>run\<close> the
  state in which \<^verbatim>\<open>latch_.wait()\<close> returns. The result is the destroyed object and the counter.
\<close>

definition thread_life ::
    "int \<Rightarrow> (thread \<Rightarrow> starting) \<Rightarrow> string \<times> bool \<Rightarrow> thread list \<times> 32 word \<Rightarrow> (thread list \<times> 32 word) res" where
  "thread_life create run = (\<lambda>(name, joined) (ths, num).
     let (th, num') = newThread name num
     in andThen (start_th create run th) (\<lambda>th1.
        andThen (if joined then andThen (join 0 th1) (\<lambda>(r, th2). Inr th2) else Inr th1) (\<lambda>th2.
        Inr (ths @ [destroyThread th2], num'))))"

text \<open>The six threads of the program in order, and whether it joins them.\<close>

definition test_threads :: "(string \<times> bool) list" where
  "test_threads =
     [([], True), (''thread for free function with argument'', True),
      (''thread for member function without argument'', True), ([], True), ([], False), ([], False)]"

definition main_tt :: "int \<Rightarrow> (thread \<Rightarrow> starting) \<Rightarrow> (thread list \<times> 32 word) res" where
  "main_tt create run = foldRes (thread_life create run) test_threads ([], 0)"

text \<open>What the handshake of \<^verbatim>\<open>start()\<close> guarantees: the thread is the one that was started, with its id.\<close>

definition started_law :: "(thread \<Rightarrow> starting) \<Rightarrow> bool" where
  "started_law run \<longleftrightarrow> (\<forall>th. \<exists>t > 0. st_thread (run th) = th\<lparr>th_started := True, th_tid := t\<rparr>)"

lemma thread_life_ok:
  assumes "started_law run"
  shows "\<exists>t > 0. thread_life 0 run (name, joined) (ths, num) =
     Inr (ths @ [(fst (newThread name num))\<lparr>th_started := True, th_joined := joined, th_tid := t,
       th_detached := \<not> joined\<rparr>], num + 1)"
proof -
  obtain th num' where n: "newThread name num = (th, num')" by (cases "newThread name num")
  from assms obtain t where t: "0 < t" "st_thread (run th) = th\<lparr>th_started := True, th_tid := t\<rparr>"
    by (auto simp: started_law_def)
  from n have "\<not> th_started th" "\<not> th_joined th" "\<not> th_detached th" "num' = num + 1"
    by (auto simp: newThread_def setDefaultName_def Let_def split: if_splits)
  with n t show ?thesis
    by (intro exI [of _ t]) (simp add: thread_life_def start_th_def after_wait_def join_def destroyThread_def)
qed

text \<open>The names that result, \<open>num\<close> threads having been created before.\<close>

fun thread_names :: "(string \<times> bool) list \<Rightarrow> 32 word \<Rightarrow> string list" where
  "thread_names [] num = []"
| "thread_names ((name, joined) # xs) num =
     (if name = [] then take 31 (''Thread'' @ fmt_d (sint (num + 1))) else name) # thread_names xs (num + 1)"

lemma thread_lives_ok:
  assumes "started_law run"
  shows "\<exists>ths'. foldRes (thread_life 0 run) xs (ths, num) = Inr (ths @ ths', num + of_nat (length xs)) \<and>
     map th_name ths' = thread_names xs num \<and> map th_detached ths' = map (Not \<circ> snd) xs"
proof (induction xs arbitrary: ths num)
  case (Cons x xs)
  obtain name joined where x: "x = (name, joined)" by (cases x)
  from thread_life_ok [OF assms, of name joined ths num] obtain t where
    t: "thread_life 0 run x (ths, num) = Inr (ths @ [(fst (newThread name num))\<lparr>th_started := True,
      th_joined := joined, th_tid := t, th_detached := \<not> joined\<rparr>], num + 1)" using x by blast
  have "th_name (fst (newThread name num)) = hd (thread_names (x # xs) num)"
    by (simp add: x newThread_def setDefaultName_def Let_def)
  moreover note Cons.IH [of "ths @ [(fst (newThread name num))\<lparr>th_started := True,
      th_joined := joined, th_tid := t, th_detached := \<not> joined\<rparr>]" "num + 1"]
  ultimately show ?case using t x by (auto simp: algebra_simps)
qed simp

text \<open>
  The program creates six threads, which get their default names from the counter; the two it does not join are
  detached by the destructor. If the system refuses a thread, \<^verbatim>\<open>join\<close> fails its assertion.
\<close>

lemma main_tt_ok:
  assumes "started_law run"
  shows "\<exists>ths. main_tt 0 run = Inr (ths, 6) \<and>
     map th_name ths = [''Thread1'', fst (test_threads ! 1), fst (test_threads ! 2), ''Thread4'', ''Thread5'', ''Thread6''] \<and>
     map th_detached ths = [False, False, False, False, True, True]"
  using thread_lives_ok [OF assms, of test_threads "[]" 0]
  by (auto simp: main_tt_def test_threads_def fmt_d_def digits.simps char_of_def bit_0)

lemma main_tt_refused: "create \<noteq> 0 \<Longrightarrow> main_tt create run = Inl (Assertion ''thread.cpp:184'')"
  by (simp add: main_tt_def test_threads_def thread_life_def newThread_def setDefaultName_def start_th_def join_def Let_def)

section \<open>The loop test\<close>

text \<open>
  \<open>t_loop\<close> is \<^verbatim>\<open>t_loopInThisThread\<close>. The timer callback makes another loop in the same thread and destroys it.
\<close>

definition callback_lt :: "nat \<Rightarrow> nat option \<Rightarrow> nat option" where
  "callback_lt another t_loop = unregister_loop (register_loop another t_loop)"

definition threadFunc_lt :: "nat \<Rightarrow> nat \<Rightarrow> nat option \<Rightarrow> nat option res" where
  "threadFunc_lt loop another t_loop =
     check (getEventLoopOfCurrentThread t_loop = None) ''eventloop_unittest.cpp:25'' (
     let t1 = register_loop loop t_loop
     in check (getEventLoopOfCurrentThread t1 = Some loop) ''eventloop_unittest.cpp:27'' (
        Inr (callback_lt another t1)))"

text \<open>
  The assertions hold in a new thread. The second loop goes unnoticed, and takes the first one's entry with it while that
  one is still looping.
\<close>

lemma threadFunc_lt_ok: "threadFunc_lt loop another None = Inr None"
  by (simp add: threadFunc_lt_def callback_lt_def getEventLoopOfCurrentThread_def register_loop_def unregister_loop_def)

section \<open>The test of the thread pool\<close>

text \<open>The tasks \<^verbatim>\<open>test\<close> hands to the pool, in order; the last one counts the latch down that \<^verbatim>\<open>test\<close> waits for.\<close>

datatype test_task = Print | PrintString string | CountDown

definition test_tasks :: "test_task list" where
  "test_tasks = [Print, Print] @ map (\<lambda>i. PrintString (''task '' @ fmt_d (int i))) [0..<100] @ [CountDown]"

lemma last_only: "x \<notin> set xs \<Longrightarrow> xs @ [x] = ys @ x # zs \<Longrightarrow> zs = []"
  by (cases zs rule: rev_cases) auto

text \<open>
  When the latch is down all tasks have left the queue, whatever the size of the queue and the number of workers: so
  \<^verbatim>\<open>stop\<close>, which does not drain the queue, loses none.
\<close>

lemma test_tasks_taken:
  assumes "reaches pool_step (started_pool maxSize n) p" and "prefix (tp_put p) test_tasks"
    and "CountDown \<in># tp_done p"
  shows "tp_taken p = test_tasks \<and> tp_queue p = []"
proof -
  have q: "tp_put p = tp_taken p @ tp_queue p" "mset (tp_taken p) = w_busy p + tp_done p"
    using pool_sys.inv_reaches [OF assms(1)] by (simp_all add: pool_inv_def tasks_inv_def)
  then have "CountDown \<in> set (tp_taken p)" using assms(3) by (metis set_mset_mset union_iff)
  then obtain xs ys where t: "tp_taken p = xs @ CountDown # ys" by (meson split_list)
  with assms(2) q(1) obtain zs where e: "test_tasks = xs @ CountDown # ys @ tp_queue p @ zs"
    by (auto simp: prefix_def)
  let ?front = "[Print, Print] @ map (\<lambda>i. PrintString (''task '' @ fmt_d (int i))) [0..<100]"
  have "CountDown \<notin> set ?front" by auto
  moreover have "?front @ [CountDown] = xs @ CountDown # (ys @ tp_queue p @ zs)" using e by (simp only: test_tasks_def append_assoc)
  ultimately have "ys @ tp_queue p @ zs = []" by (rule last_only)
  with e t show ?thesis by simp
qed

section \<open>The test of the atomic counter\<close>

text \<open>\<^verbatim>\<open>a0\<close> is an \<^verbatim>\<open>AtomicInt32\<close>; \<open>expect\<close> is an assertion about the result of an operation.\<close>

definition expect :: "string \<Rightarrow> (32 word \<Rightarrow> 32 word \<times> 32 word) \<Rightarrow> 32 word \<Rightarrow> 32 word \<Rightarrow> 32 word res" where
  "expect pos f r v = (let (x, v') = f v in check (x = r) pos (Inr v'))"

definition main_at :: "32 word res" where
  "main_at =
     andThen (expect ''atomic_unittest.cc:7'' get_atomic 0 0) (\<lambda>a.
     andThen (expect ''atomic_unittest.cc:8'' (getAndAdd 1) 0 a) (\<lambda>a.
     andThen (expect ''atomic_unittest.cc:9'' get_atomic 1 a) (\<lambda>a.
     andThen (expect ''atomic_unittest.cc:11'' (addAndGet 2) 3 a) (\<lambda>a.
     andThen (expect ''atomic_unittest.cc:12'' get_atomic 3 a) (\<lambda>a.
     andThen (expect ''atomic_unittest.cc:14'' incrementAndGet 4 a) (\<lambda>a.
     andThen (expect ''atomic_unittest.cc:15'' get_atomic 4 a) (\<lambda>a.
     andThen (expect ''atomic_unittest.cc:18'' get_atomic 5 (increment a)) (\<lambda>a.
     andThen (expect ''atomic_unittest.cc:20'' (addAndGet (- 3)) 2 a) (\<lambda>a.
     andThen (expect ''atomic_unittest.cc:21'' get_atomic 2 a) (\<lambda>a.
     andThen (expect ''atomic_unittest.cc:23'' decrementAndGet 1 a) (\<lambda>a.
     andThen (expect ''atomic_unittest.cc:24'' get_atomic 1 a) (\<lambda>a.
     expect ''atomic_unittest.cc:27'' get_atomic 0 (decrement a)))))))))))))"

lemma main_at_ok: "main_at = Inr 0"
  by (simp add: main_at_def expect_def get_atomic_def getAndAdd_def addAndGet_def incrementAndGet_def decrementAndGet_def
      increment_def decrement_def Let_def)

end
