(* ===== verification/Kaycc_ServerRun.thy ===== *)
theory Kaycc_ServerRun
  imports Kaycc_TcpServer Kaycc_Locality Kaycc_Glue
begin

text \<open>
  A running TcpServer with its loops and its TcpConnections in one state: the model of the server
  (Kaycc\_TcpServer) together with the detailed model of every connection (Kaycc\_TcpConnection), several of
  which share a loop with its poller. Loops are numbers, connections are addresses, and each loop has the queue
  of what it still has to run: the calls the server posted to it and the functors of connections, each
  tagged with its connection. A step is one callback of the acceptor, one channel being handled, one queued
  task, or one access of a call of another thread; the theory of loop steps shows that a loop runs its queue in order.
  A call of another thread holds no lock: that it tests \<^verbatim>\<open>state_\<close>, that it stores \<^verbatim>\<open>kDisconnecting\<close> and that it
  queues its functor are three steps, with any other steps between them.

  \<open>st_closed\<close> records the descriptors closed by destructors. A connection is destroyed when
  \<^verbatim>\<open>connectDestroyed\<close> has run, as the user keeps no pointer to it.
\<close>

section \<open>State\<close>

datatype remote = RSend "byte list" | RShutdown | RForceClose | RForceCloseWithDelay rat

datatype task = Srv sv_task | Conn nat conn_functor

record site =
  st_srv :: server
  st_loops :: "nat \<Rightarrow> conn_loop"
  st_tasks :: "nat \<Rightarrow> task list"
  st_conns :: "nat \<rightharpoonup> conn"
  st_writeComplete :: bool         \<comment> \<open>the server has a \<^verbatim>\<open>writeCompleteCallback_\<close>\<close>
  st_closed :: "int list"
  st_flight :: "nat \<rightharpoonup> nat \<times> remote \<times> bool"
    \<comment> \<open>calls of other threads that have passed their test of \<^verbatim>\<open>state_\<close>: the connection, the function, and whether
      it has nothing (more) to store\<close>

definition enqueue :: "nat \<Rightarrow> task list \<Rightarrow> site \<Rightarrow> site" where
  "enqueue l ts s = s\<lparr>st_tasks := (st_tasks s)(l := st_tasks s l @ ts)\<rparr>"

definition put_conn :: "nat \<Rightarrow> nat \<Rightarrow> conn \<Rightarrow> site \<Rightarrow> site" where
  "put_conn a l c s = s\<lparr>st_conns := (st_conns s)(a \<mapsto> c), st_loops := (st_loops s)(l := tc_loop c)\<rparr>"

text \<open>
  An operation on connection \<open>a\<close> works on the loop of the connection; the functors it queued are
  tagged and moved to the queue of that loop.
\<close>

definition settle :: "nat \<Rightarrow> nat \<Rightarrow> conn \<Rightarrow> site \<Rightarrow> site" where
  "settle a l c s =
     enqueue l (map (Conn a) (el_pending (tc_loop c)))
       (put_conn a l (c\<lparr>tc_loop := (tc_loop c)\<lparr>el_pending := []\<rparr>\<rparr>) s)"

definition on_conn :: "nat \<Rightarrow> (conn \<Rightarrow> conn res) \<Rightarrow> site \<Rightarrow> site res" where
  "on_conn a f s =
     (case st_conns s a of
        None \<Rightarrow> Inl (Undefined ''dangling TcpConnection*'')
      | Some c \<Rightarrow> conn_at (st_srv s) a (\<lambda>(nm, l).
          andThen (f (c\<lparr>tc_loop := st_loops s l\<rparr>)) (\<lambda>c'. Inr (settle a l c' s))))"

section \<open>Operations\<close>

text \<open>\<^verbatim>\<open>TcpServer::removeConnectionInLoop\<close>, with the queued \<^verbatim>\<open>connectDestroyed\<close>.\<close>

definition remove_in_loop :: "nat \<Rightarrow> site \<Rightarrow> site res" where
  "remove_in_loop a s =
     andThen (removeConnectionInLoop a True (st_srv s)) (\<lambda>srv.
     conn_at srv a (\<lambda>(nm, l). Inr (enqueue l [Srv (TDestroy a)] (s\<lparr>st_srv := srv\<rparr>))))"

text \<open>
  The close callback of every connection, \<^verbatim>\<open>TcpServer::removeConnection\<close>: it runs at once in the loop of
  the server and is queued there by any other loop.
\<close>

definition close_callback :: "nat \<Rightarrow> site \<Rightarrow> site res" where
  "close_callback a s =
     conn_at (st_srv s) a (\<lambda>(nm, l).
     let s1 = s\<lparr>st_srv := removeConnection a (st_srv s)\<rparr>
     in if l = sv_loop (st_srv s) then remove_in_loop a s1
        else Inr (enqueue (sv_loop (st_srv s)) [Srv (TRemove a)] s1))"

text \<open>A handler of a connection; if it called \<^verbatim>\<open>closeCallback_\<close>, that runs last.\<close>

definition handler :: "nat \<Rightarrow> (conn \<Rightarrow> conn res) \<Rightarrow> site \<Rightarrow> site res" where
  "handler a f s =
     andThen (on_conn a f s) (\<lambda>s1.
     if map_option tc_closes (st_conns s1 a) = map_option tc_closes (st_conns s a) then Inr s1
     else close_callback a s1)"

definition establish :: "user \<Rightarrow> nat \<Rightarrow> site \<Rightarrow> site res" where
  "establish user a = on_conn a (connectEstablished user a True)"

text \<open>The destructors of a connection, of its channel and of its socket; and these after \<^verbatim>\<open>connectDestroyed\<close>.\<close>

definition delete_conn :: "nat \<Rightarrow> site \<Rightarrow> site res" where
  "delete_conn a s =
     conn_at (st_srv s) a (\<lambda>(nm, l).
     chan_at (st_loops s l) (tc_chan (the (st_conns s a))) (\<lambda>ch.
     andThen (on_conn a destroyTcpConnection s) (\<lambda>s1.
     Inr (s1\<lparr>st_conns := (st_conns s1)(a := None), st_closed := st_closed s1 @ [ch_fd ch]\<rparr>))))"

definition destroy :: "user \<Rightarrow> nat \<Rightarrow> site \<Rightarrow> site res" where
  "destroy user a s = andThen (on_conn a (connectDestroyed user True) s) (delete_conn a)"

text \<open>
  The acceptor's callback: \<open>a\<close> and \<open>chan\<close> are the addresses of the new connection and its channel.
\<close>

definition accept_conn :: "user \<Rightarrow> nat \<Rightarrow> nat \<Rightarrow> int \<Rightarrow> site \<Rightarrow> site res" where
  "accept_conn user a chan fd s =
     andThen (newConnection a True (st_srv s)) (\<lambda>srv.
     conn_at srv a (\<lambda>(nm, l).
     let c = (newTcpConnection (st_loops s l) chan fd)\<lparr>tc_hasWriteComplete := st_writeComplete s\<rparr>;
         s1 = put_conn a l c (s\<lparr>st_srv := srv\<rparr>)
     in if l = sv_loop srv then establish user a s1
        else Inr (enqueue l [Srv (TEstablish a)] s1)))"

fun exec_task :: "user \<Rightarrow> written \<Rightarrow> task \<Rightarrow> site \<Rightarrow> site res" where
  "exec_task user w (Srv TListen) s = Inr s"
| "exec_task user w (Srv (TEstablish a)) s = establish user a s"
| "exec_task user w (Srv (TRemove a)) s = remove_in_loop a s"
| "exec_task user w (Srv (TDestroy a)) s = destroy user a s"
| "exec_task user w (Conn a f) s = handler a (run_functor user w f) s"

definition run_task :: "user \<Rightarrow> written \<Rightarrow> nat \<Rightarrow> site \<Rightarrow> site res" where
  "run_task user w l s =
     (case st_tasks s l of
        [] \<Rightarrow> Inr s
      | t # ts \<Rightarrow> exec_task user w t (s\<lparr>st_tasks := (st_tasks s)(l := ts)\<rparr>))"

text \<open>The channel of a connection as \<^verbatim>\<open>Channel::handleEvent\<close> sees it.\<close>

definition loop_no :: "site \<Rightarrow> nat \<Rightarrow> nat" where
  "loop_no s a = (case sv_conns (st_srv s) a of None \<Rightarrow> 0 | Some (nm, l) \<Rightarrow> l)"

definition get_ch :: "nat \<Rightarrow> site \<Rightarrow> conn_cb channel" where
  "get_ch a s = the (el_channels (st_loops s (loop_no s a)) (tc_chan (the (st_conns s a))))"

definition put_ch :: "nat \<Rightarrow> conn_cb channel \<Rightarrow> site \<Rightarrow> site" where
  "put_ch a ch s =
     s\<lparr>st_loops := (st_loops s)(loop_no s a :=
         put_chan (tc_chan (the (st_conns s a))) ch (st_loops s (loop_no s a)))\<rparr>"

definition run_cb ::
    "user \<Rightarrow> (conn \<Rightarrow> written) \<Rightarrow> (nat \<Rightarrow> int + byte list) \<Rightarrow> nat \<Rightarrow> conn_cb \<Rightarrow> site \<Rightarrow> site res" where
  "run_cb user kw readv a cb s =
     (case cb of
        CbRead \<Rightarrow> handler a (handleRead_conn user readv True) s
      | CbWrite \<Rightarrow> handler a (\<lambda>c. handleWrite (kw c) True c) s
      | CbClose \<Rightarrow> handler a (handleClose user True) s
      | CbError \<Rightarrow> handler a handleError s
      | CbOther n \<Rightarrow> Inr s)"

text \<open>
  The poller reported the events \<open>r\<close> for the channel of connection \<open>a\<close>; the weak pointer of the channel is
  alive as long as the connection is.
\<close>

definition conn_ready ::
    "user \<Rightarrow> (conn \<Rightarrow> written) \<Rightarrow> (nat \<Rightarrow> int + byte list) \<Rightarrow> nat \<Rightarrow> 32 word \<Rightarrow> site \<Rightarrow> site res" where
  "conn_ready user kw readv a r s =
     handleEvent (\<lambda>obj s. st_conns s obj \<noteq> None) (run_cb user kw readv a) (get_ch a) (put_ch a)
       (put_ch a (set_revents r (get_ch a s)) s)"

text \<open>
  Calls of other threads: \<^verbatim>\<open>send\<close>, \<^verbatim>\<open>shutdown\<close>, \<^verbatim>\<open>forceClose\<close> and \<^verbatim>\<open>forceCloseWithDelay\<close>, in three steps. The call \<open>i\<close> of
  \<open>r\<close> on connection \<open>a\<close> tests \<^verbatim>\<open>state_\<close>; if it passes, it is in flight. Then all but \<^verbatim>\<open>send\<close> store \<^verbatim>\<open>kDisconnecting\<close>,
  whatever the state is by then; and at last the functor is queued in the loop of the connection, or the timer is
  started. Queueing and waking up is one step, as the lock of the queue makes it.
\<close>

fun passes :: "remote \<Rightarrow> StateE \<Rightarrow> bool" where
  "passes (RSend data) st \<longleftrightarrow> st = kConnected"
| "passes RShutdown st \<longleftrightarrow> st = kConnected"
| "passes RForceClose st \<longleftrightarrow> st = kConnected \<or> st = kDisconnecting"
| "passes (RForceCloseWithDelay seconds) st \<longleftrightarrow> st = kConnected \<or> st = kDisconnecting"

fun stores :: "remote \<Rightarrow> bool" where
  "stores (RSend data) \<longleftrightarrow> False"
| "stores r \<longleftrightarrow> True"

fun posts :: "remote \<Rightarrow> conn \<Rightarrow> conn" where
  "posts (RSend data) c = conn_queue False (FSend data) c"
| "posts RShutdown c = conn_queue False FShutdown c"
| "posts RForceClose c = conn_queue False FForceClose c"
| "posts (RForceCloseWithDelay seconds) c = c\<lparr>tc_delayed := tc_delayed c @ [seconds]\<rparr>"

definition test_state :: "nat \<Rightarrow> nat \<Rightarrow> remote \<Rightarrow> site \<Rightarrow> site res" where
  "test_state i a r s =
     (case st_conns s a of
        None \<Rightarrow> Inl (Undefined ''dangling TcpConnection*'')
      | Some c \<Rightarrow> Inr (if passes r (tc_state c) then s\<lparr>st_flight := (st_flight s)(i \<mapsto> (a, r, \<not> stores r))\<rparr> else s))"

definition store_state :: "nat \<Rightarrow> site \<Rightarrow> site res" where
  "store_state i s =
     (case st_flight s i of
        Some (a, r, False) \<Rightarrow>
          on_conn a (\<lambda>c. Inr (c\<lparr>tc_state := kDisconnecting\<rparr>)) (s\<lparr>st_flight := (st_flight s)(i \<mapsto> (a, r, True))\<rparr>)
      | _ \<Rightarrow> Inr s)"

definition post_call :: "nat \<Rightarrow> site \<Rightarrow> site res" where
  "post_call i s =
     (case st_flight s i of
        Some (a, r, True) \<Rightarrow> on_conn a (\<lambda>c. Inr (posts r c)) (s\<lparr>st_flight := (st_flight s)(i := None)\<rparr>)
      | _ \<Rightarrow> Inr s)"

text \<open>
  The timer that \<^verbatim>\<open>forceCloseWithDelay\<close> starts calls \<^verbatim>\<open>forceClose\<close> through a WeakCallback. It may expire at any
  time, also when the connection is gone.
\<close>

definition delayed_close :: "nat \<Rightarrow> site \<Rightarrow> site res" where
  "delayed_close a = weakCallback (\<lambda>s. st_conns s a \<noteq> None) (on_conn a (\<lambda>c. Inr (forceClose True c)))"

datatype site_event =
    Accept nat nat int
  | Ready nat "32 word" "conn \<Rightarrow> written" "nat \<Rightarrow> int + byte list"
  | Task nat written
  | Call nat nat remote
  | Store nat
  | Post nat
  | Delayed nat

fun site_step :: "user \<Rightarrow> site_event \<Rightarrow> site \<Rightarrow> site res" where
  "site_step user (Accept a chan fd) s = accept_conn user a chan fd s"
| "site_step user (Ready a r kw readv) s = conn_ready user kw readv a r s"
| "site_step user (Task l w) s = run_task user w l s"
| "site_step user (Call i a r) s = test_state i a r s"
| "site_step user (Store i) s = store_state i s"
| "site_step user (Post i) s = post_call i s"
| "site_step user (Delayed a) s = delayed_close a s"

text \<open>
  What the environment guarantees. A new descriptor is not open and new objects are at unused addresses. The
  kernel reports only events that are watched, errors and hang-ups, and reports a hang-up as readable when
  that is watched; it takes no more than it is given; and the buffers stay below their bound.
\<close>

definition reports :: "32 word \<Rightarrow> 32 word \<Rightarrow> bool" where
  "reports ev r \<longleftrightarrow>
     r AND NOT (ev OR POLLERR OR POLLHUP OR POLLNVAL) = 0 \<and>
     (has_bits r POLLHUP \<and> has_bits ev POLLIN \<longrightarrow> has_bits r POLLIN)"

definition at_rest :: "site \<Rightarrow> nat \<Rightarrow> (conn \<Rightarrow> bool) \<Rightarrow> bool" where
  "at_rest s a P \<longleftrightarrow> (case st_conns s a of None \<Rightarrow> True | Some c \<Rightarrow> P (c\<lparr>tc_loop := st_loops s (loop_no s a)\<rparr>))"

fun site_ok :: "site_event \<Rightarrow> site \<Rightarrow> bool" where
  "site_ok (Accept a chan fd) s \<longleftrightarrow>
     sv_conns (st_srv s) a = None \<and> sv_nextConnId (st_srv s) + 1 < 2 ^ 31 \<and> 0 \<le> fd \<and>
     (\<forall>l. el_channels (st_loops s l) chan = None) \<and>
     (\<forall>l b ch. el_channels (st_loops s l) b = Some ch \<longrightarrow> ch_fd ch \<noteq> fd)"
| "site_ok (Ready a r kw readv) s \<longleftrightarrow>
     st_conns s a \<noteq> None \<and> at_rest s a (\<lambda>c. readv_law readv \<and> read_room readv c \<and> roomy c) \<and>
     (\<forall>c. write_ok (kw c) (length (contents (tc_output c)))) \<and>
     ch_events (get_ch a s) \<noteq> 0 \<and> reports (ch_events (get_ch a s)) r"
| "site_ok (Task l w) s \<longleftrightarrow>
     (case st_tasks s l of Conn a f # ts \<Rightarrow> at_rest s a (op_ok (Functor w f)) | _ \<Rightarrow> True)"
| "site_ok (Call i a r) s \<longleftrightarrow> st_conns s a \<noteq> None \<and> st_flight s i = None"
| "site_ok (Store i) s \<longleftrightarrow> True"
| "site_ok (Post i) s \<longleftrightarrow> True"
| "site_ok (Delayed a) s \<longleftrightarrow> True"

fun site_legal :: "user \<Rightarrow> site_event list \<Rightarrow> site \<Rightarrow> bool" where
  "site_legal user [] s \<longleftrightarrow> True"
| "site_legal user (e # es) s \<longleftrightarrow>
     site_ok e s \<and> (case site_step user e s of Inl f \<Rightarrow> True | Inr s' \<Rightarrow> site_legal user es s')"

text \<open>
  A call of another thread is overtaken when its connection was closed between the test of \<^verbatim>\<open>state_\<close> and one of the later
  steps: \<^verbatim>\<open>kDisconnecting\<close> is stored in a connection that is no longer open, or something is queued for a connection
  that is no longer in the map of the server, so that \<^verbatim>\<open>connectDestroyed\<close> is queued already or has run. Nothing in the
  code keeps this from happening.
\<close>

definition in_state :: "site \<Rightarrow> nat \<Rightarrow> StateE set \<Rightarrow> bool" where
  "in_state s a sts \<longleftrightarrow> (case st_conns s a of None \<Rightarrow> False | Some c \<Rightarrow> tc_state c \<in> sts)"

fun overtaken :: "site_event \<Rightarrow> site \<Rightarrow> bool" where
  "overtaken (Store i) s \<longleftrightarrow>
     (case st_flight s i of Some (a, r, False) \<Rightarrow> \<not> in_state s a {kConnected, kDisconnecting} | _ \<Rightarrow> False)"
| "overtaken (Post i) s \<longleftrightarrow>
     (case st_flight s i of
        Some (a, r, True) \<Rightarrow> \<not> in_state s a {kConnected, kDisconnecting, kDisconnected} \<or> a \<notin> live (st_srv s)
      | _ \<Rightarrow> False)"
| "overtaken e s \<longleftrightarrow> False"

fun in_time :: "user \<Rightarrow> site_event list \<Rightarrow> site \<Rightarrow> bool" where
  "in_time user [] s \<longleftrightarrow> True"
| "in_time user (e # es) s \<longleftrightarrow>
     \<not> overtaken e s \<and> (case site_step user e s of Inl f \<Rightarrow> True | Inr s' \<Rightarrow> in_time user es s')"

section \<open>The invariant of a running server\<close>

named_theorems site_simps "projections of the states of a site"

fun about :: "nat \<Rightarrow> task \<Rightarrow> bool" where
  "about a (Srv TListen) \<longleftrightarrow> False"
| "about a (Srv (TEstablish b)) \<longleftrightarrow> a = b"
| "about a (Srv (TRemove b)) \<longleftrightarrow> a = b"
| "about a (Srv (TDestroy b)) \<longleftrightarrow> a = b"
| "about a (Conn b f) \<longleftrightarrow> a = b"

text \<open>What is still to be run for connection \<open>a\<close> in loop \<open>l\<close>.\<close>

definition own :: "nat \<Rightarrow> site \<Rightarrow> nat \<Rightarrow> task list" where
  "own a s l = filter (about a) (st_tasks s l)"

definition loop_ok :: "conn_loop \<Rightarrow> bool" where
  "loop_ok l \<longleftrightarrow>
     el_inv l \<and> el_pending l = [] \<and> \<not> el_eventHandling l \<and>
     (\<forall>x y cx cy. el_channels l x = Some cx \<longrightarrow> el_channels l y = Some cy \<longrightarrow> ch_fd cx = ch_fd cy \<longrightarrow> x = y)"

definition bound :: "conn_cb channel \<Rightarrow> bool" where
  "bound ch \<longleftrightarrow>
     ch_readCallback ch = Some CbRead \<and> ch_writeCallback ch = Some CbWrite \<and>
     ch_closeCallback ch = Some CbClose \<and> ch_errorCallback ch = Some CbError"

text \<open>
  A connection goes through five phases: waiting to be established; open; closed and waiting to be taken
  out of the map of the server; closed and waiting to be destroyed; gone. In each the tasks about it are
  exactly those that lead to the next one, besides its own functors. \<open>B\<close> is the set of connections whose
  channel is being handled.
\<close>

definition conn_ok :: "nat set \<Rightarrow> site \<Rightarrow> nat \<Rightarrow> conn \<Rightarrow> nat \<Rightarrow> bool" where
  "conn_ok B s a c l \<longleftrightarrow>
     (\<exists>nm. sv_conns (st_srv s) a = Some (nm, l)) \<and>
     (\<exists>ch. el_channels (st_loops s l) (tc_chan c) = Some ch \<and> ch_eventHandling ch = (a \<in> B) \<and> bound ch \<and>
        (if tc_state c = kConnecting
         then connecting_conn (c\<lparr>tc_loop := st_loops s l\<rparr>) ch \<and> own a s l = [Srv (TEstablish a)]
         else conn_inv (c\<lparr>tc_loop := st_loops s l\<rparr>) \<and> ch_tied ch \<and> ch_tie ch = Some a \<and>
           (\<exists>fs. FStartRead \<notin> set fs \<and>
              own a s l = map (Conn a) fs @ (if a \<in> live (st_srv s) then [] else [Srv (TDestroy a)])))) \<and>
     (\<forall>m. m \<noteq> l \<longrightarrow> own a s m =
        (if tc_state c = kDisconnected \<and> a \<in> live (st_srv s) \<and> m = sv_loop (st_srv s) then [Srv (TRemove a)] else [])) \<and>
     (tc_state c = kDisconnected \<and> a \<in> live (st_srv s) \<longrightarrow> l \<noteq> sv_loop (st_srv s)) \<and>
     (tc_state c \<noteq> kDisconnected \<longrightarrow> a \<in> live (st_srv s)) \<and>
     tc_closes c = (if tc_state c = kDisconnected then 1 else 0)"

definition site_inv :: "nat set \<Rightarrow> site \<Rightarrow> bool" where
  "site_inv B s \<longleftrightarrow>
     sv_inv (st_srv s) \<and> (\<forall>l. loop_ok (st_loops s l)) \<and>
     (\<forall>a b c d. st_conns s a = Some c \<longrightarrow> st_conns s b = Some d \<longrightarrow> a \<noteq> b \<longrightarrow> tc_chan c \<noteq> tc_chan d) \<and>
     (\<forall>a. st_conns s a = None \<longrightarrow> a \<notin> live (st_srv s) \<and> (\<forall>m. own a s m = [])) \<and>
     (\<forall>a c. st_conns s a = Some c \<longrightarrow> (\<exists>l. conn_ok B s a c l))"

lemma site_invD:
  assumes "site_inv B s"
  shows "sv_inv (st_srv s)" and "loop_ok (st_loops s l)"
    and "st_conns s a = Some c \<Longrightarrow> st_conns s b = Some d \<Longrightarrow> a \<noteq> b \<Longrightarrow> tc_chan c \<noteq> tc_chan d"
    and "st_conns s a = None \<Longrightarrow> a \<notin> live (st_srv s)" and "st_conns s a = None \<Longrightarrow> own a s m = []"
    and "st_conns s a = Some c \<Longrightarrow> \<exists>l. conn_ok B s a c l"
  using assms by (auto simp: site_inv_def)

lemma reg_fd:
  assumes "el_inv l" and "el_reg l fd = Some x"
  shows "\<exists>ch. el_channels l x = Some ch \<and> ch_fd ch = fd"
  using assms by (cases "el_poller l") (auto simp: el_inv_def el_reg_def dest: ep_inv_regD pp_inv_regD)

text \<open>A connection does not notice what is confined to the channel of another one.\<close>

lemma connecting_kept:
  assumes c: "connecting_conn (c\<lparr>tc_loop := l\<rparr>) ch" and x: "tc_chan c \<noteq> x"
    and kept: "others_kept x l l'" and ok: "loop_ok l'"
  shows "\<exists>i. el_channels l' (tc_chan c) = Some (ch\<lparr>ch_index := i\<rparr>) \<and>
     connecting_conn (c\<lparr>tc_loop := l'\<rparr>) (ch\<lparr>ch_index := i\<rparr>)"
proof -
  have C: "el_channels l (tc_chan c) = Some ch" "ch_events ch = 0" "el_reg l (ch_fd ch) = None"
    using c by (simp_all add: connecting_conn_def)
  from others_kept_chan [OF kept C(1) x] obtain i where i: "el_channels l' (tc_chan c) = Some (ch\<lparr>ch_index := i\<rparr>)" .
  have "el_reg l' (ch_fd ch) = None"
  proof (rule ccontr)
    assume "el_reg l' (ch_fd ch) \<noteq> None"
    then obtain y where y: "el_reg l' (ch_fd ch) = Some y" by auto
    have "el_inv l'" using ok by (simp add: loop_ok_def)
    from reg_fd [OF this y] obtain cy where "el_channels l' y = Some cy" "ch_fd cy = ch_fd ch" by blast
    with i ok have "y = tc_chan c" unfolding loop_ok_def by fastforce
    with y x kept C(3) show False by (simp add: others_kept_def)
  qed
  with i c ok show ?thesis by (auto simp: connecting_conn_def loop_ok_def)
qed

lemma conn_inv_kept:
  assumes c: "conn_inv (c\<lparr>tc_loop := l\<rparr>)" and x: "tc_chan c \<noteq> x"
    and kept: "others_kept x l l'" and inv: "el_inv l'"
  shows "conn_inv (c\<lparr>tc_loop := l'\<rparr>)"
proof -
  obtain ch where ch: "chan_inv (c\<lparr>tc_loop := l\<rparr>) ch" using c by (auto simp: conn_inv_def)
  then have "el_channels l (tc_chan c) = Some ch" by (simp add: chan_inv_def)
  from others_kept_chan [OF kept this x] obtain i where "el_channels l' (tc_chan c) = Some (ch\<lparr>ch_index := i\<rparr>)" .
  moreover have "isWriting (ch\<lparr>ch_index := i\<rparr>) = isWriting ch" by (simp add: isWriting_def)
  ultimately have "chan_inv (c\<lparr>tc_loop := l'\<rparr>) (ch\<lparr>ch_index := i\<rparr>)"
    using ch x kept by (simp add: chan_inv_def others_kept_def)
  with c inv show ?thesis by (auto simp: conn_inv_def)
qed

lemma conn_ok_kept:
  assumes ok: "conn_ok B s b d l" and x: "tc_chan d \<noteq> x"
    and kept: "others_kept x (st_loops s l) (st_loops s' l)" and lok: "loop_ok (st_loops s' l)"
    and same: "sv_conns (st_srv s') b = sv_conns (st_srv s) b" "sv_loop (st_srv s') = sv_loop (st_srv s)"
      "b \<in> live (st_srv s') \<longleftrightarrow> b \<in> live (st_srv s)" "\<And>m. own b s' m = own b s m"
      "b \<in> B' \<longleftrightarrow> b \<in> B"
  shows "conn_ok B' s' b d l"
proof -
  obtain ch where ch: "el_channels (st_loops s l) (tc_chan d) = Some ch" "ch_eventHandling ch = (b \<in> B)" "bound ch"
    "if tc_state d = kConnecting
     then connecting_conn (d\<lparr>tc_loop := st_loops s l\<rparr>) ch \<and> own b s l = [Srv (TEstablish b)]
     else conn_inv (d\<lparr>tc_loop := st_loops s l\<rparr>) \<and> ch_tied ch \<and> ch_tie ch = Some b \<and>
       (\<exists>fs. FStartRead \<notin> set fs \<and>
          own b s l = map (Conn b) fs @ (if b \<in> live (st_srv s) then [] else [Srv (TDestroy b)]))"
    using ok unfolding conn_ok_def by blast
  obtain i where i: "el_channels (st_loops s' l) (tc_chan d) = Some (ch\<lparr>ch_index := i\<rparr>)"
    "tc_state d = kConnecting \<Longrightarrow> connecting_conn (d\<lparr>tc_loop := st_loops s' l\<rparr>) (ch\<lparr>ch_index := i\<rparr>)"
    using connecting_kept [OF _ x kept lok, of ch] ch(4) others_kept_chan [OF kept ch(1) x] by (metis (full_types))
  have "tc_state d \<noteq> kConnecting \<Longrightarrow> conn_inv (d\<lparr>tc_loop := st_loops s' l\<rparr>)"
    using conn_inv_kept [OF _ x kept] ch(4) lok by (simp add: loop_ok_def)
  with ch i have "\<exists>ch. el_channels (st_loops s' l) (tc_chan d) = Some ch \<and> ch_eventHandling ch = (b \<in> B') \<and> bound ch \<and>
     (if tc_state d = kConnecting
      then connecting_conn (d\<lparr>tc_loop := st_loops s' l\<rparr>) ch \<and> own b s' l = [Srv (TEstablish b)]
      else conn_inv (d\<lparr>tc_loop := st_loops s' l\<rparr>) \<and> ch_tied ch \<and> ch_tie ch = Some b \<and>
        (\<exists>fs. FStartRead \<notin> set fs \<and>
           own b s' l = map (Conn b) fs @ (if b \<in> live (st_srv s') then [] else [Srv (TDestroy b)])))"
    by (intro exI [of _ "ch\<lparr>ch_index := i\<rparr>"]) (simp add: same bound_def)
  with ok show ?thesis unfolding conn_ok_def same by blast
qed

text \<open>A step that concerns one connection, and the channel at \<open>x\<close> only.\<close>

definition only_about :: "nat \<Rightarrow> nat \<Rightarrow> site \<Rightarrow> site \<Rightarrow> bool" where
  "only_about a x s s' \<longleftrightarrow>
     sv_loop (st_srv s') = sv_loop (st_srv s) \<and>
     (\<forall>l. others_kept x (st_loops s l) (st_loops s' l)) \<and>
     (\<forall>b. b \<noteq> a \<longrightarrow> st_conns s' b = st_conns s b \<and> sv_conns (st_srv s') b = sv_conns (st_srv s) b \<and>
        (b \<in> live (st_srv s') \<longleftrightarrow> b \<in> live (st_srv s)) \<and> (\<forall>m. own b s' m = own b s m))"

lemma site_inv_change:
  assumes inv: "site_inv B s" and only: "only_about a x s s'" and B: "B' - {a} = B - {a}"
    and x: "\<And>b d. b \<noteq> a \<Longrightarrow> st_conns s b = Some d \<Longrightarrow> tc_chan d \<noteq> x"
    and srv: "sv_inv (st_srv s')" and loops: "\<And>l. loop_ok (st_loops s' l)"
    and gone: "st_conns s' a = None \<Longrightarrow> a \<notin> live (st_srv s') \<and> (\<forall>m. own a s' m = [])"
    and here: "\<And>c. st_conns s' a = Some c \<Longrightarrow> tc_chan c = x \<and> (\<exists>l. conn_ok B' s' a c l)"
  shows "site_inv B' s'"
proof -
  note D = site_invD [OF inv]
  have eq: "st_conns s' b = st_conns s b" "sv_conns (st_srv s') b = sv_conns (st_srv s) b"
    "b \<in> live (st_srv s') \<longleftrightarrow> b \<in> live (st_srv s)" "\<And>m. own b s' m = own b s m" if "b \<noteq> a" for b
    using only that by (simp_all add: only_about_def)
  have others: "\<exists>l. conn_ok B' s' b d l" if b: "b \<noteq> a" "st_conns s' b = Some d" for b d
  proof -
    have d: "st_conns s b = Some d" using b eq(1) by simp
    from D(6) [OF this] obtain l where ok: "conn_ok B s b d l" by blast
    have kept: "others_kept x (st_loops s l) (st_loops s' l)" and sl: "sv_loop (st_srv s') = sv_loop (st_srv s)"
      using only by (simp_all add: only_about_def)
    have "b \<in> B' \<longleftrightarrow> b \<in> B" using B b(1) by blast
    with conn_ok_kept [OF ok x [OF b(1) d] kept loops eq(2) [OF b(1)] sl eq(3,4) [OF b(1)]] show ?thesis by blast
  qed
  have "tc_chan c \<noteq> tc_chan d" if "st_conns s' b = Some c" "st_conns s' e = Some d" "b \<noteq> e" for b c e d
  proof -
    have alone: "tc_chan f \<noteq> x" if "st_conns s' g = Some f" "g \<noteq> a" for f g using that x eq(1) by simp
    show ?thesis
    proof (cases "b = a \<or> e = a")
      case True
      with that here alone show ?thesis by metis
    next
      case False
      with that D(3) [of b c e d] eq(1) show ?thesis by simp
    qed
  qed
  moreover have "b \<notin> live (st_srv s') \<and> (\<forall>m. own b s' m = [])" if "st_conns s' b = None" for b
    using that gone D(4,5) [of b] eq [of b] by (cases "b = a") auto
  moreover have "\<exists>l. conn_ok B' s' b d l" if "st_conns s' b = Some d" for b d
    using that others here by (cases "b = a") auto
  ultimately show ?thesis using srv loops unfolding site_inv_def by blast
qed

lemma enqueue_simps [site_simps]:
  "st_srv (enqueue l ts s) = st_srv s" "st_loops (enqueue l ts s) = st_loops s"
  "st_conns (enqueue l ts s) = st_conns s"
  "own b (enqueue l ts s) m = own b s m @ (if m = l then filter (about b) ts else [])"
  by (simp_all add: enqueue_def own_def)

lemma own_upd [site_simps]:
  "own b (s\<lparr>st_srv := srv\<rparr>) m = own b s m" "own b (s\<lparr>st_loops := ls\<rparr>) m = own b s m"
  "own b (s\<lparr>st_conns := cs\<rparr>) m = own b s m" "own b (s\<lparr>st_closed := fds\<rparr>) m = own b s m"
  "own b (s\<lparr>st_flight := fl\<rparr>) m = own b s m"
  by (simp_all add: own_def)

lemma put_conn_simps [site_simps]:
  "st_srv (put_conn a l c s) = st_srv s" "st_loops (put_conn a l c s) = (st_loops s)(l := tc_loop c)"
  "st_conns (put_conn a l c s) = (st_conns s)(a \<mapsto> c)" "own b (put_conn a l c s) m = own b s m"
  by (simp_all add: put_conn_def site_simps)

lemma filter_about [simp]:
  "filter (about a) (map (Conn a) fs) = map (Conn a) fs" "a \<noteq> b \<Longrightarrow> filter (about b) (map (Conn a) fs) = []"
  by (induction fs) auto

lemma settle_simps [site_simps]:
  "st_srv (settle a l c s) = st_srv s"
  "st_loops (settle a l c s) = (st_loops s)(l := (tc_loop c)\<lparr>el_pending := []\<rparr>)"
  "st_conns (settle a l c s) = (st_conns s)(a \<mapsto> c\<lparr>tc_loop := (tc_loop c)\<lparr>el_pending := []\<rparr>\<rparr>)"
  "own b (settle a l c s) m = own b s m @ (if m = l \<and> b = a then map (Conn a) (el_pending (tc_loop c)) else [])"
  by (auto simp: settle_def site_simps)

text \<open>What is in flight does not matter to the invariant.\<close>

lemma flight_irrelevant [simp]: "site_inv B (s\<lparr>st_flight := fl\<rparr>) = site_inv B s"
  by (simp add: site_inv_def conn_ok_def own_def)

text \<open>The queue of functors does not matter to the other parts of a loop.\<close>

lemma pending_irrelevant [site_simps]:
  "el_inv (l\<lparr>el_pending := fs\<rparr>) = el_inv l" "el_reg (l\<lparr>el_pending := fs\<rparr>) = el_reg l"
  "others_kept x m (l\<lparr>el_pending := fs\<rparr>) = others_kept x m l"
  "conn_inv (c\<lparr>tc_loop := l\<lparr>el_pending := fs\<rparr>\<rparr>) = conn_inv (c\<lparr>tc_loop := l\<rparr>)"
  "connecting_conn (c\<lparr>tc_loop := l\<lparr>el_pending := fs\<rparr>\<rparr>) ch = connecting_conn (c\<lparr>tc_loop := l\<rparr>) ch"
  by (simp_all add: el_inv_def el_reg_def others_kept_def conn_inv_def chan_inv_def connecting_conn_def)

text \<open>What a confined operation leaves of the loop.\<close>

lemma loop_ok_others:
  assumes ok: "loop_ok l" and kept: "others_kept x l l'" and inv: "el_inv l'"
    and fd: "\<And>ch'. el_channels l' x = Some ch' \<Longrightarrow> \<exists>ch. el_channels l x = Some ch \<and> ch_fd ch' = ch_fd ch"
  shows "loop_ok (l'\<lparr>el_pending := []\<rparr>)"
proof -
  have src: "\<exists>ch. el_channels l y = Some ch \<and> ch_fd ch = ch_fd ch'" if "el_channels l' y = Some ch'" for y ch'
  proof (cases "y = x")
    case False
    then have "map_option no_index (el_channels l' y) = map_option no_index (el_channels l y)"
      using kept by (simp add: others_kept_def)
    then have "map_option no_index (el_channels l y) = Some (no_index ch')" using that by simp
    then obtain ch where "el_channels l y = Some ch" "no_index ch = no_index ch'" by auto
    moreover from this(2) have "ch_fd ch = ch_fd ch'" by (cases ch; cases ch') (simp add: no_index_def)
    ultimately show ?thesis by blast
  qed (use fd that in force)
  then have "y = z" if "el_channels l' y = Some cy" "el_channels l' z = Some cz" "ch_fd cy = ch_fd cz" for y z cy cz
    using ok that unfolding loop_ok_def by metis
  with ok kept inv show ?thesis by (auto simp: loop_ok_def others_kept_def site_simps)
qed

lemma confined_parts:
  assumes "confined c c'" and "loop_ok (tc_loop c)" and "el_inv (tc_loop c')"
  shows "others_kept (tc_chan c) (tc_loop c) (tc_loop c')" and "tc_chan c' = tc_chan c"
    and "loop_ok ((tc_loop c')\<lparr>el_pending := []\<rparr>)" and "FStartRead \<notin> set (el_pending (tc_loop c'))"
    and "el_channels (tc_loop c) (tc_chan c) = Some ch \<Longrightarrow>
      \<exists>ch'. el_channels (tc_loop c') (tc_chan c) = Some ch' \<and> identity ch' = identity ch"
proof -
  have K: "others_kept (tc_chan c) (tc_loop c) (tc_loop c')" "tc_chan c' = tc_chan c"
    "map_option identity (el_channels (tc_loop c') (tc_chan c)) = map_option identity (el_channels (tc_loop c) (tc_chan c))"
    using assms(1) by (simp_all add: confined_def confined_to_def)
  then show "others_kept (tc_chan c) (tc_loop c) (tc_loop c')" "tc_chan c' = tc_chan c" by simp_all
  have "\<exists>ch. el_channels (tc_loop c) (tc_chan c) = Some ch \<and> ch_fd ch' = ch_fd ch"
    if "el_channels (tc_loop c') (tc_chan c) = Some ch'" for ch'
    using K(3) that by (cases "el_channels (tc_loop c) (tc_chan c)") (auto dest: identityD(1))
  from loop_ok_others [OF assms(2) K(1) assms(3) this] show "loop_ok ((tc_loop c')\<lparr>el_pending := []\<rparr>)" .
  show "FStartRead \<notin> set (el_pending (tc_loop c'))"
    using assms(1,2) by (auto simp: confined_def loop_ok_def)
  show "\<exists>ch'. el_channels (tc_loop c') (tc_chan c) = Some ch' \<and> identity ch' = identity ch"
    if "el_channels (tc_loop c) (tc_chan c) = Some ch"
    using K(3) that by auto
qed

end
