(* ===== verification/Kaycc_ServerSafe.thy ===== *)
theory Kaycc_ServerSafe
  imports Kaycc_ServerRun
begin

text \<open>
  Every step of a running server keeps the invariant of Kaycc\_ServerRun: no assertion of the server, a
  connection, a channel, a buffer or a poller fails, and no pointer is used after its object is gone.
\<close>

section \<open>Operations of one connection\<close>

lemma conn_ok_parts:
  assumes "conn_ok B s a c l"
  shows "\<exists>nm. sv_conns (st_srv s) a = Some (nm, l)"
    and "m \<noteq> l \<Longrightarrow> own a s m =
      (if tc_state c = kDisconnected \<and> a \<in> live (st_srv s) \<and> m = sv_loop (st_srv s) then [Srv (TRemove a)] else [])"
    and "tc_state c = kDisconnected \<Longrightarrow> a \<in> live (st_srv s) \<Longrightarrow> l \<noteq> sv_loop (st_srv s)"
    and "tc_state c \<noteq> kDisconnected \<Longrightarrow> a \<in> live (st_srv s)"
    and "tc_closes c = (if tc_state c = kDisconnected then 1 else 0)"
  using assms by (auto simp: conn_ok_def)

text \<open>In a loop other than its own, the only task about a connection is its removal from the map.\<close>

lemma conn_ok_elsewhere:
  assumes "conn_ok B s a c k" and "own a s l = t # ts" and "l \<noteq> k"
  shows "t = Srv (TRemove a) \<and> ts = [] \<and> tc_state c = kDisconnected \<and> a \<in> live (st_srv s) \<and> l = sv_loop (st_srv s)"
  using conn_ok_parts(2) [OF assms(1,3)] assms(2) by (simp split: if_splits)

lemma conn_ok_established:
  assumes "conn_ok B s a c l" and "tc_state c \<noteq> kConnecting"
  obtains ch fs where "el_channels (st_loops s l) (tc_chan c) = Some ch" and "ch_eventHandling ch = (a \<in> B)"
    and "bound ch" and "ch_tied ch" and "ch_tie ch = Some a" and "conn_inv (c\<lparr>tc_loop := st_loops s l\<rparr>)"
    and "FStartRead \<notin> set fs"
    and "own a s l = map (Conn a) fs @ (if a \<in> live (st_srv s) then [] else [Srv (TDestroy a)])"
  using assms by (auto simp: conn_ok_def)

lemma conn_ok_establishedI:
  assumes "sv_conns (st_srv s) a = Some (nm, l)" and "tc_state c \<noteq> kConnecting"
    and "el_channels (st_loops s l) (tc_chan c) = Some ch \<and> ch_eventHandling ch = (a \<in> B) \<and> bound ch \<and>
      ch_tied ch \<and> ch_tie ch = Some a" and "conn_inv (c\<lparr>tc_loop := st_loops s l\<rparr>)"
    and "FStartRead \<notin> set fs"
      "own a s l = map (Conn a) fs @ (if a \<in> live (st_srv s) then [] else [Srv (TDestroy a)])"
    and "\<And>m. m \<noteq> l \<Longrightarrow> own a s m =
      (if tc_state c = kDisconnected \<and> a \<in> live (st_srv s) \<and> m = sv_loop (st_srv s) then [Srv (TRemove a)] else [])"
    and "tc_state c = kDisconnected \<Longrightarrow> a \<in> live (st_srv s) \<Longrightarrow> l \<noteq> sv_loop (st_srv s)"
    and "tc_state c \<noteq> kDisconnected \<Longrightarrow> a \<in> live (st_srv s)"
    and "tc_closes c = (if tc_state c = kDisconnected then 1 else 0)"
  shows "conn_ok B s a c l"
  using assms unfolding conn_ok_def by auto

lemma settle_only_about:
  "others_kept x (st_loops s l) (tc_loop c') \<Longrightarrow> only_about a x s (settle a l c' s)"
  by (simp add: only_about_def site_simps)

text \<open>The channel and the queue of a connection after one of its operations.\<close>

lemma settled_chan:
  assumes ok: "conn_ok B s a c l" and st: "tc_state c \<noteq> kConnecting" and loop: "loop_ok (st_loops s l)"
    and inv: "conn_inv c'" and conf: "confined (c\<lparr>tc_loop := st_loops s l\<rparr>) c'"
  obtains ch fs where "el_channels (tc_loop c') (tc_chan c) = Some ch" and "ch_eventHandling ch = (a \<in> B)"
    and "bound ch" and "ch_tied ch" and "ch_tie ch = Some a"
    and "conn_inv (c'\<lparr>tc_loop := (tc_loop c')\<lparr>el_pending := []\<rparr>\<rparr>)"
    and "FStartRead \<notin> set (fs @ el_pending (tc_loop c'))"
    and "own a s l = map (Conn a) fs @ (if a \<in> live (st_srv s) then [] else [Srv (TDestroy a)])"
    and "tc_chan c' = tc_chan c" and "others_kept (tc_chan c) (st_loops s l) (tc_loop c')"
    and "loop_ok ((tc_loop c')\<lparr>el_pending := []\<rparr>)"
proof -
  obtain ch fs where ch: "el_channels (st_loops s l) (tc_chan c) = Some ch" "ch_eventHandling ch = (a \<in> B)"
    "bound ch" "ch_tied ch" "ch_tie ch = Some a"
    and fs: "FStartRead \<notin> set fs"
      "own a s l = map (Conn a) fs @ (if a \<in> live (st_srv s) then [] else [Srv (TDestroy a)])"
    using ok st by (rule conn_ok_established)
  have el: "el_inv (tc_loop c')" using inv by (rule conn_invD)
  note P = confined_parts [OF conf, simplified, OF loop el]
  from P(5) [OF ch(1)] obtain ch' where ch': "el_channels (tc_loop c') (tc_chan c) = Some ch'" "identity ch' = identity ch"
    by blast
  note I = identityD [OF ch'(2)]
  show thesis
    by (rule that [OF ch'(1)]) (use ch fs I P inv in \<open>simp_all add: bound_def site_simps\<close>)
qed

lemma settle_kept:
  assumes inv: "site_inv B s" and c: "st_conns s a = Some c" and ok: "conn_ok B s a c l"
    and st: "tc_state c \<noteq> kConnecting" and c': "conn_inv c'"
    and conf: "confined (c\<lparr>tc_loop := st_loops s l\<rparr>) c'"
    and C: "tc_closes c' = tc_closes c" "tc_state c' = kDisconnected \<longleftrightarrow> tc_state c = kDisconnected"
      "tc_state c' \<noteq> kConnecting" "a \<notin> live (st_srv s) \<Longrightarrow> el_pending (tc_loop c') = []"
  shows "site_inv B (settle a l c' s)"
proof -
  note D = site_invD [OF inv]
  obtain ch fs where ch: "el_channels (tc_loop c') (tc_chan c) = Some ch" "ch_eventHandling ch = (a \<in> B)"
    "bound ch" "ch_tied ch" "ch_tie ch = Some a" "conn_inv (c'\<lparr>tc_loop := (tc_loop c')\<lparr>el_pending := []\<rparr>\<rparr>)"
    "FStartRead \<notin> set (fs @ el_pending (tc_loop c'))"
    "own a s l = map (Conn a) fs @ (if a \<in> live (st_srv s) then [] else [Srv (TDestroy a)])"
    and x: "tc_chan c' = tc_chan c" "others_kept (tc_chan c) (st_loops s l) (tc_loop c')"
    "loop_ok ((tc_loop c')\<lparr>el_pending := []\<rparr>)"
    using settled_chan [OF ok st D(2) c' conf] .
  note P = conn_ok_parts [OF ok]
  have "own a (settle a l c' s) l = map (Conn a) (fs @ el_pending (tc_loop c')) @
      (if a \<in> live (st_srv s) then [] else [Srv (TDestroy a)])"
    using ch(8) C(4) by (cases "a \<in> live (st_srv s)") (auto simp: site_simps)
  then have here: "conn_ok B (settle a l c' s) a (c'\<lparr>tc_loop := (tc_loop c')\<lparr>el_pending := []\<rparr>\<rparr>) l"
    using P(1) by (elim exE, intro conn_ok_establishedI [where fs = "fs @ el_pending (tc_loop c')"]) (use ch(1-7) P C x(1) in \<open>simp_all add: site_simps\<close>)
  show ?thesis
  proof (rule site_inv_change [OF inv settle_only_about [OF x(2)] refl])
    show "tc_chan d \<noteq> tc_chan c" if "b \<noteq> a" "st_conns s b = Some d" for b d using D(3) [OF that(2) c that(1)] .
    show "loop_ok (st_loops (settle a l c' s) m)" for m using D(2) x(3) by (simp add: site_simps)
  qed (use here x(1) D(1) in \<open>auto simp: site_simps\<close>)
qed

lemma settle_calm:
  assumes inv: "site_inv B s" and c: "st_conns s a = Some c" and ok: "conn_ok B s a c l"
    and st: "tc_state c \<noteq> kConnecting" and c': "conn_inv c'"
    and conf: "confined (c\<lparr>tc_loop := st_loops s l\<rparr>) c'" and calm: "calm (c\<lparr>tc_loop := st_loops s l\<rparr>) c'"
  shows "site_inv B (settle a l c' s)"
proof (rule settle_kept [OF inv c ok st c' conf])
  show "el_pending (tc_loop c') = []" if "a \<notin> live (st_srv s)"
    using calm conn_ok_parts(4) [OF ok] site_invD(2) [OF inv, of l] that by (auto simp: calm_def loop_ok_def)
qed (use calm st in \<open>simp_all add: calm_def\<close>)

text \<open>\<^verbatim>\<open>TcpServer::removeConnection\<close> as a connection calls it when it closed.\<close>

lemma sv_inv_posted:
  assumes "sv_inv s"
  shows "sv_inv (removeConnection a s)" and "live (removeConnection a s) = live s"
    and "sv_conns (removeConnection a s) = sv_conns s" and "sv_loop (removeConnection a s) = sv_loop s"
proof -
  have "handed b (removeConnection a s) = handed b s" "conn_name (removeConnection a s) = conn_name s" for b
    by (simp_all add: handed_def removeConnection_def post_def conn_name_def fun_eq_iff)
  moreover have "sv_names_ok (removeConnection a s) = sv_names_ok s"
    unfolding sv_names_ok_def calculation(2) by (simp add: removeConnection_def post_def)
  moreover show "live (removeConnection a s) = live s" "sv_conns (removeConnection a s) = sv_conns s"
    "sv_loop (removeConnection a s) = sv_loop s"
    by (simp_all add: live_def removeConnection_def post_def)
  ultimately show "sv_inv (removeConnection a s)"
    using assms unfolding sv_inv_def by (simp add: removeConnection_def post_def)
qed

lemma remove_in_loop_ok:
  assumes srv: "sv_inv (st_srv s)" and a: "a \<in> live (st_srv s)" and l: "sv_conns (st_srv s) a = Some (nm, l)"
  obtains srv where "remove_in_loop a s = Inr (enqueue l [Srv (TDestroy a)] (s\<lparr>st_srv := srv\<rparr>))" and "sv_inv srv"
    and "sv_loop srv = sv_loop (st_srv s)" and "sv_conns srv = sv_conns (st_srv s)"
    and "live srv = live (st_srv s) - {a}"
proof -
  from removeConnectionInLoop_ok [OF srv a] obtain srv' where
    r: "removeConnectionInLoop a True (st_srv s) = Inr srv'" "sv_inv srv'" "sv_loop srv' = sv_loop (st_srv s)"
      "sv_conns srv' = sv_conns (st_srv s)" "live srv' = live (st_srv s) - {a}" by blast
  moreover have "remove_in_loop a s = Inr (enqueue l [Srv (TDestroy a)] (s\<lparr>st_srv := srv'\<rparr>))"
    using r l by (simp add: remove_in_loop_def conn_at_def)
  ultimately show thesis using that by blast
qed

lemma close_callback_ok:
  assumes srv: "sv_inv (st_srv s)" and a: "a \<in> live (st_srv s)" and l: "sv_conns (st_srv s) a = Some (nm, l)"
  obtains srv where "sv_inv srv" and "sv_loop srv = sv_loop (st_srv s)" and "sv_conns srv = sv_conns (st_srv s)"
    and "live srv = (if l = sv_loop (st_srv s) then live (st_srv s) - {a} else live (st_srv s))"
    and "close_callback a s = Inr (if l = sv_loop (st_srv s) then enqueue l [Srv (TDestroy a)] (s\<lparr>st_srv := srv\<rparr>)
       else enqueue (sv_loop (st_srv s)) [Srv (TRemove a)] (s\<lparr>st_srv := srv\<rparr>))"
proof -
  note S = sv_inv_posted [OF srv, of a]
  let ?s = "s\<lparr>st_srv := removeConnection a (st_srv s)\<rparr>"
  show thesis
  proof (cases "l = sv_loop (st_srv s)")
    case True
    have "sv_inv (st_srv ?s)" "a \<in> live (st_srv ?s)" "sv_conns (st_srv ?s) a = Some (nm, l)"
      using S a l by simp_all
    from remove_in_loop_ok [OF this] obtain srv' where
      "remove_in_loop a ?s = Inr (enqueue l [Srv (TDestroy a)] (?s\<lparr>st_srv := srv'\<rparr>))"
      "sv_inv srv'" "sv_loop srv' = sv_loop (st_srv ?s)" "sv_conns srv' = sv_conns (st_srv ?s)"
      "live srv' = live (st_srv ?s) - {a}" .
    with True l S show thesis by (intro that) (simp_all add: close_callback_def conn_at_def)
  next
    case False
    with l S show thesis by (intro that [OF S(1)]) (simp_all add: close_callback_def conn_at_def Let_def)
  qed
qed

text \<open>
  A handler that keeps the invariant of its connection, touches nothing else and closes the connection at
  most once keeps the invariant of the site.
\<close>

lemma settle_closing:
  assumes inv: "site_inv B s" and c: "st_conns s a = Some c" and ok: "conn_ok B s a c l" and c': "conn_inv c'"
    and conf: "confined (c\<lparr>tc_loop := st_loops s l\<rparr>) c'" and closing: "closing (c\<lparr>tc_loop := st_loops s l\<rparr>) c'"
  shows "\<exists>s'. close_callback a (settle a l c' s) = Inr s' \<and> site_inv B s' \<and> st_loops s' = st_loops (settle a l c' s) \<and>
     st_conns s' = st_conns (settle a l c' s) \<and> sv_conns (st_srv s') = sv_conns (st_srv s)"
proof -
  note D = site_invD [OF inv] and P = conn_ok_parts [OF ok]
  let ?c = "c'\<lparr>tc_loop := (tc_loop c')\<lparr>el_pending := []\<rparr>\<rparr>" and ?s = "settle a l c' s"
  have C: "tc_closes c' = 1" "tc_state c' = kDisconnected" "tc_state c \<noteq> kConnecting" "a \<in> live (st_srv s)"
    "tc_state c \<noteq> kDisconnected"
    using closing P(4,5) by (auto simp: closing_def split: if_splits)
  obtain ch fs where ch: "el_channels (tc_loop c') (tc_chan c) = Some ch" "ch_eventHandling ch = (a \<in> B)"
    "bound ch" "ch_tied ch" "ch_tie ch = Some a" "conn_inv ?c"
    "FStartRead \<notin> set (fs @ el_pending (tc_loop c'))"
    "own a s l = map (Conn a) fs @ (if a \<in> live (st_srv s) then [] else [Srv (TDestroy a)])"
    and x: "tc_chan c' = tc_chan c" "others_kept (tc_chan c) (st_loops s l) (tc_loop c')"
    "loop_ok ((tc_loop c')\<lparr>el_pending := []\<rparr>)"
    using settled_chan [OF ok C(3) D(2) c' conf] .
  obtain nm where nm: "sv_conns (st_srv s) a = Some (nm, l)" using P(1) by blast
  have s: "sv_inv (st_srv ?s)" "a \<in> live (st_srv ?s)" "sv_conns (st_srv ?s) a = Some (nm, l)"
    using D(1) C(4) nm by (simp_all add: site_simps)
  obtain srv where srv: "sv_inv srv" "sv_loop srv = sv_loop (st_srv s)" "sv_conns srv = sv_conns (st_srv s)"
    "live srv = (if l = sv_loop (st_srv s) then live (st_srv s) - {a} else live (st_srv s))"
    and run: "close_callback a ?s = Inr (if l = sv_loop (st_srv s) then enqueue l [Srv (TDestroy a)] (?s\<lparr>st_srv := srv\<rparr>)
       else enqueue (sv_loop (st_srv s)) [Srv (TRemove a)] (?s\<lparr>st_srv := srv\<rparr>))"
    by (rule close_callback_ok [OF s]) (simp_all add: site_simps)
  define s' where "s' = (if l = sv_loop (st_srv s) then enqueue l [Srv (TDestroy a)] (?s\<lparr>st_srv := srv\<rparr>)
       else enqueue (sv_loop (st_srv s)) [Srv (TRemove a)] (?s\<lparr>st_srv := srv\<rparr>))"
  have S: "st_srv s' = srv" "st_loops s' = st_loops ?s" "st_conns s' = st_conns ?s"
    "own b s' m = own b ?s m @ (if b = a \<and> m = sv_loop (st_srv s)
       then [if l = sv_loop (st_srv s) then Srv (TDestroy a) else Srv (TRemove a)] else [])" for b m
    by (auto simp: s'_def site_simps)
  have "own a s' l = map (Conn a) (fs @ el_pending (tc_loop c')) @ (if a \<in> live srv then [] else [Srv (TDestroy a)])"
    using ch(8) C(4) srv(4) unfolding S by (auto simp: site_simps)
  moreover have "own a s' m = (if a \<in> live srv \<and> m = sv_loop srv then [Srv (TRemove a)] else [])" if "m \<noteq> l" for m
    using P(2) [OF that] C(4,5) srv(2,4) that unfolding S by (auto simp: site_simps)
  ultimately have here: "conn_ok B s' a ?c l"
    by (intro conn_ok_establishedI [where nm = nm and ch = ch and fs = "fs @ el_pending (tc_loop c')"])
      (use ch(1-7) nm srv C x(1) S(1-3) in \<open>auto simp: site_simps\<close>)
  have only: "only_about a (tc_chan c) s s'"
    using x(2) srv unfolding only_about_def S by (auto simp: site_simps)
  have at: "st_conns s' a = Some ?c" "tc_chan ?c = tc_chan c" using S(3) x(1) by (simp_all add: site_simps)
  have "site_inv B s'"
  proof (rule site_inv_change [OF inv only refl])
    show "tc_chan d \<noteq> tc_chan c" if "b \<noteq> a" "st_conns s b = Some d" for b d using D(3) [OF that(2) c that(1)] .
    show "loop_ok (st_loops s' m)" for m using D(2) x(3) S(2) by (simp add: site_simps)
  qed (use here at srv(1) S(1) in auto)
  moreover have "sv_conns (st_srv s') = sv_conns (st_srv s)" using S(1) srv(3) by simp
  ultimately show ?thesis using run [folded s'_def] S(2,3) by (intro exI [of _ s'] conjI)
qed

lemma handler_ok:
  assumes inv: "site_inv B s" and c: "st_conns s a = Some c" and ok: "conn_ok B s a c l"
    and st: "tc_state c \<noteq> kConnecting" and f: "f (c\<lparr>tc_loop := st_loops s l\<rparr>) = Inr c'" and c': "conn_inv c'"
    and effect: "confined (c\<lparr>tc_loop := st_loops s l\<rparr>) c' \<and>
      (calm (c\<lparr>tc_loop := st_loops s l\<rparr>) c' \<or> closing (c\<lparr>tc_loop := st_loops s l\<rparr>) c')"
  shows "\<exists>s'. handler a f s = Inr s' \<and> site_inv B s' \<and> st_loops s' = st_loops (settle a l c' s) \<and>
     st_conns s' = st_conns (settle a l c' s) \<and> sv_conns (st_srv s') = sv_conns (st_srv s)"
proof -
  obtain nm where "sv_conns (st_srv s) a = Some (nm, l)" using conn_ok_parts(1) [OF ok] by blast
  then have on: "on_conn a f s = Inr (settle a l c' s)" using c f by (simp add: on_conn_def conn_at_def)
  show ?thesis
  proof (cases "calm (c\<lparr>tc_loop := st_loops s l\<rparr>) c'")
    case True
    then have "handler a f s = Inr (settle a l c' s)" using on c by (simp add: handler_def site_simps calm_def)
    with settle_calm [OF inv c ok st c' _ True] effect show ?thesis by (simp add: site_simps)
  next
    case False
    then have cl: "closing (c\<lparr>tc_loop := st_loops s l\<rparr>) c'" using effect by blast
    then have "handler a f s = close_callback a (settle a l c' s)"
      using on c by (simp add: handler_def site_simps closing_def)
    with settle_closing [OF inv c ok c' _ cl] effect show ?thesis by simp
  qed
qed

lemma pending_same: "el_pending l = [] \<Longrightarrow> l\<lparr>el_pending := []\<rparr> = l"
  by (cases l) simp

section \<open>Queued tasks\<close>

text \<open>The state in which a task runs: it has been taken out of the queue of its loop.\<close>

definition popped :: "nat \<Rightarrow> site \<Rightarrow> site" where
  "popped l s = s\<lparr>st_tasks := (st_tasks s)(l := tl (st_tasks s l))\<rparr>"

lemma popped_simps [site_simps]:
  "st_srv (popped l s) = st_srv s" "st_loops (popped l s) = st_loops s" "st_conns (popped l s) = st_conns s"
  "m \<noteq> l \<Longrightarrow> own a (popped l s) m = own a s m"
  by (simp_all add: popped_def own_def)

lemma popped_own:
  assumes "st_tasks s l = t # ts"
  shows "own a s l = (if about a t then [t] else []) @ own a (popped l s) l"
  using assms by (simp add: popped_def own_def)

text \<open>A task about a connection finds it alive, in the phase the task is meant for.\<close>

lemma task_owner:
  assumes inv: "site_inv B s" and q: "st_tasks s l = t # ts" and t: "about a t"
  obtains c k where "st_conns s a = Some c" and "conn_ok B s a c k"
    and "own a s l = t # own a (popped l s) l"
proof -
  have own: "own a s l = t # own a (popped l s) l" using popped_own [OF q, of a] t by simp
  then have "st_conns s a \<noteq> None" using site_invD(5) [OF inv, of a l] by auto
  then obtain c where "st_conns s a = Some c" by blast
  with site_invD(6) [OF inv this] own that show thesis by blast
qed

lemma popped_only_about:
  assumes "st_tasks s l = t # ts" and "about a t"
  shows "only_about a x s (popped l s)"
proof -
  have "own b (popped l s) m = own b s m" if "b \<noteq> a" for b m
  proof -
    have "\<not> about b t" using assms(2) that by (cases t; cases "case t of Srv u \<Rightarrow> u") auto
    with popped_own [OF assms(1), of b] show ?thesis by (cases "m = l") (simp_all add: site_simps)
  qed
  then show ?thesis by (simp add: only_about_def site_simps)
qed

lemma only_about_trans: "only_about a x s t \<Longrightarrow> only_about a x t u \<Longrightarrow> only_about a x s u"
  by (auto simp: only_about_def intro: others_kept_trans)

text \<open>A functor of a connection.\<close>

lemma pop_functor:
  assumes inv: "site_inv B s" and q: "st_tasks s l = Conn a f # ts"
  obtains c where "st_conns s a = Some c" and "tc_state c \<noteq> kConnecting" and "f \<noteq> FStartRead"
    and "site_inv B (popped l s)" and "conn_ok B (popped l s) a c l"
proof -
  obtain c k where c: "st_conns s a = Some c" and ok: "conn_ok B s a c k"
    and own: "own a s l = Conn a f # own a (popped l s) l"
    using task_owner [OF inv q, of a] by auto
  note P = conn_ok_parts [OF ok] and D = site_invD [OF inv]
  have k: "k = l" using conn_ok_elsewhere [OF ok own] by auto
  have st: "tc_state c \<noteq> kConnecting" using ok own unfolding k conn_ok_def by auto
  obtain ch fs where ch: "el_channels (st_loops s l) (tc_chan c) = Some ch" "ch_eventHandling ch = (a \<in> B)"
    "bound ch" "ch_tied ch" "ch_tie ch = Some a" "conn_inv (c\<lparr>tc_loop := st_loops s l\<rparr>)"
    and fs: "FStartRead \<notin> set fs"
      "own a s l = map (Conn a) fs @ (if a \<in> live (st_srv s) then [] else [Srv (TDestroy a)])"
    using conn_ok_established [OF ok [unfolded k] st] .
  obtain gs where gs: "fs = f # gs" using own fs(2) by (cases fs) (auto split: if_splits)
  have here: "conn_ok B (popped l s) a c l"
    using P(1) unfolding k
    by (elim exE, intro conn_ok_establishedI [where fs = gs and ch = ch])
      (use ch fs own gs st P k in \<open>simp_all add: site_simps\<close>)
  have "site_inv B (popped l s)"
  proof (rule site_inv_change [OF inv popped_only_about [OF q, of a "tc_chan c"] refl])
    show "tc_chan d \<noteq> tc_chan c" if "b \<noteq> a" "st_conns s b = Some d" for b d using D(3) [OF that(2) c that(1)] .
  qed (use here c D(1,2) in \<open>auto simp: site_simps\<close>)
  with c st gs fs(1) here show thesis by (intro that) auto
qed

context conn_user
begin

lemma functor_task_result:
  assumes inv: "site_inv B s" and q: "st_tasks s l = Conn a f # ts" and ok: "at_rest s a (op_ok (Functor w f))"
  shows "\<exists>s' c c'. run_task user w l s = Inr s' \<and> site_inv B s' \<and> tc_state c \<noteq> kConnecting \<and>
     run_functor user w f c = Inr c' \<and> map_option tc_state (st_conns s' a) = Some (tc_state c')"
proof -
  obtain c where c: "st_conns s a = Some c" "tc_state c \<noteq> kConnecting" "f \<noteq> FStartRead"
    "site_inv B (popped l s)" "conn_ok B (popped l s) a c l"
    using pop_functor [OF inv q] .
  have s: "st_conns (popped l s) a = Some c" using c(1) by (simp add: site_simps)
  have "loop_no s a = l" using conn_ok_parts(1) [OF c(5)] by (auto simp: loop_no_def site_simps)
  then have op: "op_ok (Functor w f) (c\<lparr>tc_loop := st_loops (popped l s) l\<rparr>)"
    using ok c(1) by (simp add: at_rest_def site_simps)
  have "conn_inv (c\<lparr>tc_loop := st_loops (popped l s) l\<rparr>)" using conn_ok_established [OF c(5,2)] .
  from conn_step_ok [OF this law op] obtain c' where
    c': "run_functor user w f (c\<lparr>tc_loop := st_loops (popped l s) l\<rparr>) = Inr c'" "conn_inv c'" by auto
  from handler_ok [where f = "run_functor user w f", OF c(4) s c(5,2) c' run_functor_effect [OF c'(1) c(3)]]
  obtain s' where s': "handler a (run_functor user w f) (popped l s) = Inr s'" "site_inv B s'"
    "st_conns s' = st_conns (settle a l c' (popped l s))" by blast
  then have "run_task user w l s = Inr s'" "map_option tc_state (st_conns s' a) = Some (tc_state c')"
    using q by (auto simp: run_task_def popped_def site_simps)
  with s'(2) c(2) c'(1) show ?thesis
    by (intro exI [of _ s'] exI [of _ "c\<lparr>tc_loop := st_loops (popped l s) l\<rparr>"] exI [of _ c']) simp
qed

lemma functor_task:
  assumes "site_inv B s" and "st_tasks s l = Conn a f # ts" and "at_rest s a (op_ok (Functor w f))"
  shows "\<exists>s'. run_task user w l s = Inr s' \<and> site_inv B s'"
  using functor_task_result [OF assms] by blast

end

text \<open>\<^verbatim>\<open>removeConnectionInLoop\<close> in the loop of the server.\<close>

lemma remove_task:
  assumes inv: "site_inv B s" and q: "st_tasks s l = Srv (TRemove a) # ts"
  shows "\<exists>s'. run_task user w l s = Inr s' \<and> site_inv B s'"
proof -
  obtain c k where c: "st_conns s a = Some c" and ok: "conn_ok B s a c k"
    and own: "own a s l = Srv (TRemove a) # own a (popped l s) l"
    using task_owner [OF inv q, of a] by auto
  note P = conn_ok_parts [OF ok] and D = site_invD [OF inv]
  have st: "tc_state c \<noteq> kConnecting" if "k = l" using ok own unfolding that conn_ok_def by auto
  have "k \<noteq> l"
  proof
    assume k: "k = l"
    obtain fs where "own a s l = map (Conn a) fs @ (if a \<in> live (st_srv s) then [] else [Srv (TDestroy a)])"
      using conn_ok_established [OF ok [unfolded k] st [OF k]] by blast
    with own show False by (cases fs) (auto split: if_splits)
  qed
  then have here: "tc_state c = kDisconnected" "a \<in> live (st_srv s)" "l = sv_loop (st_srv s)" "own a (popped l s) l = []"
    using conn_ok_elsewhere [OF ok own] by auto
  obtain nm where nm: "sv_conns (st_srv s) a = Some (nm, k)" using P(1) by blast
  obtain ch fs where ch: "el_channels (st_loops s k) (tc_chan c) = Some ch" "ch_eventHandling ch = (a \<in> B)"
    "bound ch" "ch_tied ch" "ch_tie ch = Some a" "conn_inv (c\<lparr>tc_loop := st_loops s k\<rparr>)"
    and fs: "FStartRead \<notin> set fs" "own a s k = map (Conn a) fs @ (if a \<in> live (st_srv s) then [] else [Srv (TDestroy a)])"
    using conn_ok_established [OF ok] here(1) by auto
  have "sv_inv (st_srv (popped l s))" "a \<in> live (st_srv (popped l s))" "sv_conns (st_srv (popped l s)) a = Some (nm, k)"
    using D(1) here nm by (simp_all add: site_simps)
  then obtain srv where run: "remove_in_loop a (popped l s) = Inr (enqueue k [Srv (TDestroy a)] ((popped l s)\<lparr>st_srv := srv\<rparr>))"
    and srv: "sv_inv srv" "sv_loop srv = sv_loop (st_srv (popped l s))" "sv_conns srv = sv_conns (st_srv (popped l s))"
      "live srv = live (st_srv (popped l s)) - {a}" by (rule remove_in_loop_ok)
  define s' where "s' = enqueue k [Srv (TDestroy a)] ((popped l s)\<lparr>st_srv := srv\<rparr>)"
  have S: "st_srv s' = srv" "st_loops s' = st_loops s" "st_conns s' = st_conns s"
    "own b s' m = own b (popped l s) m @ (if b = a \<and> m = k then [Srv (TDestroy a)] else [])" for b m
    by (auto simp: s'_def site_simps)
  have gone: "own a (popped l s) m = []" if "m \<noteq> k" for m
    using that here P(2) [OF that] by (cases "m = l") (simp_all add: site_simps)
  have conn: "conn_ok B s' a c k"
    by (rule conn_ok_establishedI [where fs = fs and ch = ch and nm = nm])
      (use ch fs nm here srv \<open>k \<noteq> l\<close> P(5) gone in \<open>auto simp: S site_simps\<close>)
  have "only_about a (tc_chan c) s s'"
    using popped_only_about [OF q, of a "tc_chan c"] srv unfolding only_about_def S by (auto simp: site_simps)
  then have "site_inv B s'"
  proof (rule site_inv_change [OF inv _ refl])
    show "tc_chan d \<noteq> tc_chan c" if "b \<noteq> a" "st_conns s b = Some d" for b d using D(3) [OF that(2) c that(1)] .
  qed (use conn c D(2) srv S in auto)
  with run q show ?thesis by (simp add: run_task_def popped_def s'_def)
qed

text \<open>\<^verbatim>\<open>connectDestroyed\<close> and the destructors.\<close>

lemma destroyChannel_kept:
  assumes "destroyChannel b x l = Inr l'"
  shows "others_kept x l l' \<and> el_pending l' = el_pending l"
  using assms by (auto simp: destroyChannel_def loop_inr others_kept_def el_reg_def)

text \<open>
  What \<open>destroy\<close> needs of a connection: \<^verbatim>\<open>connectDestroyed\<close> and the destructors succeed, its channel is gone after
  them, nothing is queued, and the rest of the loop is left alone.
\<close>

definition removable :: "user \<Rightarrow> conn \<Rightarrow> bool" where
  "removable user c \<longleftrightarrow> (\<exists>c1 c2 ch.
     connectDestroyed user True c = Inr c1 \<and> destroyTcpConnection c1 = Inr c2 \<and> tc_chan c1 = tc_chan c \<and>
     el_channels (tc_loop c1) (tc_chan c) = Some ch \<and>
     map_option ch_fd (el_channels (tc_loop c) (tc_chan c)) = Some (ch_fd ch) \<and>
     el_pending (tc_loop c1) = el_pending (tc_loop c) \<and> el_pending (tc_loop c2) = el_pending (tc_loop c) \<and>
     el_inv (tc_loop c2) \<and> el_channels (tc_loop c2) (tc_chan c) = None \<and>
     others_kept (tc_chan c) (tc_loop c) (tc_loop c2))"

lemma closed_removable:
  assumes cl: "closed_conn c"
  shows "removable user c"
proof -
  obtain c1 c2 where r: "on_loop (channel_remove True (tc_chan c)) c = Inr c1" "destroyTcpConnection c1 = Inr c2"
    "el_inv (tc_loop c2)" "el_channels (tc_loop c2) (tc_chan c) = None"
    using remove_closed [OF cl] by blast
  from r(1) obtain l where l: "channel_remove True (tc_chan c) (tc_loop c) = Inr l" "c1 = c\<lparr>tc_loop := l\<rparr>"
    by (auto simp: on_loop_def andThen_Inr_iff)
  from r(2) obtain m where m: "destroyChannel True (tc_chan c) l = Inr m" "c2 = c1\<lparr>tc_loop := m\<rparr>"
    by (auto simp: destroyTcpConnection_def on_loop_def andThen_Inr_iff check_Inr_iff l(2))
  note K = channel_remove_confined [OF l(1)] destroyChannel_kept [OF m(1)]
  have "connectDestroyed user True c = Inr c1"
    using cl r(1) by (simp add: connectDestroyed_def closed_conn_def)
  moreover obtain ch where ch: "el_channels l (tc_chan c) = Some ch"
    using m(1) by (auto simp: destroyChannel_def loop_inr)
  moreover have "map_option ch_fd (el_channels (tc_loop c) (tc_chan c)) = Some (ch_fd ch)"
    using K(1) ch by (cases "el_channels (tc_loop c) (tc_chan c)") (auto simp: confined_to_def dest: identityD(1))
  moreover have "others_kept (tc_chan c) (tc_loop c) m"
    using K by (auto simp: confined_to_def intro: others_kept_trans)
  ultimately show ?thesis unfolding removable_def using r K l(2) m(2) by auto
qed

lemma destroy_site:
  assumes c: "st_conns s a = Some c" and nm: "sv_conns (st_srv s) a = Some (nm, l)"
    and rem: "removable user (c\<lparr>tc_loop := st_loops s l\<rparr>)" and rest: "el_pending (st_loops s l) = []"
  shows "\<exists>s' l' fd. destroy user a s = Inr s' \<and> st_srv s' = st_srv s \<and> st_loops s' = (st_loops s)(l := l') \<and>
     st_conns s' = (st_conns s)(a := None) \<and> st_tasks s' = st_tasks s \<and> st_closed s' = st_closed s @ [fd] \<and>
     map_option ch_fd (el_channels (st_loops s l) (tc_chan c)) = Some fd \<and>
     el_inv l' \<and> l'\<lparr>el_pending := []\<rparr> = l' \<and> el_channels l' (tc_chan c) = None \<and> others_kept (tc_chan c) (st_loops s l) l'"
proof -
  let ?c = "c\<lparr>tc_loop := st_loops s l\<rparr>"
  from rem obtain c1 c2 dh where
    r: "connectDestroyed user True ?c = Inr c1" "destroyTcpConnection c1 = Inr c2" "tc_chan c1 = tc_chan c"
      "el_channels (tc_loop c1) (tc_chan c) = Some dh" "el_pending (tc_loop c1) = []" "el_pending (tc_loop c2) = []"
      "el_inv (tc_loop c2)" "el_channels (tc_loop c2) (tc_chan c) = None"
      "others_kept (tc_chan c) (st_loops s l) (tc_loop c2)"
      "map_option ch_fd (el_channels (st_loops s l) (tc_chan c)) = Some (ch_fd dh)"
    using rest by (auto simp: removable_def)
  define s1 where "s1 = settle a l c1 s"
  define s2 where "s2 = settle a l c2 s1"
  define s' where "s' = s2\<lparr>st_conns := (st_conns s2)(a := None), st_closed := st_closed s2 @ [ch_fd dh]\<rparr>"
  have e: "(tc_loop c1)\<lparr>el_pending := []\<rparr> = tc_loop c1" "(tc_loop c2)\<lparr>el_pending := []\<rparr> = tc_loop c2"
    using r(5,6) by (simp_all add: pending_same)
  have s1: "st_conns s1 a = Some c1" "st_loops s1 l = tc_loop c1" "st_srv s1 = st_srv s"
    by (simp_all add: s1_def site_simps e)
  have run1: "on_conn a (connectDestroyed user True) s = Inr s1"
    using c nm r(1) by (simp add: on_conn_def conn_at_def site_simps s1_def)
  have "c1\<lparr>tc_loop := st_loops s1 l\<rparr> = c1" by (simp add: s1)
  then have run2: "on_conn a destroyTcpConnection s1 = Inr s2"
    using nm r(2) by (simp add: on_conn_def conn_at_def s1(1,3) s2_def)
  have "destroy user a s = Inr s'"
    using r(3,4) nm s1 by (simp add: destroy_def delete_conn_def run1 conn_at_def chan_at_def s1 run2 s'_def)
  moreover have "st_srv s' = st_srv s" "st_loops s' = (st_loops s)(l := tc_loop c2)" "st_conns s' = (st_conns s)(a := None)"
    by (auto simp: s'_def s2_def s1_def site_simps e)
  moreover have "st_tasks s' = st_tasks s" "st_closed s' = st_closed s @ [ch_fd dh]"
    using r(5,6) by (simp_all add: s'_def s2_def s1_def settle_def enqueue_def put_conn_def)
  ultimately show ?thesis using r(7-10) e(2) by blast
qed

lemma destroy_task:
  assumes inv: "site_inv {} s" and q: "st_tasks s l = Srv (TDestroy a) # ts"
  shows "\<exists>s'. run_task user w l s = Inr s' \<and> site_inv {} s'"
proof -
  obtain c k where c: "st_conns s a = Some c" and ok: "conn_ok {} s a c k"
    and own: "own a s l = Srv (TDestroy a) # own a (popped l s) l"
    using task_owner [OF inv q, of a] by auto
  note P = conn_ok_parts [OF ok] and D = site_invD [OF inv]
  have k: "k = l" using conn_ok_elsewhere [OF ok own] by auto
  have st: "tc_state c \<noteq> kConnecting" using ok own unfolding k conn_ok_def by auto
  obtain ch fs where ch: "el_channels (st_loops s l) (tc_chan c) = Some ch" "ch_eventHandling ch = (a \<in> {})"
    "conn_inv (c\<lparr>tc_loop := st_loops s l\<rparr>)"
    and fs: "own a s l = map (Conn a) fs @ (if a \<in> live (st_srv s) then [] else [Srv (TDestroy a)])"
    by (rule conn_ok_established [OF ok [unfolded k] st])
  have dead: "a \<notin> live (st_srv s)" "own a (popped l s) l = []"
    using own fs by (cases fs; auto split: if_splits)+
  have dis: "tc_state c = kDisconnected" using P(4) dead by blast
  obtain nm where nm: "sv_conns (st_srv s) a = Some (nm, l)" using P(1) k by blast
  have none: "own a (popped l s) m = []" for m
    using dead P(2) [of m] k by (cases "m = l") (simp_all add: site_simps)
  have lo: "el_pending (st_loops s l) = []" "\<not> el_eventHandling (st_loops s l)" "loop_ok (st_loops s l)"
    using D(2) [of l] by (simp_all add: loop_ok_def)
  have "closed_conn (c\<lparr>tc_loop := st_loops s l\<rparr>)" using ch dis lo(2) by (simp add: closed_conn_def)
  from closed_removable [OF this] have "\<exists>s' l' fd. destroy user a (popped l s) = Inr s' \<and> st_srv s' = st_srv s \<and>
     st_loops s' = (st_loops s)(l := l') \<and> st_conns s' = (st_conns s)(a := None) \<and> st_tasks s' = st_tasks (popped l s) \<and>
     st_closed s' = st_closed (popped l s) @ [fd] \<and> map_option ch_fd (el_channels (st_loops s l) (tc_chan c)) = Some fd \<and>
     el_inv l' \<and> l'\<lparr>el_pending := []\<rparr> = l' \<and> el_channels l' (tc_chan c) = None \<and> others_kept (tc_chan c) (st_loops s l) l'"
    using destroy_site [of "popped l s" a c nm l user] c nm lo(1) unfolding popped_simps(1-3) by blast
  then obtain s' l' where run: "destroy user a (popped l s) = Inr s'"
    and S: "st_srv s' = st_srv s" "st_loops s' = (st_loops s)(l := l')" "st_conns s' = (st_conns s)(a := None)"
      "\<And>b m. own b s' m = own b (popped l s) m"
    and l': "el_inv l'" "l'\<lparr>el_pending := []\<rparr> = l'" "el_channels l' (tc_chan c) = None"
      "others_kept (tc_chan c) (st_loops s l) l'" by (auto simp: own_def)
  have "only_about a (tc_chan c) s s'"
    using popped_only_about [OF q, of a "tc_chan c"] l'(4) unfolding only_about_def S by (simp add: site_simps)
  then have "site_inv {} s'"
  proof (rule site_inv_change [OF inv _ refl])
    show "tc_chan d \<noteq> tc_chan c" if "b \<noteq> a" "st_conns s b = Some d" for b d using D(3) [OF that(2) c that(1)] .
    show "loop_ok (st_loops s' m)" for m
      using D(2) [of m] loop_ok_others [OF lo(3) l'(4,1)] l'(2,3) by (simp add: S)
  qed (use D(1) dead none in \<open>auto simp: S\<close>)
  with run q show ?thesis by (simp add: run_task_def popped_def)
qed

section \<open>New connections\<close>

text \<open>A connection that was constructed and has nothing queued.\<close>

definition nascent :: "nat set \<Rightarrow> site \<Rightarrow> nat \<Rightarrow> conn \<Rightarrow> nat \<Rightarrow> conn_cb channel \<Rightarrow> bool" where
  "nascent B s a c l ch \<longleftrightarrow>
     st_conns s a = Some c \<and> (\<exists>nm. sv_conns (st_srv s) a = Some (nm, l)) \<and> a \<in> live (st_srv s) \<and> a \<notin> B \<and>
     connecting_conn (c\<lparr>tc_loop := st_loops s l\<rparr>) ch \<and> \<not> ch_eventHandling ch \<and> bound ch \<and>
     tc_closes c = 0 \<and> (\<forall>m. own a s m = [])"

lemma tie_kept:
  assumes "loop_ok l" and "el_channels l x = Some ch"
  shows "others_kept x l (put_chan x (tie a ch) l)" and "loop_ok (put_chan x (tie a ch) l)"
proof -
  show k: "others_kept x l (put_chan x (tie a ch) l)" by (simp add: others_kept_def put_chan_def el_reg_def)
  have "el_inv l" "el_pending l = []" using assms(1) by (simp_all add: loop_ok_def)
  with loop_ok_others [OF assms(1) k el_inv_tie] assms(2) show "loop_ok (put_chan x (tie a ch) l)"
    by (simp add: put_chan_def tie_def pending_same)
qed

context conn_user
begin

lemma connect_established:
  assumes c: "connecting_conn c ch" and loop: "loop_ok (tc_loop c)"
  obtains c' ch' where "connectEstablished user a True c = Inr c'" and "conn_inv c'"
    and "tc_chan c' = tc_chan c" and "others_kept (tc_chan c) (tc_loop c) (tc_loop c')"
    and "loop_ok ((tc_loop c')\<lparr>el_pending := []\<rparr>)" and "FStartRead \<notin> set (el_pending (tc_loop c'))"
    and "el_channels (tc_loop c') (tc_chan c) = Some ch'" and "identity ch' = identity (tie a ch)"
    and "tc_state c' \<notin> {kConnecting, kDisconnected}" and "tc_closes c' = tc_closes c"
proof -
  let ?c1 = "c\<lparr>tc_state := kConnected, tc_loop := put_chan (tc_chan c) (tie a ch) (tc_loop c)\<rparr>"
  note C = c [unfolded connecting_conn_def]
  obtain l where l: "connectEstablished user a True c = user UConnection (?c1\<lparr>tc_loop := l\<rparr>)"
    "on_loop (enableReading True (tc_chan c)) ?c1 = Inr (?c1\<lparr>tc_loop := l\<rparr>)" "conn_inv (?c1\<lparr>tc_loop := l\<rparr>)"
    using establish_connecting [OF c, where user = user and self = a] by blast
  have "roomy (?c1\<lparr>tc_loop := l\<rparr>)" using C by (simp add: roomy_def contents_emptyBuffer max_buf_def)
  with user_lawD [OF law l(3)] obtain c' where
    c': "user UConnection (?c1\<lparr>tc_loop := l\<rparr>) = Inr c'" "conn_inv c'" by blast
  have at: "el_channels (tc_loop c) (tc_chan c) = Some ch" using C by simp
  note K = tie_kept [OF loop at, of a]
  have "tame ?c1 (?c1\<lparr>tc_loop := l\<rparr>)" using tame_set [of ev_enableReading True ?c1] l(2) by (simp add: enableReading_def)
  with tame [OF c'(1)] have t: "confined ?c1 c'" "calm ?c1 c'" by (auto intro: confined_trans calm_trans)
  have "el_channels (tc_loop ?c1) (tc_chan ?c1) = Some (tie a ch)" by (simp add: put_chan_def)
  note Q = confined_parts [OF t(1) _ conn_invD(1) [OF c'(2)], simplified, OF K(2)]
  obtain ch' where "el_channels (tc_loop c') (tc_chan c) = Some ch'" "identity ch' = identity (tie a ch)"
    using Q(5) [of "tie a ch"] by (auto simp: put_chan_def)
  moreover have "tc_state c' \<notin> {kConnecting, kDisconnected}" "tc_closes c' = tc_closes c"
    using t(2) by (auto simp: calm_def)
  moreover have "others_kept (tc_chan c) (tc_loop c) (tc_loop c')" using K(1) Q(1) by (rule others_kept_trans)
  moreover have "connectEstablished user a True c = Inr c'" using l(1) c'(1) by simp
  ultimately show thesis using that c'(2) Q(2-4) by blast
qed

lemma establish_site:
  assumes inv: "site_inv B s" and only: "only_about a (tc_chan c) s s1"
    and free: "\<And>b d. b \<noteq> a \<Longrightarrow> st_conns s b = Some d \<Longrightarrow> tc_chan d \<noteq> tc_chan c"
    and srv: "sv_inv (st_srv s1)" and loops: "\<And>m. loop_ok (st_loops s1 m)"
    and new: "nascent B s1 a c l ch"
  shows "\<exists>s'. establish user a s1 = Inr s' \<and> site_inv B s'"
proof -
  note N = new [unfolded nascent_def]
  obtain nm where nm: "sv_conns (st_srv s1) a = Some (nm, l)" using N by blast
  let ?c = "c\<lparr>tc_loop := st_loops s1 l\<rparr>"
  have con: "connecting_conn ?c ch" and lo: "loop_ok (tc_loop ?c)" using N loops by simp_all
  from connect_established [OF con lo, of a] obtain c' ch' where
    r: "connectEstablished user a True ?c = Inr c'" "conn_inv c'" "tc_chan c' = tc_chan c"
      "others_kept (tc_chan c) (st_loops s1 l) (tc_loop c')" "loop_ok ((tc_loop c')\<lparr>el_pending := []\<rparr>)"
      "FStartRead \<notin> set (el_pending (tc_loop c'))" "el_channels (tc_loop c') (tc_chan c) = Some ch'"
      "identity ch' = identity (tie a ch)" "tc_state c' \<notin> {kConnecting, kDisconnected}" "tc_closes c' = tc_closes c"
    by auto
  define s' where "s' = settle a l c' s1"
  have run: "establish user a s1 = Inr s'"
    using N nm r(1) by (simp add: establish_def on_conn_def conn_at_def s'_def)
  note I = identityD [OF r(8)]
  have here: "conn_ok B s' a (c'\<lparr>tc_loop := (tc_loop c')\<lparr>el_pending := []\<rparr>\<rparr>) l"
    by (rule conn_ok_establishedI [where nm = nm and ch = ch' and fs = "el_pending (tc_loop c')"])
      (use nm N r I in \<open>simp_all add: s'_def site_simps bound_def tie_def\<close>)
  have "only_about a (tc_chan c) s s'"
    unfolding s'_def by (rule only_about_trans [OF only settle_only_about [OF r(4)]])
  then have "site_inv B s'"
  proof (rule site_inv_change [OF inv _ refl])
    show "loop_ok (st_loops s' m)" for m using loops r(5) by (simp add: s'_def site_simps)
  qed (use here free srv r(3) in \<open>auto simp: s'_def site_simps\<close>)
  with run show ?thesis by blast
qed

lemma establish_task:
  assumes inv: "site_inv B s" and q: "st_tasks s l = Srv (TEstablish a) # ts" and B: "a \<notin> B"
  shows "\<exists>s'. run_task user w l s = Inr s' \<and> site_inv B s'"
proof -
  obtain c k where c: "st_conns s a = Some c" and ok: "conn_ok B s a c k"
    and own: "own a s l = Srv (TEstablish a) # own a (popped l s) l"
    using task_owner [OF inv q, of a] by auto
  note P = conn_ok_parts [OF ok] and D = site_invD [OF inv]
  have k: "k = l" using conn_ok_elsewhere [OF ok own] by auto
  have st: "tc_state c = kConnecting"
  proof (rule ccontr)
    assume "tc_state c \<noteq> kConnecting"
    from conn_ok_established [OF ok this] obtain fs where
      "own a s k = map (Conn a) fs @ (if a \<in> live (st_srv s) then [] else [Srv (TDestroy a)])" by blast
    with own k show False by (cases fs) (auto split: if_splits)
  qed
  obtain ch where ch: "connecting_conn (c\<lparr>tc_loop := st_loops s l\<rparr>) ch" "\<not> ch_eventHandling ch" "bound ch"
    "own a s l = [Srv (TEstablish a)]" using ok st B unfolding k conn_ok_def by auto
  have "own a (popped l s) m = []" for m
    using own ch(4) P(2) [of m] st k by (cases "m = l") (simp_all add: site_simps)
  then have "nascent B (popped l s) a c l ch"
    using c ch st P B k by (simp add: nascent_def site_simps)
  from establish_site [OF inv popped_only_about [OF q] _ _ _ this] D c
  have "\<exists>s'. establish user a (popped l s) = Inr s' \<and> site_inv B s'" by (simp add: site_simps)
  with q show ?thesis by (simp add: run_task_def popped_def)
qed

end

text \<open>The constructor of a connection for a descriptor that no channel of the loop has.\<close>

lemma nascent_queued:
  assumes inv: "site_inv {} s" and only: "only_about a (tc_chan c) s s1"
    and free: "\<And>b d. b \<noteq> a \<Longrightarrow> st_conns s b = Some d \<Longrightarrow> tc_chan d \<noteq> tc_chan c"
    and srv: "sv_inv (st_srv s1)" and loops: "\<And>m. loop_ok (st_loops s1 m)" and new: "nascent {} s1 a c l ch"
    and c: "tc_closes c = 0" "tc_state c = kConnecting" and at: "st_conns s1 a = Some c"
  shows "site_inv {} (enqueue l [Srv (TEstablish a)] s1)"
proof -
  have "conn_ok {} (enqueue l [Srv (TEstablish a)] s1) a c l"
    using new c unfolding conn_ok_def nascent_def by (auto simp: connecting_conn_def site_simps)
  moreover have "only_about a (tc_chan c) s (enqueue l [Srv (TEstablish a)] s1)"
    using only by (auto simp: only_about_def site_simps)
  then show ?thesis
    by (rule site_inv_change [OF inv _ refl]) (use calculation free loops srv at in \<open>auto simp: site_simps\<close>)
qed

lemma new_conn_kept:
  assumes lo: "loop_ok l" and fresh: "el_channels l x = None" and fd: "0 \<le> fd"
    and free: "\<And>b ch. el_channels l b = Some ch \<Longrightarrow> ch_fd ch \<noteq> fd"
  defines "c \<equiv> newTcpConnection l x fd"
  obtains ch where "connecting_conn c ch" and "\<not> ch_eventHandling ch" and "bound ch"
    and "others_kept x l (tc_loop c)" and "loop_ok (tc_loop c)" and "tc_chan c = x" and "tc_closes c = 0"
proof -
  have inv: "el_inv l" using lo by (simp add: loop_ok_def)
  have none: "el_reg l fd = None" using reg_fd [OF inv, of fd] free by (metis option.exhaust)
  note N = new_connection_channel [OF inv fresh fd none]
  obtain ch where ch: "el_channels (tc_loop c) x = Some ch" "ch_fd ch = fd" "ch_events ch = 0"
    using N(2) by (auto simp: c_def)
  have loop: "tc_loop c = l\<lparr>el_channels := (el_channels l)(x \<mapsto> ch)\<rparr>"
    using ch(1) by (simp add: c_def newTcpConnection_def put_chan_def)
  have con: "connecting_conn c ch"
    using N(1) none ch unfolding connecting_conn_def by (simp add: c_def N(3)) (simp add: newTcpConnection_def)
  have kept: "others_kept x l (tc_loop c)"
    unfolding loop by (simp add: others_kept_def el_reg_def)
  have uniq: "y = z" if "el_channels (tc_loop c) y = Some cy" "el_channels (tc_loop c) z = Some cz" "ch_fd cy = ch_fd cz"
    for y z cy cz
    using that lo free ch(2) unfolding loop loop_ok_def by (auto split: if_splits)
  have "el_pending (tc_loop c) = []" "\<not> el_eventHandling (tc_loop c)" "el_inv (tc_loop c)"
    using lo N(1) by (simp_all add: loop loop_ok_def c_def [symmetric])
  with uniq have ok: "loop_ok (tc_loop c)" unfolding loop_ok_def by blast
  have "\<not> ch_eventHandling ch" "bound ch" using ch(1)
    by (auto simp: c_def newTcpConnection_def put_chan_def newChannel_def bound_def setReadCallback_def
        setWriteCallback_def setCloseCallback_def setErrorCallback_def)
  with con kept ok show thesis by (intro that) (simp_all add: c_def newTcpConnection_def)
qed

context conn_user
begin

lemma accept_ok:
  assumes inv: "site_inv {} s" and ok: "site_ok (Accept a x fd) s"
  shows "\<exists>s'. accept_conn user a x fd s = Inr s' \<and> site_inv {} s'"
proof -
  note D = site_invD [OF inv]
  have fresh: "sv_conns (st_srv s) a = None" and num: "sv_nextConnId (st_srv s) + 1 < 2 ^ 31" and fd: "0 \<le> fd"
    and xfree: "\<And>l. el_channels (st_loops s l) x = None"
    and fdfree: "\<And>l b ch. el_channels (st_loops s l) b = Some ch \<Longrightarrow> ch_fd ch \<noteq> fd"
    using ok by auto
  from newConnection_ok [OF D(1) fresh num] obtain srv nm l where
    srv: "newConnection a True (st_srv s) = Inr srv" "sv_inv srv" "sv_loop srv = sv_loop (st_srv s)"
      "sv_conns srv = (sv_conns (st_srv s))(a \<mapsto> (nm, l))" "live srv = insert a (live (st_srv s))" by blast
  let ?n = "newTcpConnection (st_loops s l) x fd"
  obtain ch where n: "connecting_conn ?n ch" "\<not> ch_eventHandling ch" "bound ch"
    "others_kept x (st_loops s l) (tc_loop ?n)" "loop_ok (tc_loop ?n)" "tc_chan ?n = x" "tc_closes ?n = 0"
    using new_conn_kept [OF D(2) xfree fd fdfree] .
  define c where "c = ?n\<lparr>tc_hasWriteComplete := st_writeComplete s\<rparr>"
  have cx: "tc_chan c = x" "tc_loop c = tc_loop ?n" "tc_closes c = 0" "tc_state c = kConnecting"
    using n by (simp_all add: c_def connecting_conn_def)
  have con: "connecting_conn (c\<lparr>tc_loop := tc_loop ?n\<rparr>) ch" using n(1) by (simp add: c_def connecting_conn_def)
  have gone: "st_conns s a = None" using D(6) [of a] conn_ok_parts(1) fresh by (cases "st_conns s a") fastforce+
  define s1 where "s1 = put_conn a l c (s\<lparr>st_srv := srv\<rparr>)"
  have S: "st_srv s1 = srv" "st_loops s1 = (st_loops s)(l := tc_loop ?n)" "st_conns s1 = (st_conns s)(a \<mapsto> c)"
    "own b s1 m = own b s m" for b m
    by (simp_all add: s1_def site_simps cx)
  have only: "only_about a (tc_chan c) s s1"
    using n(4) srv(3-5) by (simp add: only_about_def S cx(1))
  have free: "tc_chan d \<noteq> tc_chan c" if "b \<noteq> a" "st_conns s b = Some d" for b d
  proof -
    from D(6) [OF that(2)] obtain k dh where "el_channels (st_loops s k) (tc_chan d) = Some dh"
      unfolding conn_ok_def by blast
    with xfree [of k] cx(1) show ?thesis by auto
  qed
  have loops: "loop_ok (st_loops s1 m)" for m using D(2) n(5) by (simp add: S)
  have new: "nascent {} s1 a c l ch"
    unfolding nascent_def using n(2,3) con cx(3) srv(4,5) D(5) [OF gone] by (simp add: S)
  show ?thesis
  proof (cases "l = sv_loop srv")
    case True
    then have "accept_conn user a x fd s = establish user a s1"
      using srv(1,4) by (simp add: accept_conn_def conn_at_def c_def s1_def Let_def)
    with establish_site [OF inv only free _ loops new] srv(2) S(1) show ?thesis by simp
  next
    case False
    then have run: "accept_conn user a x fd s = Inr (enqueue l [Srv (TEstablish a)] s1)"
      using srv(1,4) by (simp add: accept_conn_def conn_at_def c_def s1_def Let_def)
    have "site_inv {} (enqueue l [Srv (TEstablish a)] s1)"
      by (rule nascent_queued [OF inv only free _ loops new cx(3,4)]) (use srv(2) S in simp_all)
    with run show ?thesis by blast
  qed
qed

end

section \<open>Events of a connection\<close>

lemma conn_ok_loop_no: "conn_ok B s a c l \<Longrightarrow> loop_no s a = l"
  using conn_ok_parts(1) by (fastforce simp: loop_no_def)

lemma put_ch_simps [site_simps]:
  "st_srv (put_ch a ch s) = st_srv s" "st_conns (put_ch a ch s) = st_conns s" "loop_no (put_ch a ch s) b = loop_no s b"
  "own b (put_ch a ch s) m = own b s m" "get_ch a (put_ch a ch s) = ch"
  by (simp_all add: put_ch_def loop_no_def own_def get_ch_def put_chan_def)

text \<open>\<^verbatim>\<open>revents_\<close> and \<^verbatim>\<open>eventHandling_\<close> concern nobody but the dispatching.\<close>

lemma put_ch_inv:
  assumes inv: "site_inv B s" and c: "st_conns s a = Some c" and st: "tc_state c \<noteq> kConnecting"
    and ch': "ch' = (get_ch a s)\<lparr>ch_revents := r, ch_eventHandling := e\<rparr>"
  shows "site_inv (if e then insert a B else B - {a}) (put_ch a ch' s)"
proof -
  let ?s = "put_ch a ch' s" and ?B = "if e then insert a B else B - {a}"
  note D = site_invD [OF inv]
  from D(6) [OF c] obtain l where ok: "conn_ok B s a c l" by blast
  note P = conn_ok_parts [OF ok] and l = conn_ok_loop_no [OF ok]
  obtain ch fs where ch: "el_channels (st_loops s l) (tc_chan c) = Some ch" "bound ch" "ch_tied ch"
    "ch_tie ch = Some a" "conn_inv (c\<lparr>tc_loop := st_loops s l\<rparr>)"
    and fs: "FStartRead \<notin> set fs" "own a s l = map (Conn a) fs @ (if a \<in> live (st_srv s) then [] else [Srv (TDestroy a)])"
    by (rule conn_ok_established [OF ok st])
  have eq: "ch' = ch\<lparr>ch_revents := r, ch_eventHandling := e\<rparr>" using ch(1) by (simp add: ch' get_ch_def l c)
  define m where "m = put_chan (tc_chan c) ch' (st_loops s l)"
  have loops: "st_loops ?s = (st_loops s)(l := m)" by (simp add: put_ch_def l c m_def)
  have el: "el_inv m" using conn_invD(1) [OF ch(5)] ch(1)
    by (auto simp: m_def el_inv_def put_chan_def eq core_def intro: poller_inv_upd)
  have kept: "others_kept (tc_chan c) (st_loops s l) m" by (simp add: m_def others_kept_def put_chan_def el_reg_def)
  have pend: "el_pending m = []" using D(2) [of l] by (simp add: m_def put_chan_def loop_ok_def)
  have lo: "loop_ok m"
    using loop_ok_others [OF D(2) kept el] ch(1) pending_same [OF pend] by (simp add: m_def put_chan_def eq)
  have chan: "chan_inv (c\<lparr>tc_loop := m\<rparr>) ch'" if "chan_inv (c\<lparr>tc_loop := st_loops s l\<rparr>) ch"
    using that by (auto simp: chan_inv_def m_def put_chan_def eq el_reg_def isWriting_def split: if_splits)
  have ci: "conn_inv (c\<lparr>tc_loop := m\<rparr>)"
  proof -
    obtain dh where "chan_inv (c\<lparr>tc_loop := st_loops s l\<rparr>) dh" using ch(5) by (rule conn_inv_chan)
    moreover from this have "dh = ch" using ch(1) by (simp add: chan_inv_def)
    ultimately have "chan_inv (c\<lparr>tc_loop := m\<rparr>) ch'" using chan by blast
    then show ?thesis using ch(5) el by (auto simp: conn_inv_def)
  qed
  have here: "conn_ok ?B ?s a c l"
    using P(1) by (elim exE, intro conn_ok_establishedI [where ch = ch' and fs = fs])
      (use ch(2-4) fs st P ci in \<open>simp_all add: site_simps loops\<close>, simp_all add: m_def put_chan_def eq bound_def)
  have only: "only_about a (tc_chan c) s ?s" using kept by (simp add: only_about_def site_simps loops)
  show ?thesis
  proof (rule site_inv_change [OF inv only])
    show "tc_chan d \<noteq> tc_chan c" if "b \<noteq> a" "st_conns s b = Some d" for b d using D(3) [OF that(2) c that(1)] .
    show "loop_ok (st_loops ?s m)" for m using D(2) lo by (simp add: loops)
  qed (use here c D(1) in \<open>auto simp: site_simps\<close>)
qed

lemma read_room_loop [conn_simps]: "read_room readv (c\<lparr>tc_loop := l\<rparr>) = read_room readv c"
  unfolding read_room_def by (simp split: sum.split)

text \<open>The state while the channel of connection \<open>a\<close> is being handled.\<close>

definition handling :: "nat \<Rightarrow> 32 word \<Rightarrow> conn \<Rightarrow> site \<Rightarrow> bool" where
  "handling a r c s \<longleftrightarrow>
     site_inv {a} s \<and> st_conns s a = Some c \<and> tc_state c \<noteq> kConnecting \<and> ch_revents (get_ch a s) = r"

lemma handlingE:
  assumes "handling a r c s"
  obtains l where "conn_ok {a} s a c l" and "loop_no s a = l" and "bound (get_ch a s)"
    and "conn_inv (c\<lparr>tc_loop := st_loops s l\<rparr>)"
proof -
  have h: "site_inv {a} s" "st_conns s a = Some c" "tc_state c \<noteq> kConnecting" using assms by (simp_all add: handling_def)
  from site_invD(6) [OF h(1,2)] obtain l where ok: "conn_ok {a} s a c l" by blast
  note l = conn_ok_loop_no [OF ok]
  obtain ch where "el_channels (st_loops s l) (tc_chan c) = Some ch" "bound ch" "conn_inv (c\<lparr>tc_loop := st_loops s l\<rparr>)"
    by (rule conn_ok_established [OF ok h(3)])
  with that ok l h(2) show thesis by (simp add: get_ch_def)
qed

lemma handling_step:
  assumes h: "handling a r c s" and l: "loop_no s a = l"
    and f: "f (c\<lparr>tc_loop := st_loops s l\<rparr>) = Inr c'" and c': "conn_inv c'"
    and effect: "confined (c\<lparr>tc_loop := st_loops s l\<rparr>) c' \<and>
      (calm (c\<lparr>tc_loop := st_loops s l\<rparr>) c' \<or> closing (c\<lparr>tc_loop := st_loops s l\<rparr>) c')"
  shows "\<exists>s'. handler a f s = Inr s' \<and> handling a r (c'\<lparr>tc_loop := (tc_loop c')\<lparr>el_pending := []\<rparr>\<rparr>) s'"
proof -
  have H: "site_inv {a} s" "st_conns s a = Some c" "tc_state c \<noteq> kConnecting" "ch_revents (get_ch a s) = r"
    using h by (simp_all add: handling_def)
  obtain k where ok: "conn_ok {a} s a c k" "k = l" by (rule handlingE [OF h]) (simp add: l)
  have lo: "loop_ok (st_loops s l)" using site_invD(2) [OF H(1)] .
  from handler_ok [where f = f, OF H(1,2) ok(1) H(3) _ c'] f effect ok(2) obtain s' where
    s': "handler a f s = Inr s'" "site_inv {a} s'" "st_loops s' = st_loops (settle a l c' s)"
      "st_conns s' = st_conns (settle a l c' s)" "sv_conns (st_srv s') = sv_conns (st_srv s)" by auto
  have no: "loop_no s' a = l" using s'(5) l by (simp add: loop_no_def)
  obtain ch where ch: "el_channels (st_loops s l) (tc_chan c) = Some ch"
    by (rule conn_ok_established [OF ok(1) H(3)]) (simp add: ok(2))
  note Q = confined_parts [OF conjunct1 [OF effect], simplified, OF lo conn_invD(1) [OF c']]
  from Q(5) [OF ch] obtain ch' where "el_channels (tc_loop c') (tc_chan c) = Some ch'" "identity ch' = identity ch" by blast
  then have "ch_revents (get_ch a s') = r"
    using identityD(3) H(2,4) ch no l Q(2) by (auto simp: get_ch_def s'(3,4) site_simps)
  moreover have "tc_state c' \<noteq> kConnecting" using c' by (rule conn_invD)
  ultimately show ?thesis using s' by (simp add: handling_def site_simps)
qed

text \<open>After a hang-up that was reported as such, nothing is reported as readable.\<close>

lemma reports_hangup:
  assumes ev: "api_events ev" "ev \<noteq> 0" and r: "reports ev r" and hup: "has_bits r POLLHUP" "\<not> has_bits r POLLIN"
  shows "\<not> has_bits r (POLLIN OR POLLPRI OR POLLRDHUP)"
proof -
  have "\<not> has_bits ev POLLIN" using r hup by (auto simp: reports_def)
  then have "ev = 4" using ev by (auto simp: api_events_def has_bits_def poll_masks)
  then have z: "r AND NOT 60 = 0" using r by (simp add: reports_def poll_masks)
  have "r AND 8195 = (r AND NOT 60) AND 8195" by (simp add: and.assoc)
  with z show ?thesis by (simp add: has_bits_def poll_masks)
qed

context conn_user
begin

lemma close_cb:
  assumes h: "handling a r c s" and "tc_state c \<noteq> kDisconnected" and "roomy c"
  shows "\<exists>s' c'. run_cb user kw readv a CbClose s = Inr s' \<and> handling a r c' s'"
proof -
  obtain l where l: "loop_no s a = l" and inv: "conn_inv (c\<lparr>tc_loop := st_loops s l\<rparr>)" by (rule handlingE [OF h])
  from handleClose_ok [OF inv law] assms(2,3) obtain c' where
    c': "handleClose user True (c\<lparr>tc_loop := st_loops s l\<rparr>) = Inr c'" "conn_inv c'" by (auto simp: conn_simps)
  from handling_step [where f = "handleClose user True", OF h l c'] handleClose_closes [OF c'(1)]
  show ?thesis by (auto simp: run_cb_def)
qed

lemma error_cb:
  assumes h: "handling a r c s"
  shows "\<exists>s' l. run_cb user kw readv a CbError s = Inr s' \<and> handling a r (c\<lparr>tc_loop := l\<rparr>) s'"
proof -
  obtain l where l: "loop_no s a = l" and inv: "conn_inv (c\<lparr>tc_loop := st_loops s l\<rparr>)" by (rule handlingE [OF h])
  from handling_step [where f = handleError, OF h l _ inv] show ?thesis by (auto simp: run_cb_def handleError_def)
qed

lemma read_cb:
  assumes h: "handling a r c s" and "tc_state c \<noteq> kDisconnected" and "readv_law readv" and "read_room readv c"
  shows "\<exists>s' c'. run_cb user kw readv a CbRead s = Inr s' \<and> handling a r c' s'"
proof -
  obtain l where l: "loop_no s a = l" and inv: "conn_inv (c\<lparr>tc_loop := st_loops s l\<rparr>)" by (rule handlingE [OF h])
  have "read_room readv (c\<lparr>tc_loop := st_loops s l\<rparr>)" using assms(4) by (simp add: conn_simps)
  with handleRead_conn_ok [OF inv law] assms(2,3) obtain c' where
    c': "handleRead_conn user readv True (c\<lparr>tc_loop := st_loops s l\<rparr>) = Inr c'" "conn_inv c'" by auto
  from handling_step [where f = "handleRead_conn user readv True", OF h l c'] handleRead_effect [OF c'(1)]
  show ?thesis by (auto simp: run_cb_def)
qed

lemma write_cb:
  assumes h: "handling a r c s" and "\<forall>c. write_ok (kw c) (length (contents (tc_output c)))"
  shows "\<exists>s' c'. run_cb user kw readv a CbWrite s = Inr s' \<and> handling a r c' s'"
proof -
  obtain l where l: "loop_no s a = l" and inv: "conn_inv (c\<lparr>tc_loop := st_loops s l\<rparr>)" by (rule handlingE [OF h])
  let ?w = "kw (c\<lparr>tc_loop := st_loops s l\<rparr>)"
  have "write_ok ?w (length (contents (tc_output (c\<lparr>tc_loop := st_loops s l\<rparr>))))" using assms(2) by blast
  from handleWrite_ok [OF inv this] obtain c' where
    c': "handleWrite ?w True (c\<lparr>tc_loop := st_loops s l\<rparr>) = Inr c'" "conn_inv c'" by blast
  from handling_step [where f = "\<lambda>c. handleWrite (kw c) True c", OF h l c'] handleWrite_tame [OF c'(1) inv]
  show ?thesis by (auto simp: run_cb_def)
qed

text \<open>One stage of the dispatching, and all of it.\<close>

lemma handling_bound:
  assumes "handling a r c s"
  shows "ch_revents (get_ch a s) = r" "ch_readCallback (get_ch a s) = Some CbRead"
    "ch_writeCallback (get_ch a s) = Some CbWrite" "ch_closeCallback (get_ch a s) = Some CbClose"
    "ch_errorCallback (get_ch a s) = Some CbError"
proof -
  have "bound (get_ch a s)" by (rule handlingE [OF assms])
  then show "ch_readCallback (get_ch a s) = Some CbRead" "ch_writeCallback (get_ch a s) = Some CbWrite"
    "ch_closeCallback (get_ch a s) = Some CbClose" "ch_errorCallback (get_ch a s) = Some CbError"
    by (simp_all add: bound_def)
qed (use assms in \<open>simp add: handling_def\<close>)

lemma dispatch_ok:
  assumes h: "handling a r c s" and s: "s = put_ch a ((get_ch a s0)\<lparr>ch_eventHandling := True\<rparr>) s0"
    and st: "tc_state c \<noteq> kDisconnected" and "readv_law readv" "read_room readv c" "roomy c"
    and kw: "\<forall>c. write_ok (kw c) (length (contents (tc_output c)))"
    and ev: "api_events ev" "ev \<noteq> 0" "reports ev r"
  shows "\<exists>s' c'. handleEventWithGuard (run_cb user kw readv a) (get_ch a) (put_ch a) s0 =
     Inr (put_ch a ((get_ch a s')\<lparr>ch_eventHandling := False\<rparr>) s') \<and> handling a r c' s'"
proof -
  let ?hup = "has_bits r POLLHUP \<and> \<not> has_bits r POLLIN" and ?in = "has_bits r (POLLIN OR POLLPRI OR POLLRDHUP)"
  obtain s1 c1 where s1: "(if ?hup then run_cb user kw readv a CbClose s else Inr s) = Inr s1" "handling a r c1 s1"
    "\<not> ?hup \<Longrightarrow> c1 = c"
    using h close_cb [OF h st assms(6), of kw readv] by (cases ?hup) auto
  obtain s2 l where s2: "(if has_bits r (POLLERR OR POLLNVAL) then run_cb user kw readv a CbError s1 else Inr s1) = Inr s2"
    "handling a r (c1\<lparr>tc_loop := l\<rparr>) s2"
  proof (cases "has_bits r (POLLERR OR POLLNVAL)")
    case False
    moreover have "c1\<lparr>tc_loop := tc_loop c1\<rparr> = c1" by simp
    ultimately show thesis using that [of s1 "tc_loop c1"] s1(2) by simp
  qed (use that error_cb [OF s1(2), of kw readv] in auto)
  obtain s3 c3 where s3: "(if ?in then run_cb user kw readv a CbRead s2 else Inr s2) = Inr s3" "handling a r c3 s3"
  proof (cases ?in)
    case True
    then have "\<not> ?hup" using reports_hangup [OF ev] by blast
    then have "c1 = c" by (rule s1(3))
    have "tc_state (c1\<lparr>tc_loop := l\<rparr>) \<noteq> kDisconnected" "read_room readv (c1\<lparr>tc_loop := l\<rparr>)"
      using st assms(5) \<open>c1 = c\<close> by (simp_all add: conn_simps)
    with read_cb [OF s2(2) _ assms(4), where kw = kw] True that show thesis by auto
  qed (use that s2(2) in auto)
  obtain s4 c4 where s4: "(if has_bits r POLLOUT then run_cb user kw readv a CbWrite s3 else Inr s3) = Inr s4"
    "handling a r c4 s4"
    using s3(2) write_cb [OF s3(2) kw, of readv] by (cases "has_bits r POLLOUT") auto
  have "handleEventWithGuard (run_cb user kw readv a) (get_ch a) (put_ch a) s0 =
      Inr (put_ch a ((get_ch a s4)\<lparr>ch_eventHandling := False\<rparr>) s4)"
    unfolding handleEventWithGuard_def s [symmetric] andThen.simps
    by (simp only: handling_bound [OF h] handling_bound [OF s1(2)] handling_bound [OF s2(2)] handling_bound [OF s3(2)]
        call_opt_def option.case s1(1) s2(1) s3(1) s4(1) andThen.simps)
  with s4(2) show ?thesis by blast
qed

lemma ready_ok:
  assumes inv: "site_inv {} s" and ok: "site_ok (Ready a r kw readv) s"
  shows "\<exists>s'. conn_ready user kw readv a r s = Inr s' \<and> site_inv {} s'"
proof -
  note D = site_invD [OF inv]
  obtain c where c: "st_conns s a = Some c" using ok by (cases "st_conns s a") auto
  from D(6) [OF c] obtain l where co: "conn_ok {} s a c l" by blast
  note l = conn_ok_loop_no [OF co]
  have env: "readv_law readv" "read_room readv c" "roomy c"
    "\<forall>c. write_ok (kw c) (length (contents (tc_output c)))" "ch_events (get_ch a s) \<noteq> 0" "reports (ch_events (get_ch a s)) r"
    using ok c by (auto simp: at_rest_def conn_simps)
  have st: "tc_state c \<noteq> kConnecting"
    using co env(5) c by (auto simp: conn_ok_def connecting_conn_def get_ch_def l)
  obtain ch where ch: "el_channels (st_loops s l) (tc_chan c) = Some ch" "ch_eventHandling ch = (a \<in> {})" "ch_tied ch"
    "ch_tie ch = Some a" "conn_inv (c\<lparr>tc_loop := st_loops s l\<rparr>)" by (rule conn_ok_established [OF co st])
  have get: "get_ch a s = ch" using ch(1) by (simp add: get_ch_def l c)
  from ch(5) obtain dh where "chan_inv (c\<lparr>tc_loop := st_loops s l\<rparr>) dh" by (rule conn_inv_chan)
  then have dis: "tc_state c \<noteq> kDisconnected" and api: "api_events (ch_events ch)"
    using env(5) ch(1) get by (auto simp: chan_inv_def)
  define s0 where "s0 = put_ch a (set_revents r ch) s"
  have s0: "get_ch a s0 = ch\<lparr>ch_revents := r\<rparr>" "st_conns s0 a = Some c"
    using c by (simp_all add: s0_def site_simps set_revents_def)
  have "ch\<lparr>ch_revents := r, ch_eventHandling := False\<rparr> = set_revents r ch"
    using ch(2) by (cases ch) (simp add: set_revents_def)
  then have "site_inv {} s0"
    using put_ch_inv [OF inv c st, where r = r and e = False] get by (simp add: s0_def)
  define s1 where "s1 = put_ch a ((get_ch a s0)\<lparr>ch_eventHandling := True\<rparr>) s0"
  have "site_inv {a} s1"
    using put_ch_inv [OF \<open>site_inv {} s0\<close> s0(2) st, where r = r and e = True] by (simp add: s1_def s0(1))
  then have h: "handling a r c s1" using st s0 by (simp add: handling_def s1_def site_simps)
  from dispatch_ok [OF h s1_def dis env(1-4) api _ env(6) [unfolded get]] env(5) get obtain s2 c2 where
    s2: "handleEventWithGuard (run_cb user kw readv a) (get_ch a) (put_ch a) s0 =
      Inr (put_ch a ((get_ch a s2)\<lparr>ch_eventHandling := False\<rparr>) s2)" "handling a r c2 s2" by auto
  have H: "site_inv {a} s2" "st_conns s2 a = Some c2" "tc_state c2 \<noteq> kConnecting" "ch_revents (get_ch a s2) = r"
    using s2(2) by (simp_all add: handling_def)
  have "(get_ch a s2)\<lparr>ch_eventHandling := False\<rparr> = (get_ch a s2)\<lparr>ch_revents := r, ch_eventHandling := False\<rparr>"
    using H(4) by (cases "get_ch a s2") simp
  from put_ch_inv [OF H(1-3) this]
  have "site_inv {} (put_ch a ((get_ch a s2)\<lparr>ch_eventHandling := False\<rparr>) s2)" by simp
  moreover have "conn_ready user kw readv a r s = Inr (put_ch a ((get_ch a s2)\<lparr>ch_eventHandling := False\<rparr>) s2)"
    using s2(1) s0 ch(3,4) get by (simp add: conn_ready_def handleEvent_def s0_def [symmetric])
  ultimately show ?thesis by blast
qed

text \<open>A queued task, whatever it is.\<close>

lemma task_ok:
  assumes inv: "site_inv {} s" and ok: "site_ok (Task l w) s"
  shows "\<exists>s'. run_task user w l s = Inr s' \<and> site_inv {} s'"
proof (cases "st_tasks s l")
  case Nil
  with inv show ?thesis by (simp add: run_task_def)
next
  case (Cons t ts)
  show ?thesis
  proof (cases t)
    case (Conn a f)
    with functor_task [OF inv, of l a f ts w] Cons ok show ?thesis by simp
  next
    case (Srv u)
    show ?thesis
    proof (cases u)
      case TListen
      have own: "own b (popped l s) m = own b s m" for b m
        using popped_own [OF Cons, of b] Srv TListen by (cases "m = l") (simp_all add: site_simps)
      have "site_inv {} (popped l s)"
        using inv unfolding site_inv_def conn_ok_def popped_simps(1-3) own .
      with Cons Srv TListen show ?thesis by (simp add: run_task_def popped_def)
    next
      case (TEstablish a)
      with establish_task [OF inv, of l a ts w] Cons Srv show ?thesis by simp
    next
      case (TRemove a)
      with remove_task [OF inv, of l a ts user w] Cons Srv show ?thesis by simp
    next
      case (TDestroy a)
      with destroy_task [OF inv, of l a ts user w] Cons Srv show ?thesis by simp
    qed
  qed
qed

end

section \<open>Calls of other threads\<close>

lemma settle_same:
  assumes inv: "site_inv B s" and c: "st_conns s a = Some c" and ok: "conn_ok B s a c l"
  shows "site_inv B (settle a l (c\<lparr>tc_loop := st_loops s l\<rparr>) s)"
proof (cases "tc_state c = kConnecting")
  case True
  note D = site_invD [OF inv]
  have "el_pending (st_loops s l) = []" using D(2) [of l] by (simp add: loop_ok_def)
  note p = this pending_same [OF this]
  let ?c = "c\<lparr>tc_loop := st_loops s l\<rparr>" and ?s = "settle a l (c\<lparr>tc_loop := st_loops s l\<rparr>) s"
  have same: "own b ?s = own b s" "st_loops ?s = st_loops s" "st_srv ?s = st_srv s" for b
    by (rule ext; simp add: site_simps p)+ (simp add: site_simps)
  have "conn_ok B ?s a ?c l" using ok True unfolding conn_ok_def same by simp
  moreover have "only_about a (tc_chan c) s ?s" by (rule settle_only_about) simp
  ultimately show ?thesis
    by (intro site_inv_change [OF inv _ refl]) (use D c in \<open>auto simp: same settle_simps(3) p\<close>)
next
  case False
  from conn_ok_established [OF ok False] have "conn_inv (c\<lparr>tc_loop := st_loops s l\<rparr>)" .
  from settle_calm [OF inv c ok False this] show ?thesis by simp
qed

lemma call_ok:
  assumes inv: "site_inv B s" and c: "st_conns s a = Some c"
    and idle: "\<And>c. tc_state c = kConnecting \<or> tc_state c = kDisconnected \<Longrightarrow> f c = Inr c"
    and tame: "\<And>c. conn_inv c \<Longrightarrow> tc_state c \<noteq> kDisconnected \<Longrightarrow> \<exists>c'. f c = Inr c' \<and> conn_inv c' \<and> tame c c'"
  shows "\<exists>s'. on_conn a f s = Inr s' \<and> site_inv B s'"
proof -
  from site_invD(6) [OF inv c] obtain l where co: "conn_ok B s a c l" by blast
  obtain nm where nm: "sv_conns (st_srv s) a = Some (nm, l)" using conn_ok_parts(1) [OF co] by blast
  let ?c = "c\<lparr>tc_loop := st_loops s l\<rparr>"
  have run: "on_conn a f s = Inr (settle a l c' s)" if "f ?c = Inr c'" for c'
    using that c nm by (simp add: on_conn_def conn_at_def)
  show ?thesis
  proof (cases "tc_state c = kConnecting \<or> tc_state c = kDisconnected")
    case True
    then have "f ?c = Inr ?c" by (intro idle) simp
    with run settle_same [OF inv c co] show ?thesis by blast
  next
    case False
    then have "conn_inv ?c" using conn_ok_established [OF co] by blast
    with tame [of ?c] False obtain c' where c': "f ?c = Inr c'" "conn_inv c'" "tame ?c c'" by auto
    with run settle_calm [OF inv c co _ c'(2)] False show ?thesis by blast
  qed
qed

lemma disconnecting_inv:
  assumes "conn_inv c" and "tc_state c \<noteq> kDisconnected"
  shows "conn_inv (c\<lparr>tc_state := kDisconnecting\<rparr>)" and "conn_inv (forceClose b c)"
    and "conn_inv (forceCloseWithDelay seconds c)"
proof -
  show inv: "conn_inv (c\<lparr>tc_state := kDisconnecting\<rparr>)" using assms by (intro conn_inv_state) simp_all
  then show "conn_inv (forceClose b c)" using assms(1) by (simp add: forceClose_def conn_simps)
  show "conn_inv (forceCloseWithDelay seconds c)"
    using assms(1) inv by (auto simp: forceCloseWithDelay_def conn_inv_def chan_inv_def)
qed

text \<open>The three steps of a call that is not overtaken.\<close>

lemma test_state_ok:
  assumes "site_inv B s" and "site_ok (Call i a r) s"
  shows "\<exists>s'. test_state i a r s = Inr s' \<and> site_inv B s'"
  using assms by (auto simp: test_state_def)

lemma on_conn_settle:
  assumes inv: "site_inv B s" and c: "st_conns s a = Some c" and st: "tc_state c \<noteq> kConnecting"
  obtains l where "conn_ok B s a c l" and "conn_inv (c\<lparr>tc_loop := st_loops s l\<rparr>)" and "loop_ok (st_loops s l)"
    and "\<And>f c'. f (c\<lparr>tc_loop := st_loops s l\<rparr>) = Inr c' \<Longrightarrow> on_conn a f s = Inr (settle a l c' s)"
proof -
  from site_invD(6) [OF inv c] obtain l where co: "conn_ok B s a c l" by blast
  obtain nm where "sv_conns (st_srv s) a = Some (nm, l)" using conn_ok_parts(1) [OF co] by blast
  then have "on_conn a f s = Inr (settle a l c' s)" if "f (c\<lparr>tc_loop := st_loops s l\<rparr>) = Inr c'" for f c'
    using that c by (simp add: on_conn_def conn_at_def)
  moreover have "conn_inv (c\<lparr>tc_loop := st_loops s l\<rparr>)" using conn_ok_established [OF co st] .
  ultimately show thesis using that [OF co _ site_invD(2) [OF inv]] by blast
qed

lemma store_state_ok:
  assumes inv: "site_inv B s" and ok: "\<not> overtaken (Store i) s"
  shows "\<exists>s'. store_state i s = Inr s' \<and> site_inv B s'"
proof (cases "\<exists>a r. st_flight s i = Some (a, r, False)")
  case True
  then obtain a r where f: "st_flight s i = Some (a, r, False)" by blast
  let ?s = "s\<lparr>st_flight := (st_flight s)(i \<mapsto> (a, r, True))\<rparr>"
  obtain c where c: "st_conns ?s a = Some c" "tc_state c \<noteq> kConnecting" "tc_state c \<noteq> kDisconnected"
    using ok f by (cases "st_conns s a") (auto simp: in_state_def)
  obtain l where l: "conn_ok B ?s a c l" "conn_inv (c\<lparr>tc_loop := st_loops ?s l\<rparr>)"
    "\<And>f c'. f (c\<lparr>tc_loop := st_loops ?s l\<rparr>) = Inr c' \<Longrightarrow> on_conn a f ?s = Inr (settle a l c' ?s)"
    by (rule on_conn_settle [of B ?s a c]) (use inv c in simp_all)
  let ?c = "c\<lparr>tc_loop := st_loops ?s l\<rparr>"
  have "conn_inv (?c\<lparr>tc_state := kDisconnecting\<rparr>)" using disconnecting_inv(1) [OF l(2)] c(3) by simp
  moreover have "confined ?c (?c\<lparr>tc_state := kDisconnecting\<rparr>)" "calm ?c (?c\<lparr>tc_state := kDisconnecting\<rparr>)"
    using c(2,3) by (simp_all add: confined_def calm_def)
  ultimately have "site_inv B (settle a l (?c\<lparr>tc_state := kDisconnecting\<rparr>) ?s)"
    using settle_calm [OF _ c(1) l(1) c(2)] inv by simp
  with l(3) f show ?thesis by (simp add: store_state_def)
next
  case False
  then have "store_state i s = Inr s" by (auto simp: store_state_def split: option.split)
  with inv show ?thesis by simp
qed

lemma posts_effect:
  assumes "conn_inv c"
  shows "conn_inv (posts r c)" and "confined c (posts r c)" and "tc_closes (posts r c) = tc_closes c"
    and "tc_state (posts r c) = tc_state c"
proof -
  show "conn_inv (posts r c)"
    using assms by (cases r) (simp_all add: conn_simps, simp add: conn_inv_def chan_inv_def cong: if_cong)
  show "confined c (posts r c)"
    by (cases r) (simp_all add: confined_queue)
  show "tc_closes (posts r c) = tc_closes c" "tc_state (posts r c) = tc_state c"
    by (cases r; simp add: conn_queue_def)+
qed

lemma post_call_ok:
  assumes inv: "site_inv B s" and ok: "\<not> overtaken (Post i) s"
  shows "\<exists>s'. post_call i s = Inr s' \<and> site_inv B s'"
proof (cases "\<exists>a r. st_flight s i = Some (a, r, True)")
  case True
  then obtain a r where f: "st_flight s i = Some (a, r, True)" by blast
  let ?s = "s\<lparr>st_flight := (st_flight s)(i := None)\<rparr>"
  obtain c where c: "st_conns ?s a = Some c" "tc_state c \<noteq> kConnecting" and live: "a \<in> live (st_srv ?s)"
    using ok f by (cases "st_conns s a") (auto simp: in_state_def)
  obtain l where l: "conn_ok B ?s a c l" "conn_inv (c\<lparr>tc_loop := st_loops ?s l\<rparr>)"
    "\<And>f c'. f (c\<lparr>tc_loop := st_loops ?s l\<rparr>) = Inr c' \<Longrightarrow> on_conn a f ?s = Inr (settle a l c' ?s)"
    by (rule on_conn_settle [of B ?s a c]) (use inv c in simp_all)
  note P = posts_effect [OF l(2), of r]
  have "site_inv B (settle a l (posts r (c\<lparr>tc_loop := st_loops ?s l\<rparr>)) ?s)"
    by (rule settle_kept [OF _ c(1) l(1) c(2) P(1,2)]) (use inv live P(3,4) c(2) in simp_all)
  with l(3) f show ?thesis by (simp add: post_call_def)
next
  case False
  then have "post_call i s = Inr s" by (auto simp: post_call_def split: option.split)
  with inv show ?thesis by simp
qed

text \<open>
  Taken together the three steps are the function as the connection has it; a \<^verbatim>\<open>send\<close> has nothing to store.
\<close>

definition whole_call :: "remote \<Rightarrow> conn \<Rightarrow> conn res" where
  "whole_call r = (case r of
       RSend data \<Rightarrow> send False (Inr 0) data
     | RShutdown \<Rightarrow> shutdown False
     | RForceClose \<Rightarrow> (\<lambda>c. Inr (forceClose False c))
     | RForceCloseWithDelay seconds \<Rightarrow> (\<lambda>c. Inr (forceCloseWithDelay seconds c)))"

lemma whole_call_eq:
  "whole_call r c = Inr (if passes r (tc_state c) then posts r (if stores r then c\<lparr>tc_state := kDisconnecting\<rparr> else c) else c)"
  by (cases r) (simp_all add: whole_call_def send_def shutdown_def forceClose_def forceCloseWithDelay_def Let_def)

lemma delayed_ok:
  assumes inv: "site_inv B s"
  shows "\<exists>s'. delayed_close a s = Inr s' \<and> site_inv B s'"
proof (cases "st_conns s a")
  case None
  with inv show ?thesis by (simp add: delayed_close_def weakCallback_def)
next
  case (Some c)
  have "\<exists>s'. on_conn a (\<lambda>c. Inr (forceClose True c)) s = Inr s' \<and> site_inv B s'"
    by (rule call_ok [OF inv Some]) (use disconnecting_inv(2) forceClose_tame in \<open>auto simp: forceClose_def\<close>)
  with Some show ?thesis by (simp add: delayed_close_def weakCallback_def)
qed

section \<open>A run of the server\<close>

context conn_user
begin

lemma site_step_ok:
  assumes inv: "site_inv {} s" and ok: "site_ok e s" and time: "\<not> overtaken e s"
  shows "\<exists>s'. site_step user e s = Inr s' \<and> site_inv {} s'"
proof (cases e)
  case (Accept a x fd)
  with accept_ok [OF inv] ok show ?thesis by simp
next
  case (Ready a r kw readv)
  with ready_ok [OF inv] ok show ?thesis by simp
next
  case (Task l w)
  with task_ok [OF inv] ok show ?thesis by simp
next
  case (Call i a r)
  with test_state_ok [OF inv] ok show ?thesis by simp
next
  case (Store i)
  with store_state_ok [OF inv] time show ?thesis by simp
next
  case (Post i)
  with post_call_ok [OF inv] time show ?thesis by simp
next
  case (Delayed a)
  with delayed_ok [OF inv] show ?thesis by simp
qed

lemma site_run_ok:
  assumes "site_inv {} s" and "site_legal user es s" and "in_time user es s"
  shows "\<exists>s'. foldRes (site_step user) es s = Inr s' \<and> site_inv {} s'"
  using assms
proof (induction es arbitrary: s)
  case (Cons e es)
  then obtain s1 where "site_step user e s = Inr s1" "site_inv {} s1" using site_step_ok by fastforce
  with Cons show ?case by simp
qed simp

text \<open>A run in which a call is overtaken goes well up to there.\<close>

lemma site_run_overtaken:
  assumes "site_inv {} s" and "site_legal user es s" and "\<not> in_time user es s"
  shows "\<exists>fs e gs s'. es = fs @ e # gs \<and> foldRes (site_step user) fs s = Inr s' \<and> site_inv {} s' \<and> overtaken e s'"
  using assms
proof (induction es arbitrary: s)
  case (Cons e es)
  show ?case
  proof (cases "overtaken e s")
    case True
    with Cons.prems(1) show ?thesis by (intro exI [of _ "[]"]) simp
  next
    case False
    with Cons.prems site_step_ok obtain s1 where s1: "site_step user e s = Inr s1" "site_inv {} s1" by fastforce
    with Cons.IH [OF s1(2)] Cons.prems False obtain fs d gs s' where
      "es = fs @ d # gs" "foldRes (site_step user) fs s1 = Inr s'" "site_inv {} s'" "overtaken d s'" by auto
    with s1(1) show ?thesis by (intro exI [of _ "e # fs"]) auto
  qed
qed simp

end

text \<open>The site just after \<^verbatim>\<open>TcpServer::start\<close>: the loops run, the request to listen is queued.\<close>

definition start_site :: "server \<Rightarrow> (nat \<Rightarrow> conn_loop) \<Rightarrow> bool \<Rightarrow> site" where
  "start_site srv loops writeComplete =
     \<lparr>st_srv = srv, st_loops = loops,
      st_tasks = (\<lambda>l. map (Srv \<circ> snd) (filter (\<lambda>p. fst p = l) (sv_posted srv))),
      st_conns = Map.empty, st_writeComplete = writeComplete, st_closed = [], st_flight = Map.empty\<rparr>"

lemma start_site_inv:
  assumes "sv_inv srv" and "sv_conns srv = Map.empty" and "sv_connections srv = []" and "\<And>l. loop_ok (loops l)"
    and "set (map snd (sv_posted srv)) \<subseteq> {TListen}"
  shows "site_inv {} (start_site srv loops wc)"
proof -
  have "own a (start_site srv loops wc) m = []" for a m
    using assms(5) by (auto simp: own_def start_site_def filter_empty_conv)
  moreover have "live srv = {}" using assms(3) by (simp add: live_def)
  ultimately show ?thesis using assms(1,4) by (simp add: site_inv_def start_site_def)
qed

lemma started_site_inv:
  assumes "0 \<le> n" and "length ipPort \<le> 51"
    and "setThreadNum_sv n (newTcpServer loop ipPort name) = Inr s0" and "start_sv startLoop hasCb True s0 = Inr s1"
    and "\<And>l. loop_ok (loops l)"
  shows "site_inv {} (start_site s1 loops wc)"
  by (rule start_site_inv) (use started_inv [OF assms(1-4)] assms(5) in simp_all)

lemma started_site_run:
  assumes "conn_user user" and "0 \<le> n" and "length ipPort \<le> 51"
    and "setThreadNum_sv n (newTcpServer loop ipPort name) = Inr s0" and "start_sv startLoop hasCb True s0 = Inr s1"
    and "\<And>l. loop_ok (loops l)" and "site_legal user es (start_site s1 loops wc)"
    and "in_time user es (start_site s1 loops wc)"
  shows "\<exists>s. foldRes (site_step user) es (start_site s1 loops wc) = Inr s \<and> site_inv {} s"
  using conn_user.site_run_ok [OF assms(1) started_site_inv [OF assms(2-6)] assms(7,8)] .

text \<open>
  C1. A running server does not fail, unless it closes a connection under a call of another thread. Take any number of
  loop threads, any user callbacks that keep their contract, and any interleaving of: connections being accepted,
  events of any connection (readable, writable, error, hang-up, several at once), queued tasks running in their
  loops, the single accesses of sends, shutdowns and forced closes called by other threads, and timers of delayed closes
  expiring, even after their connection is gone. Then no assertion of TcpServer, TcpConnection, Channel, Buffer, EventLoop or
  the poller fails, no null or dangling pointer is used, and the joint invariant holds in every state: among
  others every connection is established before anything else happens to it, its close callback is called at
  most once, it is taken out of the map of the server once, in the loop of the server, and destroyed once,
  in its own loop and outside of event handling, and all other connections of that loop do not notice. The only
  way out is a call of another thread that is overtaken: it has tested \<^verbatim>\<open>state_\<close>, and it stores \<^verbatim>\<open>kDisconnecting\<close> after
  the connection was closed, or queues its functor after the connection was taken out of the map; up to the first such
  step all this holds all the same.
\<close>

theorem server_run_safe:
  assumes "conn_user user" and "0 \<le> n" and "length ipPort \<le> 51"
    and "setThreadNum_sv n (newTcpServer loop ipPort name) = Inr s0" and "start_sv startLoop hasCb True s0 = Inr s1"
    and "\<And>l. loop_ok (loops l)" and "site_legal user es (start_site s1 loops wc)"
  shows "if in_time user es (start_site s1 loops wc)
     then \<exists>s. foldRes (site_step user) es (start_site s1 loops wc) = Inr s \<and> site_inv {} s
     else \<exists>fs e gs s. es = fs @ e # gs \<and> foldRes (site_step user) fs (start_site s1 loops wc) = Inr s \<and>
       site_inv {} s \<and> overtaken e s"
  using started_site_run [OF assms]
    conn_user.site_run_overtaken [OF assms(1) started_site_inv [OF assms(2-6)] assms(7)] by auto

text \<open>The server and the loops of the witnesses: the server in loop 1, one thread with loop 2.\<close>

definition demo_srv :: server where
  "demo_srv = post 1 TListen ((newTcpServer 1 ''127.0.0.1:80'' ''srv'')
     \<lparr>sv_started := 1, sv_pool := \<lparr>tp_baseLoop = 1, tp_name = ''srv'', tp_started = True, tp_numThreads = 1,
       tp_next = 0, tp_threads = [''srv'' @ fmt_d 0], tp_loops = [2]\<rparr>\<rparr>)"

definition demo_site :: site where
  "demo_site = start_site demo_srv (\<lambda>_. demo_loop0) False"

lemma demo_start:
  "setThreadNum_sv 1 (newTcpServer 1 ''127.0.0.1:80'' ''srv'') =
     Inr ((newTcpServer 1 ''127.0.0.1:80'' ''srv'')\<lparr>sv_pool := setThreadNum 1 (newEventLoopThreadPool 1 ''srv'')\<rparr>)"
  "start_sv (\<lambda>i. i + 2) False True
     ((newTcpServer 1 ''127.0.0.1:80'' ''srv'')\<lparr>sv_pool := setThreadNum 1 (newEventLoopThreadPool 1 ''srv'')\<rparr>) = Inr demo_srv"
  by (simp_all add: setThreadNum_sv_def newTcpServer_def setThreadNum_def newEventLoopThreadPool_def
      start_sv_def start_pool_def demo_srv_def Let_def post_def)

text \<open>
  Two connections are accepted and established in loop 2; another thread forces the first to close, which
  goes through loop 2, loop 1 and loop 2 again; then a timer for it expires.
\<close>

definition demo_events :: "site_event list" where
  "demo_events =
     [Task 1 (Inr 0), Accept 7 5 9, Task 2 (Inr 0), Accept 8 6 10, Task 2 (Inr 0), Call 0 7 RForceClose, Store 0, Post 0,
      Task 2 (Inr 0), Task 1 (Inr 0), Task 2 (Inr 0), Delayed 7]"

lemmas demo_eval =
  demo_srv_def demo_site_def demo_events_def start_site_def newTcpServer_def post_def run_task_def accept_conn_def
  newConnection_def getNextLoop_def conn_at_def conn_name_def fmt_d_def digits.simps Let_def put_conn_def enqueue_def
  newTcpConnection_def demo_loop0_def demo_loop_def establish_def on_conn_def connectEstablished_def conn_chan_def
  chan_at_def put_chan_def on_loop_def enableReading_def channel_set_def channel_update_def el_updateChannel_def
  with_poller_def ep_updateChannel_def ep_update_def newEPollPoller_def settle_def quiet_user_def tie_def newChannel_def
  setReadCallback_def setWriteCallback_def setCloseCallback_def setErrorCallback_def index_consts ev_ops kReadEvent_def
  poll_masks isNoneEvent_def kNoneEvent_def set_index_def

lemmas demo_close =
  test_state_def store_state_def post_call_def in_state_def live_def conn_queue_def queueInLoop_def wakeup_def handler_def run_functor_def
  forceCloseInLoop_def handleClose_def disableAll_def close_callback_def remove_in_loop_def removeConnection_def
  removeConnectionInLoop_def map_erase_def destroy_def delete_conn_def connectDestroyed_def channel_remove_def el_removeChannel_def
  ep_removeChannel_def destroyTcpConnection_def destroyChannel_def at_rest_def loop_no_def roomy_def
  contents_emptyBuffer max_buf_def el_hasChannel_def hasChannel_def delayed_close_def weakCallback_def

lemma demo_legal: "site_legal quiet_user demo_events demo_site" "in_time quiet_user demo_events demo_site"
  by (simp_all add: demo_eval demo_close)

lemma demo_result:
  "\<exists>s. foldRes (site_step quiet_user) demo_events demo_site = Inr s \<and> st_closed s = [9] \<and> st_conns s 7 = None \<and>
     st_conns s 8 \<noteq> None \<and> (\<forall>l. st_tasks s l = [])"
  by (simp add: demo_eval demo_close)

lemma demo_loop0_ok: "loop_ok demo_loop0"
  using demo_loop0_inv by (simp add: loop_ok_def demo_loop0_def demo_loop_def)

theorem server_run_safe_witness:
  "\<exists>s. foldRes (site_step quiet_user) demo_events demo_site = Inr s \<and> site_inv {} s"
  unfolding demo_site_def
  using server_run_safe [where n = 1, OF quiet.conn_user_axioms _ _ demo_start _ demo_legal(1) [unfolded demo_site_def]]
    demo_legal(2) [unfolded demo_site_def] by (simp add: demo_loop0_ok)

text \<open>
  C8. No connection is leaked or lost. Whenever a run of the server in which no call of another thread was overtaken
  has come to rest, with nothing queued in any loop, the map of the server holds exactly the connections that still exist, and all of those are open with
  their close callback not yet called; every other connection ever accepted has been destroyed.
\<close>

theorem server_no_leak:
  assumes "conn_user user" and "0 \<le> n" and "length ipPort \<le> 51"
    and "setThreadNum_sv n (newTcpServer loop ipPort name) = Inr s0" and "start_sv startLoop hasCb True s0 = Inr s1"
    and "\<And>l. loop_ok (loops l)" and "site_legal user es (start_site s1 loops wc)"
    and "in_time user es (start_site s1 loops wc)"
    and run: "foldRes (site_step user) es (start_site s1 loops wc) = Inr s" and rest: "\<And>l. st_tasks s l = []"
  shows "(st_conns s a \<noteq> None \<longleftrightarrow> a \<in> live (st_srv s)) \<and>
     (\<forall>c. st_conns s a = Some c \<longrightarrow> tc_state c \<in> {kConnected, kDisconnecting} \<and> tc_closes c = 0 \<and>
        conn_inv (c\<lparr>tc_loop := st_loops s (loop_no s a)\<rparr>))"
proof -
  have inv: "site_inv {} s" using started_site_run [OF assms(1-8)] run by auto
  note D = site_invD [OF inv]
  have own: "own b s m = []" for b m using rest by (simp add: own_def)
  have "tc_state c \<in> {kConnected, kDisconnecting} \<and> tc_closes c = 0 \<and> a \<in> live (st_srv s) \<and>
      conn_inv (c\<lparr>tc_loop := st_loops s (loop_no s a)\<rparr>)" if c: "st_conns s a = Some c" for c
  proof -
    from D(6) [OF c] obtain l where ok: "conn_ok {} s a c l" by blast
    note P = conn_ok_parts [OF ok]
    have con: "tc_state c \<noteq> kConnecting" using ok own unfolding conn_ok_def by auto
    obtain fs where "own a s l = map (Conn a) fs @ (if a \<in> live (st_srv s) then [] else [Srv (TDestroy a)])"
      and ci: "conn_inv (c\<lparr>tc_loop := st_loops s l\<rparr>)" by (rule conn_ok_established [OF ok con])
    then have live: "a \<in> live (st_srv s)" using own by (auto split: if_splits)
    then have "tc_state c \<noteq> kDisconnected" using P(2) [of "sv_loop (st_srv s)"] P(3) own by auto
    with con live P(5) ci conn_ok_loop_no [OF ok] show ?thesis by (cases "tc_state c") auto
  qed
  then show ?thesis using D(4) [of a] by auto
qed

theorem server_no_leak_witness:
  "\<exists>s. foldRes (site_step quiet_user) demo_events demo_site = Inr s \<and> 7 \<notin> live (st_srv s) \<and> 8 \<in> live (st_srv s)"
proof -
  obtain s where s: "foldRes (site_step quiet_user) demo_events demo_site = Inr s" "st_conns s 7 = None"
    "st_conns s 8 \<noteq> None" "\<And>l. st_tasks s l = []" using demo_result by blast
  note leak = server_no_leak [where n = 1, OF quiet.conn_user_axioms _ _ demo_start _
      demo_legal [unfolded demo_site_def] s(1) [unfolded demo_site_def] s(4)]
  from leak [of 7] leak [of 8] s show ?thesis by (auto simp: demo_loop0_ok)
qed

section \<open>Calls that are overtaken\<close>

text \<open>
  \<^verbatim>\<open>send\<close> tests \<^verbatim>\<open>state_\<close> and then queues \<^verbatim>\<open>sendInLoop\<close> with a plain \<^verbatim>\<open>this\<close>, which does not keep the connection alive (as
  \<^verbatim>\<open>shutdown\<close>, \<^verbatim>\<open>startRead\<close> and \<^verbatim>\<open>stopRead\<close> do, unlike \<^verbatim>\<open>forceClose\<close>). If the connection is closed and taken out of
  the map in between, the functor comes behind \<^verbatim>\<open>connectDestroyed\<close> in the queue and runs on a destroyed object when
  the sending thread has let go of its own pointer.
\<close>

definition send_overtaken :: "byte list \<Rightarrow> site_event list" where
  "send_overtaken data =
     [Task 1 (Inr 0), Accept 7 5 9, Task 2 (Inr 0), Call 1 7 (RSend data), Call 0 7 RForceClose, Store 0, Post 0,
      Task 2 (Inr 0), Task 1 (Inr 0), Post 1, Task 2 (Inr 0), Task 2 (Inr 0)]"

theorem send_race:
  "site_legal quiet_user (send_overtaken data) demo_site \<and> \<not> in_time quiet_user (send_overtaken data) demo_site \<and>
   foldRes (site_step quiet_user) (send_overtaken data) demo_site = Inl (Undefined ''dangling TcpConnection*'')"
  by (simp add: demo_eval demo_close send_overtaken_def)

text \<open>
  \<^verbatim>\<open>forceClose\<close>, which has no remark on threads, fails in another way: two threads call it, and the second stores
  \<^verbatim>\<open>kDisconnecting\<close> after the first has closed the connection. Its own functor then closes the connection again, and the
  server asserts that the connection it is to remove is in its map.
\<close>

definition close_overtaken :: "site_event list" where
  "close_overtaken =
     [Task 1 (Inr 0), Accept 7 5 9, Task 2 (Inr 0), Call 1 7 RForceClose, Call 0 7 RForceClose, Store 0, Post 0,
      Task 2 (Inr 0), Store 1, Post 1, Task 1 (Inr 0), Task 2 (Inr 0), Task 1 (Inr 0)]"

theorem close_race:
  "site_legal quiet_user close_overtaken demo_site \<and> \<not> in_time quiet_user close_overtaken demo_site \<and>
   foldRes (site_step quiet_user) close_overtaken demo_site = Inl (Assertion ''tcpserver.cpp:133'')"
  by (simp add: demo_eval demo_close close_overtaken_def)

end
