(* ===== verification/Kaycc_ServerProgress.thy ===== *)
theory Kaycc_ServerProgress
  imports Kaycc_ServerSafe
begin

text \<open>
  Progress of a running server: what is queued in a loop is run once the loop has run that many tasks, whatever
  else happens in between, and so every connection that is closed or told to close is destroyed after its loop,
  the loop of the server and its loop again have run through their queues.
\<close>

section \<open>Queues that are served in order\<close>

text \<open>
  A system whose steps only append to a queue, except that some of them first take its head. An item is served
  as soon as there were as many serving steps as items in front of it, and what its service establishes holds
  from then on if every step keeps it.
\<close>

fun trace :: "('e \<Rightarrow> 's \<Rightarrow> 's \<Rightarrow> bool) \<Rightarrow> 'e list \<Rightarrow> 's \<Rightarrow> 's \<Rightarrow> bool" where
  "trace step [] s s' \<longleftrightarrow> s' = s"
| "trace step (e # es) s s' \<longleftrightarrow> (\<exists>t. step e s t \<and> trace step es t s')"

lemma trace_stable:
  assumes "trace step es s s'" and "Q s" and "\<And>e s s'. step e s s' \<Longrightarrow> Q s \<Longrightarrow> Q s'"
  shows "Q s'"
  using assms(1,2) by (induction es arbitrary: s) (use assms(3) in auto)

lemma trace_append: "trace step (es @ fs) s s' \<longleftrightarrow> (\<exists>t. trace step es s t \<and> trace step fs t s')"
  by (induction es arbitrary: s) auto

locale served_queue =
  fixes step :: "'e \<Rightarrow> 's \<Rightarrow> 's \<Rightarrow> bool" and serves :: "'e \<Rightarrow> bool" and queue :: "'s \<Rightarrow> 't list"
  assumes served: "step e s s' \<Longrightarrow> serves e \<Longrightarrow> \<exists>ts. queue s' = tl (queue s) @ ts"
    and unserved: "step e s s' \<Longrightarrow> \<not> serves e \<Longrightarrow> \<exists>ts. queue s' = queue s @ ts"
begin

lemma reached:
  assumes "trace step es s s'" and "queue s = xs @ t # ys" and "length xs < length (filter serves es)"
    and "I s" and keep: "\<And>e s s'. step e s s' \<Longrightarrow> I s \<Longrightarrow> I s'"
    and exec: "\<And>e s s' ts. step e s s' \<Longrightarrow> serves e \<Longrightarrow> queue s = t # ts \<Longrightarrow> I s \<Longrightarrow> Q s'"
    and stable: "\<And>e s s'. step e s s' \<Longrightarrow> Q s \<Longrightarrow> Q s'"
  shows "Q s'"
  using assms(1-4)
proof (induction es arbitrary: s xs ys)
  case (Cons e es)
  then obtain u where u: "step e s u" "trace step es u s'" by auto
  have I: "I u" using keep [OF u(1) Cons.prems(4)] .
  show ?case
  proof (cases "serves e")
    case False
    with unserved [OF u(1)] Cons.prems(2) obtain zs where "queue u = xs @ t # zs" by auto
    with Cons.IH [OF u(2) _ _ I] Cons.prems(3) False show ?thesis by simp
  next
    case True
    show ?thesis
    proof (cases xs)
      case Nil
      with exec [OF u(1) True] Cons.prems(2,4) have "Q u" by simp
      with u(2) show ?thesis by (rule trace_stable) (rule stable)
    next
      case (Cons x xs')
      with served [OF u(1) True] Cons.prems(2) obtain zs where "queue u = xs' @ t # zs" by auto
      with Cons.IH [OF u(2) _ _ I] Cons.prems(3) True Cons show ?thesis by simp
    qed
  qed
qed simp

lemma served_in_turn:
  assumes "trace step es s s'" and "t \<in> set (queue s)" and "length (queue s) \<le> length (filter serves es)"
    and "I s" and "\<And>e s s'. step e s s' \<Longrightarrow> I s \<Longrightarrow> I s'"
    and "\<And>e s s' ts. step e s s' \<Longrightarrow> serves e \<Longrightarrow> queue s = t # ts \<Longrightarrow> I s \<Longrightarrow> Q s'"
    and "\<And>e s s'. step e s s' \<Longrightarrow> Q s \<Longrightarrow> Q s'"
  shows "Q s'"
proof -
  obtain xs ys where q: "queue s = xs @ t # ys" using assms(2) by (meson split_list)
  with assms(3) have "length xs < length (filter serves es)" by simp
  from reached [where I = I and Q = Q, OF assms(1) q this assms(4-7)] show ?thesis .
qed

text \<open>Before it is served an item stays in the queue.\<close>

lemma still_queued:
  assumes "step e s s'" and "t \<in> set (queue s)" and "serves e \<Longrightarrow> hd (queue s) \<noteq> t"
  shows "t \<in> set (queue s')"
proof (cases "serves e")
  case True
  have "t \<in> set (tl (queue s))" using assms(2) assms(3) [OF True] by (cases "queue s") auto
  with served [OF assms(1) True] show ?thesis by auto
next
  case False
  with unserved [OF assms(1)] assms(2) show ?thesis by auto
qed

end

section \<open>The steps of a site only append to the queues\<close>

text \<open>A server keeps the loops of its pool, and new connections are given to one of these.\<close>

definition all_loops :: "server \<Rightarrow> nat list" where
  "all_loops srv = (let p = sv_pool srv in if tp_loops p = [] then [tp_baseLoop p] else tp_loops p)"

definition same_loops :: "server \<Rightarrow> server \<Rightarrow> bool" where
  "same_loops srv srv' \<longleftrightarrow>
     tp_loops (sv_pool srv') = tp_loops (sv_pool srv) \<and> tp_baseLoop (sv_pool srv') = tp_baseLoop (sv_pool srv) \<and>
     (\<forall>a e. sv_conns srv' a = Some e \<longrightarrow> sv_conns srv a = Some e \<or> snd e \<in> set (all_loops srv))"

lemma same_loops_refl [simp]: "same_loops srv srv"
  by (simp add: same_loops_def)

lemma same_loops_trans: "same_loops s t \<Longrightarrow> same_loops t u \<Longrightarrow> same_loops s u"
  by (fastforce simp: same_loops_def all_loops_def Let_def)

lemma same_loopsI: "sv_pool srv' = sv_pool srv \<Longrightarrow> sv_conns srv' = sv_conns srv \<Longrightarrow> same_loops srv srv'"
  by (simp add: same_loops_def)

definition grown :: "site \<Rightarrow> site \<Rightarrow> bool" where
  "grown s s' \<longleftrightarrow>
     (\<forall>m. \<exists>ts. st_tasks s' m = st_tasks s m @ ts) \<and> sv_loop (st_srv s') = sv_loop (st_srv s) \<and>
     sv_conns (st_srv s) \<subseteq>\<^sub>m sv_conns (st_srv s') \<and> same_loops (st_srv s) (st_srv s') \<and>
     (\<forall>a. sv_conns (st_srv s) a \<noteq> None \<longrightarrow> st_conns s a = None \<longrightarrow> st_conns s' a = None)"

named_theorems grown_intros "operations that only append to the queues"

lemma grown_refl [simp]: "grown s s"
  by (simp add: grown_def)

lemma grown_tasks: "grown s s' \<Longrightarrow> \<exists>ts. st_tasks s' m = st_tasks s m @ ts"
  by (simp add: grown_def)

lemma popped_tasks: "st_tasks (popped k s) m = (if m = k then tl (st_tasks s m) else st_tasks s m)"
  by (simp add: popped_def)

lemma grown_trans: "grown s t \<Longrightarrow> grown t u \<Longrightarrow> grown s u"
  unfolding grown_def by (metis append_assoc domD domIff map_le_def map_le_trans same_loops_trans)

lemma grown_upd [simp]:
  "grown (s\<lparr>st_loops := ls\<rparr>) s' = grown s s'" "grown s (s'\<lparr>st_loops := ls\<rparr>) = grown s s'"
  "grown (s\<lparr>st_flight := fl\<rparr>) s' = grown s s'" "grown s (s'\<lparr>st_flight := fl\<rparr>) = grown s s'"
  "grown s (s'\<lparr>st_closed := fds\<rparr>) = grown s s'"
  by (simp_all add: grown_def)

lemma grown_enqueue: "grown s (enqueue l ts s)"
  by (auto simp: grown_def enqueue_def)

lemma grown_settle: "st_conns s a \<noteq> None \<Longrightarrow> grown s (settle a l c s)"
  by (auto simp: grown_def settle_def put_conn_def enqueue_def)

lemma on_conn_grown [grown_intros]: "on_conn a f s = Inr s' \<Longrightarrow> grown s s'"
  by (auto simp: on_conn_def conn_at_def andThen_Inr_iff grown_settle split: option.splits)

lemma removed_server:
  assumes "removeConnectionInLoop a True srv = Inr srv'"
  shows "sv_loop srv' = sv_loop srv \<and> sv_conns srv' = sv_conns srv \<and> sv_pool srv' = sv_pool srv"
  using assms by (auto simp: removeConnectionInLoop_def conn_at_def post_def Let_def check_Inr_iff
      split: option.splits prod.splits)

lemma grown_srv:
  "sv_loop srv = sv_loop (st_srv s) \<Longrightarrow> sv_conns srv = sv_conns (st_srv s) \<Longrightarrow> sv_pool srv = sv_pool (st_srv s) \<Longrightarrow>
     grown s (s\<lparr>st_srv := srv\<rparr>)"
  by (simp add: grown_def same_loopsI)

lemma remove_in_loop_grown [grown_intros]: "remove_in_loop a s = Inr s' \<Longrightarrow> grown s s'"
  by (auto simp: remove_in_loop_def conn_at_def andThen_Inr_iff dest!: removed_server split: option.splits
      intro: grown_trans [OF grown_srv grown_enqueue])

lemma close_callback_grown [grown_intros]:
  assumes "close_callback a s = Inr s'"
  shows "grown s s'"
proof -
  let ?s = "s\<lparr>st_srv := removeConnection a (st_srv s)\<rparr>"
  have s: "grown s ?s" by (rule grown_srv) (simp_all add: removeConnection_def post_def)
  from assms have "remove_in_loop a ?s = Inr s' \<or> s' = enqueue (sv_loop (st_srv s)) [Srv (TRemove a)] ?s"
    by (auto simp: close_callback_def conn_at_def Let_def split: option.splits if_splits)
  with s show ?thesis by (auto intro: grown_trans remove_in_loop_grown grown_enqueue)
qed

lemma handler_grown [grown_intros]: "handler a f s = Inr s' \<Longrightarrow> grown s s'"
  by (auto simp: handler_def andThen_Inr_iff split: if_splits intro: grown_trans grown_intros)

lemma establish_grown [grown_intros]: "establish user a s = Inr s' \<Longrightarrow> grown s s'"
  by (simp add: establish_def on_conn_grown)

lemma grown_gone: "grown s s1 \<Longrightarrow> grown s (s1\<lparr>st_conns := (st_conns s1)(a := None)\<rparr>)"
  by (auto simp: grown_def)

lemma destroy_grown [grown_intros]:
  assumes "destroy user a s = Inr s'"
  shows "grown s s' \<and> st_conns s' a = None"
proof -
  from assms obtain s1 where s1: "on_conn a (connectDestroyed user True) s = Inr s1"
    and r: "delete_conn a s1 = Inr s'"
    unfolding destroy_def andThen_Inr_iff by blast
  from r obtain s2 fd where s2: "on_conn a destroyTcpConnection s1 = Inr s2"
    and s': "s' = s2\<lparr>st_conns := (st_conns s2)(a := None), st_closed := st_closed s2 @ [fd]\<rparr>"
    by (auto simp: delete_conn_def conn_at_def chan_at_def deref_def andThen_Inr_iff split: option.splits)
  have "grown s s2" using on_conn_grown [OF s1] on_conn_grown [OF s2] by (rule grown_trans)
  with grown_gone [OF this, of a] show ?thesis by (simp add: s')
qed

lemma getNextLoop_places:
  assumes "getNextLoop True p = Inr (l, p')"
  shows "l \<in> set (if tp_loops p = [] then [tp_baseLoop p] else tp_loops p) \<and> tp_loops p' = tp_loops p \<and>
     tp_baseLoop p' = tp_baseLoop p"
  using assms by (auto simp: getNextLoop_def Let_def check_Inr_iff split: if_splits)

lemma accept_grown [grown_intros]:
  assumes "accept_conn user a x fd s = Inr s'" and "sv_conns (st_srv s) a = None"
  shows "grown s s'"
proof -
  from assms(1) obtain srv nm l where srv: "newConnection a True (st_srv s) = Inr srv" "sv_conns srv a = Some (nm, l)"
    by (auto simp: accept_conn_def conn_at_def andThen_Inr_iff split: option.splits)
  from srv(1) obtain k p nm' where new: "getNextLoop True (sv_pool (st_srv s)) = Inr (k, p)"
    "sv_loop srv = sv_loop (st_srv s)" "sv_conns srv = (sv_conns (st_srv s))(a \<mapsto> (nm', k))" "sv_pool srv = p"
    by (auto simp: newConnection_def andThen_Inr_iff post_def Let_def split: if_splits)
  then have S: "sv_loop srv = sv_loop (st_srv s)" "\<exists>e. sv_conns srv = (sv_conns (st_srv s))(a \<mapsto> e)" by blast+
  have "same_loops (st_srv s) srv"
    using getNextLoop_places [OF new(1)] new(3,4) by (auto simp: same_loops_def all_loops_def Let_def split: if_splits)
  note S = S this
  define c where "c = (newTcpConnection (st_loops s l) x fd)\<lparr>tc_hasWriteComplete := st_writeComplete s\<rparr>"
  define s1 where "s1 = put_conn a l c (s\<lparr>st_srv := srv\<rparr>)"
  have "grown s s1"
    using S assms(2) by (auto simp: grown_def s1_def put_conn_def map_le_def)
  moreover have "establish user a s1 = Inr s' \<or> s' = enqueue l [Srv (TEstablish a)] s1"
    using assms(1) srv by (auto simp: accept_conn_def conn_at_def Let_def s1_def c_def split: if_splits)
  ultimately show ?thesis by (auto intro: grown_trans establish_grown grown_enqueue)
qed

lemma put_ch_grown [simp]: "grown s (put_ch a ch s') = grown s s'" "grown (put_ch a ch s) s' = grown s s'"
  by (simp_all add: put_ch_def)

lemma run_cb_grown [grown_intros]: "run_cb user kw readv a cb s = Inr s' \<Longrightarrow> grown s s'"
  by (auto simp: run_cb_def split: conn_cb.splits intro: grown_intros)

lemma stage_grown:
  assumes "(if p then call_opt (run_cb user kw readv a) cb s else Inr s) = Inr s'"
  shows "grown s s'"
  using assms by (auto simp: call_opt_def split: if_splits option.splits intro: grown_intros)

lemma conn_ready_grown [grown_intros]:
  assumes "conn_ready user kw readv a r s = Inr s'"
  shows "grown s s'"
proof -
  have guard: "grown t t'" if "handleEventWithGuard (run_cb user kw readv a) (get_ch a) (put_ch a) t = Inr t'" for t t'
    using that unfolding handleEventWithGuard_def andThen_Inr_iff
    by (auto dest!: stage_grown) (blast intro: grown_trans)
  from assms show ?thesis
    unfolding conn_ready_def handleEvent_def
    by (auto split: if_splits option.splits dest!: guard)
qed

lemma exec_task_grown [grown_intros]: "exec_task user w t s = Inr s' \<Longrightarrow> grown s s'"
  by (cases "(user, w, t, s)" rule: exec_task.cases) (auto dest: grown_intros)

lemma call_grown [grown_intros]:
  "test_state i a r s = Inr s' \<Longrightarrow> grown s s'" "store_state i s = Inr s' \<Longrightarrow> grown s s'" "post_call i s = Inr s' \<Longrightarrow> grown s s'"
  by (auto simp: test_state_def store_state_def post_call_def split: option.splits if_splits bool.splits dest!: on_conn_grown)

fun runs :: "nat \<Rightarrow> site_event \<Rightarrow> bool" where
  "runs l (Task m w) \<longleftrightarrow> m = l"
| "runs l e \<longleftrightarrow> False"

definition legal_step :: "user \<Rightarrow> site_event \<Rightarrow> site \<Rightarrow> site \<Rightarrow> bool" where
  "legal_step user e s s' \<longleftrightarrow> site_inv {} s \<and> site_ok e s \<and> \<not> overtaken e s \<and> site_step user e s = Inr s'"

lemma run_task_grown:
  assumes "run_task user w l s = Inr s'"
  shows "grown (popped l s) s'"
  using assms by (auto simp: run_task_def popped_def fun_upd_idem split: list.splits intro: exec_task_grown)

lemma legal_step_cases:
  assumes "legal_step user e s s'"
  obtains l w where "e = Task l w" and "run_task user w l s = Inr s'" and "grown (popped l s) s'"
  | "\<And>l. \<not> runs l e" and "grown s s'"
proof (cases e)
  case (Task l w)
  with assms that(1) run_task_grown show thesis by (simp add: legal_step_def)
next
  case (Delayed a)
  with assms that(2) show thesis
    by (auto simp: legal_step_def delayed_close_def weakCallback_def split: if_splits intro: grown_intros)
qed (use assms that(2) in \<open>auto simp: legal_step_def intro: grown_intros\<close>)

interpretation loop_queue: served_queue "legal_step user" "runs l" "\<lambda>s. st_tasks s l" for user l
proof
  fix e s s'
  assume step: "legal_step user e s s'"
  then show "\<exists>ts. st_tasks s' l = tl (st_tasks s l) @ ts" if "runs l e"
    using that by (cases rule: legal_step_cases) (auto simp: popped_tasks dest: grown_tasks [where m = l])
  from step show "\<exists>ts. st_tasks s' l = st_tasks s l @ ts" if "\<not> runs l e"
    using that by (cases rule: legal_step_cases) (auto simp: popped_tasks dest: grown_tasks [where m = l])
qed

section \<open>A closed connection is destroyed\<close>

text \<open>
  The stages a closing connection \<open>a\<close> goes through. Its loop \<open>l\<close> and the loop \<open>m\<close> of the server never change; once
  it is gone it stays gone.
\<close>

definition home :: "nat \<Rightarrow> nat \<Rightarrow> nat \<Rightarrow> site \<Rightarrow> bool" where
  "home a l m s \<longleftrightarrow> (\<exists>nm. sv_conns (st_srv s) a = Some (nm, l)) \<and> sv_loop (st_srv s) = m"

definition destroyed :: "nat \<Rightarrow> nat \<Rightarrow> nat \<Rightarrow> site \<Rightarrow> bool" where
  "destroyed a l m s \<longleftrightarrow> home a l m s \<and> st_conns s a = None"

definition removed :: "nat \<Rightarrow> nat \<Rightarrow> nat \<Rightarrow> site \<Rightarrow> bool" where
  "removed a l m s \<longleftrightarrow> home a l m s \<and> (st_conns s a = None \<or> Srv (TDestroy a) \<in> set (st_tasks s l))"

definition closed_down :: "nat \<Rightarrow> nat \<Rightarrow> nat \<Rightarrow> site \<Rightarrow> bool" where
  "closed_down a l m s \<longleftrightarrow> removed a l m s \<or> home a l m s \<and> Srv (TRemove a) \<in> set (st_tasks s m)"

lemma grown_home:
  assumes "grown s s'"
  shows "home a l m s \<Longrightarrow> home a l m s'" and "destroyed a l m s \<Longrightarrow> destroyed a l m s'"
  using assms by (auto simp: grown_def home_def destroyed_def map_le_def dom_def)

lemma popped_home [simp]:
  "home a l m (popped k s) = home a l m s" "destroyed a l m (popped k s) = destroyed a l m s"
  by (simp_all add: home_def destroyed_def site_simps)

lemma home_stable:
  assumes "legal_step user e s s'"
  shows "home a l m s \<Longrightarrow> home a l m s'" and "destroyed a l m s \<Longrightarrow> destroyed a l m s'"
  using assms by (cases rule: legal_step_cases; use grown_home in fastforce)+

text \<open>The connections are in loops of the server.\<close>

definition placed :: "nat \<Rightarrow> nat list \<Rightarrow> site \<Rightarrow> bool" where
  "placed m ls s \<longleftrightarrow>
     sv_loop (st_srv s) = m \<and> tp_baseLoop (sv_pool (st_srv s)) = m \<and> tp_loops (sv_pool (st_srv s)) = ls \<and>
     (\<forall>a e. sv_conns (st_srv s) a = Some e \<longrightarrow> snd e \<in> set (all_loops (st_srv s)))"

lemma grown_placed: "grown s s' \<Longrightarrow> placed m ls s \<Longrightarrow> placed m ls s'"
  unfolding placed_def grown_def same_loops_def all_loops_def by (metis (no_types, lifting))

lemma placed_stable: "legal_step user e s s' \<Longrightarrow> placed m ls s \<Longrightarrow> placed m ls s'"
  by (erule legal_step_cases) (use grown_placed in \<open>auto simp: placed_def popped_def\<close>)

text \<open>What serving the last two stages does.\<close>

lemma destroy_served:
  assumes "legal_step user e s s'" and "runs l e" and "st_tasks s l = Srv (TDestroy a) # ts" and "home a l m s"
  shows "destroyed a l m s'"
proof -
  from assms(1,2) obtain w where "run_task user w l s = Inr s'" by (cases e) (auto simp: legal_step_def)
  with assms(3) have "destroy user a (popped l s) = Inr s'" by (simp add: run_task_def popped_def)
  with destroy_grown grown_home(1) [of "popped l s" s' a l m] assms(4) show ?thesis by (simp add: destroyed_def)
qed

lemma remove_served:
  assumes "legal_step user e s s'" and "runs m e" and "st_tasks s m = Srv (TRemove a) # ts" and "home a l m s"
  shows "removed a l m s'"
proof -
  from assms(1,2) obtain w where "run_task user w m s = Inr s'" by (cases e) (auto simp: legal_step_def)
  with assms(3) have r: "remove_in_loop a (popped m s) = Inr s'" by (simp add: run_task_def popped_def)
  obtain nm where "sv_conns (st_srv s) a = Some (nm, l)" using assms(4) by (auto simp: home_def)
  with r have "Srv (TDestroy a) \<in> set (st_tasks s' l)"
    by (auto simp: remove_in_loop_def andThen_Inr_iff conn_at_def site_simps enqueue_def dest!: removed_server
        split: option.splits)
  with home_stable(1) [OF assms(1,4)] show ?thesis by (simp add: removed_def)
qed

lemma removed_stable:
  assumes step: "legal_step user e s s'" and "removed a l m s"
  shows "removed a l m s'"
proof (cases "destroyed a l m s \<or> runs l e \<and> hd (st_tasks s l) = Srv (TDestroy a) \<and> st_tasks s l \<noteq> []")
  case True
  moreover have "destroyed a l m s'" if "runs l e" "hd (st_tasks s l) = Srv (TDestroy a)" "st_tasks s l \<noteq> []"
    using destroy_served [OF step that(1), of a "tl (st_tasks s l)" m] that assms(2)
    by (metis list.collapse removed_def)
  ultimately have "destroyed a l m s'" using home_stable(2) [OF step] by blast
  then show ?thesis by (simp add: destroyed_def removed_def)
next
  case False
  with assms(2) have "Srv (TDestroy a) \<in> set (st_tasks s l)" "home a l m s"
    by (auto simp: removed_def destroyed_def)
  with loop_queue.still_queued [OF step this(1)] home_stable(1) [OF step] False show ?thesis
    by (auto simp: removed_def)
qed

lemma closed_down_stable:
  assumes step: "legal_step user e s s'" and "closed_down a l m s"
  shows "closed_down a l m s'"
proof (cases "removed a l m s")
  case True
  with removed_stable [OF step] show ?thesis by (simp add: closed_down_def)
next
  case False
  then have q: "home a l m s" "Srv (TRemove a) \<in> set (st_tasks s m)" using assms(2) by (auto simp: closed_down_def)
  show ?thesis
  proof (cases "runs m e \<and> hd (st_tasks s m) = Srv (TRemove a)")
    case True
    with q(2) remove_served [OF step _ _ q(1), of "tl (st_tasks s m)"] show ?thesis
      by (cases "st_tasks s m") (auto simp: closed_down_def)
  next
    case False
    with loop_queue.still_queued [OF step q(2)] home_stable(1) [OF step q(1)] show ?thesis
      by (auto simp: closed_down_def)
  qed
qed

text \<open>A connection that is closed has the request to remove or to destroy it queued.\<close>

lemma closed_conn_down:
  assumes inv: "site_inv {} s" and c: "st_conns s a = Some c" "tc_state c = kDisconnected" and h: "home a l m s"
  shows "closed_down a l m s"
proof -
  from site_invD(6) [OF inv c(1)] obtain k where ok: "conn_ok {} s a c k" by blast
  note P = conn_ok_parts [OF ok]
  have k: "k = l" "sv_loop (st_srv s) = m" using P(1) h by (auto simp: home_def)
  obtain fs where fs: "own a s l = map (Conn a) fs @ (if a \<in> live (st_srv s) then [] else [Srv (TDestroy a)])"
    using conn_ok_established [OF ok] c(2) k(1) by auto
  have sub: "t \<in> set (own a s i) \<Longrightarrow> t \<in> set (st_tasks s i)" for t i by (simp add: own_def)
  show ?thesis
  proof (cases "a \<in> live (st_srv s)")
    case True
    then have "m \<noteq> l" using P(3) c(2) k by auto
    with P(2) [of m] True c(2) k have "own a s m = [Srv (TRemove a)]" by auto
    with sub [of "Srv (TRemove a)" m] h show ?thesis by (simp add: closed_down_def)
  next
    case False
    with fs sub [of "Srv (TDestroy a)" l] h show ?thesis by (simp add: closed_down_def removed_def)
  qed
qed

context conn_user
begin

lemma force_close_served:
  assumes step: "legal_step user e s s'" and l: "runs l e" and q: "st_tasks s l = Conn a FForceClose # ts"
    and h: "home a l m s"
  shows "closed_down a l m s'"
proof -
  from step l obtain w where e: "e = Task l w" by (cases e) auto
  have inv: "site_inv {} s" "at_rest s a (op_ok (Functor w FForceClose))" "run_task user w l s = Inr s'"
    using step q e by (auto simp: legal_step_def)
  from functor_task_result [OF inv(1) q inv(2)] inv(3) obtain c c' where
    c: "site_inv {} s'" "tc_state c \<noteq> kConnecting" "run_functor user w FForceClose c = Inr c'"
    "map_option tc_state (st_conns s' a) = Some (tc_state c')" by auto
  have "tc_state c' = kDisconnected"
    using c(2,3) handleClose_closes [of True c c']
    by (cases "tc_state c") (auto simp: run_functor_def forceCloseInLoop_def closing_def)
  with c(1,4) closed_conn_down [OF c(1) _ _ home_stable(1) [OF step h]] show ?thesis by auto
qed

lemma trace_of_run:
  assumes "site_inv {} s" and "site_legal user es s" and "in_time user es s" and "foldRes (site_step user) es s = Inr s'"
  shows "trace (legal_step user) es s s' \<and> site_inv {} s'"
  using assms
proof (induction es arbitrary: s)
  case (Cons e es)
  then obtain s1 where s1: "site_step user e s = Inr s1" "foldRes (site_step user) es s1 = Inr s'"
    by (auto simp: andThen_Inr_iff)
  with Cons.prems site_step_ok [of s e] have "site_inv {} s1" "legal_step user e s s1" "site_legal user es s1"
    "in_time user es s1" by (auto simp: legal_step_def)
  with Cons.IH s1(2) show ?case by auto
qed simp

lemma closes_down:
  assumes "trace (legal_step user) es s s'" and "home a l m s" and "length (st_tasks s l) \<le> length (filter (runs l) es)"
    and "closed_down a l m s \<or> Conn a FForceClose \<in> set (st_tasks s l)"
  shows "closed_down a l m s'"
  using assms(4)
proof
  assume "closed_down a l m s"
  with assms(1) show ?thesis by (rule trace_stable) (rule closed_down_stable)
next
  assume t: "Conn a FForceClose \<in> set (st_tasks s l)"
  show ?thesis
    by (rule loop_queue.served_in_turn [where I = "home a l m" and Q = "closed_down a l m",
        OF assms(1) t assms(3,2) home_stable(1) force_close_served closed_down_stable])
qed

lemma removes:
  assumes tr: "trace (legal_step user) es s s'" and "closed_down a l m s"
    and len: "length (st_tasks s m) \<le> length (filter (runs m) es)"
  shows "removed a l m s'"
proof (cases "removed a l m s")
  case True
  with tr show ?thesis by (rule trace_stable) (rule removed_stable)
next
  case False
  then have h: "home a l m s" and t: "Srv (TRemove a) \<in> set (st_tasks s m)"
    using assms(2) by (auto simp: closed_down_def)
  show ?thesis
    by (rule loop_queue.served_in_turn [where I = "home a l m" and Q = "removed a l m",
        OF tr t len h home_stable(1) remove_served removed_stable])
qed

lemma destroys:
  assumes tr: "trace (legal_step user) es s s'" and "removed a l m s"
    and len: "length (st_tasks s l) \<le> length (filter (runs l) es)"
  shows "destroyed a l m s'"
proof (cases "destroyed a l m s")
  case True
  with tr show ?thesis by (rule trace_stable) (rule home_stable(2))
next
  case False
  then have h: "home a l m s" and t: "Srv (TDestroy a) \<in> set (st_tasks s l)"
    using assms(2) by (auto simp: removed_def destroyed_def)
  show ?thesis
    by (rule loop_queue.served_in_turn [where I = "home a l m" and Q = "destroyed a l m",
        OF tr t len h home_stable(1) destroy_served home_stable(2)])
qed

end

lemma site_legal_append:
  "foldRes (site_step user) es s = Inr s' \<Longrightarrow> site_legal user (es @ fs) s \<longleftrightarrow> site_legal user es s \<and> site_legal user fs s'"
  by (induction es arbitrary: s) (auto simp: andThen_Inr_iff split: sum.splits)

lemma in_time_append:
  "foldRes (site_step user) es s = Inr s' \<Longrightarrow> in_time user (es @ fs) s \<longleftrightarrow> in_time user es s \<and> in_time user fs s'"
  by (induction es arbitrary: s) (auto simp: andThen_Inr_iff split: sum.splits)

text \<open>
  C9. A connection that is closed, or that \<^verbatim>\<open>forceClose\<close> was called on, is destroyed in the end. Take a state the
  server can reach in which \<^verbatim>\<open>forceCloseInLoop\<close> is queued for a connection or its state is \<^verbatim>\<open>kDisconnected\<close>. Let the
  run go on in any way, with new connections, events, calls of other threads (not overtaken) and timers interleaved, until the
  loop of the connection has run as many tasks as were queued there, then until the loop of the server has, and
  then the loop of the connection again. Then the connection object is gone, and it never comes back.
\<close>

theorem closed_connection_destroyed:
  assumes "conn_user user" and "0 \<le> n" and "length ipPort \<le> 51"
    and "setThreadNum_sv n (newTcpServer loop ipPort name) = Inr s0" and "start_sv startLoop hasCb True s0 = Inr s1"
    and "\<And>l. loop_ok (loops l)" and legal: "site_legal user (es @ fs @ gs @ hs) (start_site s1 loops wc)"
    and time: "in_time user (es @ fs @ gs @ hs) (start_site s1 loops wc)"
    and run: "foldRes (site_step user) es (start_site s1 loops wc) = Inr s" "foldRes (site_step user) fs s = Inr t"
      "foldRes (site_step user) gs t = Inr u"
    and c: "st_conns s a = Some c" "tc_state c = kDisconnected \<or> Conn a FForceClose \<in> set (st_tasks s (loop_no s a))"
    and fair: "length (st_tasks s (loop_no s a)) \<le> length (filter (runs (loop_no s a)) fs)"
      "length (st_tasks t (sv_loop (st_srv s))) \<le> length (filter (runs (sv_loop (st_srv s))) gs)"
      "length (st_tasks u (loop_no s a)) \<le> length (filter (runs (loop_no s a)) hs)"
  shows "\<exists>v. foldRes (site_step user) hs u = Inr v \<and> st_conns v a = None"
proof -
  have L: "site_legal user es (start_site s1 loops wc)" "site_legal user fs s" "site_legal user gs t" "site_legal user hs u"
    using legal run by (simp_all add: site_legal_append)
  have O: "in_time user es (start_site s1 loops wc)" "in_time user fs s" "in_time user gs t" "in_time user hs u"
    using time run by (simp_all add: in_time_append)
  have "site_inv {} s" using started_site_run [OF assms(1-6) L(1) O(1)] run(1) by auto
  note T = conn_user.trace_of_run [OF assms(1)]
  from T [OF \<open>site_inv {} s\<close> L(2) O(2) run(2)] have 1: "trace (legal_step user) fs s t" "site_inv {} t" by auto
  from T [OF 1(2) L(3) O(3) run(3)] have 2: "trace (legal_step user) gs t u" "site_inv {} u" by auto
  from conn_user.site_run_ok [OF assms(1) 2(2) L(4) O(4)] obtain v where v: "foldRes (site_step user) hs u = Inr v" by blast
  from T [OF 2(2) L(4) O(4) v] have 3: "trace (legal_step user) hs u v" by blast
  let ?l = "loop_no s a" and ?m = "sv_loop (st_srv s)"
  from site_invD(6) [OF \<open>site_inv {} s\<close> c(1)] obtain k where k: "conn_ok {} s a c k" by blast
  have h: "home a ?l ?m s" using conn_ok_parts(1) [OF k] conn_ok_loop_no [OF k] by (auto simp: home_def)
  have "closed_down a ?l ?m s \<or> Conn a FForceClose \<in> set (st_tasks s ?l)"
    using c closed_conn_down [OF \<open>site_inv {} s\<close> c(1) _ h] by blast
  from conn_user.closes_down [OF assms(1) 1(1) h fair(1) this] have "closed_down a ?l ?m t" .
  from conn_user.removes [OF assms(1) 2(1) this fair(2)] have "removed a ?l ?m u" .
  from conn_user.destroys [OF assms(1) 3 this fair(3)] v show ?thesis by (auto simp: destroyed_def)
qed

text \<open>In the run of the witnesses of Kaycc\_ServerSafe, another thread forces connection 7 to close.\<close>

theorem closed_connection_destroyed_witness:
  "\<exists>s t u v. foldRes (site_step quiet_user) (take 8 demo_events) demo_site = Inr s \<and>
     foldRes (site_step quiet_user) [Task 2 (Inr 0)] s = Inr t \<and> foldRes (site_step quiet_user) [Task 1 (Inr 0)] t = Inr u \<and>
     foldRes (site_step quiet_user) [Task 2 (Inr 0), Delayed 7] u = Inr v \<and> st_conns v 7 = None"
proof -
  have "\<exists>s t u c. foldRes (site_step quiet_user) (take 8 demo_events) demo_site = Inr s \<and>
    foldRes (site_step quiet_user) [Task 2 (Inr 0)] s = Inr t \<and> foldRes (site_step quiet_user) [Task 1 (Inr 0)] t = Inr u \<and>
    st_conns s 7 = Some c \<and> st_tasks s 2 = [Conn 7 FForceClose] \<and> loop_no s 7 = 2 \<and> sv_loop (st_srv s) = 1 \<and>
    length (st_tasks t 1) = 1 \<and> length (st_tasks u 2) = 1"
    by (simp add: demo_eval demo_close)
  then obtain s t u c where r: "foldRes (site_step quiet_user) (take 8 demo_events) demo_site = Inr s"
    "foldRes (site_step quiet_user) [Task 2 (Inr 0)] s = Inr t" "foldRes (site_step quiet_user) [Task 1 (Inr 0)] t = Inr u"
    "st_conns s 7 = Some c" "st_tasks s 2 = [Conn 7 FForceClose]" "loop_no s 7 = 2" "sv_loop (st_srv s) = 1"
    "length (st_tasks t 1) = 1" "length (st_tasks u 2) = 1" by blast
  have "take 8 demo_events @ [Task 2 (Inr 0)] @ [Task 1 (Inr 0)] @ [Task 2 (Inr 0), Delayed 7] = demo_events"
    by (simp add: demo_events_def)
  with demo_legal have "site_legal quiet_user
      (take 8 demo_events @ [Task 2 (Inr 0)] @ [Task 1 (Inr 0)] @ [Task 2 (Inr 0), Delayed 7]) demo_site"
    "in_time quiet_user
      (take 8 demo_events @ [Task 2 (Inr 0)] @ [Task 1 (Inr 0)] @ [Task 2 (Inr 0), Delayed 7]) demo_site" by metis+
  with closed_connection_destroyed [where n = 1 and hs = "[Task 2 (Inr 0), Delayed 7]", OF quiet.conn_user_axioms _ _ demo_start _ _ _ r(1) [unfolded demo_site_def]
      r(2,3,4)] r show ?thesis by (simp add: demo_site_def demo_loop0_ok)
qed

end
