(* ===== verification/Kaycc_ServerStop.thy ===== *)
theory Kaycc_ServerStop
  imports Kaycc_ServerProgress Kaycc_Acceptor
begin

text \<open>
  The end of a running server: \<^verbatim>\<open>TcpServer::~TcpServer\<close> in the joint state of Kaycc\_ServerRun. Its body runs in the loop
  of the server, destroys the connections of that loop at once and queues \<^verbatim>\<open>connectDestroyed\<close> for the others. Then
  the members go, in reverse order: \<^verbatim>\<open>threadPool_\<close>, whose threads are asked to quit and joined one after the other, and
  \<^verbatim>\<open>acceptor_\<close>. What was queued last and has not run when its loop is left never runs. A thread that has not
  entered \<^verbatim>\<open>loop()\<close> when it is asked to quit forgets the request there (Kaycc\_LoopThread), and the join does not
  return. The wakeup channel and the timers of a loop, which go with the loop (Kaycc\_EventLoop), are not in this state.
\<close>

section \<open>The destructor\<close>

fun drop_conns :: "user \<Rightarrow> (string \<times> nat) list \<Rightarrow> site \<Rightarrow> site res" where
  "drop_conns user [] s = Inr s"
| "drop_conns user (e # es) s =
     andThen (conn_at (st_srv s) (snd e) (\<lambda>(nm, l).
         if l = sv_loop (st_srv s) then destroy user (snd e) s
         else Inr (enqueue l [Srv (TDestroy (snd e))] s)))
       (drop_conns user es)"

text \<open>The body of the destructor, and the end of the map.\<close>

definition server_body :: "user \<Rightarrow> site \<Rightarrow> site res" where
  "server_body user s =
     andThen (drop_conns user (sv_connections (st_srv s)) s) (\<lambda>s1.
     andThen (destroyTcpServer True (st_srv s1)) (\<lambda>srv. Inr (s1\<lparr>st_srv := srv\<rparr>)))"

text \<open>
  A loop that is left destroys the functors still in its queue, and with a functor the pointer to the connection it
  holds, if it holds one and not a plain \<^verbatim>\<open>this\<close>. The last pointer takes the connection with it. Other pointers are in the
  map of the server and in the queues; the user keeps none.
\<close>

fun pointers :: "task \<Rightarrow> nat list" where
  "pointers (Srv TListen) = []"
| "pointers (Srv (TEstablish a)) = [a]"
| "pointers (Srv (TRemove a)) = [a]"
| "pointers (Srv (TDestroy a)) = [a]"
| "pointers (Conn a f) = (case f of FForceClose \<Rightarrow> [a] | FWriteComplete \<Rightarrow> [a] | FHighWater n \<Rightarrow> [a] | _ \<Rightarrow> [])"

definition held :: "nat \<Rightarrow> site \<Rightarrow> bool" where
  "held a s \<longleftrightarrow>
     list_ex (\<lambda>e. snd e = a) (sv_connections (st_srv s)) \<or>
     list_ex (\<lambda>l. list_ex (\<lambda>t. a \<in> set (pointers t)) (st_tasks s l)) (sv_loop (st_srv s) # tp_loops (sv_pool (st_srv s)))"

fun release :: "nat list \<Rightarrow> site \<Rightarrow> site res" where
  "release [] s = Inr s"
| "release (a # as) s = andThen (if st_conns s a = None \<or> held a s then Inr s else delete_conn a s) (release as)"

definition leave_loop :: "nat \<Rightarrow> site \<Rightarrow> site res" where
  "leave_loop l s = release (concat (map pointers (st_tasks s l))) (s\<lparr>st_tasks := (st_tasks s)(l := [])\<rparr>)"

text \<open>
  The threads of the pool are destroyed in order, each by \<^verbatim>\<open>quit\<close> and \<^verbatim>\<open>join\<close>. While the thread of loop \<open>l\<close> is joined,
  the loops run tasks as \<open>sched l\<close> says, then that loop is left. If its thread is not \<open>looping\<close>, that is, if it has not
  entered \<^verbatim>\<open>loop()\<close> yet, the join does not return, which is \<open>None\<close>.
\<close>

type_synonym schedule = "(nat \<times> written) list"

definition runs_of :: "schedule \<Rightarrow> nat \<Rightarrow> nat" where
  "runs_of es l = length (filter (\<lambda>e. fst e = l) es)"

fun join_loops :: "user \<Rightarrow> (nat \<Rightarrow> bool) \<Rightarrow> (nat \<Rightarrow> schedule) \<Rightarrow> nat list \<Rightarrow> site \<Rightarrow> site res option" where
  "join_loops user looping sched [] s = Some (Inr s)"
| "join_loops user looping sched (l # ls) s =
     (case foldRes (\<lambda>(m, w). run_task user w m) (sched l) s of
        Inl f \<Rightarrow> Some (Inl f)
      | Inr s1 \<Rightarrow>
          if looping l
          then (case leave_loop l s1 of Inl f \<Rightarrow> Some (Inl f) | Inr s2 \<Rightarrow> join_loops user looping sched ls s2)
          else None)"

text \<open>The acceptor works on the loop of the server; its descriptors are closed with it.\<close>

type_synonym conn_acceptor = "(conn_functor, conn_cb) acceptor"

definition delete_acceptor :: "conn_acceptor \<Rightarrow> site \<Rightarrow> site res" where
  "delete_acceptor ac s =
     (let l = sv_loop (st_srv s) in
      andThen (destroyAcceptor True (ac\<lparr>ac_loop := st_loops s l, ac_closed := []\<rparr>)) (\<lambda>a.
      Inr (s\<lparr>st_loops := (st_loops s)(l := ac_loop a), st_closed := st_closed s @ ac_closed a\<rparr>)))"

definition destroy_server ::
    "user \<Rightarrow> (nat \<Rightarrow> bool) \<Rightarrow> (nat \<Rightarrow> schedule) \<Rightarrow> conn_acceptor \<Rightarrow> site \<Rightarrow> site res option" where
  "destroy_server user looping sched ac s =
     (case server_body user s of
        Inl f \<Rightarrow> Some (Inl f)
      | Inr s1 \<Rightarrow>
          map_option (\<lambda>r. andThen r (delete_acceptor ac))
            (join_loops user looping sched (tp_loops (sv_pool (st_srv s1))) s1))"

section \<open>Destroying an open connection\<close>

definition open_conn :: "conn \<Rightarrow> bool" where
  "open_conn c \<longleftrightarrow>
     conn_inv c \<and> tc_state c = kConnected \<and>
     (\<exists>ch. el_channels (tc_loop c) (tc_chan c) = Some ch \<and> \<not> ch_eventHandling ch)"

lemma open_conn_kept:
  assumes c: "open_conn (c\<lparr>tc_loop := l\<rparr>)" and x: "tc_chan c \<noteq> x" and kept: "others_kept x l l'" and inv: "el_inv l'"
  shows "open_conn (c\<lparr>tc_loop := l'\<rparr>)"
proof -
  from c obtain ch where ch: "el_channels l (tc_chan c) = Some ch" "\<not> ch_eventHandling ch"
    by (auto simp: open_conn_def)
  from others_kept_chan [OF kept ch(1) x] obtain i where "el_channels l' (tc_chan c) = Some (ch\<lparr>ch_index := i\<rparr>)" .
  with conn_inv_kept [OF _ x kept inv] c ch(2) show ?thesis by (simp add: open_conn_def)
qed

context conn_user
begin

lemma open_removable:
  assumes c: "open_conn c" and idle: "\<not> el_eventHandling (tc_loop c)"
  shows "removable user c"
proof -
  obtain ch where ch: "conn_inv c" "el_channels (tc_loop c) (tc_chan c) = Some ch" "\<not> ch_eventHandling ch"
    "tc_state c = kConnected" using c by (auto simp: open_conn_def)
  from close_idle [OF ch(1) idle ch(2,3)] obtain c0 where
    c0: "on_loop (disableAll True (tc_chan c)) (c\<lparr>tc_state := kDisconnected\<rparr>) = Inr c0" "closed_conn c0" by blast
  from closed c0(2) obtain d where d: "user UConnection c0 = Inr d" "closed_conn d" by (auto simp: closed_law_def)
  have s: "confined (c\<lparr>tc_state := kDisconnected\<rparr>) c0" "el_pending (tc_loop c0) = el_pending (tc_loop c)"
    using confined_set [of ev_disableAll True "c\<lparr>tc_state := kDisconnected\<rparr>" c0] c0(1) by (simp_all add: disableAll_def)
  note t = tame [OF d(1)]
  have "confined (c\<lparr>tc_state := kDisconnected\<rparr>) d" using s(1) t by (blast intro: confined_trans)
  then have K: "tc_chan d = tc_chan c" "others_kept (tc_chan c) (tc_loop c) (tc_loop d)"
    "map_option identity (el_channels (tc_loop d) (tc_chan c)) = map_option identity (el_channels (tc_loop c) (tc_chan c))"
    by (simp_all add: confined_def confined_to_def)
  have pending: "el_pending (tc_loop d) = el_pending (tc_loop c)"
    using s(2) t c0(2) by (simp add: calm_def closed_conn_def)
  have fd: "map_option ch_fd (el_channels (tc_loop d) (tc_chan c)) = map_option ch_fd (el_channels (tc_loop c) (tc_chan c))"
    using K(3) by (cases "el_channels (tc_loop c) (tc_chan c)"; cases "el_channels (tc_loop d) (tc_chan c)")
      (auto dest: identityD(1))
  have "connectDestroyed user True c = connectDestroyed user True d"
    using ch(4) c0(1) d by (simp add: connectDestroyed_def closed_conn_def)
  with closed_removable [OF d(2), of user, unfolded removable_def K(1) pending fd] others_kept_trans [OF K(2)]
  show ?thesis unfolding removable_def by metis
qed

end

section \<open>The invariant while the server is torn down\<close>

definition conn_fd :: "site \<Rightarrow> nat \<Rightarrow> int" where
  "conn_fd s a = (case el_channels (st_loops s (loop_no s a)) (tc_chan (the (st_conns s a))) of
     None \<Rightarrow> -1 | Some ch \<Rightarrow> ch_fd ch)"

text \<open>
  All connections are open; those that are not in \<open>E\<close> have \<^verbatim>\<open>connectDestroyed\<close> queued in their loop, and nothing else
  is queued; the descriptors closed and those of the connections are \<open>M\<close>.
\<close>

definition stop_ok :: "site \<Rightarrow> bool" where
  "stop_ok s \<longleftrightarrow>
     (\<forall>l. loop_ok (st_loops s l)) \<and> finite (dom (st_conns s)) \<and>
     (\<forall>a b c d. st_conns s a = Some c \<longrightarrow> st_conns s b = Some d \<longrightarrow> a \<noteq> b \<longrightarrow> tc_chan c \<noteq> tc_chan d) \<and>
     (\<forall>a c. st_conns s a = Some c \<longrightarrow>
        sv_conns (st_srv s) a \<noteq> None \<and> open_conn (c\<lparr>tc_loop := st_loops s (loop_no s a)\<rparr>))"

definition waiting :: "nat set \<Rightarrow> site \<Rightarrow> nat \<Rightarrow> nat set" where
  "waiting E s l = {a. st_conns s a \<noteq> None \<and> loop_no s a = l \<and> a \<notin> E}"

definition stop_inv :: "nat set \<Rightarrow> int multiset \<Rightarrow> site \<Rightarrow> bool" where
  "stop_inv E M s \<longleftrightarrow>
     stop_ok s \<and> mset (st_closed s) + image_mset (conn_fd s) (mset_set (dom (st_conns s))) = M \<and>
     (\<forall>l. \<exists>as. st_tasks s l = map (Srv \<circ> TDestroy) as \<and> distinct as \<and> set as = waiting E s l)"

text \<open>The channel of the acceptor is registered in the loop of the server and is not that of a connection.\<close>

definition listening :: "conn_acceptor \<Rightarrow> site \<Rightarrow> bool" where
  "listening ac s \<longleftrightarrow>
     (\<exists>ch. el_channels (st_loops s (sv_loop (st_srv s))) (ac_chan ac) = Some ch \<and> ch_fd ch = ac_fd ac \<and>
        \<not> ch_eventHandling ch) \<and>
     el_reg (st_loops s (sv_loop (st_srv s))) (ac_fd ac) = Some (ac_chan ac) \<and>
     (\<forall>a c. st_conns s a = Some c \<longrightarrow> tc_chan c \<noteq> ac_chan ac)"

lemma listening_kept:
  assumes ac: "listening ac s" and srv: "sv_loop (st_srv s') = sv_loop (st_srv s)" and x: "x \<noteq> ac_chan ac"
    and kept: "others_kept x (st_loops s (sv_loop (st_srv s))) (st_loops s' (sv_loop (st_srv s)))"
    and conns: "\<And>a c. st_conns s' a = Some c \<Longrightarrow> st_conns s a = Some c"
  shows "listening ac s'"
proof -
  let ?m = "sv_loop (st_srv s)"
  from ac obtain ch where ch: "el_channels (st_loops s ?m) (ac_chan ac) = Some ch" "ch_fd ch = ac_fd ac"
    "\<not> ch_eventHandling ch" by (auto simp: listening_def)
  from others_kept_chan [OF kept ch(1)] x obtain i where "el_channels (st_loops s' ?m) (ac_chan ac) = Some (ch\<lparr>ch_index := i\<rparr>)"
    by metis
  moreover have "el_reg (st_loops s' ?m) (ac_fd ac) = Some (ac_chan ac)"
    using ac kept x by (simp add: listening_def others_kept_def)
  ultimately show ?thesis using ac srv conns ch(2,3) by (auto simp: listening_def)
qed

lemma stop_inv_gone: "st_conns s a = None \<Longrightarrow> stop_inv (insert a E) M s = stop_inv E M s"
proof -
  assume "st_conns s a = None"
  then have "waiting (insert a E) s l = waiting E s l" for l by (auto simp: waiting_def)
  then show ?thesis by (simp add: stop_inv_def)
qed

context conn_user
begin

lemma destroy_stop:
  assumes inv: "stop_inv E M s" and a: "a \<in> E" and c: "st_conns s a = Some c"
  shows "\<exists>s'. destroy user a s = Inr s' \<and> stop_inv E M s' \<and> st_srv s' = st_srv s \<and>
     st_conns s' = (st_conns s)(a := None) \<and> st_tasks s' = st_tasks s \<and> (\<forall>ac. listening ac s \<longrightarrow> listening ac s')"
proof -
  have ok: "loop_ok (st_loops s l)" "finite (dom (st_conns s))"
    "st_conns s b = Some d \<Longrightarrow> st_conns s e = Some d' \<Longrightarrow> b \<noteq> e \<Longrightarrow> tc_chan d \<noteq> tc_chan d'"
    "st_conns s b = Some d \<Longrightarrow> sv_conns (st_srv s) b \<noteq> None \<and> open_conn (d\<lparr>tc_loop := st_loops s (loop_no s b)\<rparr>)"
    for l b d e d' using inv by (auto simp: stop_inv_def stop_ok_def)
  define l where "l = loop_no s a"
  obtain nm where nm: "sv_conns (st_srv s) a = Some (nm, l)" using ok(4) [OF c] by (auto simp: l_def loop_no_def)
  have lo: "el_pending (st_loops s l) = []" "\<not> el_eventHandling (st_loops s l)" using ok(1) by (simp_all add: loop_ok_def)
  have "removable user (c\<lparr>tc_loop := st_loops s l\<rparr>)" using open_removable ok(4) [OF c] lo(2) by (simp add: l_def)
  from destroy_site [OF c nm this lo(1)] obtain s' l' fd where
    S: "destroy user a s = Inr s'" "st_srv s' = st_srv s" "st_loops s' = (st_loops s)(l := l')"
      "st_conns s' = (st_conns s)(a := None)" "st_tasks s' = st_tasks s" "st_closed s' = st_closed s @ [fd]"
    and fd: "map_option ch_fd (el_channels (st_loops s l) (tc_chan c)) = Some fd"
    and l': "el_inv l'" "l'\<lparr>el_pending := []\<rparr> = l'" "el_channels l' (tc_chan c) = None"
      "others_kept (tc_chan c) (st_loops s l) l'" by blast
  have no: "loop_no s' b = loop_no s b" for b by (simp add: loop_no_def S(2))
  have lok: "loop_ok (st_loops s' m)" for m
    using ok(1) [of m] loop_ok_others [OF ok(1) l'(4,1)] l'(2,3) by (simp add: S(3))
  have kept: "others_kept (tc_chan c) (st_loops s m) (st_loops s' m)" for m using l'(4) by (simp add: S(3))
  have other: "open_conn (d\<lparr>tc_loop := st_loops s' (loop_no s' b)\<rparr>) \<and> conn_fd s' b = conn_fd s b"
    if b: "st_conns s b = Some d" "b \<noteq> a" for b d
  proof -
    have x: "tc_chan d \<noteq> tc_chan c" using ok(3) [OF b(1) c b(2)] .
    have "open_conn (d\<lparr>tc_loop := st_loops s (loop_no s b)\<rparr>)" using ok(4) [OF b(1)] by blast
    then obtain ch where ch: "el_channels (st_loops s (loop_no s b)) (tc_chan d) = Some ch" by (auto simp: open_conn_def)
    from others_kept_chan [OF kept this x] obtain i where
      "el_channels (st_loops s' (loop_no s b)) (tc_chan d) = Some (ch\<lparr>ch_index := i\<rparr>)" .
    then have "conn_fd s' b = conn_fd s b" using ch b by (simp add: conn_fd_def no S(4))
    moreover have "el_inv (st_loops s' m)" for m using lok [of m] by (simp add: loop_ok_def)
    ultimately show ?thesis using open_conn_kept [OF _ x kept] ok(4) [OF b(1)] no by simp
  qed
  have "stop_ok s'" using lok ok(2,3) other ok(4) by (auto simp: stop_ok_def S(2,4))
  moreover have "mset (st_closed s') + image_mset (conn_fd s') (mset_set (dom (st_conns s'))) = M"
  proof -
    have "conn_fd s a = fd" using fd c by (auto simp: conn_fd_def l_def [symmetric])
    moreover have "mset_set (dom (st_conns s)) = add_mset a (mset_set (dom (st_conns s) - {a}))"
      using ok(2) c by (intro mset_set.remove) auto
    moreover have "image_mset (conn_fd s') (mset_set (dom (st_conns s) - {a})) = image_mset (conn_fd s) (mset_set (dom (st_conns s) - {a}))"
      by (rule image_mset_cong) (use ok(2) other in auto)
    ultimately show ?thesis using inv by (simp add: stop_inv_def S(4,6))
  qed
  moreover have "waiting E s' m = waiting E s m" for m using a by (auto simp: waiting_def no S(4))
  ultimately have "stop_inv E M s'" using inv by (simp add: stop_inv_def S(5))
  moreover have "listening ac s'" if ac: "listening ac s" for ac
    by (rule listening_kept [OF ac _ _ kept]) (use ac c in \<open>auto simp: S(2,4) listening_def split: if_splits\<close>)
  ultimately show ?thesis using S(1,2,4,5) by blast
qed

text \<open>The destructor's loop over the map.\<close>

lemma drop_conns_ok:
  assumes "stop_inv (snd ` set es) M s" and "distinct (map snd es)" and "\<forall>a \<in> snd ` set es. st_conns s a \<noteq> None"
  shows "\<exists>s'. drop_conns user es s = Inr s' \<and> stop_inv {} M s' \<and> st_srv s' = st_srv s \<and>
     (\<forall>m. length (st_tasks s' m) = length (st_tasks s m) +
        (if m = sv_loop (st_srv s) then 0 else length (filter (\<lambda>e. loop_no s (snd e) = m) es))) \<and>
     (\<forall>ac. listening ac s \<longrightarrow> listening ac s')"
  using assms
proof (induction es arbitrary: s)
  case (Cons e es)
  let ?a = "snd e" and ?E = "snd ` set es"
  have new: "?a \<notin> ?E" using Cons.prems(2) by simp
  obtain c where c: "st_conns s ?a = Some c" using Cons.prems(3) by auto
  have "sv_conns (st_srv s) ?a \<noteq> None" using Cons.prems(1) c unfolding stop_inv_def stop_ok_def by blast
  then obtain nm l where nm: "sv_conns (st_srv s) ?a = Some (nm, l)" by auto
  then have no: "loop_no s ?a = l" by (simp add: loop_no_def)
  show ?case
  proof (cases "l = sv_loop (st_srv s)")
    case True
    from destroy_stop [OF Cons.prems(1) _ c] obtain t where
      t: "destroy user ?a s = Inr t" "stop_inv (insert ?a ?E) M t" "st_srv t = st_srv s"
      "st_conns t = (st_conns s)(?a := None)" "st_tasks t = st_tasks s" "\<And>ac. listening ac s \<Longrightarrow> listening ac t" by auto
    have no': "loop_no t = loop_no s" using t(3) by (simp add: loop_no_def fun_eq_iff)
    have "stop_inv ?E M t" using t(2) stop_inv_gone [of t ?a ?E] t(4) by simp
    moreover have "\<forall>b \<in> ?E. st_conns t b \<noteq> None"
    proof
      fix b
      assume b: "b \<in> ?E"
      with new have "b \<noteq> ?a" by blast
      with bspec [OF Cons.prems(3), of b] b t(4) show "st_conns t b \<noteq> None" by simp
    qed
    ultimately obtain s' where "drop_conns user es t = Inr s'" "stop_inv {} M s'" "st_srv s' = st_srv t"
      "\<forall>m. length (st_tasks s' m) = length (st_tasks t m) +
        (if m = sv_loop (st_srv t) then 0 else length (filter (\<lambda>e. loop_no t (snd e) = m) es))"
      "\<forall>ac. listening ac t \<longrightarrow> listening ac s'"
      using Cons.IH [of t] Cons.prems(2) by auto
    with t(1,3,5,6) True nm no no' show ?thesis by (simp add: conn_at_def)
  next
    case False
    define t where "t = enqueue l [Srv (TDestroy ?a)] s"
    have T: "st_srv t = st_srv s" "st_conns t = st_conns s" "st_loops t = st_loops s" "st_closed t = st_closed s"
      "loop_no t = loop_no s" "conn_fd t = conn_fd s"
      by (simp_all add: t_def enqueue_def loop_no_def conn_fd_def fun_eq_iff)
    have "\<exists>as. st_tasks t m = map (Srv \<circ> TDestroy) as \<and> distinct as \<and> set as = waiting ?E t m" for m
    proof -
      obtain as where as: "st_tasks s m = map (Srv \<circ> TDestroy) as" "distinct as" "set as = waiting (insert ?a ?E) s m"
        using Cons.prems(1) by (auto simp: stop_inv_def)
      show ?thesis
      proof (cases "m = l")
        case True
        with as c no new show ?thesis
          by (intro exI [of _ "as @ [?a]"]) (auto simp: t_def enqueue_def waiting_def T(5) loop_no_def)
      next
        case False
        with as no show ?thesis
          by (intro exI [of _ as]) (auto simp: t_def enqueue_def waiting_def loop_no_def)
      qed
    qed
    then have "stop_inv ?E M t" using Cons.prems(1) by (simp add: stop_inv_def stop_ok_def T)
    with Cons.IH [of t] Cons.prems(2,3) obtain s' where
      "drop_conns user es t = Inr s'" "stop_inv {} M s'" "st_srv s' = st_srv t"
      "\<forall>m. length (st_tasks s' m) = length (st_tasks t m) +
        (if m = sv_loop (st_srv t) then 0 else length (filter (\<lambda>e. loop_no t (snd e) = m) es))"
      "\<forall>ac. listening ac t \<longrightarrow> listening ac s'" by (auto simp: T)
    moreover have "listening ac t = listening ac s" for ac by (simp add: listening_def T)
    moreover have "length (st_tasks t m) = length (st_tasks s m) + (if m = l then 1 else 0)" for m
      by (simp add: t_def enqueue_def)
    ultimately show ?thesis using False nm no by (simp add: conn_at_def t_def [symmetric] T(1,5))
  qed
qed simp

text \<open>Running the queued \<^verbatim>\<open>connectDestroyed\<close>.\<close>

lemma drain_step:
  assumes inv: "stop_inv {} M s"
  shows "\<exists>s'. run_task user w l s = Inr s' \<and> stop_inv {} M s' \<and> st_srv s' = st_srv s \<and>
     (\<forall>m. st_tasks s' m = (if m = l then tl (st_tasks s m) else st_tasks s m)) \<and>
     (\<forall>ac. listening ac s \<longrightarrow> listening ac s')"
proof -
  obtain as where as: "st_tasks s l = map (Srv \<circ> TDestroy) as" "distinct as" "set as = waiting {} s l"
    using inv by (auto simp: stop_inv_def)
  show ?thesis
  proof (cases as)
    case Nil
    with as inv show ?thesis by (simp add: run_task_def)
  next
    case (Cons a bs)
    obtain c where c: "st_conns s a = Some c" using as(3) Cons by (auto simp: waiting_def)
    have no: "loop_no s a = l" using as(3) Cons by (auto simp: waiting_def)
    have P: "st_srv (popped l s) = st_srv s" "st_conns (popped l s) = st_conns s" "st_loops (popped l s) = st_loops s"
      "st_closed (popped l s) = st_closed s" "loop_no (popped l s) = loop_no s" "conn_fd (popped l s) = conn_fd s"
      by (simp_all add: popped_def loop_no_def conn_fd_def fun_eq_iff)
    have "\<exists>ds. st_tasks (popped l s) m = map (Srv \<circ> TDestroy) ds \<and> distinct ds \<and> set ds = waiting {a} (popped l s) m" for m
    proof (cases "m = l")
      case True
      with as Cons show ?thesis
        by (intro exI [of _ bs]) (auto simp: popped_tasks waiting_def P)
    next
      case False
      obtain ds where "st_tasks s m = map (Srv \<circ> TDestroy) ds" "distinct ds" "set ds = waiting {} s m"
        using inv by (auto simp: stop_inv_def)
      with False no show ?thesis by (intro exI [of _ ds]) (auto simp: popped_tasks waiting_def P)
    qed
    then have "stop_inv {a} M (popped l s)" using inv by (simp add: stop_inv_def stop_ok_def P)
    from destroy_stop [OF this _ c [folded P(2)]] obtain s' where
      s': "destroy user a (popped l s) = Inr s'" "stop_inv {a} M s'" "st_conns s' a = None"
      "st_tasks s' = st_tasks (popped l s)" "st_srv s' = st_srv s" "\<And>ac. listening ac (popped l s) \<Longrightarrow> listening ac s'"
      by (auto simp: P)
    have ac: "listening ac (popped l s) = listening ac s" for ac by (simp add: listening_def P)
    have "run_task user w l s = Inr s'" using as(1) Cons s'(1) by (simp add: run_task_def popped_def)
    moreover have "stop_inv {} M s'" using s'(2) stop_inv_gone [OF s'(3), of "{}"] by simp
    ultimately show ?thesis using s'(4,5,6) ac by (auto simp: popped_tasks)
  qed
qed

lemma drain_run:
  assumes "stop_inv {} M s"
  shows "\<exists>s'. foldRes (\<lambda>(m, w). run_task user w m) es s = Inr s' \<and> stop_inv {} M s' \<and> st_srv s' = st_srv s \<and>
     (\<forall>m. st_tasks s' m = drop (runs_of es m) (st_tasks s m)) \<and> (\<forall>ac. listening ac s \<longrightarrow> listening ac s')"
  using assms
proof (induction es arbitrary: s)
  case Nil
  then show ?case by (simp add: runs_of_def)
next
  case (Cons e es)
  obtain l w where e: "e = (l, w)" by (cases e)
  from drain_step [OF Cons.prems, of w l] obtain t where
    t: "run_task user w l s = Inr t" "stop_inv {} M t" "st_srv t = st_srv s"
    "\<And>m. st_tasks t m = (if m = l then tl (st_tasks s m) else st_tasks s m)" "\<And>ac. listening ac s \<Longrightarrow> listening ac t" by blast
  from Cons.IH [OF t(2)] obtain s' where
    "foldRes (\<lambda>(m, w). run_task user w m) es t = Inr s'" "stop_inv {} M s'" "st_srv s' = st_srv t"
    "\<And>m. st_tasks s' m = drop (runs_of es m) (st_tasks t m)" "\<And>ac. listening ac t \<Longrightarrow> listening ac s'" by blast
  with e t(1,3,4,5) show ?case by (auto simp: drop_Suc runs_of_def)
qed

end

text \<open>
  Leaving a loop: if its queue is empty nothing happens; otherwise the destructor of the first connection still
  waiting there finds it connected.
\<close>

lemma leave_empty: "st_tasks s l = [] \<Longrightarrow> leave_loop l s = Inr s"
  by (simp add: leave_loop_def fun_upd_idem)

lemma leave_waiting:
  assumes inv: "stop_inv {} M s" and srv: "sv_connections (st_srv s) = []" and q: "st_tasks s l \<noteq> []"
  shows "leave_loop l s = Inl (Assertion ''tcpconnection.cpp:77'')"
proof -
  let ?s = "s\<lparr>st_tasks := (st_tasks s)(l := [])\<rparr>"
  obtain a as where as: "st_tasks s l = map (Srv \<circ> TDestroy) (a # as)" "set (a # as) = waiting {} s l"
    using inv q unfolding stop_inv_def by (metis list.exhaust list.simps(8))
  then obtain c where c: "st_conns s a = Some c" "loop_no s a = l" by (auto simp: waiting_def)
  then have "sv_conns (st_srv s) a \<noteq> None" and up: "open_conn (c\<lparr>tc_loop := st_loops s l\<rparr>)"
    using inv unfolding stop_inv_def stop_ok_def by blast+
  then obtain nm where nm: "sv_conns (st_srv s) a = Some (nm, l)" using c(2) by (auto simp: loop_no_def)
  obtain ch where ch: "el_channels (st_loops s l) (tc_chan c) = Some ch" "tc_state c = kConnected"
    using up by (auto simp: open_conn_def)
  have "a \<notin> set (pointers t)" if t: "t \<in> set (st_tasks ?s m)" for m t
  proof -
    have m: "m \<noteq> l" "t \<in> set (st_tasks s m)" using t by (auto split: if_splits)
    obtain ds where "st_tasks s m = map (Srv \<circ> TDestroy) ds" "set ds = waiting {} s m"
      using inv by (auto simp: stop_inv_def)
    with m c(2) show ?thesis by (auto simp: waiting_def)
  qed
  then have "\<not> held a ?s" using srv by (auto simp: held_def list_ex_iff)
  moreover have "delete_conn a ?s = Inl (Assertion ''tcpconnection.cpp:77'')"
    using c(1) nm ch by (simp add: delete_conn_def conn_at_def chan_at_def on_conn_def destroyTcpConnection_def)
  ultimately show ?thesis using c(1) by (simp add: leave_loop_def as(1))
qed

text \<open>Whether every loop has run its queue by the time it is left.\<close>

definition enough :: "(nat \<Rightarrow> schedule) \<Rightarrow> nat list \<Rightarrow> (nat \<Rightarrow> nat) \<Rightarrow> bool" where
  "enough sched ls due \<longleftrightarrow>
     (\<forall>i < length ls. due (ls ! i) \<le> runs_of (concat (map sched (take (Suc i) ls))) (ls ! i))"

lemma runs_of_append: "runs_of (es @ fs) l = runs_of es l + runs_of fs l"
  by (simp add: runs_of_def)

lemma enough_Cons:
  "enough sched (l # ls) due \<longleftrightarrow>
     due l \<le> runs_of (sched l) l \<and> enough sched ls (\<lambda>m. due m - runs_of (sched l) m)"
  unfolding enough_def length_Cons All_less_Suc2 by (auto simp: runs_of_append le_diff_conv add.commute)

section \<open>A clean end\<close>

lemma stop_inv_start:
  assumes inv: "site_inv {} s" and rest: "\<And>l. st_tasks s l = []"
    and up: "\<forall>a c. st_conns s a = Some c \<longrightarrow> tc_state c = kConnected"
  shows "stop_inv (live (st_srv s)) (mset (st_closed s) + image_mset (conn_fd s) (mset_set (dom (st_conns s)))) s"
proof -
  note D = site_invD [OF inv]
  have conn: "a \<in> live (st_srv s) \<and> sv_conns (st_srv s) a \<noteq> None \<and> open_conn (c\<lparr>tc_loop := st_loops s (loop_no s a)\<rparr>)"
    if c: "st_conns s a = Some c" for a c
  proof -
    from D(6) [OF c] obtain l where ok: "conn_ok {} s a c l" by blast
    have st: "tc_state c \<noteq> kConnecting" using up c by simp
    obtain ch where "el_channels (st_loops s l) (tc_chan c) = Some ch" "ch_eventHandling ch = (a \<in> {})"
      "conn_inv (c\<lparr>tc_loop := st_loops s l\<rparr>)"
      by (rule conn_ok_established [OF ok st])
    with up c conn_ok_parts(1,4) [OF ok] conn_ok_loop_no [OF ok] show ?thesis by (auto simp: open_conn_def)
  qed
  then have "dom (st_conns s) \<subseteq> live (st_srv s)" by auto
  then have "finite (dom (st_conns s))" by (rule finite_subset) (simp add: live_def)
  moreover have "waiting (live (st_srv s)) s l = {}" for l unfolding waiting_def using conn by blast
  ultimately show ?thesis
    using D(2,3) conn rest by (auto simp: stop_inv_def stop_ok_def)
qed

lemma destroy_all_frame: "destroy_all es srv = Inr srv' \<Longrightarrow> sv_pool srv' = sv_pool srv \<and> sv_loop srv' = sv_loop srv"
  by (induction es arbitrary: srv) (fastforce simp: conn_at_def andThen_Inr_iff post_def split: option.splits)+

text \<open>How many connections the destructor leaves to loop \<open>l\<close>.\<close>

definition left_to :: "site \<Rightarrow> nat \<Rightarrow> nat" where
  "left_to s l =
     (if l = sv_loop (st_srv s) then 0 else length (filter (\<lambda>e. loop_no s (snd e) = l) (sv_connections (st_srv s))))"

lemma server_body_ok:
  assumes "conn_user user" and inv: "site_inv {} s" and rest: "\<And>l. st_tasks s l = []"
    and up: "\<forall>a c. st_conns s a = Some c \<longrightarrow> tc_state c = kConnected"
  shows "\<exists>t. server_body user s = Inr t \<and> sv_connections (st_srv t) = [] \<and>
     stop_inv {} (mset (st_closed s) + image_mset (conn_fd s) (mset_set (dom (st_conns s)))) t \<and>
     (\<forall>l. length (st_tasks t l) = left_to s l) \<and> (\<forall>ac. listening ac s \<longrightarrow> listening ac t) \<and>
     sv_pool (st_srv t) = sv_pool (st_srv s) \<and> sv_loop (st_srv t) = sv_loop (st_srv s) \<and>
     sv_conns (st_srv t) = sv_conns (st_srv s)"
proof -
  note D = site_invD [OF inv]
  let ?M = "mset (st_closed s) + image_mset (conn_fd s) (mset_set (dom (st_conns s)))"
  have "stop_inv (snd ` set (sv_connections (st_srv s))) ?M s"
    using stop_inv_start [OF inv rest up] by (simp add: live_def)
  moreover have "\<forall>a \<in> snd ` set (sv_connections (st_srv s)). st_conns s a \<noteq> None"
    using D(4) unfolding live_def by blast
  ultimately obtain t where t: "drop_conns user (sv_connections (st_srv s)) s = Inr t" "stop_inv {} ?M t" "st_srv t = st_srv s"
    "\<And>l. length (st_tasks t l) = length (st_tasks s l) + left_to s l" "\<And>ac. listening ac s \<Longrightarrow> listening ac t"
    using conn_user.drop_conns_ok [OF assms(1) _ distinct_live [OF D(1)]] unfolding left_to_def by blast
  have "\<forall>(nm, a) \<in> set (sv_connections (st_srv s)). \<exists>l. sv_conns (st_srv s) a = Some (nm, l)"
    using sv_invD(4) [OF D(1)] by auto
  from destroy_all_ok [OF this distinct_live [OF D(1)]] obtain srv where
    srv: "destroy_all (sv_connections (st_srv s)) (st_srv s) = Inr srv" "sv_conns srv = sv_conns (st_srv s)" by blast
  note F = destroy_all_frame [OF srv(1)]
  let ?t = "t\<lparr>st_srv := srv\<lparr>sv_connections := []\<rparr>\<rparr>"
  have "loop_no ?t = loop_no t" "conn_fd ?t = conn_fd t" "waiting {} ?t = waiting {} t"
    using srv(2) t(3) by (simp_all add: loop_no_def conn_fd_def waiting_def fun_eq_iff)
  then have "stop_inv {} ?M ?t" using t(2,3) srv(2) by (simp add: stop_inv_def stop_ok_def)
  moreover have "listening ac ?t = listening ac t" for ac using F t(3) by (simp add: listening_def)
  moreover have "server_body user s = Inr ?t" using t(1,3) srv(1) by (simp add: server_body_def destroyTcpServer_def)
  ultimately show ?thesis using t(4,5) rest F srv(2) t(3) by (intro exI [of _ ?t]) simp
qed

lemma stopped_empty:
  assumes "stop_inv {} M s" and "\<And>l. st_tasks s l = []"
  shows "st_conns s = Map.empty \<and> mset (st_closed s) = M"
proof -
  have "waiting {} s l = {}" for l using assms unfolding stop_inv_def by (metis Nil_is_map_conv empty_set)
  then have "st_conns s = Map.empty" by (auto simp: waiting_def fun_eq_iff)
  with assms(1) show ?thesis by (simp add: stop_inv_def)
qed

context conn_user
begin

text \<open>Every outcome of joining the threads, from a state in which only \<^verbatim>\<open>connectDestroyed\<close> is queued.\<close>

lemma join_cases:
  assumes "stop_inv {} M s" and "sv_connections (st_srv s) = []"
  shows "case join_loops user looping sched ls s of
      None \<Rightarrow> \<exists>l \<in> set ls. \<not> looping l
    | Some (Inl f) \<Rightarrow> f = Assertion ''tcpconnection.cpp:77'' \<and> \<not> enough sched ls (\<lambda>l. length (st_tasks s l))
    | Some (Inr t) \<Rightarrow> (\<forall>l \<in> set ls. looping l) \<and> enough sched ls (\<lambda>l. length (st_tasks s l)) \<and> stop_inv {} M t \<and>
        st_srv t = st_srv s \<and> (\<forall>l. l \<in> set ls \<or> st_tasks s l = [] \<longrightarrow> st_tasks t l = []) \<and>
        (\<forall>ac. listening ac s \<longrightarrow> listening ac t)"
  using assms
proof (induction ls arbitrary: s)
  case Nil
  then show ?case by (simp add: enough_def)
next
  case (Cons l ls)
  obtain s1 where s1: "foldRes (\<lambda>(m, w). run_task user w m) (sched l) s = Inr s1" "stop_inv {} M s1" "st_srv s1 = st_srv s"
    "\<And>m. st_tasks s1 m = drop (runs_of (sched l) m) (st_tasks s m)" "\<And>ac. listening ac s \<Longrightarrow> listening ac s1"
    using drain_run [OF Cons.prems(1), of "sched l"] by blast
  have srv: "sv_connections (st_srv s1) = []" using s1(3) Cons.prems(2) by simp
  have en: "enough sched (l # ls) (\<lambda>m. length (st_tasks s m)) \<longleftrightarrow>
      st_tasks s1 l = [] \<and> enough sched ls (\<lambda>m. length (st_tasks s1 m))"
    by (simp add: enough_Cons s1(4))
  show ?case
  proof (cases "looping l")
    case False
    with s1(1) show ?thesis by simp
  next
    case True
    show ?thesis
    proof (cases "st_tasks s1 l = []")
      case False
      from leave_waiting [OF s1(2) srv this] True s1(1) en False show ?thesis by simp
    next
      case empty: True
      have run: "join_loops user looping sched (l # ls) s = join_loops user looping sched ls s1"
        using True s1(1) leave_empty [OF empty] by simp
      have gone: "st_tasks s m = [] \<Longrightarrow> st_tasks s1 m = []" for m using s1(4) by simp
      show ?thesis
        using Cons.IH [OF s1(2) srv] True empty gone s1(3,5) unfolding run en
        by (auto split: option.splits sum.splits)
    qed
  qed
qed

end

text \<open>The acceptor is destroyed whatever else is registered.\<close>

lemma delete_acceptor_ok:
  assumes ac: "listening ac s" and lo: "loop_ok (st_loops s (sv_loop (st_srv s)))"
  shows "\<exists>t. delete_acceptor ac s = Inr t \<and> st_conns t = st_conns s \<and> st_tasks t = st_tasks s \<and> st_srv t = st_srv s \<and>
     st_closed t = st_closed s @ [ac_idleFd ac, ac_fd ac] \<and>
     el_reg (st_loops t (sv_loop (st_srv s))) (ac_fd ac) = None"
proof -
  define l where "l = st_loops s (sv_loop (st_srv s))"
  have L: "el_inv l" "\<not> el_eventHandling l" using lo by (simp_all add: loop_ok_def l_def)
  from ac obtain ch where ch: "el_channels l (ac_chan ac) = Some ch" "ch_fd ch = ac_fd ac" "\<not> ch_eventHandling ch"
    "el_reg l (ch_fd ch) = Some (ac_chan ac)" by (auto simp: listening_def l_def)
  from unregister_ok [OF L(1) ch(1,4,3) L(2)] obtain s1 s2 p h where
    u: "disableAll True (ac_chan ac) l = Inr s1" "channel_remove True (ac_chan ac) s1 = Inr s2"
      "destroyChannel True (ac_chan ac) s2 = Inr (l\<lparr>el_poller := p, el_channels := h\<rparr>)"
      "poller_channels p = (el_reg l)(ch_fd ch := None)" by blast
  have "destroyAcceptor True (ac\<lparr>ac_loop := l, ac_closed := []\<rparr>) =
      Inr (ac\<lparr>ac_loop := l\<lparr>el_poller := p, el_channels := h\<rparr>, ac_closed := [ac_idleFd ac, ac_fd ac]\<rparr>)"
    using u(1-3) by (simp add: destroyAcceptor_def ac_on_loop_def ac_close_def)
  then show ?thesis using u(4) ch(2) by (simp add: delete_acceptor_def l_def [symmetric] el_reg_def)
qed

text \<open>With what is known of the loops of the connections, nothing is left when the threads are gone.\<close>

lemma all_left:
  assumes inv: "stop_inv {} M s" and p: "placed m ls s" and q: "\<And>l. l \<in> set ls \<or> l = m \<Longrightarrow> st_tasks s l = []"
  shows "st_tasks s l = []"
proof (rule ccontr)
  assume q': "st_tasks s l \<noteq> []"
  obtain as where as: "st_tasks s l = map (Srv \<circ> TDestroy) as" "set as = waiting {} s l" using inv by (auto simp: stop_inv_def)
  with q' obtain a where "a \<in> waiting {} s l" by (cases as) auto
  then have a: "st_conns s a \<noteq> None" "loop_no s a = l" by (auto simp: waiting_def)
  then have "sv_conns (st_srv s) a \<noteq> None" using inv unfolding stop_inv_def stop_ok_def by blast
  with a(2) obtain nm where "sv_conns (st_srv s) a = Some (nm, l)" by (auto simp: loop_no_def)
  with p have "l \<in> set ls \<or> l = m" by (force simp: placed_def all_loops_def Let_def split: if_splits)
  with q q' show False by blast
qed

lemma started_placed:
  assumes "0 \<le> n" and "setThreadNum_sv n (newTcpServer loop ipPort name) = Inr s0"
    and "start_sv startLoop hasCb True s0 = Inr s1"
  shows "placed loop (map startLoop [0..<nat n]) (start_site s1 loops wc)"
proof -
  have s0: "s0 = (newTcpServer loop ipPort name)\<lparr>sv_pool := setThreadNum n (newEventLoopThreadPool loop name)\<rparr>"
    using assms(1,2) by (simp add: setThreadNum_sv_def newTcpServer_def)
  show ?thesis
    using assms(3) unfolding s0
    by (auto simp: start_sv_def newTcpServer_def setThreadNum_def newEventLoopThreadPool_def start_pool_def
        start_threads_eq Let_def placed_def start_site_def post_def)
qed

text \<open>Once the threads are gone, the acceptor is destroyed, and that is the end.\<close>

lemma acceptor_last:
  assumes inv: "stop_inv {} M u" and p: "placed m ls u" and q: "\<And>l. l \<in> set ls \<or> l = m \<Longrightarrow> st_tasks u l = []"
    and ac: "listening ac u" and srv: "sv_connections (st_srv u) = []"
  shows "\<exists>v. delete_acceptor ac u = Inr v \<and> st_conns v = Map.empty \<and> (\<forall>l. st_tasks v l = []) \<and>
     sv_connections (st_srv v) = [] \<and> el_reg (st_loops v m) (ac_fd ac) = None \<and>
     mset (st_closed v) = M + {#ac_idleFd ac, ac_fd ac#}"
proof -
  have e: "st_tasks u l = []" for l using all_left [OF inv p q] .
  have "loop_ok (st_loops u l)" for l using inv by (simp add: stop_inv_def stop_ok_def)
  from delete_acceptor_ok [OF ac this] obtain v where
    "delete_acceptor ac u = Inr v" "st_conns v = st_conns u" "st_tasks v = st_tasks u" "st_srv v = st_srv u"
    "st_closed v = st_closed u @ [ac_idleFd ac, ac_fd ac]" "el_reg (st_loops v (sv_loop (st_srv u))) (ac_fd ac) = None" by blast
  with e srv p stopped_empty [OF inv e] show ?thesis by (simp add: placed_def)
qed

text \<open>
  C10. The end of a server. When a run of the server in which no call was overtaken has come to rest, all
  connections are open and nothing happens during the destructor but the tasks it queues, then
  \<^verbatim>\<open>~TcpServer\<close>, from its body to the ends of the threads of the pool and of the
  acceptor, has exactly three outcomes. If every thread of the pool is in \<^verbatim>\<open>loop()\<close> and
  each loop, by the time it is left, has run as many tasks as the destructor left connections to it, the
  destructor succeeds: every connection is destroyed, nothing is queued, the map is empty, the acceptor is no
  longer registered, and the descriptors of the connections and of the acceptor have each been closed exactly
  once. If some loop is left too early, the connections still in its queue are destroyed without
  \<^verbatim>\<open>connectDestroyed\<close>, and the assertion of \<^verbatim>\<open>~TcpConnection\<close>
  fails. If some thread has not entered \<^verbatim>\<open>loop()\<close>, the destructor does not succeed: it
  blocks in \<^verbatim>\<open>join\<close> or has failed before.
\<close>

theorem server_ends:
  assumes "conn_user user" and "0 \<le> n" and "length ipPort \<le> 51"
    and "setThreadNum_sv n (newTcpServer loop ipPort name) = Inr s0" and "start_sv startLoop hasCb True s0 = Inr s1"
    and "\<And>l. loop_ok (loops l)" and "site_legal user es (start_site s1 loops wc)"
    and "in_time user es (start_site s1 loops wc)"
    and run: "foldRes (site_step user) es (start_site s1 loops wc) = Inr s" and rest: "\<And>l. st_tasks s l = []"
    and up: "\<forall>a c. st_conns s a = Some c \<longrightarrow> tc_state c = kConnected" and ac: "listening ac s"
  shows "if \<forall>l \<in> set (map startLoop [0..<nat n]). looping l
     then if enough sched (map startLoop [0..<nat n]) (left_to s)
       then \<exists>t. destroy_server user looping sched ac s = Some (Inr t) \<and> st_conns t = Map.empty \<and>
         (\<forall>l. st_tasks t l = []) \<and> sv_connections (st_srv t) = [] \<and> el_reg (st_loops t loop) (ac_fd ac) = None \<and>
         mset (st_closed t) = mset (st_closed s) + image_mset (conn_fd s) (mset_set (dom (st_conns s))) +
           {#ac_idleFd ac, ac_fd ac#}
       else destroy_server user looping sched ac s = Some (Inl (Assertion ''tcpconnection.cpp:77''))
     else destroy_server user looping sched ac s \<in> {None, Some (Inl (Assertion ''tcpconnection.cpp:77''))}"
proof -
  let ?ls = "map startLoop [0..<nat n]"
  let ?M = "mset (st_closed s) + image_mset (conn_fd s) (mset_set (dom (st_conns s)))"
  have start: "site_inv {} (start_site s1 loops wc)" using assms(2-6) by (rule started_site_inv)
  have tr: "trace (legal_step user) es (start_site s1 loops wc) s" and inv: "site_inv {} s"
    using conn_user.trace_of_run [OF assms(1) start assms(7,8) run] by blast+
  have p: "placed loop ?ls s"
    using tr started_placed [OF assms(2,4,5)] by (rule trace_stable) (rule placed_stable)
  from server_body_ok [OF assms(1) inv rest up] obtain t where
    t: "server_body user s = Inr t" "sv_connections (st_srv t) = []" "stop_inv {} ?M t"
      "\<And>l. length (st_tasks t l) = left_to s l" "listening ac t" "sv_pool (st_srv t) = sv_pool (st_srv s)"
      "sv_loop (st_srv t) = sv_loop (st_srv s)" "sv_conns (st_srv t) = sv_conns (st_srv s)" using ac by blast
  have "all_loops (st_srv t) = all_loops (st_srv s)" by (simp add: all_loops_def t(6))
  then have pt: "placed loop ?ls t" using p t(6-8) by (simp add: placed_def)
  then have ls: "tp_loops (sv_pool (st_srv t)) = ?ls" and m: "sv_loop (st_srv t) = loop" by (simp_all add: placed_def)
  let ?j = "join_loops user looping sched ?ls t"
  have d: "destroy_server user looping sched ac s = map_option (\<lambda>r. andThen r (delete_acceptor ac)) ?j"
    by (simp add: destroy_server_def t(1) ls)
  have J: "case ?j of
      None \<Rightarrow> \<exists>l \<in> set ?ls. \<not> looping l
    | Some (Inl f) \<Rightarrow> f = Assertion ''tcpconnection.cpp:77'' \<and> \<not> enough sched ?ls (left_to s)
    | Some (Inr u) \<Rightarrow> (\<forall>l \<in> set ?ls. looping l) \<and> enough sched ?ls (left_to s) \<and> stop_inv {} ?M u \<and>
        st_srv u = st_srv t \<and> (\<forall>l. l \<in> set ?ls \<or> st_tasks t l = [] \<longrightarrow> st_tasks u l = []) \<and>
        (\<forall>ac. listening ac t \<longrightarrow> listening ac u)"
    using conn_user.join_cases [OF assms(1) t(3,2), where looping = looping and sched = sched and ls = ?ls] by (simp only: t(4))
  have finished: "\<exists>v. destroy_server user looping sched ac s = Some (Inr v) \<and> st_conns v = Map.empty \<and>
      (\<forall>l. st_tasks v l = []) \<and> sv_connections (st_srv v) = [] \<and> el_reg (st_loops v loop) (ac_fd ac) = None \<and>
      mset (st_closed v) = ?M + {#ac_idleFd ac, ac_fd ac#}" if u: "?j = Some (Inr u)" for u
  proof -
    have U: "stop_inv {} ?M u" "st_srv u = st_srv t" "\<And>l. l \<in> set ?ls \<or> st_tasks t l = [] \<Longrightarrow> st_tasks u l = []"
      "listening ac u" using J t(5) unfolding u by auto
    have q: "st_tasks t loop = []" using t(4) [of loop] t(7) m by (simp add: left_to_def)
    have pu: "placed loop ?ls u" and cu: "sv_connections (st_srv u) = []" using pt t(2) U(2) by (simp_all add: placed_def)
    have "st_tasks u l = []" if "l \<in> set ?ls \<or> l = loop" for l using U(3) [of l] q that by blast
    from acceptor_last [OF U(1) pu this U(4) cu] show ?thesis by (simp add: d u)
  qed
  show ?thesis
  proof (cases ?j)
    case None
    with J show ?thesis by (auto simp: d)
  next
    case (Some r)
    with J finished show ?thesis by (cases r) (auto simp: d)
  qed
qed

text \<open>The acceptor of the witness has channel 1 and descriptor 7 in loop 1; two connections are open in loop 2.\<close>

definition demo_ac :: conn_acceptor where
  "demo_ac = \<lparr>ac_loop = demo_loop 3, ac_chan = 1, ac_fd = 7, ac_listenning = True, ac_hasCallback = True, ac_idleFd = 8,
     ac_closed = []\<rparr>"

definition demo_loops :: "nat \<Rightarrow> conn_loop" where
  "demo_loops = (\<lambda>_. demo_loop0)(1 := demo_loop 3)"

lemma demo_loops_ok: "loop_ok (demo_loops l)"
proof (cases "l = 1")
  case True
  have "el_inv (demo_loop 3)" by (rule demo_loop_inv) (simp add: api_events_def)
  with True show ?thesis by (auto simp: loop_ok_def demo_loops_def) (auto simp: demo_loop_def split: if_splits)
qed (simp add: demo_loops_def demo_loop0_ok)

lemma demo_two_open:
  "site_legal quiet_user (take 5 demo_events) (start_site demo_srv demo_loops False) \<and>
   in_time quiet_user (take 5 demo_events) (start_site demo_srv demo_loops False) \<and>
   (\<exists>s. foldRes (site_step quiet_user) (take 5 demo_events) (start_site demo_srv demo_loops False) = Inr s \<and>
     (\<forall>l. st_tasks s l = []) \<and> (\<forall>a c. st_conns s a = Some c \<longrightarrow> tc_state c = kConnected) \<and> dom (st_conns s) = {7, 8} \<and>
     listening demo_ac s \<and> left_to s 2 = 2)"
  by (auto simp: demo_eval demo_close demo_loops_def demo_ac_def listening_def left_to_def el_reg_def demo_chan_def)

theorem server_ends_witness:
  "\<exists>s t. foldRes (site_step quiet_user) (take 5 demo_events) (start_site demo_srv demo_loops False) = Inr s \<and>
     dom (st_conns s) = {7, 8} \<and>
     destroy_server quiet_user (\<lambda>l. True) (\<lambda>l. [(2, Inr 0), (2, Inr 0)]) demo_ac s = Some (Inr t) \<and> st_conns t = Map.empty \<and>
     destroy_server quiet_user (\<lambda>l. True) (\<lambda>l. [(2, Inr 0)]) demo_ac s = Some (Inl (Assertion ''tcpconnection.cpp:77''))"
proof -
  obtain s where s: "foldRes (site_step quiet_user) (take 5 demo_events) (start_site demo_srv demo_loops False) = Inr s"
    "\<And>l. st_tasks s l = []" "\<forall>a c. st_conns s a = Some c \<longrightarrow> tc_state c = kConnected" "dom (st_conns s) = {7, 8}"
    "listening demo_ac s" "left_to s 2 = 2" using demo_two_open by blast
  have legal: "site_legal quiet_user (take 5 demo_events) (start_site demo_srv demo_loops False)"
    "in_time quiet_user (take 5 demo_events) (start_site demo_srv demo_loops False)" using demo_two_open by blast+
  have n: "0 \<le> (1 :: int)" "length ''127.0.0.1:80'' \<le> 51" by simp_all
  note E = server_ends [OF quiet.conn_user_axioms n demo_start demo_loops_ok legal s(1,2,3,5), of "\<lambda>l. True"]
  have "enough (\<lambda>l. [(2, Inr 0), (2, Inr 0)]) (map (\<lambda>i. i + 2) [0..<nat 1]) (left_to s)"
    "\<not> enough (\<lambda>l. [(2, Inr 0)]) (map (\<lambda>i. i + 2) [0..<nat 1]) (left_to s)"
    using s(6) by (simp_all add: enough_def runs_of_def eval_nat_numeral)
  with E [of "\<lambda>l. [(2, Inr 0), (2, Inr 0)]"] E [of "\<lambda>l. [(2, Inr 0)]"] s(1,4) show ?thesis by auto
qed

section \<open>A connection that outlives its server\<close>

text \<open>
  The close callback of a connection is bound to the plain address of the server. If the peer hangs up after the
  destructor of the server and before the loop of the connection has run \<^verbatim>\<open>connectDestroyed\<close>, \<^verbatim>\<open>handleClose\<close> still
  calls it, and \<^verbatim>\<open>removeConnectionInLoop\<close> of the destroyed server is queued in its loop.
\<close>

lemmas demo_ready =
  conn_ready_def handleEvent_def handleEventWithGuard_def call_opt_def run_cb_def get_ch_def put_ch_def set_revents_def
  has_bits_def

theorem close_after_server:
  "\<exists>s t u. foldRes (site_step quiet_user) (take 5 demo_events) demo_site = Inr s \<and> server_body quiet_user s = Inr t \<and>
     site_step quiet_user (Ready 8 POLLHUP (\<lambda>_. Inr 0) (\<lambda>_. Inr [])) t = Inr u \<and>
     Srv (TRemove 8) \<in> set (st_tasks u 1)"
  by (simp add: demo_eval demo_close demo_ready server_body_def destroyTcpServer_def)

end
