(* ===== verification/Spec2Isabelle.thy ===== *)
theory Spec2Isabelle
  imports Kaycc_ConnectionLife Kaycc_LoopSteps Kaycc_LoopTimers Kaycc_Acceptor Kaycc_ConnectorRun Kaycc_TcpServer
    Kaycc_TcpClient Kaycc_LoopThread Kaycc_ThreadPool Kaycc_Thread Kaycc_Sockets Kaycc_Text Kaycc_Glue
    Kaycc_Programs Kaycc_ServerStop
begin

text \<open>
  A verification of kaycc, a C++ network library of the reactor kind: one EventLoop per thread waits for
  events with epoll or poll, hands them to Channels, and runs functors that other threads queue.

  \<^bold>\<open>Parts and how they interact.\<close> A Channel (net/channel.cpp) holds the events a descriptor is watched for
  and the callbacks for them. A Poller (net/poller.h; epollpoller.cpp, pollpoller.cpp) keeps the registered
  channels and asks the kernel. The EventLoop (net/eventloop.cpp) owns the poller, dispatches the active
  channels, then runs the queued functors; \<^verbatim>\<open>queueInLoop\<close> and \<^verbatim>\<open>quit\<close> may come from other threads and wake
  it through an eventfd. The TimerQueue (net/timerqueue.cpp) is a channel on a timerfd with two sets of
  timers. A TcpConnection (net/tcpconnection.cpp) is a channel with an input and an output Buffer
  (net/buffer.h). Acceptor and Connector make connections; TcpServer and TcpClient own them, the server
  spreading them over the loops of an EventLoopThreadPool. Below are threads, mutexes, condition variables,
  latches and a thread pool (base/).

  \<^bold>\<open>How code becomes definitions.\<close> A class is a record, an enum a datatype, a member function one definition
  with the guards and early returns of the code. A failed \<^verbatim>\<open>assert\<close>, undefined behaviour, an exception and
  \<^verbatim>\<open>abort()\<close> are values of the type \<open>fault\<close>, and an operation that can fail returns \<open>fault + 'a\<close>; an
  assertion carries its file and line. Objects reached through pointers live in maps from addresses, so that
  a dangling pointer is a fault. Results of system calls, clock readings, addresses from the allocator and
  user callbacks are arguments. Code that several threads run is a step relation, one step being one critical
  section or one access outside of them. Fields that only record what happened (bytes accepted, functors
  executed, sockets closed) are named as such and never read by the operations.

  \<^bold>\<open>Theories.\<close>
  \<^item> Kaycc\_Prelude: faults, \<^verbatim>\<open>size_t\<close>, vectors, and step systems: the locales \<open>step_system\<close> (invariants of
    reachable states) and \<open>ranked_steps\<close> (a bound on the number of steps).
  \<^item> Kaycc\_Endian, Kaycc\_Buffer: net/endian.h and the whole of Buffer, over bytes and indices modulo
    \<open>2 ^ 64\<close>. The locale \<open>byte_fifo\<close> is the contract TcpConnection relies on. Append, prepend, retrieve and
    readFd do what they say to the readable bytes; integers survive a round trip between hosts.
  \<^item> Kaycc\_Channel: masks, setters, dispatch. Kaycc\_Poller: the contract of a poller as the locale
    \<open>poller_contract\<close> over an abstract map of registrations and watched events; Kaycc\_EPollPoller,
    Kaycc\_PollPoller and the loop interpret it. Every legal sequence of calls refines the abstract map,
    polling delivers exactly the ready channels, and both pollers end in the same abstract state.
  \<^item> Kaycc\_Timestamp: \<^verbatim>\<open>int64_t\<close> microseconds, \<^verbatim>\<open>double\<close> with rounding to even, printing; base/atomic.h.
    Kaycc\_TimerQueue: timers as heap objects. Any run of add, cancel and expiration with callbacks that add
    and cancel is memory safe and leak free, or stops at one known assertion; an expiration runs the due
    timers and reschedules the repeating ones. Kaycc\_LoopTimers: \<^verbatim>\<open>runAt\<close>, \<^verbatim>\<open>runAfter\<close>, \<^verbatim>\<open>runEvery\<close>,
    \<^verbatim>\<open>cancel\<close>, and \<^verbatim>\<open>addTimer\<close> from another thread.
  \<^item> Kaycc\_EventLoop: construction, registration, \<^verbatim>\<open>loop()\<close>, functors. Kaycc\_LoopSteps: the loop thread and
    the others, interleaved: functors run in order, once, no wakeup is lost, and \<^verbatim>\<open>quit\<close> ends the loop
    (\<open>quit_strands_functors\<close>: and leaves behind what is still queued).
    Kaycc\_Text: the text of event masks and poller operations, \<^verbatim>\<open>printActiveChannels\<close>.
  \<^item> Kaycc\_TcpConnection: all operations and handlers with the invariant that wire and output buffer together
    are the bytes accepted. Kaycc\_ConnectionLife: establishing, notifying, destroying. Kaycc\_Locality: what
    an operation of one connection leaves alone in a loop that others share; the locale \<open>conn_user\<close> is the
    contract of the user's callbacks, interpreted by the default callbacks and the echo programs.
  \<^item> Kaycc\_Acceptor, Kaycc\_Connector (retry state machine) and Kaycc\_ConnectorRun (its life under calls of any
    thread, timers and events; the assertions a start can run into are predicted exactly), Kaycc\_InetAddress (addresses, their text, socket
    options), Kaycc\_Sockets (net/socketsops.cpp and net/socket.cpp over a table of descriptors: flags, and
    the acceptor when descriptors run out), Kaycc\_TcpServer (the connection map and the hand-over between
    loops, the calls on a connection being recorded), Kaycc\_TcpClient (likewise, on
    the model of Connector), Kaycc\_LoopPool (round robin), Kaycc\_LoopThread (start and destruction of a
    loop in its own thread).
  \<^item> Kaycc\_Mutex: the holder of a mutex, condition variables, timed waits, CountDownLatch. Kaycc\_Thread:
    \<^verbatim>\<open>start\<close> with its handshake, \<^verbatim>\<open>join\<close>, names. Kaycc\_ThreadPool: the bounded queue; tasks leave it in
    order, no wakeup is lost, \<^verbatim>\<open>stop\<close> terminates. Kaycc\_Glue: base/singleton.h and base/weakcallback.h.
  \<^item> Kaycc\_ServerRun, Kaycc\_ServerSafe: a running server as one state: the map of TcpServer, all loops with
    their pollers and queues, and every TcpConnection in full. Accepted connections, events, queued tasks, timers and
    the single accesses of calls of other threads come in any order; nothing fails, and no connection is leaked, unless
    such a call is overtaken (below).
    Kaycc\_ServerProgress: tasks wait in a queue that its loop serves from the front (locale \<open>served_queue\<close>), so
    a connection that is closed is removed and destroyed once the loops have run what was queued. Kaycc\_ServerStop:
    the destructor of the server in that state with those of its thread pool and its acceptor, and the end of its
    connections, by \<^verbatim>\<open>connectDestroyed\<close> or by an assertion; \<open>close_after_server\<close> shows one that outlives the server.
  \<^item> Kaycc\_Echo: the callbacks of the echo programs (net/tests) as users of a connection; the server answers with
    exactly what it received. Kaycc\_Programs: the command lines of both, and the test programs.
  \<^item> This theory: the properties that span components.

  \<^bold>\<open>Bounds and fuel.\<close> \<^verbatim>\<open>EventLoop::loop\<close> may run for ever, so \<open>el_loop\<close> takes the number of iterations it
  may make and is \<open>None\<close> while it is still running; the one statement about it holds for every number. All
  other recursions are structural or have a termination proof. Clock readings up to \<open>2 ^ 61\<close> microseconds
  (73000 years) keep \<^verbatim>\<open>int64_t\<close> from overflowing, connection counters stay below \<open>2 ^ 31\<close>, buffers below the
  maximal size of a vector; where the bound is not met the model shows the fault. In the theories on threads
  a spurious wakeup is possible at every wait, and thread ids are positive.

  \<^bold>\<open>What the joint model of the server leaves to its hypotheses.\<close> The user's callbacks keep the contract
  \<open>conn_user\<close>: they use the public operations on their own connection, succeed while the buffers have room
  (\<open>roomy\<close>), keep no pointer to it, and do not call \<^verbatim>\<open>startRead\<close> (\<open>start_read_after_close\<close> shows what goes wrong
  then). A callback, a queued task and the handling of a channel are one step each. A call of another thread
  is three: the test of \<^verbatim>\<open>state_\<close>, the store of \<^verbatim>\<open>kDisconnecting\<close>, the queueing. No lock holds them together, so the
  connection can be closed in between: \<open>overtaken\<close> says when the rest of the call comes too late. C1 says that nothing goes
  wrong before the first call that is overtaken, C8 to C10 are about runs without one (\<open>in_time\<close>); \<open>send_race\<close> and
  \<open>close_race\<close> show what goes wrong after it. The destructor of the server is run at rest, with all connections open,
  and while it joins its threads the loops only run what it has queued; that a thread leaves its loop too early, or has not
  entered it, are outcomes and not hypotheses. The wakeup channels and timers of the loops are not in that state. The connection inside TcpClient is an address with the calls made on it.

  \<^bold>\<open>Not modelled.\<close> Log output, as nothing depends on it; base/types.h, base/copyable.h, base/log.h and
  net/callbacks.h, which hold casts, an empty base, macros and typedefs; \<^verbatim>\<open>connect\<close>, \<^verbatim>\<open>read\<close>, \<^verbatim>\<open>readv\<close> and
  \<^verbatim>\<open>write\<close> of net/socketsops.cpp and its casts of addresses, bare system calls whose results are arguments;
  setters and getters of callbacks, and the user data (\<^verbatim>\<open>boost::any\<close>) of a connection; the overloads for
  rvalues, which misspelled macros keep out of every build; the functions of the tests that only
  print or sleep.
\<close>

section \<open>The two pollers are interchangeable\<close>

text \<open>
  C25. The choice of the poller does not matter: from fresh channels on descriptors, every legal
  sequence of registrations, changes and removals succeeds on EPollPoller and on PollPoller, and both
  end with the same map of registered channels and watch the same events of the same descriptors.
\<close>

theorem pollers_agree:
  assumes "fresh_channels h" and "\<And>c ch. h c = Some ch \<Longrightarrow> 0 \<le> ch_fd ch"
    and "legal_ops (fd_of h) (Map.empty, Map.empty) ps"
  shows "\<exists>p1 h1 p2 h2. foldRes (poll_exec ep_set_update ep_remove_destroy) ps (newEPollPoller, h) = Inr (p1, h1) \<and>
     foldRes (poll_exec pp_set_update pp_remove_destroy) ps (newPollPoller, h) = Inr (p2, h2) \<and>
     ep_channels p1 = pp_channels p2 \<and> ep_interest (p1, h1) = pp_interest (p2, h2)"
proof -
  from ep.run_law [of "(newEPollPoller, h)" ps] ep_inv_fresh [OF assms(1)] assms(3) obtain p1 h1 where
    "foldRes (poll_exec ep_set_update ep_remove_destroy) ps (newEPollPoller, h) = Inr (p1, h1)"
    "(ep_channels p1, ep_interest (p1, h1)) = spec_run (fd_of h) ps (Map.empty, Map.empty)"
    by (auto simp: ep_fresh_abs)
  moreover from pp.run_law [of "(newPollPoller, h)" ps] pp_inv_fresh [OF assms(1,2)] assms(3) obtain p2 h2 where
    "foldRes (poll_exec pp_set_update pp_remove_destroy) ps (newPollPoller, h) = Inr (p2, h2)"
    "(pp_channels p2, pp_interest (p2, h2)) = spec_run (fd_of h) ps (Map.empty, Map.empty)"
    by (auto simp: pp_fresh_abs)
  ultimately show ?thesis by (metis prod.inject)
qed

theorem pollers_agree_witness:
  "\<exists>p1 h1 p2 h2.
     foldRes (poll_exec ep_set_update ep_remove_destroy) [PUpdate 1 3, PUpdate 2 7, PUpdate 1 0, PRemove 1]
       (newEPollPoller, [1 \<mapsto> newChannel 5 :: unit channel, 2 \<mapsto> newChannel 6]) = Inr (p1, h1) \<and>
     foldRes (poll_exec pp_set_update pp_remove_destroy) [PUpdate 1 3, PUpdate 2 7, PUpdate 1 0, PRemove 1]
       (newPollPoller, [1 \<mapsto> newChannel 5 :: unit channel, 2 \<mapsto> newChannel 6]) = Inr (p2, h2) \<and>
     ep_channels p1 = pp_channels p2 \<and> ep_interest (p1, h1) = pp_interest (p2, h2)"
  by (rule pollers_agree)
    (auto simp: fresh_channels_def newChannel_def fd_of_def api_events_def spec_update_def nonzero_def
      split: if_splits)

end
